(* ===== verification/Prelude.thy ===== *)
theory Prelude
  imports Main "HOL-Library.Word" "HOL-Library.List_Lexorder" "HOL-Library.AList"
begin

text \<open>
  Shared vocabulary of the development: the machine types of the Rust sources, the error
  monad in which fallible operations are written, fixed-width little- and big-endian integer
  encodings (Rust's \<open>to_le_bytes\<close>, \<open>from_le_bytes\<close>, \<open>to_be_bytes\<close>, \<open>from_be_bytes\<close>), and
  ordered maps (\<open>BTreeMap\<close>) as strictly sorted association lists.
\<close>

unbundle bit_operations_syntax

section \<open>Machine types\<close>

type_synonym u8 = "8 word"
type_synonym u16 = "16 word"
type_synonym u32 = "32 word"
type_synonym u64 = "64 word"
type_synonym bytes = "u8 list"

named_theorems codec_simps \<open>round-trip and length equations of the byte codecs\<close>
named_theorems inv_intros \<open>preservation of the state invariants by the operations\<close>

section \<open>Results\<close>

text \<open>
  \<open>Result<T, E>\<close> is the sum \<open>'e + 'a\<close> with \<open>Inl\<close> for \<open>Err\<close>. The question-mark operator is
  \<open>bindE\<close>; \<open>map_err\<close> converts the error.
\<close>

definition bindE :: "'e + 'a \<Rightarrow> ('a \<Rightarrow> 'e + 'b) \<Rightarrow> 'e + 'b" where
  "bindE m f = (case m of Inl e \<Rightarrow> Inl e | Inr x \<Rightarrow> f x)"

definition map_err :: "('e \<Rightarrow> 'f) \<Rightarrow> 'e + 'a \<Rightarrow> 'f + 'a" where
  "map_err g m = (case m of Inl e \<Rightarrow> Inl (g e) | Inr x \<Rightarrow> Inr x)"

lemma bindE_simps [simp]: "bindE (Inl e) f = Inl e" "bindE (Inr x) f = f x"
  by (simp_all add: bindE_def)

lemma map_err_simps [simp]: "map_err g (Inl e) = Inl (g e)" "map_err g (Inr x) = Inr x"
  by (simp_all add: map_err_def)

lemma bindE_eq_Inr: "bindE m f = Inr y \<longleftrightarrow> (\<exists>x. m = Inr x \<and> f x = Inr y)"
  by (cases m) simp_all

lemma bindE_eq_Inl: "bindE m f = Inl e \<longleftrightarrow> m = Inl e \<or> (\<exists>x. m = Inr x \<and> f x = Inl e)"
  by (cases m) simp_all

lemma map_err_eq_Inr [simp]: "map_err g m = Inr x \<longleftrightarrow> m = Inr x"
  by (cases m) simp_all

lemma bindE_cong [fundef_cong]:
  "\<lbrakk>m = m'; \<And>x. m' = Inr x \<Longrightarrow> f x = f' x\<rbrakk> \<Longrightarrow> bindE m f = bindE m' f'"
  by (cases m') simp_all

section \<open>Fixed-width integers as bytes\<close>

text \<open>The \<open>k\<close> least significant base-256 digits of a number, least significant first.\<close>

fun le_digits :: "nat \<Rightarrow> nat \<Rightarrow> bytes" where
  "le_digits 0 n = []"
| "le_digits (Suc k) n = word_of_nat (n mod 256) # le_digits k (n div 256)"

lemma le_digits_numeral [simp]:
  "le_digits (numeral k) n = word_of_nat (n mod 256) # le_digits (pred_numeral k) (n div 256)"
  unfolding numeral_eq_Suc [of k] by (rule le_digits.simps)

fun le_value :: "bytes \<Rightarrow> nat" where
  "le_value [] = 0"
| "le_value (b # bs) = unat b + 256 * le_value bs"

lemma length_le_digits [simp]: "length (le_digits k n) = k"
  by (induction k arbitrary: n) simp_all

lemma unat_lt_u8: "unat (b :: u8) < 256"
proof -
  have "unat b < 2 ^ LENGTH(8)" by (rule unsigned_less)
  then show ?thesis by simp
qed

lemma unat_lt_u32: "unat (w :: u32) < 2 ^ 32"
proof -
  have "unat w < 2 ^ LENGTH(32)" by (rule unsigned_less)
  then show ?thesis by simp
qed

lemma unat_lt_u64: "unat (w :: u64) < 2 ^ 64"
proof -
  have "unat w < 2 ^ LENGTH(64)" by (rule unsigned_less)
  then show ?thesis by simp
qed

lemma unat_of_nat_u64: "n < 2 ^ 64 \<Longrightarrow> unat (word_of_nat n :: u64) = n"
  by (simp add: unat_of_nat)

lemma ucast_u32_u64 [simp]:
  "unat (ucast (w :: u32) :: u64) = unat w" "ucast (ucast w :: u64) = (w :: u32)"
proof -
  show "unat (ucast w :: u64) = unat w"
    using unat_lt_u32 [of w] by (simp add: unsigned_ucast_eq take_bit_nat_eq_self)
  show "ucast (ucast w :: u64) = w"
    by (rule bit_word_eqI) (simp add: bit_simps)
qed

lemma le_value_less: "le_value bs < 256 ^ length bs"
proof (induction bs)
  case (Cons b bs)
  have "unat b < 256" using unat_lt_u8 [of b] by simp
  moreover have "256 * le_value bs + 256 \<le> 256 * 256 ^ length bs" using Cons.IH by simp
  ultimately show ?case by simp
qed simp

lemma unat_digit [simp]: "unat (word_of_nat (n mod 256) :: u8) = n mod 256"
  by (simp add: unat_of_nat)

lemma le_value_digits: "le_value (le_digits k n) = n mod 256 ^ k"
proof (induction k arbitrary: n)
  case (Suc k)
  show ?case by (simp add: Suc.IH mod_mult2_eq)
qed simp

lemma le_digits_value: "le_digits (length bs) (le_value bs) = bs"
proof (induction bs)
  case (Cons b bs)
  have "unat b < 256" using unat_lt_u8 [of b] by simp
  then show ?case using Cons.IH by simp
qed simp

definition le_bytes :: "'a::len word \<Rightarrow> bytes" where
  "le_bytes w = le_digits (LENGTH('a) div 8) (unat w)"

definition from_le_bytes :: "bytes \<Rightarrow> 'a::len word" where
  "from_le_bytes bs = word_of_nat (le_value bs)"

definition be_bytes :: "'a::len word \<Rightarrow> bytes" where
  "be_bytes w = rev (le_bytes w)"

definition from_be_bytes :: "bytes \<Rightarrow> 'a::len word" where
  "from_be_bytes bs = from_le_bytes (rev bs)"

lemma length_le_bytes [simp]:
  "length (le_bytes (w :: u16)) = 2" "length (le_bytes (x :: u32)) = 4" "length (le_bytes (y :: u64)) = 8"
  by (simp_all add: le_bytes_def)

lemma le_bytes_inverse:
  assumes "8 * (LENGTH('a) div 8) = LENGTH('a::len)"
  shows "from_le_bytes (le_bytes w) = (w :: 'a word)"
proof -
  have "(256::nat) ^ (LENGTH('a) div 8) = 2 ^ LENGTH('a)"
    using assms power_mult [of "2::nat" 8 "LENGTH('a) div 8"] by simp
  moreover have "unat w < 2 ^ LENGTH('a)" by (rule unsigned_less)
  ultimately show ?thesis
    by (simp add: le_bytes_def from_le_bytes_def le_value_digits)
qed

lemma from_le_bytes_le_bytes [simp]:
  "from_le_bytes (le_bytes (w :: u16)) = w" "from_le_bytes (le_bytes (x :: u32)) = x"
  "from_le_bytes (le_bytes (y :: u64)) = y"
  by (simp_all add: le_bytes_inverse)

lemma from_be_bytes_be_bytes [simp]: "from_be_bytes (be_bytes (x :: u64)) = x"
  by (simp add: from_be_bytes_def be_bytes_def)

lemma length_be_bytes [simp]: "length (be_bytes (x :: u64)) = 8"
  by (simp add: be_bytes_def)

lemma le_bytes_from_le_bytes:
  "length bs = 8 \<Longrightarrow> le_bytes (from_le_bytes bs :: u64) = bs"
  "length bs = 4 \<Longrightarrow> le_bytes (from_le_bytes bs :: u32) = bs"
  "length bs = 2 \<Longrightarrow> le_bytes (from_le_bytes bs :: u16) = bs"
  using le_value_less [of bs] le_digits_value [of bs]
  by (simp_all add: le_bytes_def from_le_bytes_def unat_of_nat)

lemma be_bytes_from_be_bytes: "length bs = 8 \<Longrightarrow> be_bytes (from_be_bytes bs :: u64) = bs"
  by (simp add: be_bytes_def from_be_bytes_def le_bytes_from_le_bytes)

text \<open>Big-endian encoding is monotone: byte order is numeric order.\<close>

lemma append_less_same_length:
  fixes xs ys :: "'a::linorder list"
  shows "length xs = length ys \<Longrightarrow> xs < ys \<Longrightarrow> xs @ us < ys @ vs"
  by (induction xs ys rule: list_induct2) auto

lemma append_less_same_prefix:
  fixes us vs :: "'a::linorder list"
  shows "us < vs \<Longrightarrow> xs @ us < xs @ vs"
  by (induction xs) simp_all

lemma rev_le_digits_mono:
  "m < n \<Longrightarrow> n < 256 ^ k \<Longrightarrow> rev (le_digits k m) < rev (le_digits k n)"
proof (induction k arbitrary: m n)
  case (Suc k)
  let ?d = "\<lambda>n. word_of_nat (n mod 256) :: u8"
  consider "m div 256 < n div 256" | "m div 256 = n div 256" "m mod 256 < n mod 256"
    using Suc.prems(1) by (metis div_le_mono div_mult_mod_eq le_neq_implies_less less_imp_le
        nat_add_left_cancel_less)
  then show ?case
  proof cases
    case 1
    have "n div 256 < 256 ^ k" using Suc.prems(2) by (simp add: div_less_iff_less_mult mult.commute)
    with 1 have "rev (le_digits k (m div 256)) < rev (le_digits k (n div 256))" by (rule Suc.IH)
    then show ?thesis by (simp add: append_less_same_length)
  next
    case 2
    then have "?d m < ?d n" by (simp add: word_less_nat_alt)
    with 2 show ?thesis by (simp add: append_less_same_prefix)
  qed
qed simp

lemma be_bytes_mono: "(x :: u64) < y \<Longrightarrow> be_bytes x < be_bytes y"
proof -
  assume "x < y"
  moreover have "unat y < 2 ^ LENGTH(64)" by (rule unsigned_less)
  ultimately show ?thesis
    unfolding be_bytes_def le_bytes_def
    by (intro rev_le_digits_mono) (simp_all add: word_less_nat_alt)
qed

section \<open>Ordered maps\<close>

text \<open>A \<open>BTreeMap\<close> is an association list with strictly increasing keys, in iteration order.\<close>

definition bt_ok :: "('k::linorder \<times> 'v) list \<Rightarrow> bool" where
  "bt_ok m \<longleftrightarrow> sorted_wrt (<) (map fst m)"

fun bt_insert :: "'k::linorder \<Rightarrow> 'v \<Rightarrow> ('k \<times> 'v) list \<Rightarrow> ('k \<times> 'v) list" where
  "bt_insert k v [] = [(k, v)]"
| "bt_insert k v ((k', v') # m) =
     (if k < k' then (k, v) # (k', v') # m
      else if k = k' then (k, v) # m
      else (k', v') # bt_insert k v m)"

definition bt_remove :: "'k \<Rightarrow> ('k \<times> 'v) list \<Rightarrow> ('k \<times> 'v) list" where
  "bt_remove k m = filter (\<lambda>(k', _). k' \<noteq> k) m"

lemma bt_ok_Nil [simp]: "bt_ok []"
  by (simp add: bt_ok_def)

lemma bt_ok_Cons: "bt_ok ((k, v) # m) \<longleftrightarrow> (\<forall>k' \<in> fst ` set m. k < k') \<and> bt_ok m"
  by (simp add: bt_ok_def)

lemma set_keys_bt_insert: "fst ` set (bt_insert k v m) = insert k (fst ` set m)"
  by (induction k v m rule: bt_insert.induct) (simp_all add: insert_commute)

lemma bt_ok_insert [simp]: "bt_ok m \<Longrightarrow> bt_ok (bt_insert k v m)"
  by (induction k v m rule: bt_insert.induct)
    (auto simp: bt_ok_Cons set_keys_bt_insert split: if_splits dest: less_trans)

lemma bt_ok_remove [simp]: "bt_ok m \<Longrightarrow> bt_ok (bt_remove k m)"
  by (induction m) (auto simp: bt_ok_Cons bt_remove_def)

lemma map_of_bt_insert [simp]: "map_of (bt_insert k v m) = (map_of m)(k \<mapsto> v)"
  by (induction m) auto

lemma map_of_bt_remove [simp]: "map_of (bt_remove k m) = (map_of m)(k := None)"
  by (induction m) (auto simp: bt_remove_def)

lemma bt_insert_not_Nil [simp]: "bt_insert k v m \<noteq> []"
  by (cases m) (auto split: if_splits)

lemma bt_ok_distinct: "bt_ok m \<Longrightarrow> distinct (map fst m)"
  by (simp add: bt_ok_def strict_sorted_iff)

lemma bt_ok_append:
  "bt_ok (m @ m') \<longleftrightarrow> bt_ok m \<and> bt_ok m' \<and> (\<forall>k \<in> fst ` set m. \<forall>k' \<in> fst ` set m'. k < k')"
  by (auto simp: bt_ok_def sorted_wrt_append)

end
