(* ===== verification/Core_Format.thy ===== *)
theory Core_Format
  imports Prelude
begin

text \<open>
  The shared on-disk encodings of \<open>crates/skeindb-core/src/lib.rs\<close>: unsigned LEB128 integers
  (VarU), the 64-byte file header, and CRC-protected record frames. The checksum (crate
  \<open>crc32c\<close>) and the hash (crate \<open>blake3\<close>) are parameters of the definitions that use them.
\<close>

section \<open>Variable-length integers\<close>

datatype core_error = CoreUnexpectedEof | CoreInvalidVarint

function encode_varu :: "u64 \<Rightarrow> bytes" where
  "encode_varu v =
     (let byte = (ucast (v AND 0x7F) :: u8); v' = drop_bit 7 v
      in if v' = 0 then [byte] else (byte OR 0x80) # encode_varu v')"
  by pat_completeness auto
termination
proof (relation "measure unat")
  fix v byte v' :: u64
  show "wf (measure (unat :: u64 \<Rightarrow> nat))" by simp
next
  fix v :: u64 and byte :: u8 and v' :: u64
  assume "v' = drop_bit 7 v" and "v' \<noteq> 0"
  then have "v \<noteq> 0" by auto
  then have "unat v > 0" by (simp add: unat_gt_0)
  then have "unat v div 128 < unat v" by simp
  with \<open>v' = drop_bit 7 v\<close> show "(v', v) \<in> measure unat"
    by (simp add: drop_bit_eq_div unat_div)
qed

declare encode_varu.simps [simp del]

text \<open>
  The loop \<open>for _ in 0..10\<close>: the first argument counts the iterations left. On success the
  rest of the input is returned with the result, as the cursor \<open>input: &mut &[u8]\<close> is advanced.
\<close>

fun decode_varu_loop :: "nat \<Rightarrow> u64 \<Rightarrow> nat \<Rightarrow> bytes \<Rightarrow> core_error + u64 \<times> bytes" where
  "decode_varu_loop 0 result shift input = Inl CoreInvalidVarint"
| "decode_varu_loop (Suc n) result shift input =
     (case input of
        [] \<Rightarrow> Inl CoreUnexpectedEof
      | b # rest \<Rightarrow>
          (let payload = (ucast (b AND 0x7F) :: u64);
               result' = result OR push_bit shift payload
           in if b AND 0x80 = 0 then Inr (result', rest)
              else decode_varu_loop n result' (shift + 7) rest))"

definition decode_varu :: "bytes \<Rightarrow> core_error + u64 \<times> bytes" where
  "decode_varu input = decode_varu_loop 10 0 0 input"

lemma and_7F: "(v :: 'a::len word) AND 0x7F = take_bit 7 v"
  by (simp add: take_bit_eq_mask mask_eq_exp_minus_1)

lemma byte_80: "(0x80 :: u8) = 2 ^ 7"
  by simp

lemma and_80: "(b :: u8) AND 0x80 = 0 \<longleftrightarrow> \<not> bit b 7"
  unfolding byte_80 by (simp only: and_exp_eq_0_iff_not_bit)

lemma varu_payload_low: "ucast ((ucast (v AND 0x7F) :: u8) AND 0x7F) = (take_bit 7 v :: u64)"
  by (rule bit_word_eqI) (auto simp: and_7F bit_simps)

lemma varu_payload_high: "ucast (((ucast (v AND 0x7F) :: u8) OR 0x80) AND 0x7F) = (take_bit 7 v :: u64)"
  unfolding byte_80 by (rule bit_word_eqI) (auto simp: and_7F bit_simps)

lemma varu_stop: "(ucast (v AND 0x7F) :: u8) AND 0x80 = 0" for v :: u64
  by (simp only: and_80 and_7F) (simp add: bit_simps)

lemma varu_go: "((ucast (v AND 0x7F) :: u8) OR 0x80) AND 0x80 \<noteq> 0" for v :: u64
  by (simp only: and_80 and_7F) (simp only: byte_80, simp add: bit_simps)

lemma varu_step: "take_bit s v OR push_bit s (take_bit 7 (drop_bit s v)) = take_bit (s + 7) (v :: u64)"
  by (rule bit_word_eqI) (auto simp: bit_simps)

lemma varu_done: "drop_bit s v = 0 \<Longrightarrow> take_bit s v = (v :: u64)"
  using bits_ident [of s v] by simp

lemma decode_varu_loop_stop:
  "b AND 0x80 = 0 \<Longrightarrow>
     decode_varu_loop (Suc n) r s (b # rest) = Inr (r OR push_bit s (ucast (b AND 0x7F)), rest)"
  by (simp add: Let_def)

lemma decode_varu_loop_go:
  "b AND 0x80 \<noteq> 0 \<Longrightarrow>
     decode_varu_loop (Suc n) r s (b # rest)
     = decode_varu_loop n (r OR push_bit s (ucast (b AND 0x7F))) (s + 7) rest"
  by (simp add: Let_def)

declare decode_varu_loop.simps [simp del]

lemma encode_varu_last: "drop_bit 7 v = 0 \<Longrightarrow> encode_varu v = [ucast (v AND 0x7F)]"
  by (subst encode_varu.simps) (simp add: Let_def)

lemma encode_varu_more:
  "drop_bit 7 v \<noteq> 0 \<Longrightarrow> encode_varu v = (ucast (v AND 0x7F) OR 0x80) # encode_varu (drop_bit 7 v)"
  by (subst encode_varu.simps) (simp add: Let_def)

lemma decode_varu_loop_encode:
  "\<lbrakk>n + k = 10; n > 0\<rbrakk> \<Longrightarrow>
     decode_varu_loop n (take_bit (7 * k) v) (7 * k) (encode_varu (drop_bit (7 * k) v) @ rest)
     = Inr (v, rest)"
proof (induction n arbitrary: k)
  case (Suc n)
  let ?w = "drop_bit (7 * k) v"
  have next_w: "drop_bit 7 ?w = drop_bit (7 * Suc k) v" by (simp add: add.commute)
  have acc: "take_bit (7 * k) v OR push_bit (7 * k) (take_bit 7 ?w) = take_bit (7 * Suc k) v"
    using varu_step [of "7 * k" v] by (simp add: add.commute)
  show ?case
  proof (cases "drop_bit 7 ?w = 0")
    case True
    then have "take_bit (7 * Suc k) v = v" by (simp only: next_w varu_done)
    then show ?thesis
      by (simp only: encode_varu_last [OF True] append.simps decode_varu_loop_stop [OF varu_stop]
          varu_payload_low acc)
  next
    case False
    have "n > 0"
    proof (rule ccontr)
      assume "\<not> n > 0"
      with Suc.prems have "k = 9" by simp
      then have "drop_bit 7 ?w = 0"
        by (intro bit_word_eqI) (auto simp: bit_simps dest: bit_imp_le_length)
      with False show False by simp
    qed
    moreover have "n + Suc k = 10" using Suc.prems by simp
    ultimately have "decode_varu_loop n (take_bit (7 * Suc k) v) (7 * Suc k)
        (encode_varu (drop_bit (7 * Suc k) v) @ rest) = Inr (v, rest)"
      by (intro Suc.IH)
    then show ?thesis
      by (simp only: encode_varu_more [OF False] append.simps decode_varu_loop_go [OF varu_go]
          varu_payload_high acc next_w) (simp add: add.commute)
  qed
qed simp

lemma decode_varu_encode [simp, codec_simps]: "decode_varu (encode_varu v @ rest) = Inr (v, rest)"
  using decode_varu_loop_encode [of 10 0 v rest] by (simp add: decode_varu_def)

lemma decode_varu_encode_all [simp]: "decode_varu (encode_varu v) = Inr (v, [])"
  using decode_varu_encode [of v "[]"] by simp

lemma encode_varu_nonempty [simp]: "encode_varu v \<noteq> []"
  by (cases "drop_bit 7 v = 0") (simp_all add: encode_varu_last encode_varu_more)

lemma decode_varu_loop_split:
  "decode_varu_loop n r s input = Inr (v, rest) \<Longrightarrow>
     \<exists>pre. input = pre @ rest \<and> 1 \<le> length pre \<and> length pre \<le> n"
proof (induction n arbitrary: r s input)
  case (Suc n)
  show ?case
  proof (cases input)
    case Nil
    with Suc.prems show ?thesis by (simp add: decode_varu_loop.simps)
  next
    case (Cons b bs)
    show ?thesis
    proof (cases "b AND 0x80 = 0")
      case True
      with Suc.prems Cons have "input = [b] @ rest" by (simp add: decode_varu_loop_stop)
      then show ?thesis by force
    next
      case False
      with Suc.prems Cons have "decode_varu_loop n (r OR push_bit s (ucast (b AND 0x7F))) (s + 7) bs = Inr (v, rest)"
        by (simp add: decode_varu_loop_go)
      then obtain pre where "bs = pre @ rest" "length pre \<le> n" using Suc.IH by blast
      with Cons have "input = (b # pre) @ rest \<and> 1 \<le> length (b # pre) \<and> length (b # pre) \<le> Suc n"
        by simp
      then show ?thesis by blast
    qed
  qed
qed (simp add: decode_varu_loop.simps)

lemma decode_varu_split:
  "decode_varu input = Inr (v, rest) \<Longrightarrow>
     \<exists>pre. input = pre @ rest \<and> 1 \<le> length pre \<and> length pre \<le> 10"
  unfolding decode_varu_def by (rule decode_varu_loop_split)

lemma decode_varu_length: "decode_varu input = Inr (v, rest) \<Longrightarrow> length rest < length input"
  using decode_varu_split by fastforce

lemma length_encode_varu: "1 \<le> length (encode_varu v) \<and> length (encode_varu v) \<le> 10"
  using decode_varu_split [OF decode_varu_encode_all [of v]] by simp

lemma length_encode_varu_le: "length (encode_varu v) \<le> 10"
  using length_encode_varu by blast

text \<open>A byte string with its length in front (\<open>Bytes\<close> in the format description).\<close>

lemma unat_of_length: "length (xs :: bytes) < 2 ^ 64 \<Longrightarrow> unat (word_of_nat (length xs) :: u64) = length xs"
  by (simp add: unat_of_nat)

section \<open>Identifiers and kinds\<close>

definition value_id :: "(bytes \<Rightarrow> bytes) \<Rightarrow> bytes \<Rightarrow> bytes" where
  "value_id blake3 bs = take 16 (blake3 bs)"

definition audit_hash256 :: "(bytes \<Rightarrow> bytes) \<Rightarrow> bytes \<Rightarrow> bytes" where
  "audit_hash256 blake3 bs = blake3 bs"

datatype value_kind = Cell | Group | BlobChunk | BlobManifest | Delta | Embedding

fun value_kind_code :: "value_kind \<Rightarrow> u8" where
  "value_kind_code Cell = 1"
| "value_kind_code Group = 2"
| "value_kind_code BlobChunk = 3"
| "value_kind_code BlobManifest = 4"
| "value_kind_code Delta = 5"
| "value_kind_code Embedding = 6"

datatype wal_header_version = WhV1 | WhV2

fun wal_header_version_code :: "wal_header_version \<Rightarrow> u8" where
  "wal_header_version_code WhV1 = 1"
| "wal_header_version_code WhV2 = 2"

record wal_header_v1 =
  wh_rec_type :: u8
  wh_rec_ver :: wal_header_version
  wh_flags :: u16
  wh_lsn :: u64
  wh_txn_id :: u64

record wal_header_v2 =
  wh_v1 :: wal_header_v1
  wh_prev_hash :: bytes
  wh_rec_hash :: bytes

section \<open>File headers\<close>

datatype file_kind = WalFile | RowSegFile | ValSegFile | RunFile | ManifestFile

fun file_kind_code :: "file_kind \<Rightarrow> u8" where
  "file_kind_code WalFile = 1"
| "file_kind_code RowSegFile = 2"
| "file_kind_code ValSegFile = 3"
| "file_kind_code RunFile = 4"
| "file_kind_code ManifestFile = 5"

datatype format_error =
    UnexpectedEof
  | InvalidFileHeaderMagic
  | InvalidFileHeaderLength u16
  | UnsupportedFileFormatVersion u32
  | UnsupportedEndian u8
  | UnknownFileKind u8
  | FileHeaderCrcMismatch u32 u32
  | RecordFrameTooLarge nat
  | RecordFrameCrcMismatch u32 u32

definition file_kind_try_from :: "u8 \<Rightarrow> format_error + file_kind" where
  "file_kind_try_from v =
     (if v = 1 then Inr WalFile
      else if v = 2 then Inr RowSegFile
      else if v = 3 then Inr ValSegFile
      else if v = 4 then Inr RunFile
      else if v = 5 then Inr ManifestFile
      else Inl (UnknownFileKind v))"

record file_header =
  fh_file_kind :: file_kind
  fh_format_ver :: u32
  fh_file_id :: u32
  fh_created_unix_s :: u64
  fh_reserved :: bytes

definition FILE_HEADER_LEN :: nat where "FILE_HEADER_LEN = 64"
definition FILE_HEADER_MAGIC :: bytes where "FILE_HEADER_MAGIC = [0x53, 0x4B, 0x4E, 0x44, 0x42, 0, 1, 0]"
definition FILE_HEADER_ENDIAN_LE :: u8 where "FILE_HEADER_ENDIAN_LE = 1"
definition FILE_HEADER_FORMAT_VERSION :: u32 where "FILE_HEADER_FORMAT_VERSION = 1"
definition RECORD_FRAME_HEADER_LEN :: nat where "RECORD_FRAME_HEADER_LEN = 8"

lemmas header_consts = FILE_HEADER_LEN_def FILE_HEADER_MAGIC_def FILE_HEADER_ENDIAN_LE_def
  FILE_HEADER_FORMAT_VERSION_def RECORD_FRAME_HEADER_LEN_def

definition file_header_new :: "file_kind \<Rightarrow> u32 \<Rightarrow> u64 \<Rightarrow> file_header" where
  "file_header_new kind file_id created_unix_s =
     \<lparr>fh_file_kind = kind, fh_format_ver = FILE_HEADER_FORMAT_VERSION, fh_file_id = file_id,
      fh_created_unix_s = created_unix_s, fh_reserved = replicate 32 0\<rparr>"

text \<open>The first 60 bytes, which the checksum covers, and the whole 64-byte header.\<close>

definition file_header_body :: "file_header \<Rightarrow> bytes" where
  "file_header_body h =
     FILE_HEADER_MAGIC @ [file_kind_code (fh_file_kind h), FILE_HEADER_ENDIAN_LE]
     @ le_bytes (word_of_nat FILE_HEADER_LEN :: u16) @ le_bytes (fh_format_ver h)
     @ le_bytes (fh_file_id h) @ le_bytes (fh_created_unix_s h) @ fh_reserved h"

definition file_header_encode :: "(bytes \<Rightarrow> u32) \<Rightarrow> file_header \<Rightarrow> bytes" where
  "file_header_encode crc h = file_header_body h @ le_bytes (crc (file_header_body h))"

text \<open>Reads at an offset, with the bounds check of the source.\<close>

definition u16_le :: "bytes \<Rightarrow> nat \<Rightarrow> format_error + u16" where
  "u16_le bs off = (if length bs - off < 2 then Inl UnexpectedEof
                    else Inr (from_le_bytes (take 2 (drop off bs))))"

definition u32_le :: "bytes \<Rightarrow> nat \<Rightarrow> format_error + u32" where
  "u32_le bs off = (if length bs - off < 4 then Inl UnexpectedEof
                    else Inr (from_le_bytes (take 4 (drop off bs))))"

definition u64_le :: "bytes \<Rightarrow> nat \<Rightarrow> format_error + u64" where
  "u64_le bs off = (if length bs - off < 8 then Inl UnexpectedEof
                    else Inr (from_le_bytes (take 8 (drop off bs))))"

definition file_header_decode :: "(bytes \<Rightarrow> u32) \<Rightarrow> bytes \<Rightarrow> format_error + file_header" where
  "file_header_decode crc bs =
     (if length bs < FILE_HEADER_LEN then Inl UnexpectedEof
      else let header = take FILE_HEADER_LEN bs in
      if take 8 header \<noteq> FILE_HEADER_MAGIC then Inl InvalidFileHeaderMagic
      else bindE (file_kind_try_from (header ! 8)) (\<lambda>kind.
      let endian = header ! 9 in
      if endian \<noteq> FILE_HEADER_ENDIAN_LE then Inl (UnsupportedEndian endian)
      else bindE (u16_le header 10) (\<lambda>header_len.
      if unat header_len \<noteq> FILE_HEADER_LEN then Inl (InvalidFileHeaderLength header_len)
      else bindE (u32_le header 12) (\<lambda>format_ver.
      if format_ver \<noteq> FILE_HEADER_FORMAT_VERSION then Inl (UnsupportedFileFormatVersion format_ver)
      else bindE (u32_le header 60) (\<lambda>expected_crc.
      let actual_crc = crc (take 60 header) in
      if expected_crc \<noteq> actual_crc then Inl (FileHeaderCrcMismatch expected_crc actual_crc)
      else bindE (u32_le header 16) (\<lambda>file_id.
      bindE (u64_le header 20) (\<lambda>created.
      Inr \<lparr>fh_file_kind = kind, fh_format_ver = format_ver, fh_file_id = file_id,
           fh_created_unix_s = created, fh_reserved = take 32 (drop 28 header)\<rparr>)))))))"

section \<open>Record frames\<close>

definition append_record_frame ::
    "(bytes \<Rightarrow> u32) \<Rightarrow> bytes \<Rightarrow> bytes \<Rightarrow> format_error + bytes" where
  "append_record_frame crc buf payload =
     (if length payload \<ge> 2 ^ 32 then Inl (RecordFrameTooLarge (length payload))
      else Inr (buf @ le_bytes (word_of_nat (length payload) :: u32)
                @ le_bytes (crc payload) @ payload))"

definition decode_record_frame ::
    "(bytes \<Rightarrow> u32) \<Rightarrow> bytes \<Rightarrow> format_error + bytes \<times> bytes" where
  "decode_record_frame crc input =
     (if length input < RECORD_FRAME_HEADER_LEN then Inl UnexpectedEof
      else bindE (u32_le input 0) (\<lambda>len32.
      let len = unat len32 in
      bindE (u32_le input 4) (\<lambda>expected_crc.
      if length input < RECORD_FRAME_HEADER_LEN + len then Inl UnexpectedEof
      else let payload = take len (drop RECORD_FRAME_HEADER_LEN input);
               actual_crc = crc payload
      in if expected_crc \<noteq> actual_crc then Inl (RecordFrameCrcMismatch expected_crc actual_crc)
         else Inr (payload, drop (RECORD_FRAME_HEADER_LEN + len) input))))"

record record_frame_iter =
  rfi_rest :: bytes
  rfi_done :: bool

definition record_frame_next ::
    "(bytes \<Rightarrow> u32) \<Rightarrow> record_frame_iter \<Rightarrow>
     ((format_error + bytes) option) \<times> record_frame_iter" where
  "record_frame_next crc it =
     (if rfi_done it \<or> rfi_rest it = [] then (None, it)
      else case decode_record_frame crc (rfi_rest it) of
             Inr (payload, sl) \<Rightarrow> (Some (Inr payload), it\<lparr>rfi_rest := sl\<rparr>)
           | Inl err \<Rightarrow> (Some (Inl err), it\<lparr>rfi_done := True\<rparr>))"

definition iter_record_frames :: "bytes \<Rightarrow> record_frame_iter" where
  "iter_record_frames bs = \<lparr>rfi_rest = bs, rfi_done = False\<rparr>"

section \<open>Headers read back what was written\<close>

definition file_header_ok :: "file_header \<Rightarrow> bool" where
  "file_header_ok h \<longleftrightarrow> fh_format_ver h = FILE_HEADER_FORMAT_VERSION \<and> length (fh_reserved h) = 32"

lemma file_header_new_ok [simp]: "file_header_ok (file_header_new k i t)"
  by (simp add: file_header_ok_def file_header_new_def)

lemma fh_new_simps [simp]: "fh_file_kind (file_header_new k i t) = k" "fh_file_id (file_header_new k i t) = i"
  by (simp_all add: file_header_new_def)

lemma length_file_header_body: "length (fh_reserved h) = 32 \<Longrightarrow> length (file_header_body h) = 60"
  by (simp add: file_header_body_def header_consts)

lemma length_file_header_encode [simp]: "file_header_ok h \<Longrightarrow> length (file_header_encode crc h) = 64"
  by (simp add: file_header_encode_def length_file_header_body file_header_ok_def)

lemma file_kind_roundtrip [simp]: "file_kind_try_from (file_kind_code k) = Inr k"
  by (cases k) (simp_all add: file_kind_try_from_def)

lemma file_kind_try_from_Inr: "file_kind_try_from v = Inr k \<longleftrightarrow> v = file_kind_code k"
  by (cases k) (auto simp: file_kind_try_from_def split: if_splits)

lemma file_header_roundtrip:
  assumes "file_header_ok h"
  shows "file_header_decode crc (file_header_encode crc h @ rest) = Inr h"
proof -
  let ?e = "file_header_encode crc h"
  have len: "length ?e = 64" using assms by simp
  have body: "take 60 ?e = file_header_body h"
    using assms by (simp add: file_header_encode_def length_file_header_body file_header_ok_def)
  have crc: "u32_le ?e 60 = Inr (crc (file_header_body h))"
    using assms by (simp add: file_header_encode_def length_file_header_body file_header_ok_def u32_le_def)
  have fields: "take 8 ?e = FILE_HEADER_MAGIC" "?e ! 8 = file_kind_code (fh_file_kind h)"
    "?e ! 9 = FILE_HEADER_ENDIAN_LE" "u16_le ?e 10 = Inr (word_of_nat FILE_HEADER_LEN)"
    "u32_le ?e 12 = Inr (fh_format_ver h)" "u32_le ?e 16 = Inr (fh_file_id h)"
    "u64_le ?e 20 = Inr (fh_created_unix_s h)" "take 32 (drop 28 ?e) = fh_reserved h"
    using assms
    by (simp_all add: file_header_encode_def file_header_body_def file_header_ok_def header_consts
        u16_le_def u32_le_def u64_le_def)
  have "unat (word_of_nat FILE_HEADER_LEN :: u16) = FILE_HEADER_LEN" by (simp add: header_consts)
  with assms show ?thesis
    using len by (simp add: file_header_decode_def file_header_ok_def body crc fields Let_def header_consts)
qed

lemma take_drop_append: "take n (drop k xs) @ drop (k + n) xs = drop k xs"
  by (metis add.commute append_take_drop_id drop_drop)

lemma le_bytes_at:
  "length bs = k + 4 \<Longrightarrow> le_bytes (from_le_bytes (drop k bs) :: u32) = drop k bs"
  by (rule le_bytes_from_le_bytes) simp

lemma unat_header_len: "unat (x :: u16) = 64 \<longleftrightarrow> x = 64"
  by (simp add: word_unat_eq_iff)

text \<open>Only canonical headers are accepted: a decoded header re-encodes to the bytes read.\<close>

lemma file_header_decode_canonical:
  assumes "file_header_decode crc bs = Inr h"
  shows "file_header_ok h" and "take 64 bs = file_header_encode crc h"
proof -
  let ?h = "take 64 bs"
  from assms have len: "length ?h = 64"
    by (simp add: file_header_decode_def header_consts split: if_splits)
  obtain kind where f: "take 8 ?h = FILE_HEADER_MAGIC" "?h ! 8 = file_kind_code kind"
    "?h ! 9 = FILE_HEADER_ENDIAN_LE"
    "from_le_bytes (take 2 (drop 10 ?h)) = (word_of_nat FILE_HEADER_LEN :: u16)"
    "from_le_bytes (take 4 (drop 12 ?h)) = FILE_HEADER_FORMAT_VERSION"
    "from_le_bytes (take 4 (drop 60 ?h)) = crc (take 60 ?h)"
    and h: "h = \<lparr>fh_file_kind = kind, fh_format_ver = FILE_HEADER_FORMAT_VERSION,
      fh_file_id = from_le_bytes (take 4 (drop 16 ?h)),
      fh_created_unix_s = from_le_bytes (take 8 (drop 20 ?h)), fh_reserved = take 32 (drop 28 ?h)\<rparr>"
    using assms len
    by (auto simp: unat_header_len file_header_decode_def header_consts Let_def bindE_eq_Inr u16_le_def u32_le_def
        u64_le_def file_kind_try_from_Inr split: if_splits)
  show "file_header_ok h" using len by (simp add: h file_header_ok_def)
  have "drop 8 ?h = ?h ! 8 # ?h ! 9 # drop 10 ?h"
    using len Cons_nth_drop_Suc [of 8 ?h] Cons_nth_drop_Suc [of 9 ?h] by simp
  then have split: "take 60 ?h = take 8 ?h @ [?h ! 8, ?h ! 9] @ take 2 (drop 10 ?h) @ take 4 (drop 12 ?h)
     @ take 4 (drop 16 ?h) @ take 8 (drop 20 ?h) @ take 32 (drop 28 ?h)"
  proof -
    have "take 60 ?h = take 8 ?h @ take 52 (drop 8 ?h)"
      "take 52 (drop 8 ?h) = [?h ! 8, ?h ! 9] @ take 50 (drop 10 ?h)"
      "take 50 (drop 10 ?h) = take 2 (drop 10 ?h) @ take 48 (drop 12 ?h)"
      "take 48 (drop 12 ?h) = take 4 (drop 12 ?h) @ take 44 (drop 16 ?h)"
      "take 44 (drop 16 ?h) = take 4 (drop 16 ?h) @ take 40 (drop 20 ?h)"
      "take 40 (drop 20 ?h) = take 8 (drop 20 ?h) @ take 32 (drop 28 ?h)"
      using take_add [of 8 52 ?h] take_add [of 2 48 "drop 10 ?h"] take_add [of 4 44 "drop 12 ?h"]
        take_add [of 4 40 "drop 16 ?h"] take_add [of 8 32 "drop 20 ?h"] \<open>drop 8 ?h = _\<close>
      by (simp_all add: take_Cons')
    then show ?thesis by simp
  qed
  show "take 64 bs = file_header_encode crc h"
  proof -
    have "le_bytes (word_of_nat FILE_HEADER_LEN :: u16) = take 2 (drop 10 ?h)"
      "le_bytes FILE_HEADER_FORMAT_VERSION = take 4 (drop 12 ?h)"
      "le_bytes (crc (take 60 ?h)) = drop 60 ?h"
      unfolding f(4-6) [symmetric] using len by (subst le_bytes_from_le_bytes; simp)+
    moreover from this(1,2) have "take 60 ?h = file_header_body h"
      using len f(1-3) by (simp add: split file_header_body_def h le_bytes_from_le_bytes del: take_take)
    ultimately show ?thesis
      by (metis append_take_drop_id file_header_encode_def)
  qed
qed

definition fits_frame :: "bytes \<Rightarrow> bool" where
  "fits_frame p \<longleftrightarrow> length p < 2 ^ 32"

definition frame :: "(bytes \<Rightarrow> u32) \<Rightarrow> bytes \<Rightarrow> bytes" where
  "frame crc payload = le_bytes (word_of_nat (length payload) :: u32) @ le_bytes (crc payload) @ payload"

lemma length_frame [simp]: "length (frame crc p) = 8 + length p"
  by (simp add: frame_def)

lemma frame_not_Nil [simp]: "frame crc p \<noteq> []"
  using length_frame [of crc p] by (metis add_is_0 list.size(3) zero_neq_numeral)

lemma append_record_frame_frame:
  "fits_frame p \<Longrightarrow> append_record_frame crc buf p = Inr (buf @ frame crc p)"
  by (simp add: append_record_frame_def frame_def fits_frame_def)

lemma decode_frame:
  assumes "fits_frame p"
  shows "decode_record_frame crc (frame crc p @ rest) = Inr (p, rest)"
  using assms
  by (simp add: decode_record_frame_def frame_def u32_le_def header_consts unat_of_nat Let_def fits_frame_def)

lemma decode_frame_torn:
  assumes "fits_frame p" "n < length (frame crc p)"
  shows "decode_record_frame crc (take n (frame crc p)) = Inl UnexpectedEof"
proof (cases "n < 8")
  case True
  then show ?thesis using assms by (simp add: decode_record_frame_def header_consts)
next
  case False
  then have "u32_le (take n (frame crc p)) 0 = Inr (word_of_nat (length p))"
    using assms by (simp add: u32_le_def frame_def min_def take_Cons')
  moreover have "u32_le (take n (frame crc p)) 4 = Inr (crc p)"
    using False assms by (simp add: u32_le_def frame_def min_def)
  ultimately show ?thesis using assms
    by (simp add: decode_record_frame_def header_consts unat_of_nat Let_def fits_frame_def)
qed

lemma decode_record_frame_canonical:
  assumes "decode_record_frame crc input = Inr (p, rest)"
  shows "fits_frame p" and "input = frame crc p @ rest"
proof -
  from assms obtain len where len: "len = (from_le_bytes (take 4 input) :: u32)"
    and crc: "from_le_bytes (take 4 (drop 4 input)) = crc p"
    and p: "p = take (unat len) (drop 8 input)" and rest: "rest = drop (8 + unat len) input"
    and long: "8 + unat len \<le> length input"
    by (auto simp: decode_record_frame_def header_consts Let_def bindE_eq_Inr u32_le_def split: if_splits)
  have lp: "length p = unat len" using long by (simp add: p)
  have "unat len < 2 ^ LENGTH(32)" by (rule unsigned_less)
  then show "fits_frame p" by (simp add: lp fits_frame_def)
  have "le_bytes len = take 4 input" "le_bytes (crc p) = take 4 (drop 4 input)"
    unfolding len crc [symmetric] using long by (simp_all add: le_bytes_from_le_bytes)
  moreover have "input = take 4 input @ take 4 (drop 4 input) @ p @ rest"
    using take_add [of 4 4 input] append_take_drop_id [of 8 input]
      append_take_drop_id [of "unat len" "drop 8 input"]
    by (simp add: p rest add.commute)
  ultimately show "input = frame crc p @ rest" by (simp add: frame_def lp)
qed

lemma decode_record_frame_length:
  "decode_record_frame crc input = Inr (p, rest) \<Longrightarrow> length rest < length input"
  using decode_record_frame_canonical [of crc input p rest] by simp

text \<open>All items an iterator yields: what a \<open>for\<close> loop over it sees.\<close>

function record_frame_items ::
    "(bytes \<Rightarrow> u32) \<Rightarrow> record_frame_iter \<Rightarrow> (format_error + bytes) list" where
  "record_frame_items crc it =
     (case record_frame_next crc it of
        (None, _) \<Rightarrow> []
      | (Some item, it') \<Rightarrow> item # record_frame_items crc it')"
  by pat_completeness auto
termination
  by (relation "measure (\<lambda>(crc, it). if rfi_done it then 0 else Suc (length (rfi_rest it)))")
    (auto simp: record_frame_next_def dest: decode_record_frame_length split: if_splits sum.splits)

declare record_frame_items.simps [simp del]

lemma items_frame:
  "fits_frame p \<Longrightarrow>
     record_frame_items crc (iter_record_frames (frame crc p @ rest))
     = Inr p # record_frame_items crc (iter_record_frames rest)"
  using length_frame [of crc p]
  by (subst record_frame_items.simps)
    (auto simp: record_frame_next_def iter_record_frames_def decode_frame simp del: length_frame)

lemma items_Nil [simp]: "record_frame_items crc (iter_record_frames []) = []"
  by (subst record_frame_items.simps) (simp add: record_frame_next_def iter_record_frames_def)

lemma items_done [simp]: "rfi_done it \<Longrightarrow> record_frame_items crc it = []"
  by (subst record_frame_items.simps) (simp add: record_frame_next_def)

lemma items_error:
  "bs \<noteq> [] \<Longrightarrow> decode_record_frame crc bs = Inl e \<Longrightarrow>
     record_frame_items crc (iter_record_frames bs) = [Inl e]"
  by (subst record_frame_items.simps) (simp add: record_frame_next_def iter_record_frames_def)

definition frames :: "(bytes \<Rightarrow> u32) \<Rightarrow> bytes list \<Rightarrow> bytes" where
  "frames crc ps = concat (map (frame crc) ps)"

lemma frames_simps [simp]: "frames crc [] = []" "frames crc (p # ps) = frame crc p @ frames crc ps"
  "frames crc (ps @ qs) = frames crc ps @ frames crc qs"
  by (simp_all add: frames_def)

lemma items_frames_append:
  "\<forall>p \<in> set ps. fits_frame p \<Longrightarrow>
     record_frame_items crc (iter_record_frames (frames crc ps @ rest))
     = map Inr ps @ record_frame_items crc (iter_record_frames rest)"
  by (induction ps) (simp_all add: items_frame)

lemma items_frames:
  "\<forall>p \<in> set ps. fits_frame p \<Longrightarrow>
     record_frame_items crc (iter_record_frames (frames crc ps)) = map Inr ps"
  using items_frames_append [of ps crc "[]"] by simp

lemma items_all_ok:
  assumes "record_frame_items crc (iter_record_frames bs) = map Inr ps"
  shows "bs = frames crc ps \<and> (\<forall>p \<in> set ps. fits_frame p)"
  using assms
proof (induction ps arbitrary: bs)
  case Nil
  show ?case
  proof (cases "decode_record_frame crc bs")
    case (Inl e)
    with Nil show ?thesis using items_error [of bs crc e] by (cases "bs = []") auto
  next
    case (Inr r)
    then obtain p rest where r: "decode_record_frame crc bs = Inr (p, rest)" by (cases r) simp
    with Nil show ?thesis
      using decode_record_frame_canonical [OF r] items_frame [of p crc rest] by simp
  qed
next
  case (Cons p ps)
  then have "bs \<noteq> []" by auto
  show ?case
  proof (cases "decode_record_frame crc bs")
    case (Inl e)
    with Cons \<open>bs \<noteq> []\<close> show ?thesis using items_error [of bs crc e] by simp
  next
    case (Inr r)
    then obtain q rest where r: "decode_record_frame crc bs = Inr (q, rest)" by (cases r) simp
    with Cons.prems have "q = p" and rest: "record_frame_items crc (iter_record_frames rest) = map Inr ps"
      using decode_record_frame_canonical [OF r] items_frame [of q crc rest] by simp_all
    with Cons.IH [OF rest] show ?thesis using decode_record_frame_canonical [OF r] by simp
  qed
qed

text \<open>
  A prefix of a log is some of its frames followed by a proper prefix of the next one: the
  shape of the file after a crash in the middle of an append.
\<close>

lemma frames_prefix:
  assumes "n \<le> length (frames crc ps)"
  obtains k m where "k \<le> length ps" "take n (frames crc ps) = frames crc (take k ps) @ (if k < length ps then take m (frame crc (ps ! k)) else [])"
    "k < length ps \<Longrightarrow> m < length (frame crc (ps ! k))"
  using assms
proof (induction ps arbitrary: n thesis)
  case Nil
  then show ?case by (simp add: Nil.prems(1) [of 0])
next
  case (Cons p ps)
  show ?case
  proof (cases "n < length (frame crc p)")
    case True
    then show ?thesis by (intro Cons.prems(1) [of 0 n]) simp_all
  next
    case False
    then have "n - length (frame crc p) \<le> length (frames crc ps)" using Cons.prems(2) by simp
    then obtain k m where km: "k \<le> length ps"
      "take (n - length (frame crc p)) (frames crc ps) = frames crc (take k ps) @ (if k < length ps then take m (frame crc (ps ! k)) else [])"
      "k < length ps \<Longrightarrow> m < length (frame crc (ps ! k))"
      using Cons.IH by metis
    show ?thesis
      by (rule Cons.prems(1) [of "Suc k" m]) (use km False in \<open>simp_all split: if_splits\<close>)
  qed
qed

section \<open>Logs of records\<close>

text \<open>
  What a log relies on from the encoding of its records: a well-formed record that is encoded
  is decoded to itself. The manifest, the write-ahead log, row segments and value segments each
  provide such an encoding; the facts below are shared by all of them.
\<close>

locale record_codec =
  fixes encode :: "'r \<Rightarrow> bytes"
    and decode :: "bytes \<Rightarrow> 'e + 'r"
    and ok :: "'r \<Rightarrow> bool"
  assumes decode_encode: "ok r \<Longrightarrow> decode (encode r) = Inr r"
begin

lemma encode_inject: "ok r \<Longrightarrow> ok r' \<Longrightarrow> encode r = encode r' \<Longrightarrow> r = r'"
  by (metis decode_encode Inr_inject)

lemma first_record:
  "ok r \<Longrightarrow> fits_frame (encode r) \<Longrightarrow>
     bindE (map_err err (decode_record_frame crc (frame crc (encode r) @ rest)))
       (\<lambda>(p, rest'). bindE (decode p) (\<lambda>r'. Inr (r', rest'))) = Inr (r, rest)"
  by (simp add: decode_frame decode_encode)

lemma log_items:
  assumes "\<forall>r \<in> set rs. ok r \<and> fits_frame (encode r)"
  shows "map (\<lambda>item. bindE (map_err err item) decode)
       (record_frame_items crc (iter_record_frames (frames crc (map encode rs)))) = map Inr rs"
proof -
  have "record_frame_items crc (iter_record_frames (frames crc (map encode rs))) = map Inr (map encode rs)"
    using assms by (intro items_frames) simp
  moreover have "\<forall>r \<in> set rs. decode (encode r) = Inr r" using assms decode_encode by blast
  ultimately show ?thesis by simp
qed

lemma torn_log_items:
  assumes "\<forall>r \<in> set rs. ok r \<and> fits_frame (encode r)"
    and "n \<le> length (frames crc (map encode rs))"
  shows "\<exists>k \<le> length rs. \<exists>tail \<in> {[], [Inl UnexpectedEof]}.
     record_frame_items crc (iter_record_frames (take n (frames crc (map encode rs))))
     = map (Inr \<circ> encode) (take k rs) @ tail
     \<and> length (frames crc (map encode (take k rs))) \<le> n"
proof -
  let ?ps = "map encode rs"
  have small: "\<forall>p \<in> set ?ps. fits_frame p" using assms(1) by auto
  obtain k m where k: "k \<le> length ?ps"
    and n: "take n (frames crc ?ps)
      = frames crc (take k ?ps) @ (if k < length ?ps then take m (frame crc (?ps ! k)) else [])"
    and m: "k < length ?ps \<Longrightarrow> m < length (frame crc (?ps ! k))"
    using frames_prefix [OF assms(2)] by blast
  define t where "t = (if k < length ?ps then take m (frame crc (?ps ! k)) else [])"
  have "t = [] \<or> decode_record_frame crc t = Inl UnexpectedEof"
    unfolding t_def using small m by (auto intro!: decode_frame_torn)
  then have "record_frame_items crc (iter_record_frames t) \<in> {[], [Inl UnexpectedEof]}"
    using items_error [of t crc UnexpectedEof] by (cases "t = []") auto
  moreover have "\<forall>p \<in> set (take k ?ps). fits_frame p" using small by (meson in_set_takeD)
  then have "record_frame_items crc (iter_record_frames (take n (frames crc ?ps)))
      = map (Inr \<circ> encode) (take k rs) @ record_frame_items crc (iter_record_frames t)"
    unfolding n t_def [symmetric] by (subst items_frames_append) (simp_all add: take_map)
  moreover have "length (frames crc (map encode (take k rs))) \<le> n"
    using arg_cong [OF n, of length] assms(2) by (simp add: take_map)
  ultimately show ?thesis using k by auto
qed

end

section \<open>Properties\<close>

text \<open>
  VarU round trip: whatever follows it, an encoded 64-bit number is decoded to itself and the
  cursor is left right behind it; the encoding takes at least one and at most ten bytes.
\<close>

theorem varu_roundtrip:
  "decode_varu (encode_varu v @ rest) = Inr (v, rest)
   \<and> 1 \<le> length (encode_varu v) \<and> length (encode_varu v) \<le> 10"
  using length_encode_varu [of v] by simp

text \<open>
  File headers: decoding accepts exactly the files whose first 64 bytes are the encoding of a
  well-formed header, and returns that header.
\<close>

theorem file_header_decode_exact:
  "file_header_decode crc bs = Inr h \<longleftrightarrow> file_header_ok h \<and> take FILE_HEADER_LEN bs = file_header_encode crc h"
proof
  assume "file_header_decode crc bs = Inr h"
  then show "file_header_ok h \<and> take FILE_HEADER_LEN bs = file_header_encode crc h"
    using file_header_decode_canonical by (simp add: FILE_HEADER_LEN_def)
next
  assume h: "file_header_ok h \<and> take FILE_HEADER_LEN bs = file_header_encode crc h"
  then have "bs = file_header_encode crc h @ drop 64 bs"
    by (metis FILE_HEADER_LEN_def append_take_drop_id)
  with h file_header_roundtrip [of h crc "drop 64 bs"] show "file_header_decode crc bs = Inr h" by simp
qed

text \<open>
  Record frames: a frame is decoded from the front of the input exactly when the input starts
  with what \<open>append_record_frame\<close> writes for that payload, and the cursor is left behind it.
\<close>

theorem record_frame_decode_exact:
  "decode_record_frame crc input = Inr (p, rest) \<longleftrightarrow>
     (\<exists>f. append_record_frame crc [] p = Inr f \<and> input = f @ rest)"
proof
  assume "decode_record_frame crc input = Inr (p, rest)"
  from decode_record_frame_canonical [OF this]
  show "\<exists>f. append_record_frame crc [] p = Inr f \<and> input = f @ rest"
    by (simp add: append_record_frame_frame)
next
  assume "\<exists>f. append_record_frame crc [] p = Inr f \<and> input = f @ rest"
  then show "decode_record_frame crc input = Inr (p, rest)"
    by (auto simp: append_record_frame_def frame_def [symmetric] decode_frame fits_frame_def split: if_splits)
qed

text \<open>
  A torn frame is never taken for a record: every proper prefix of a written frame is
  rejected with an end-of-file error, whatever the checksum function.
\<close>

theorem record_frame_torn:
  assumes "append_record_frame crc [] p = Inr f" and "n < length f"
  shows "decode_record_frame crc (take n f) = Inl UnexpectedEof"
proof -
  from assms(1) have "fits_frame p" "f = frame crc p"
    by (auto simp: append_record_frame_def frame_def fits_frame_def split: if_splits)
  with assms(2) show ?thesis by (simp add: decode_frame_torn)
qed

theorem record_frame_torn_witness:
  "decode_record_frame (\<lambda>_. 7) (take 9 [2, 0, 0, 0, 7, 0, 0, 0, 1, 2]) = Inl UnexpectedEof"
proof -
  have "append_record_frame (\<lambda>_. 7) [] [1, 2] = Inr [2, 0, 0, 0, 7, 0, 0, 0, 1, 2]"
    by (simp add: append_record_frame_def le_bytes_def)
  from record_frame_torn [OF this, of 9] show ?thesis by simp
qed

end
