(* ===== verification/Manifest.thy ===== *)
theory Manifest
  imports Core_Format
begin

text \<open>
  The manifest log of \<open>crates/skeindb-core/src/manifest.rs\<close>: file-level records, the state
  obtained by replaying them, and the writer and reader of the log file. A file is its byte
  content; \<open>None\<close> stands for a path that does not exist. The clock (\<open>now_unix_s\<close>) is an
  argument of the operation that reads it.
\<close>

section \<open>Records\<close>

datatype manifest_file_kind = MfWal | MfRowSeg | MfValSeg | MfRun

fun manifest_file_kind_code :: "manifest_file_kind \<Rightarrow> u8" where
  "manifest_file_kind_code MfWal = 1"
| "manifest_file_kind_code MfRowSeg = 2"
| "manifest_file_kind_code MfValSeg = 3"
| "manifest_file_kind_code MfRun = 4"

datatype manifest_record =
    AddFile manifest_file_kind u32 u32
  | RemoveFile manifest_file_kind u32
  | SetCurrentVersion u64
  | SetLastLsn u64
  | CleanShutdown u64

datatype manifest_error =
    ManifestBadHeader
  | ManifestUnknownRecordType u8
  | ManifestUnknownFileKind u8
  | ManifestFieldOutOfRange string
  | ManifestFormat format_error

fun manifest_error_core :: "core_error \<Rightarrow> manifest_error" where
  "manifest_error_core CoreUnexpectedEof = ManifestFormat UnexpectedEof"
| "manifest_error_core CoreInvalidVarint = ManifestFieldOutOfRange ''varu''"

definition manifest_file_kind_from_u8 :: "u8 \<Rightarrow> manifest_error + manifest_file_kind" where
  "manifest_file_kind_from_u8 v =
     (if v = 1 then Inr MfWal
      else if v = 2 then Inr MfRowSeg
      else if v = 3 then Inr MfValSeg
      else if v = 4 then Inr MfRun
      else Inl (ManifestUnknownFileKind v))"

fun manifest_record_encode :: "manifest_record \<Rightarrow> bytes" where
  "manifest_record_encode (AddFile kind file_id level) =
     [0x01, manifest_file_kind_code kind] @ encode_varu (ucast file_id) @ encode_varu (ucast level)"
| "manifest_record_encode (RemoveFile kind file_id) =
     [0x02, manifest_file_kind_code kind] @ encode_varu (ucast file_id)"
| "manifest_record_encode (SetCurrentVersion version) = 0x03 # encode_varu version"
| "manifest_record_encode (SetLastLsn lsn) = 0x04 # encode_varu lsn"
| "manifest_record_encode (CleanShutdown unix_s) = 0x05 # encode_varu unix_s"

definition manifest_varu :: "bytes \<Rightarrow> manifest_error + u64 \<times> bytes" where
  "manifest_varu bs = map_err manifest_error_core (decode_varu bs)"

definition u32_try_from :: "string \<Rightarrow> u64 \<Rightarrow> manifest_error + u32" where
  "u32_try_from field v =
     (if unat v < 2 ^ 32 then Inr (ucast v) else Inl (ManifestFieldOutOfRange field))"

definition manifest_record_decode :: "bytes \<Rightarrow> manifest_error + manifest_record" where
  "manifest_record_decode payload =
     (case payload of
        [] \<Rightarrow> Inl (ManifestFormat UnexpectedEof)
      | tag # rest \<Rightarrow>
          if tag = 0x01 then
            (case rest of
               [] \<Rightarrow> Inl (ManifestFormat UnexpectedEof)
             | k # rest \<Rightarrow>
                 bindE (manifest_file_kind_from_u8 k) (\<lambda>kind.
                 bindE (manifest_varu rest) (\<lambda>(file_id, rest).
                 bindE (manifest_varu rest) (\<lambda>(level, rest).
                 bindE (u32_try_from ''file_id'' file_id) (\<lambda>file_id.
                 bindE (u32_try_from ''level'' level) (\<lambda>level.
                 Inr (AddFile kind file_id level)))))))
          else if tag = 0x02 then
            (case rest of
               [] \<Rightarrow> Inl (ManifestFormat UnexpectedEof)
             | k # rest \<Rightarrow>
                 bindE (manifest_file_kind_from_u8 k) (\<lambda>kind.
                 bindE (manifest_varu rest) (\<lambda>(file_id, rest).
                 bindE (u32_try_from ''file_id'' file_id) (\<lambda>file_id.
                 Inr (RemoveFile kind file_id)))))
          else if tag = 0x03 then
            bindE (manifest_varu rest) (\<lambda>(version, rest). Inr (SetCurrentVersion version))
          else if tag = 0x04 then
            bindE (manifest_varu rest) (\<lambda>(lsn, rest). Inr (SetLastLsn lsn))
          else if tag = 0x05 then
            bindE (manifest_varu rest) (\<lambda>(unix_s, rest). Inr (CleanShutdown unix_s))
          else Inl (ManifestUnknownRecordType tag))"

lemma manifest_file_kind_roundtrip [simp]:
  "manifest_file_kind_from_u8 (manifest_file_kind_code k) = Inr k"
  by (cases k) (simp_all add: manifest_file_kind_from_u8_def)

lemma u32_try_from_ucast [simp]: "u32_try_from f (ucast (w :: u32)) = Inr w"
  using unat_lt_u32 [of w] by (simp add: u32_try_from_def)

lemma manifest_varu_encode [simp]:
  "manifest_varu (encode_varu v @ rest) = Inr (v, rest)" "manifest_varu (encode_varu v) = Inr (v, [])"
  by (simp_all add: manifest_varu_def)

interpretation manifest_codec: record_codec manifest_record_encode manifest_record_decode "\<lambda>_. True"
proof unfold_locales
  fix r
  show "manifest_record_decode (manifest_record_encode r) = Inr r"
    by (cases r) (simp_all add: manifest_record_decode_def)
qed

lemma length_manifest_record_encode_le: "length (manifest_record_encode r) \<le> 22"
  by (cases r)
    (auto intro!: le_trans [OF add_mono [OF length_encode_varu_le length_encode_varu_le]]
      le_trans [OF length_encode_varu_le])

lemma manifest_record_fits [simp]: "fits_frame (manifest_record_encode r)"
  using length_manifest_record_encode_le [of r] by (simp add: fits_frame_def)

section \<open>Replayed state\<close>

record manifest_file_entry =
  mfe_kind :: manifest_file_kind
  mfe_file_id :: u32
  mfe_level :: u32

record manifest_state =
  ms_files :: "manifest_file_entry list"
  ms_current_version :: u64
  ms_last_lsn :: u64
  ms_last_clean_shutdown_unix_s :: u64

definition manifest_state_default :: manifest_state where
  "manifest_state_default = \<lparr>ms_files = [], ms_current_version = 0, ms_last_lsn = 0,
     ms_last_clean_shutdown_unix_s = 0\<rparr>"

text \<open>\<open>iter_mut().find(..)\<close> changes the first matching entry in place.\<close>

fun set_level_first :: "manifest_file_kind \<Rightarrow> u32 \<Rightarrow> u32 \<Rightarrow> manifest_file_entry list \<Rightarrow> manifest_file_entry list" where
  "set_level_first kind file_id level [] = []"
| "set_level_first kind file_id level (e # es) =
     (if mfe_kind e = kind \<and> mfe_file_id e = file_id then e\<lparr>mfe_level := level\<rparr> # es
      else e # set_level_first kind file_id level es)"

fun manifest_apply :: "manifest_state \<Rightarrow> manifest_record \<Rightarrow> manifest_state" where
  "manifest_apply st (AddFile kind file_id level) =
     (if \<exists>e \<in> set (ms_files st). mfe_kind e = kind \<and> mfe_file_id e = file_id
      then st\<lparr>ms_files := set_level_first kind file_id level (ms_files st)\<rparr>
      else st\<lparr>ms_files := ms_files st @
                [\<lparr>mfe_kind = kind, mfe_file_id = file_id, mfe_level = level\<rparr>]\<rparr>)"
| "manifest_apply st (RemoveFile kind file_id) =
     st\<lparr>ms_files := filter (\<lambda>e. \<not> (mfe_kind e = kind \<and> mfe_file_id e = file_id)) (ms_files st)\<rparr>"
| "manifest_apply st (SetCurrentVersion version) = st\<lparr>ms_current_version := version\<rparr>"
| "manifest_apply st (SetLastLsn lsn) = st\<lparr>ms_last_lsn := lsn\<rparr>"
| "manifest_apply st (CleanShutdown unix_s) = st\<lparr>ms_last_clean_shutdown_unix_s := unix_s\<rparr>"

section \<open>Reader and writer\<close>

definition manifest_reader_open :: "(bytes \<Rightarrow> u32) \<Rightarrow> bytes \<Rightarrow> manifest_error + bytes" where
  "manifest_reader_open crc content =
     (if length content < FILE_HEADER_LEN then Inl ManifestBadHeader
      else bindE (map_err ManifestFormat (file_header_decode crc (take FILE_HEADER_LEN content))) (\<lambda>header.
      if fh_file_kind header \<noteq> ManifestFile then Inl ManifestBadHeader
      else Inr (drop FILE_HEADER_LEN content)))"

fun manifest_collect :: "(format_error + bytes) list \<Rightarrow> manifest_error + manifest_record list" where
  "manifest_collect [] = Inr []"
| "manifest_collect (item # items) =
     bindE (map_err ManifestFormat item) (\<lambda>payload.
     bindE (manifest_record_decode payload) (\<lambda>rec.
     bindE (manifest_collect items) (\<lambda>recs. Inr (rec # recs))))"

definition manifest_read_all :: "(bytes \<Rightarrow> u32) \<Rightarrow> bytes \<Rightarrow> manifest_error + manifest_record list" where
  "manifest_read_all crc tail = manifest_collect (record_frame_items crc (iter_record_frames tail))"

definition manifest_replay_state :: "(bytes \<Rightarrow> u32) \<Rightarrow> bytes \<Rightarrow> manifest_error + manifest_state" where
  "manifest_replay_state crc tail =
     bindE (manifest_read_all crc tail) (\<lambda>recs. Inr (foldl manifest_apply manifest_state_default recs))"

record manifest_writer =
  mw_file :: bytes
  mw_state :: manifest_state

definition manifest_writer_open ::
    "(bytes \<Rightarrow> u32) \<Rightarrow> u64 \<Rightarrow> bytes option \<Rightarrow> manifest_error + manifest_writer" where
  "manifest_writer_open crc now file =
     (let content = (case file of None \<Rightarrow> [] | Some c \<Rightarrow> c) in
      if file \<noteq> None \<and> length content \<ge> FILE_HEADER_LEN then
        bindE (manifest_reader_open crc content) (\<lambda>tail.
        bindE (manifest_replay_state crc tail) (\<lambda>st.
        Inr \<lparr>mw_file = content, mw_state = st\<rparr>))
      else
        Inr \<lparr>mw_file = content @ file_header_encode crc (file_header_new ManifestFile 0 now),
             mw_state = manifest_state_default\<rparr>)"

definition manifest_append ::
    "(bytes \<Rightarrow> u32) \<Rightarrow> manifest_writer \<Rightarrow> manifest_record \<Rightarrow> manifest_error + manifest_writer" where
  "manifest_append crc w rec =
     bindE (map_err ManifestFormat (append_record_frame crc [] (manifest_record_encode rec))) (\<lambda>fr.
     Inr \<lparr>mw_file = mw_file w @ fr, mw_state = manifest_apply (mw_state w) rec\<rparr>)"

section \<open>Appending and reopening\<close>

fun manifest_append_all ::
    "(bytes \<Rightarrow> u32) \<Rightarrow> manifest_writer \<Rightarrow> manifest_record list \<Rightarrow> manifest_error + manifest_writer" where
  "manifest_append_all crc w [] = Inr w"
| "manifest_append_all crc w (r # rs) =
     bindE (manifest_append crc w r) (\<lambda>w'. manifest_append_all crc w' rs)"

lemma manifest_append_Inr:
  "manifest_append crc w r =
     Inr \<lparr>mw_file = mw_file w @ frame crc (manifest_record_encode r),
          mw_state = manifest_apply (mw_state w) r\<rparr>"
  by (simp add: manifest_append_def append_record_frame_frame)

lemma manifest_collect_items:
  "manifest_collect items = Inr rs \<Longrightarrow> \<exists>ps. items = map Inr ps"
proof (induction items arbitrary: rs)
  case Nil
  show ?case by (rule exI [of _ "[]"]) simp
next
  case (Cons item items)
  then obtain p ps where "item = Inr p" "items = map Inr ps"
    by (auto simp: bindE_eq_Inr)
  then show ?case by (intro exI [of _ "p # ps"]) simp
qed

lemma manifest_collect_append:
  "manifest_collect items = Inr rs \<Longrightarrow> manifest_collect (items @ items') =
     bindE (manifest_collect items') (\<lambda>rs'. Inr (rs @ rs'))"
proof (induction items arbitrary: rs)
  case Nil
  then show ?case by (cases "manifest_collect items'") simp_all
next
  case (Cons item items)
  then show ?case by (cases "manifest_collect items'") (auto simp: bindE_eq_Inr)
qed

lemma manifest_read_all_append:
  assumes "manifest_read_all crc tail = Inr rs"
  shows "manifest_read_all crc (tail @ bs) =
    bindE (manifest_read_all crc bs) (\<lambda>rs'. Inr (rs @ rs'))"
proof -
  obtain ps where ps: "record_frame_items crc (iter_record_frames tail) = map Inr ps"
    using assms manifest_collect_items unfolding manifest_read_all_def by blast
  with items_all_ok [OF ps] items_frames_append [of ps crc bs] assms show ?thesis
    by (simp add: manifest_read_all_def manifest_collect_append)
qed

lemma manifest_read_all_frame:
  "manifest_read_all crc (frame crc (manifest_record_encode r)) = Inr [r]"
  using items_frame [of "manifest_record_encode r" crc "[]"]
  by (simp add: manifest_read_all_def manifest_codec.decode_encode)

text \<open>The writer's view agrees with the file: opening the file again gives the same writer.\<close>

definition manifest_writer_inv :: "(bytes \<Rightarrow> u32) \<Rightarrow> manifest_writer \<Rightarrow> bool" where
  "manifest_writer_inv crc w \<longleftrightarrow>
     FILE_HEADER_LEN \<le> length (mw_file w) \<and> manifest_writer_open crc 0 (Some (mw_file w)) = Inr w"

lemma manifest_writer_inv_iff:
  "manifest_writer_inv crc w \<longleftrightarrow>
     FILE_HEADER_LEN \<le> length (mw_file w) \<and>
     (\<exists>tail rs. manifest_reader_open crc (mw_file w) = Inr tail \<and> manifest_read_all crc tail = Inr rs
       \<and> mw_state w = foldl manifest_apply manifest_state_default rs)"
  by (cases w) (auto simp: manifest_writer_inv_def manifest_writer_open_def manifest_replay_state_def
      bindE_eq_Inr)

lemma manifest_reader_open_append:
  "manifest_reader_open crc content = Inr tail \<Longrightarrow>
     manifest_reader_open crc (content @ bs) = Inr (tail @ bs)"
  by (auto simp: manifest_reader_open_def bindE_eq_Inr split: if_splits)

lemma manifest_open_inv [inv_intros]:
  assumes "manifest_writer_open crc now file = Inr w"
    and "file = None \<or> file = Some [] \<or> (\<exists>c. file = Some c \<and> FILE_HEADER_LEN \<le> length c)"
  shows "manifest_writer_inv crc w"
proof (cases "\<exists>c. file = Some c \<and> FILE_HEADER_LEN \<le> length c")
  case True
  with assms(1) show ?thesis
    by (auto simp: manifest_writer_inv_def manifest_writer_open_def Let_def bindE_eq_Inr)
next
  case False
  let ?h = "file_header_new ManifestFile 0 now"
  from False assms have w: "w = \<lparr>mw_file = file_header_encode crc ?h, mw_state = manifest_state_default\<rparr>"
    by (auto simp: manifest_writer_open_def header_consts)
  have "file_header_decode crc (file_header_encode crc ?h) = Inr ?h"
    using file_header_roundtrip [of ?h crc "[]"] by simp
  then have "manifest_reader_open crc (file_header_encode crc ?h) = Inr []"
    by (simp add: manifest_reader_open_def header_consts)
  moreover have "manifest_read_all crc [] = Inr []" by (simp add: manifest_read_all_def)
  ultimately show ?thesis by (simp add: manifest_writer_inv_iff w header_consts)
qed

lemma manifest_append_inv [inv_intros]:
  assumes "manifest_writer_inv crc w" and "manifest_append crc w r = Inr w'"
  shows "manifest_writer_inv crc w'"
proof -
  from assms(1) obtain tail rs where "FILE_HEADER_LEN \<le> length (mw_file w)"
    and opened: "manifest_reader_open crc (mw_file w) = Inr tail" and "manifest_read_all crc tail = Inr rs"
    and "mw_state w = foldl manifest_apply manifest_state_default rs"
    by (auto simp: manifest_writer_inv_iff)
  moreover from this(3) have "manifest_read_all crc (tail @ frame crc (manifest_record_encode r)) = Inr (rs @ [r])"
    by (simp add: manifest_read_all_append manifest_read_all_frame)
  moreover from opened have "manifest_reader_open crc (mw_file w @ frame crc (manifest_record_encode r))
      = Inr (tail @ frame crc (manifest_record_encode r))" by (rule manifest_reader_open_append)
  ultimately show ?thesis using assms(2)
    by (auto simp: manifest_writer_inv_iff manifest_append_Inr intro!: exI [of _ "rs @ [r]"])
qed

lemma manifest_append_all_Inr:
  "manifest_writer_inv crc w \<Longrightarrow>
     \<exists>w'. manifest_append_all crc w rs = Inr w' \<and> manifest_writer_inv crc w'
        \<and> mw_state w' = foldl manifest_apply (mw_state w) rs"
proof (induction rs arbitrary: w)
  case (Cons r rs)
  let ?w' = "\<lparr>mw_file = mw_file w @ frame crc (manifest_record_encode r),
    mw_state = manifest_apply (mw_state w) r\<rparr>"
  have "manifest_writer_inv crc ?w'" by (rule manifest_append_inv [OF Cons.prems manifest_append_Inr])
  from Cons.IH [OF this] show ?case by (simp add: manifest_append_Inr)
qed simp

lemma manifest_writer_open_now:
  "manifest_writer_inv crc w \<Longrightarrow> manifest_writer_open crc now (Some (mw_file w)) = Inr w"
  by (auto simp: manifest_writer_inv_def manifest_writer_open_def Let_def split: if_splits)

text \<open>
  (C27) Durability of the manifest. Take any manifest file that is absent, empty, or at least as
  long as a file header, and that can be opened; append any records. All appends succeed, the
  writer's in-memory state is the replay of the records on top of the opened state, and opening
  the resulting file again (at any time) gives exactly that writer.
\<close>

theorem manifest_reopen:
  assumes "manifest_writer_open crc now file = Inr w0"
    and "file = None \<or> file = Some [] \<or> (\<exists>c. file = Some c \<and> FILE_HEADER_LEN \<le> length c)"
  shows "\<exists>w. manifest_append_all crc w0 rs = Inr w
     \<and> mw_state w = foldl manifest_apply (mw_state w0) rs
     \<and> (\<forall>now'. manifest_writer_open crc now' (Some (mw_file w)) = Inr w)"
  using manifest_append_all_Inr [OF manifest_open_inv [OF assms]] manifest_writer_open_now by blast

theorem manifest_reopen_witness:
  "\<exists>w. manifest_append_all (\<lambda>_. 7)
      \<lparr>mw_file = file_header_encode (\<lambda>_. 7) (file_header_new ManifestFile 0 3),
       mw_state = manifest_state_default\<rparr> [AddFile MfRun 1 0, SetLastLsn 9] = Inr w
     \<and> ms_last_lsn (mw_state w) = 9 \<and> manifest_writer_open (\<lambda>_. 7) 5 (Some (mw_file w)) = Inr w"
proof -
  have "manifest_writer_open (\<lambda>_. 7) 3 None = Inr \<lparr>mw_file = file_header_encode (\<lambda>_. 7) (file_header_new ManifestFile 0 3),
       mw_state = manifest_state_default\<rparr>" by (simp add: manifest_writer_open_def)
  from manifest_reopen [OF this, of "[AddFile MfRun 1 0, SetLastLsn 9]"] show ?thesis
    by auto
qed

section \<open>Torn writes\<close>

text \<open>
  A crash in the middle of an append. If the file of a consistent writer is cut inside the
  frame that an append added, opening the manifest fails with an end-of-file error; the records
  before the torn frame are not recovered.
\<close>

theorem manifest_torn_tail_fails:
  assumes "manifest_writer_inv crc w" and "manifest_append crc w r = Inr w'"
    and "length (mw_file w) < n" and "n < length (mw_file w')"
  shows "manifest_writer_open crc now (Some (take n (mw_file w'))) = Inl (ManifestFormat UnexpectedEof)"
proof -
  let ?f = "frame crc (manifest_record_encode r)" and ?m = "n - length (mw_file w)"
  from assms(1) obtain tail rs where len: "FILE_HEADER_LEN \<le> length (mw_file w)"
    and opened: "manifest_reader_open crc (mw_file w) = Inr tail" and rs: "manifest_read_all crc tail = Inr rs"
    by (auto simp: manifest_writer_inv_iff)
  have w': "mw_file w' = mw_file w @ ?f" using assms(2) by (auto simp: manifest_append_Inr)
  then have cut: "take n (mw_file w') = mw_file w @ take ?m ?f" using assms(3) by simp
  have "take ?m ?f \<noteq> []" "decode_record_frame crc (take ?m ?f) = Inl UnexpectedEof"
    using assms(3,4) w' by (auto intro!: decode_frame_torn)
  then have "manifest_read_all crc (take ?m ?f) = Inl (ManifestFormat UnexpectedEof)"
    by (simp add: manifest_read_all_def items_error)
  then have "manifest_replay_state crc (tail @ take ?m ?f) = Inl (ManifestFormat UnexpectedEof)"
    by (simp add: manifest_replay_state_def manifest_read_all_append [OF rs])
  with len manifest_reader_open_append [OF opened, of "take ?m ?f"] show ?thesis
    by (simp add: manifest_writer_open_def cut)
qed

theorem manifest_torn_tail_fails_witness:
  "manifest_writer_open (\<lambda>_. 7) 5
     (Some (take 70 (file_header_encode (\<lambda>_. 7) (file_header_new ManifestFile 0 3)
        @ frame (\<lambda>_. 7) (manifest_record_encode (SetLastLsn 9)))))
   = Inl (ManifestFormat UnexpectedEof)"
proof -
  let ?w = "\<lparr>mw_file = file_header_encode (\<lambda>_. 7) (file_header_new ManifestFile 0 3),
       mw_state = manifest_state_default\<rparr>"
  have "manifest_writer_inv (\<lambda>_. 7) ?w"
    by (rule manifest_open_inv [of _ 3 None]) (simp_all add: manifest_writer_open_def)
  from manifest_torn_tail_fails [OF this manifest_append_Inr, of 70 "SetLastLsn 9" 5] show ?thesis
    by simp
qed

definition manifest_header16 :: bytes where
  "manifest_header16 = [0x53, 0x4B, 0x4E, 0x44, 0x42, 0, 1, 0, 5, 1, 64, 0, 1, 0, 0, 0]"

lemma header_first16:
  assumes "file_header_ok h"
  shows "take 16 (file_header_encode crc h)
    = [0x53, 0x4B, 0x4E, 0x44, 0x42, 0, 1, 0, file_kind_code (fh_file_kind h), 1, 64, 0, 1, 0, 0, 0]"
proof -
  have "le_bytes (word_of_nat 64 :: u16) = [64, 0]" "le_bytes (1 :: u32) = [1, 0, 0, 0]"
    by (simp_all add: le_bytes_def)
  then show ?thesis
    using assms by (simp add: file_header_encode_def file_header_body_def file_header_ok_def header_consts)
qed

lemma header_after_fragment:
  assumes "0 < k" "k < 16"
  shows "\<exists>e. file_header_decode crc
      (take 64 (take k (file_header_encode crc (file_header_new ManifestFile 0 t))
        @ file_header_encode crc (file_header_new ManifestFile 0 now) @ bs)) = Inl e"
    (is "\<exists>e. file_header_decode crc (take 64 (take k ?h @ ?h' @ bs)) = Inl e")
proof (cases "file_header_decode crc (take 64 (take k ?h @ ?h' @ bs))")
  case (Inr h)
  have "take 16 ?h = manifest_header16" "take 16 ?h' = manifest_header16"
    by (simp_all add: header_first16 manifest_header16_def)
  moreover have "take k ?h = take k (take 16 ?h)" "take (16 - k) ?h' = take (16 - k) (take 16 ?h')"
    using assms by (simp_all add: min_def)
  ultimately have parts: "take k ?h = take k manifest_header16"
    "take (16 - k) ?h' = take (16 - k) manifest_header16" by simp_all
  have lengths: "length (take k ?h) = k" "length (take k manifest_header16) = k" "16 - k \<le> length ?h'"
    using assms by (simp_all add: manifest_header16_def)
  have "take 16 (take k ?h @ ?h' @ bs) = take k ?h @ take (16 - k) ?h'"
    using assms lengths by (subst take_append) (simp del: length_take)
  also have "\<dots> = take 16 (take k manifest_header16 @ manifest_header16)"
    using assms lengths(2) by (subst take_append) (simp add: parts del: length_take)
  finally have joined: "take 16 (take k ?h @ ?h' @ bs) = take 16 (take k manifest_header16 @ manifest_header16)" .
  have "take 16 (take k ?h @ ?h' @ bs) = take 16 (take 64 (take 64 (take k ?h @ ?h' @ bs)))"
    by (simp add: min_def del: take_append)
  also have "\<dots> = take 16 (file_header_encode crc h)"
    using file_header_decode_canonical(2) [OF Inr] by (rule arg_cong)
  finally have "take 16 (take k ?h @ ?h' @ bs) = take 16 (file_header_encode crc h)" .
  with joined
  have "take 16 (take k manifest_header16 @ manifest_header16)
      = [0x53, 0x4B, 0x4E, 0x44, 0x42, 0, 1, 0, file_kind_code (fh_file_kind h), 1, 64, 0, 1, 0, 0, 0]"
    using header_first16 [OF file_header_decode_canonical(1) [OF Inr]] by metis
  moreover have "k \<in> set [1..<16]" using assms by simp
  ultimately show ?thesis by (auto simp: manifest_header16_def upt_rec [of _ 16] simp del: set_upt)
qed blast

lemma manifest_append_all_file:
  "manifest_append_all crc w rs = Inr w' \<Longrightarrow> \<exists>bs. mw_file w' = mw_file w @ bs"
proof (induction rs arbitrary: w)
  case (Cons r rs)
  then show ?case by (fastforce simp: manifest_append_Inr)
qed simp

text \<open>
  A crash while the header is being written. A file that holds only the first \<open>k\<close> bytes of
  a manifest header (\<open>0 < k < 16\<close>) is taken for a new one: the header is appended behind the
  fragment and opening succeeds with the empty state, but every later open of that file fails,
  whatever was appended in between.
\<close>

theorem manifest_torn_header:
  assumes "0 < k" and "k < 16"
  shows "\<exists>w. manifest_writer_open crc now (Some (take k (file_header_encode crc (file_header_new ManifestFile 0 t)))) = Inr w
     \<and> mw_state w = manifest_state_default
     \<and> (\<forall>rs w' now'. manifest_append_all crc w rs = Inr w' \<longrightarrow>
           (\<exists>e. manifest_writer_open crc now' (Some (mw_file w')) = Inl e))"
proof -
  let ?h = "file_header_encode crc (file_header_new ManifestFile 0 t)"
  let ?w = "\<lparr>mw_file = take k ?h @ file_header_encode crc (file_header_new ManifestFile 0 now),
    mw_state = manifest_state_default\<rparr>"
  have "manifest_writer_open crc now (Some (take k ?h)) = Inr ?w"
    using assms by (simp add: manifest_writer_open_def header_consts)
  moreover have "\<exists>e. manifest_writer_open crc now' (Some (mw_file w')) = Inl e"
    if appended: "manifest_append_all crc ?w rs = Inr w'" for rs w' now'
  proof -
    obtain bs where f: "mw_file w' = take k ?h @ file_header_encode crc (file_header_new ManifestFile 0 now) @ bs"
      using manifest_append_all_file [OF appended] by auto
    then show ?thesis using header_after_fragment [OF assms, of crc t now bs]
      by (auto simp: manifest_writer_open_def manifest_reader_open_def header_consts simp del: take_append)
  qed
  ultimately show ?thesis by (intro exI [of _ ?w]) simp
qed

theorem manifest_torn_header_witness:
  "\<exists>w. manifest_writer_open (\<lambda>_. 7) 5 (Some (take 1 (file_header_encode (\<lambda>_. 7) (file_header_new ManifestFile 0 3)))) = Inr w
     \<and> (\<exists>e. manifest_writer_open (\<lambda>_. 7) 6 (Some (mw_file w)) = Inl e)"
  using manifest_torn_header [of 1 "\<lambda>_. 7" 5 3] by (metis manifest_append_all.simps(1) one_less_numeral_iff semiring_norm(76) zero_less_one)

section \<open>The live files\<close>

text \<open>The set of live files as a map from (kind, id) to level, and what each record means on it.\<close>

definition live_files :: "manifest_state \<Rightarrow> (manifest_file_kind \<times> u32) \<rightharpoonup> u32" where
  "live_files st = map_of (map (\<lambda>e. ((mfe_kind e, mfe_file_id e), mfe_level e)) (ms_files st))"

fun live_spec :: "((manifest_file_kind \<times> u32) \<rightharpoonup> u32) \<Rightarrow> manifest_record \<Rightarrow>
    ((manifest_file_kind \<times> u32) \<rightharpoonup> u32)" where
  "live_spec m (AddFile kind file_id level) = m((kind, file_id) \<mapsto> level)"
| "live_spec m (RemoveFile kind file_id) = m((kind, file_id) := None)"
| "live_spec m _ = m"

lemma map_of_set_level_first:
  assumes "\<exists>e \<in> set es. mfe_kind e = k \<and> mfe_file_id e = i"
  shows "map_of (map (\<lambda>e. ((mfe_kind e, mfe_file_id e), mfe_level e)) (set_level_first k i l es))
    = (map_of (map (\<lambda>e. ((mfe_kind e, mfe_file_id e), mfe_level e)) es))((k, i) \<mapsto> l)"
  using assms
proof (induction es)
  case (Cons e es)
  show ?case
  proof (cases "mfe_kind e = k \<and> mfe_file_id e = i")
    case False
    with Cons.prems have "\<exists>e \<in> set es. mfe_kind e = k \<and> mfe_file_id e = i" by auto
    from Cons.IH [OF this] False show ?thesis by (auto simp: fun_upd_twist)
  qed auto
qed simp

lemma map_of_append_new:
  assumes "\<not> (\<exists>e \<in> set es. mfe_kind e = k \<and> mfe_file_id e = i)"
  shows "map_of (map (\<lambda>e. ((mfe_kind e, mfe_file_id e), mfe_level e)) es @ [((k, i), l)])
    = (map_of (map (\<lambda>e. ((mfe_kind e, mfe_file_id e), mfe_level e)) es))((k, i) \<mapsto> l)"
  using assms by (induction es) (auto simp: fun_upd_twist)

lemma map_of_filter_refs:
  "map_of (map (\<lambda>e. ((mfe_kind e, mfe_file_id e), mfe_level e))
     (filter (\<lambda>e. \<not> (mfe_kind e = k \<and> mfe_file_id e = i)) es))
    = (map_of (map (\<lambda>e. ((mfe_kind e, mfe_file_id e), mfe_level e)) es))((k, i) := None)"
  by (induction es) (auto simp: fun_upd_twist)

lemma live_files_apply: "live_files (manifest_apply st r) = live_spec (live_files st) r"
  by (cases r)
    (simp_all add: live_files_def map_of_set_level_first map_of_append_new [simplified] map_of_filter_refs [simplified])

text \<open>
  The list of live files kept by the manifest implements a map from (kind, file id) to level:
  after replaying any sequence of records, a file is live at the level of its last \<open>AddFile\<close> that
  no later \<open>RemoveFile\<close> cancelled.
\<close>

theorem manifest_replay_refines_map:
  "live_files (foldl manifest_apply st rs) = foldl live_spec (live_files st) rs"
proof (induction rs arbitrary: st)
  case (Cons r rs)
  then show ?case by (simp only: foldl_Cons live_files_apply)
qed simp

text \<open>No file is listed twice, so the list never grows beyond the number of live files.\<close>

definition manifest_refs :: "manifest_state \<Rightarrow> (manifest_file_kind \<times> u32) list" where
  "manifest_refs st = map (\<lambda>e. (mfe_kind e, mfe_file_id e)) (ms_files st)"

lemma refs_set_level_first:
  "map (\<lambda>e. (mfe_kind e, mfe_file_id e)) (set_level_first k i l es) = map (\<lambda>e. (mfe_kind e, mfe_file_id e)) es"
  by (induction es) auto

lemma manifest_apply_distinct [inv_intros]:
  "distinct (manifest_refs st) \<Longrightarrow> distinct (manifest_refs (manifest_apply st r))"
  by (cases r) (auto simp: manifest_refs_def refs_set_level_first distinct_map_filter)

end
