(* ===== verification/Wal.thy ===== *)
theory Wal
  imports Core_Format
begin

text \<open>
  The write-ahead log of \<open>crates/skeindb-core/src/wal.rs\<close>: record encoding, the appending
  writer, the scan that stops at a torn or corrupt tail, and recovery of the committed
  transactions. A file is its byte content, \<open>None\<close> a path that does not exist. Arithmetic that
  would overflow is the error \<open>WalOverflow\<close> (a panic in the source).
\<close>

section \<open>Records\<close>

datatype wal_record_kind = WkBeginTxn | WkMutation | WkCommitTxn | WkAbortTxn

fun wal_record_kind_code :: "wal_record_kind \<Rightarrow> u8" where
  "wal_record_kind_code WkBeginTxn = 0x01"
| "wal_record_kind_code WkMutation = 0x02"
| "wal_record_kind_code WkCommitTxn = 0x03"
| "wal_record_kind_code WkAbortTxn = 0x04"

datatype wal_error =
    WalBadHeader
  | WalUnknownRecordType u8
  | WalUnsupportedRecordVersion u8
  | WalTrailingBytes nat
  | WalFormat format_error
  | WalOverflow

fun wal_error_core :: "core_error \<Rightarrow> wal_error" where
  "wal_error_core CoreUnexpectedEof = WalFormat UnexpectedEof"
| "wal_error_core CoreInvalidVarint = WalTrailingBytes 0"

definition wal_record_kind_from_u8 :: "u8 \<Rightarrow> wal_error + wal_record_kind" where
  "wal_record_kind_from_u8 v =
     (if v = 0x01 then Inr WkBeginTxn
      else if v = 0x02 then Inr WkMutation
      else if v = 0x03 then Inr WkCommitTxn
      else if v = 0x04 then Inr WkAbortTxn
      else Inl (WalUnknownRecordType v))"

datatype wal_record_body = BeginTxn | Mutation bytes | CommitTxn | AbortTxn

fun wal_body_kind :: "wal_record_body \<Rightarrow> wal_record_kind" where
  "wal_body_kind BeginTxn = WkBeginTxn"
| "wal_body_kind (Mutation payload) = WkMutation"
| "wal_body_kind CommitTxn = WkCommitTxn"
| "wal_body_kind AbortTxn = WkAbortTxn"

datatype wal_record_header = HdrV1 wal_header_v1 | HdrV2 wal_header_v2

record wal_record =
  wr_header :: wal_record_header
  wr_body :: wal_record_body

definition wal_new_v1 :: "wal_record_body \<Rightarrow> u64 \<Rightarrow> u16 \<Rightarrow> u64 \<Rightarrow> wal_record" where
  "wal_new_v1 body txn_id flags lsn =
     \<lparr>wr_header = HdrV1 \<lparr>wh_rec_type = wal_record_kind_code (wal_body_kind body), wh_rec_ver = WhV1,
        wh_flags = flags, wh_lsn = lsn, wh_txn_id = txn_id\<rparr>, wr_body = body\<rparr>"

definition wal_new_v2 :: "wal_record_body \<Rightarrow> u64 \<Rightarrow> u16 \<Rightarrow> u64 \<Rightarrow> bytes \<Rightarrow> bytes \<Rightarrow> wal_record" where
  "wal_new_v2 body txn_id flags lsn prev_hash rec_hash =
     \<lparr>wr_header = HdrV2 \<lparr>wh_v1 = \<lparr>wh_rec_type = wal_record_kind_code (wal_body_kind body),
        wh_rec_ver = WhV2, wh_flags = flags, wh_lsn = lsn, wh_txn_id = txn_id\<rparr>,
        wh_prev_hash = prev_hash, wh_rec_hash = rec_hash\<rparr>, wr_body = body\<rparr>"

definition begin_v1 :: "u64 \<Rightarrow> wal_record" where
  "begin_v1 txn_id = wal_new_v1 BeginTxn txn_id 0 0"

definition mutation_v1 :: "u64 \<Rightarrow> bytes \<Rightarrow> wal_record" where
  "mutation_v1 txn_id payload = wal_new_v1 (Mutation payload) txn_id 0 0"

definition commit_v1 :: "u64 \<Rightarrow> wal_record" where
  "commit_v1 txn_id = wal_new_v1 CommitTxn txn_id 0 0"

definition abort_v1 :: "u64 \<Rightarrow> wal_record" where
  "abort_v1 txn_id = wal_new_v1 AbortTxn txn_id 0 0"

fun wal_base :: "wal_record_header \<Rightarrow> wal_header_v1" where
  "wal_base (HdrV1 h) = h"
| "wal_base (HdrV2 h) = wh_v1 h"

fun wal_map_base :: "(wal_header_v1 \<Rightarrow> wal_header_v1) \<Rightarrow> wal_record_header \<Rightarrow> wal_record_header" where
  "wal_map_base f (HdrV1 h) = HdrV1 (f h)"
| "wal_map_base f (HdrV2 h) = HdrV2 (h\<lparr>wh_v1 := f (wh_v1 h)\<rparr>)"

definition with_lsn :: "wal_record \<Rightarrow> u64 \<Rightarrow> wal_record" where
  "with_lsn r lsn = r\<lparr>wr_header := wal_map_base (wh_lsn_update (\<lambda>_. lsn)) (wr_header r)\<rparr>"

definition with_flags :: "wal_record \<Rightarrow> u16 \<Rightarrow> wal_record" where
  "with_flags r flags = r\<lparr>wr_header := wal_map_base (wh_flags_update (\<lambda>_. flags)) (wr_header r)\<rparr>"

definition wal_lsn :: "wal_record \<Rightarrow> u64" where
  "wal_lsn r = wh_lsn (wal_base (wr_header r))"

definition wal_txn_id :: "wal_record \<Rightarrow> u64" where
  "wal_txn_id r = wh_txn_id (wal_base (wr_header r))"

definition wal_flags :: "wal_record \<Rightarrow> u16" where
  "wal_flags r = wh_flags (wal_base (wr_header r))"

definition wal_kind :: "wal_record \<Rightarrow> wal_record_kind" where
  "wal_kind r = wal_body_kind (wr_body r)"

definition wal_record_encode :: "wal_record \<Rightarrow> bytes" where
  "wal_record_encode r =
     (case wr_header r of
        HdrV1 h \<Rightarrow>
          [wal_record_kind_code (wal_body_kind (wr_body r)), wal_header_version_code (wh_rec_ver h)]
          @ le_bytes (wh_flags h) @ le_bytes (wh_lsn h) @ le_bytes (wh_txn_id h)
      | HdrV2 h \<Rightarrow>
          [wal_record_kind_code (wal_body_kind (wr_body r)), wal_header_version_code (wh_rec_ver (wh_v1 h))]
          @ le_bytes (wh_flags (wh_v1 h)) @ le_bytes (wh_lsn (wh_v1 h)) @ le_bytes (wh_txn_id (wh_v1 h))
          @ wh_prev_hash h @ wh_rec_hash h)
     @ (case wr_body r of
          Mutation payload \<Rightarrow> encode_varu (word_of_nat (length payload)) @ payload
        | _ \<Rightarrow> [])"

definition WAL_HEADER_V1_LEN :: nat where "WAL_HEADER_V1_LEN = 20"
definition WAL_HEADER_V2_LEN :: nat where "WAL_HEADER_V2_LEN = WAL_HEADER_V1_LEN + 32 + 32"

definition u64_from_le :: "bytes \<Rightarrow> nat \<Rightarrow> wal_error + u64" where
  "u64_from_le bs off = (if length bs - off < 8 then Inl (WalFormat UnexpectedEof)
                         else Inr (from_le_bytes (take 8 (drop off bs))))"

definition wal_decode_header ::
    "u8 \<Rightarrow> wal_header_version \<Rightarrow> u16 \<Rightarrow> u64 \<Rightarrow> u64 \<Rightarrow> bytes \<Rightarrow> wal_error + wal_record_header \<times> bytes" where
  "wal_decode_header rec_type rec_ver flags lsn txn_id payload =
     (case rec_ver of
        WhV1 \<Rightarrow> Inr (HdrV1 \<lparr>wh_rec_type = rec_type, wh_rec_ver = rec_ver, wh_flags = flags,
                  wh_lsn = lsn, wh_txn_id = txn_id\<rparr>, drop WAL_HEADER_V1_LEN payload)
      | WhV2 \<Rightarrow>
          if length payload < WAL_HEADER_V2_LEN then Inl (WalFormat UnexpectedEof)
          else Inr (HdrV2 \<lparr>wh_v1 = \<lparr>wh_rec_type = rec_type, wh_rec_ver = rec_ver, wh_flags = flags,
                 wh_lsn = lsn, wh_txn_id = txn_id\<rparr>, wh_prev_hash = take 32 (drop 20 payload),
                 wh_rec_hash = take 32 (drop 52 payload)\<rparr>, drop WAL_HEADER_V2_LEN payload))"

definition wal_decode_body :: "wal_record_kind \<Rightarrow> bytes \<Rightarrow> wal_error + wal_record_body \<times> bytes" where
  "wal_decode_body kind rest =
     (case kind of
        WkBeginTxn \<Rightarrow> Inr (BeginTxn, rest)
      | WkCommitTxn \<Rightarrow> Inr (CommitTxn, rest)
      | WkAbortTxn \<Rightarrow> Inr (AbortTxn, rest)
      | WkMutation \<Rightarrow>
          bindE (map_err wal_error_core (decode_varu rest)) (\<lambda>(len64, rest).
          let len = unat len64 in
          if length rest < len then Inl (WalFormat UnexpectedEof)
          else Inr (Mutation (take len rest), drop len rest)))"

definition wal_record_decode :: "bytes \<Rightarrow> wal_error + wal_record" where
  "wal_record_decode payload =
     (if length payload < WAL_HEADER_V1_LEN then Inl (WalFormat UnexpectedEof)
      else let rec_type = payload ! 0 in
      bindE (wal_record_kind_from_u8 rec_type) (\<lambda>kind.
      bindE (if payload ! 1 = 1 then Inr WhV1
             else if payload ! 1 = 2 then Inr WhV2
             else Inl (WalUnsupportedRecordVersion (payload ! 1))) (\<lambda>rec_ver.
      let flags = from_le_bytes [payload ! 2, payload ! 3] in
      bindE (u64_from_le payload 4) (\<lambda>lsn.
      bindE (u64_from_le payload 12) (\<lambda>txn_id.
      bindE (wal_decode_header rec_type rec_ver flags lsn txn_id payload) (\<lambda>(header, rest).
      bindE (wal_decode_body kind rest) (\<lambda>(body, rest).
      if rest \<noteq> [] then Inl (WalTrailingBytes (length rest))
      else Inr \<lparr>wr_header = header, wr_body = body\<rparr>)))))))"

text \<open>A record whose redundant header fields agree with its body, as the constructors build it.\<close>

definition wal_record_ok :: "wal_record \<Rightarrow> bool" where
  "wal_record_ok r \<longleftrightarrow>
     wh_rec_type (wal_base (wr_header r)) = wal_record_kind_code (wal_body_kind (wr_body r))
     \<and> (case wr_header r of
          HdrV1 h \<Rightarrow> wh_rec_ver h = WhV1
        | HdrV2 h \<Rightarrow> wh_rec_ver (wh_v1 h) = WhV2 \<and> length (wh_prev_hash h) = 32 \<and> length (wh_rec_hash h) = 32)
     \<and> (case wr_body r of Mutation p \<Rightarrow> length p < 2 ^ 64 | _ \<Rightarrow> True)"

lemma wal_record_kind_roundtrip [simp]: "wal_record_kind_from_u8 (wal_record_kind_code k) = Inr k"
  by (cases k) (simp_all add: wal_record_kind_from_u8_def)

lemma le_bytes_u16_explicit: "from_le_bytes [le_bytes w ! 0, le_bytes w ! Suc 0] = (w :: u16)"
proof -
  have "[le_bytes w ! 0, le_bytes w ! Suc 0] = le_bytes w" by (simp add: le_bytes_def)
  then show ?thesis by simp
qed

lemma wal_decode_body_encode:
  "(case body of Mutation p \<Rightarrow> length p < 2 ^ 64 | _ \<Rightarrow> True) \<Longrightarrow>
   wal_decode_body (wal_body_kind body)
     (case body of Mutation payload \<Rightarrow> encode_varu (word_of_nat (length payload)) @ payload | _ \<Rightarrow> [])
   = Inr (body, [])"
  by (cases body) (simp_all add: wal_decode_body_def unat_of_length Let_def)

lemma unat_of_length64 [simp]: "length (p :: bytes) < 18446744073709551616 \<Longrightarrow> unat (word_of_nat (length p) :: u64) = length p"
  using unat_of_length [of p] by simp

interpretation wal_codec: record_codec wal_record_encode wal_record_decode wal_record_ok
proof unfold_locales
  fix r assume ok: "wal_record_ok r"
  let ?body = "case wr_body r of Mutation payload \<Rightarrow> encode_varu (word_of_nat (length payload)) @ payload | _ \<Rightarrow> []"
  have body: "wal_decode_body (wal_body_kind (wr_body r)) ?body = Inr (wr_body r, [])"
    using ok by (intro wal_decode_body_encode) (simp add: wal_record_ok_def)
  show "wal_record_decode (wal_record_encode r) = Inr r"
  proof (cases "wr_header r")
    case (HdrV1 h)
    with ok body show ?thesis
      by (cases r, cases h)
        (simp add: wal_record_decode_def wal_record_encode_def wal_record_ok_def WAL_HEADER_V1_LEN_def
          u64_from_le_def wal_decode_header_def le_bytes_u16_explicit nth_append Let_def)
  next
    case (HdrV2 h)
    with ok body show ?thesis
      by (cases r, cases h, cases "wh_v1 h")
        (simp add: wal_record_decode_def wal_record_encode_def wal_record_ok_def WAL_HEADER_V1_LEN_def
          WAL_HEADER_V2_LEN_def u64_from_le_def wal_decode_header_def le_bytes_u16_explicit nth_append Let_def)
  qed
qed

section \<open>Scanning\<close>

record wal_scan_result =
  sr_records :: "wal_record list"
  sr_valid_bytes :: nat
  sr_truncated_tail :: bool
  sr_tail_error :: "wal_error option"

text \<open>
  The loop over the frames. \<open>strict\<close> makes the first bad frame an error; otherwise it ends the
  scan. The tail error is kept as a value where the source keeps its rendering as a string.
\<close>

function wal_scan_loop ::
    "bool \<Rightarrow> (bytes \<Rightarrow> u32) \<Rightarrow> bytes \<Rightarrow> wal_record list \<Rightarrow> nat \<Rightarrow> wal_error + wal_scan_result" where
  "wal_scan_loop strict crc rest records valid_bytes =
     (if rest = [] then
        Inr \<lparr>sr_records = records, sr_valid_bytes = valid_bytes, sr_truncated_tail = False, sr_tail_error = None\<rparr>
      else
        case decode_record_frame crc rest of
          Inl err \<Rightarrow>
            if strict then Inl (WalFormat err)
            else Inr \<lparr>sr_records = records, sr_valid_bytes = valid_bytes, sr_truncated_tail = True,
                      sr_tail_error = Some (WalFormat err)\<rparr>
        | Inr (payload, after_frame) \<Rightarrow>
            (case wal_record_decode payload of
               Inl err \<Rightarrow>
                 if strict then Inl err
                 else Inr \<lparr>sr_records = records, sr_valid_bytes = valid_bytes, sr_truncated_tail = True,
                           sr_tail_error = Some err\<rparr>
             | Inr r \<Rightarrow>
                 wal_scan_loop strict crc after_frame (records @ [r])
                   (valid_bytes + (length rest - length after_frame))))"
  by pat_completeness auto
termination
  by (relation "measure (\<lambda>(strict, crc, rest, records, valid). length rest)")
    (auto dest: decode_record_frame_length)

declare wal_scan_loop.simps [simp del]

definition wal_scan :: "bool \<Rightarrow> (bytes \<Rightarrow> u32) \<Rightarrow> bytes \<Rightarrow> wal_error + wal_scan_result" where
  "wal_scan strict crc content = wal_scan_loop strict crc (drop FILE_HEADER_LEN content) [] 0"

definition wal_reader_open :: "(bytes \<Rightarrow> u32) \<Rightarrow> bytes \<Rightarrow> wal_error + bytes" where
  "wal_reader_open crc content =
     (if length content < FILE_HEADER_LEN then Inl WalBadHeader
      else bindE (map_err WalFormat (file_header_decode crc (take FILE_HEADER_LEN content))) (\<lambda>header.
      if fh_file_kind header \<noteq> WalFile then Inl WalBadHeader else Inr content))"

definition wal_read_all :: "(bytes \<Rightarrow> u32) \<Rightarrow> bytes \<Rightarrow> wal_error + wal_record list" where
  "wal_read_all crc content = bindE (wal_scan True crc content) (\<lambda>scan. Inr (sr_records scan))"

section \<open>Recovery\<close>

record wal_mutation =
  wm_lsn :: u64
  wm_flags :: u16
  wm_payload :: bytes

record recovered_txn =
  rt_txn_id :: u64
  rt_begin_lsn :: "u64 option"
  rt_commit_lsn :: u64
  rt_mutations :: "wal_mutation list"

record pending_txn =
  pt_begin_lsn :: "u64 option"
  pt_mutations :: "wal_mutation list"

definition pending_default :: pending_txn where
  "pending_default = \<lparr>pt_begin_lsn = None, pt_mutations = []\<rparr>"

definition pending_get :: "(u64 \<rightharpoonup> pending_txn) \<Rightarrow> u64 \<Rightarrow> pending_txn" where
  "pending_get pending t = (case pending t of None \<Rightarrow> pending_default | Some p \<Rightarrow> p)"

record recover_state =
  rc_pending :: "u64 \<rightharpoonup> pending_txn"
  rc_txns :: "recovered_txn list"
  rc_last_valid_lsn :: u64

definition recover_init :: recover_state where
  "recover_init = \<lparr>rc_pending = Map.empty, rc_txns = [], rc_last_valid_lsn = 0\<rparr>"

definition recover_step :: "recover_state \<Rightarrow> wal_record \<Rightarrow> recover_state" where
  "recover_step s r =
     (let t = wal_txn_id r; lsn = wal_lsn r; flags = wal_flags r;
          s = s\<lparr>rc_last_valid_lsn := lsn\<rparr>; staged = pending_get (rc_pending s) t
      in case wr_body r of
           BeginTxn \<Rightarrow> s\<lparr>rc_pending := (rc_pending s)(t \<mapsto> staged\<lparr>pt_begin_lsn := Some lsn\<rparr>)\<rparr>
         | Mutation payload \<Rightarrow>
             s\<lparr>rc_pending := (rc_pending s)(t \<mapsto> staged\<lparr>pt_mutations := pt_mutations staged @
                 [\<lparr>wm_lsn = lsn, wm_flags = flags, wm_payload = payload\<rparr>]\<rparr>)\<rparr>
         | CommitTxn \<Rightarrow>
             s\<lparr>rc_pending := (rc_pending s)(t := None),
               rc_txns := rc_txns s @ [\<lparr>rt_txn_id = t, rt_begin_lsn = pt_begin_lsn staged,
                 rt_commit_lsn = lsn, rt_mutations = pt_mutations staged\<rparr>]\<rparr>
         | AbortTxn \<Rightarrow> s\<lparr>rc_pending := (rc_pending s)(t := None)\<rparr>)"

record wal_recovery =
  wrv_txns :: "recovered_txn list"
  wrv_last_valid_lsn :: u64
  wrv_truncated_tail :: bool
  wrv_discarded_tail_bytes :: nat
  wrv_tail_error :: "wal_error option"

definition wal_recover :: "(bytes \<Rightarrow> u32) \<Rightarrow> bytes \<Rightarrow> wal_error + wal_recovery" where
  "wal_recover crc content =
     bindE (wal_scan False crc content) (\<lambda>scan.
     let discarded = (if sr_truncated_tail scan
                      then (length content - FILE_HEADER_LEN) - sr_valid_bytes scan else 0);
         s = foldl recover_step recover_init (sr_records scan)
     in Inr \<lparr>wrv_txns = rc_txns s, wrv_last_valid_lsn = rc_last_valid_lsn s,
             wrv_truncated_tail = sr_truncated_tail scan, wrv_discarded_tail_bytes = discarded,
             wrv_tail_error = sr_tail_error scan\<rparr>)"

section \<open>Writer\<close>

record wal_writer =
  ww_file :: bytes
  ww_next_lsn :: u64
  ww_truncated_tail :: bool
  ww_discarded_tail_bytes :: nat

definition wal_writer_open :: "(bytes \<Rightarrow> u32) \<Rightarrow> u64 \<Rightarrow> bytes option \<Rightarrow> wal_error + wal_writer" where
  "wal_writer_open crc now file =
     (let content = (case file of None \<Rightarrow> [] | Some c \<Rightarrow> c) in
      if file = None \<or> length content = 0 then
        Inr \<lparr>ww_file = file_header_encode crc (file_header_new WalFile 0 now), ww_next_lsn = 1,
             ww_truncated_tail = False, ww_discarded_tail_bytes = 0\<rparr>
      else if length content < FILE_HEADER_LEN then Inl WalBadHeader
      else bindE (wal_reader_open crc content) (\<lambda>_.
      bindE (wal_scan False crc content) (\<lambda>scan.
      let (content', discarded) =
            (if sr_truncated_tail scan
             then (take (FILE_HEADER_LEN + sr_valid_bytes scan) content,
                   length content - (FILE_HEADER_LEN + sr_valid_bytes scan))
             else (content, 0))
      in bindE (if sr_records scan = [] then Inr 1
                else if wal_lsn (last (sr_records scan)) = - 1 then Inl WalOverflow
                else Inr (wal_lsn (last (sr_records scan)) + 1)) (\<lambda>next_lsn.
         Inr \<lparr>ww_file = content', ww_next_lsn = next_lsn, ww_truncated_tail = sr_truncated_tail scan,
              ww_discarded_tail_bytes = discarded\<rparr>))))"

definition wal_append :: "(bytes \<Rightarrow> u32) \<Rightarrow> wal_writer \<Rightarrow> wal_record \<Rightarrow> wal_error + u64 \<times> wal_writer" where
  "wal_append crc w rec =
     (let lsn = ww_next_lsn w; payload = wal_record_encode (with_lsn rec lsn) in
      bindE (map_err WalFormat (append_record_frame crc [] payload)) (\<lambda>fr.
      if lsn = - 1 then Inl WalOverflow
      else Inr (lsn, w\<lparr>ww_file := ww_file w @ fr, ww_next_lsn := lsn + 1\<rparr>)))"

definition begin_txn :: "(bytes \<Rightarrow> u32) \<Rightarrow> wal_writer \<Rightarrow> u64 \<Rightarrow> wal_error + u64 \<times> wal_writer" where
  "begin_txn crc w txn_id = wal_append crc w (begin_v1 txn_id)"

definition append_mutation :: "(bytes \<Rightarrow> u32) \<Rightarrow> wal_writer \<Rightarrow> u64 \<Rightarrow> bytes \<Rightarrow> wal_error + u64 \<times> wal_writer" where
  "append_mutation crc w txn_id payload = wal_append crc w (mutation_v1 txn_id payload)"

definition commit_txn :: "(bytes \<Rightarrow> u32) \<Rightarrow> wal_writer \<Rightarrow> u64 \<Rightarrow> wal_error + u64 \<times> wal_writer" where
  "commit_txn crc w txn_id = wal_append crc w (commit_v1 txn_id)"

definition abort_txn :: "(bytes \<Rightarrow> u32) \<Rightarrow> wal_writer \<Rightarrow> u64 \<Rightarrow> wal_error + u64 \<times> wal_writer" where
  "abort_txn crc w txn_id = wal_append crc w (abort_v1 txn_id)"

section \<open>What a scan returns\<close>

abbreviation decodes_to :: "bytes list \<Rightarrow> wal_record list \<Rightarrow> bool" where
  "decodes_to \<equiv> list_all2 (\<lambda>p r. wal_record_decode p = Inr r)"

lemma wal_scan_loop_Nil [simp]:
  "wal_scan_loop strict crc [] acc v = Inr \<lparr>sr_records = acc, sr_valid_bytes = v,
     sr_truncated_tail = False, sr_tail_error = None\<rparr>"
  by (subst wal_scan_loop.simps) simp

lemma wal_scan_loop_frame:
  "\<lbrakk>fits_frame p; wal_record_decode p = Inr r\<rbrakk> \<Longrightarrow>
     wal_scan_loop strict crc (frame crc p @ rest) acc v
     = wal_scan_loop strict crc rest (acc @ [r]) (v + length (frame crc p))"
  by (subst wal_scan_loop.simps) (simp add: decode_frame)

lemma wal_scan_loop_frames:
  "\<lbrakk>decodes_to ps rs; \<forall>p \<in> set ps. fits_frame p\<rbrakk> \<Longrightarrow>
     wal_scan_loop strict crc (frames crc ps @ rest) acc v
     = wal_scan_loop strict crc rest (acc @ rs) (v + length (frames crc ps))"
proof (induction ps rs arbitrary: acc v rule: list_all2_induct)
  case (Cons p ps r rs)
  then show ?case by (simp add: wal_scan_loop_frame add.assoc)
qed simp

lemma wal_scan_loop_torn:
  "\<lbrakk>rest \<noteq> []; decode_record_frame crc rest = Inl e\<rbrakk> \<Longrightarrow>
     wal_scan_loop False crc rest acc v = Inr \<lparr>sr_records = acc, sr_valid_bytes = v,
       sr_truncated_tail = True, sr_tail_error = Some (WalFormat e)\<rparr>"
  by (subst wal_scan_loop.simps) simp

text \<open>A lenient scan always returns: the bytes are valid frames followed by a tail it discards.\<close>

lemma wal_scan_loop_lenient:
  "\<exists>ps rs rest err. bs = frames crc ps @ rest \<and> decodes_to ps rs \<and> (\<forall>p \<in> set ps. fits_frame p)
     \<and> (err = None \<longleftrightarrow> rest = [])
     \<and> wal_scan_loop False crc bs acc v = Inr \<lparr>sr_records = acc @ rs,
         sr_valid_bytes = v + length (frames crc ps), sr_truncated_tail = (rest \<noteq> []), sr_tail_error = err\<rparr>"
proof (induction "length bs" arbitrary: bs acc v rule: less_induct)
  case less
  let ?goal = "\<lambda>ps rs rest err. bs = frames crc ps @ rest \<and> decodes_to ps rs \<and> (\<forall>p \<in> set ps. fits_frame p)
     \<and> (err = None \<longleftrightarrow> rest = [])
     \<and> wal_scan_loop False crc bs acc v = Inr \<lparr>sr_records = acc @ rs,
         sr_valid_bytes = v + length (frames crc ps), sr_truncated_tail = (rest \<noteq> []), sr_tail_error = err\<rparr>"
  show ?case
  proof (cases "bs = []")
    case True
    then have "?goal [] [] [] None" by simp
    then show ?thesis by blast
  next
    case False
    show ?thesis
    proof (cases "decode_record_frame crc bs")
      case (Inl e)
      with False have "?goal [] [] bs (Some (WalFormat e))" by (simp add: wal_scan_loop_torn)
      then show ?thesis by blast
    next
      case (Inr x)
      then obtain p rest where d: "decode_record_frame crc bs = Inr (p, rest)" by (cases x) simp
      note p = decode_record_frame_canonical [OF d]
      show ?thesis
      proof (cases "wal_record_decode p")
        case (Inl e)
        with False d have "?goal [] [] bs (Some e)" by (subst wal_scan_loop.simps) simp
        then show ?thesis by blast
      next
        case (Inr r)
        have "length rest < length bs" using d by (rule decode_record_frame_length)
        from less [OF this, of "acc @ [r]" "v + length (frame crc p)"] obtain ps rs rest' err where
          "rest = frames crc ps @ rest'" "decodes_to ps rs" "\<forall>p \<in> set ps. fits_frame p"
          "err = None \<longleftrightarrow> rest' = []"
          "wal_scan_loop False crc rest (acc @ [r]) (v + length (frame crc p)) = Inr \<lparr>sr_records = (acc @ [r]) @ rs,
             sr_valid_bytes = v + length (frame crc p) + length (frames crc ps), sr_truncated_tail = (rest' \<noteq> []), sr_tail_error = err\<rparr>"
          by blast
        with p Inr wal_scan_loop_frame [OF p(1) Inr, of False crc rest acc v]
        have "?goal (p # ps) (r # rs) rest' err" by (simp add: add.assoc)
        then show ?thesis by blast
      qed
    qed
  qed
qed

lemma wal_scan_strict_frames:
  "wal_scan_loop True crc bs acc v = Inr scan \<Longrightarrow>
     \<exists>ps rs. bs = frames crc ps \<and> decodes_to ps rs \<and> (\<forall>p \<in> set ps. fits_frame p) \<and> sr_records scan = acc @ rs"
proof (induction "length bs" arbitrary: bs acc v rule: less_induct)
  case less
  show ?case
  proof (cases "bs = []")
    case True
    with less.prems have "bs = frames crc [] \<and> decodes_to [] [] \<and> sr_records scan = acc @ []" by auto
    then show ?thesis by fastforce
  next
    case False
    with less.prems obtain p rest r where d: "decode_record_frame crc bs = Inr (p, rest)"
      and r: "wal_record_decode p = Inr r"
      and rec: "wal_scan_loop True crc rest (acc @ [r]) (v + (length bs - length rest)) = Inr scan"
      by (subst (asm) wal_scan_loop.simps) (auto split: sum.splits prod.splits)
    note p = decode_record_frame_canonical [OF d]
    from less.hyps [OF decode_record_frame_length [OF d] rec] obtain ps rs where
      "rest = frames crc ps" "decodes_to ps rs" "\<forall>p \<in> set ps. fits_frame p" "sr_records scan = (acc @ [r]) @ rs"
      by blast
    with p r have "bs = frames crc (p # ps) \<and> decodes_to (p # ps) (r # rs) \<and> (\<forall>p \<in> set (p # ps). fits_frame p)
        \<and> sr_records scan = acc @ (r # rs)" by simp
    then show ?thesis by blast
  qed
qed

text \<open>The log content a writer stands on: a valid header, valid frames, and the next LSN.\<close>

definition wal_log :: "(bytes \<Rightarrow> u32) \<Rightarrow> bytes \<Rightarrow> bytes list \<Rightarrow> wal_record list \<Rightarrow> bool" where
  "wal_log crc content ps rs \<longleftrightarrow>
     (\<exists>h. file_header_ok h \<and> fh_file_kind h = WalFile \<and> content = file_header_encode crc h @ frames crc ps)
     \<and> decodes_to ps rs \<and> (\<forall>p \<in> set ps. fits_frame p)"

lemma wal_log_length: "wal_log crc c ps rs \<Longrightarrow> 64 \<le> length c"
  by (auto simp: wal_log_def)

lemma wal_log_drop: "wal_log crc c ps rs \<Longrightarrow> drop 64 c = frames crc ps"
  by (auto simp: wal_log_def)

lemma wal_log_open:
  assumes "wal_log crc c ps rs"
  shows "wal_reader_open crc (c @ bs) = Inr (c @ bs)"
proof -
  from assms obtain h where h: "file_header_ok h" "fh_file_kind h = WalFile"
    and c: "c = file_header_encode crc h @ frames crc ps"
    by (auto simp: wal_log_def)
  have "file_header_decode crc (file_header_encode crc h) = Inr h"
    using file_header_roundtrip [OF h(1), of crc "[]"] by simp
  then show ?thesis using h by (simp add: wal_reader_open_def c header_consts)
qed

lemma wal_read_all_iff:
  "(wal_reader_open crc c = Inr c \<and> wal_read_all crc c = Inr rs) \<longleftrightarrow> (\<exists>ps. wal_log crc c ps rs)"
proof
  assume "\<exists>ps. wal_log crc c ps rs"
  then obtain ps where log: "wal_log crc c ps rs" ..
  then have "wal_scan_loop True crc (frames crc ps) [] 0 =
      wal_scan_loop True crc [] rs (length (frames crc ps))"
    using wal_scan_loop_frames [of ps rs True crc "[]"] by (simp add: wal_log_def)
  with log wal_log_open [OF log, of "[]"] wal_log_drop [OF log]
  show "wal_reader_open crc c = Inr c \<and> wal_read_all crc c = Inr rs"
    by (simp add: wal_read_all_def wal_scan_def header_consts)
next
  assume a: "wal_reader_open crc c = Inr c \<and> wal_read_all crc c = Inr rs"
  then obtain h where len: "64 \<le> length c" and h: "file_header_decode crc (take 64 c) = Inr h" "fh_file_kind h = WalFile"
    by (auto simp: wal_reader_open_def bindE_eq_Inr header_consts split: if_splits)
  from a obtain ps where "drop 64 c = frames crc ps" "decodes_to ps rs" "\<forall>p \<in> set ps. fits_frame p"
    by (auto simp: wal_read_all_def wal_scan_def bindE_eq_Inr header_consts dest!: wal_scan_strict_frames)
  moreover have "file_header_ok h" "c = file_header_encode crc h @ drop 64 c"
    using file_header_decode_canonical [OF h(1)] append_take_drop_id [of 64 c] by simp_all
  ultimately show "\<exists>ps. wal_log crc c ps rs" using h(2) unfolding wal_log_def by metis
qed


section \<open>The writer's invariant\<close>

definition wal_writer_inv :: "(bytes \<Rightarrow> u32) \<Rightarrow> wal_writer \<Rightarrow> wal_record list \<Rightarrow> bool" where
  "wal_writer_inv crc w rs \<longleftrightarrow>
     wal_reader_open crc (ww_file w) = Inr (ww_file w) \<and> wal_read_all crc (ww_file w) = Inr rs
     \<and> (if rs = [] then ww_next_lsn w = 1
         else wal_lsn (last rs) \<noteq> - 1 \<and> ww_next_lsn w = wal_lsn (last rs) + 1)"

lemma wal_writer_inv_log:
  "wal_writer_inv crc w rs \<longleftrightarrow> (\<exists>ps. wal_log crc (ww_file w) ps rs)
     \<and> (if rs = [] then ww_next_lsn w = 1
         else wal_lsn (last rs) \<noteq> - 1 \<and> ww_next_lsn w = wal_lsn (last rs) + 1)"
  unfolding wal_writer_inv_def using wal_read_all_iff [of crc "ww_file w" rs] by blast

text \<open>Opening any file that can be opened leaves a valid log: the torn tail is cut off.\<close>

lemma wal_scan_log:
  assumes "wal_reader_open crc c = Inr c"
  obtains valid ps rs rest err where "c = valid @ rest" "length valid = 64 + length (frames crc ps)"
    "wal_log crc valid ps rs"
    "wal_scan False crc c = Inr \<lparr>sr_records = rs, sr_valid_bytes = length (frames crc ps),
       sr_truncated_tail = (rest \<noteq> []), sr_tail_error = err\<rparr>"
    "err = None \<longleftrightarrow> rest = []"
proof -
  from assms obtain h where len: "64 \<le> length c" and h: "file_header_decode crc (take 64 c) = Inr h" "fh_file_kind h = WalFile"
    by (auto simp: wal_reader_open_def bindE_eq_Inr header_consts split: if_splits)
  obtain ps rs rest err where split: "drop 64 c = frames crc ps @ rest" and dec: "decodes_to ps rs"
    and fits: "\<forall>p \<in> set ps. fits_frame p" and err: "err = None \<longleftrightarrow> rest = []"
    and scan: "wal_scan_loop False crc (drop 64 c) [] 0 = Inr \<lparr>sr_records = [] @ rs,
         sr_valid_bytes = 0 + length (frames crc ps), sr_truncated_tail = (rest \<noteq> []), sr_tail_error = err\<rparr>"
    using wal_scan_loop_lenient [of "drop 64 c" crc "[]" 0] by blast
  have c: "c = (file_header_encode crc h @ frames crc ps) @ rest"
    using file_header_decode_canonical(2) [OF h(1)] append_take_drop_id [of 64 c] split by simp
  have ok: "file_header_ok h" using file_header_decode_canonical(1) [OF h(1)] .
  show ?thesis
    by (rule that [of "file_header_encode crc h @ frames crc ps" rest ps rs err])
      (use c ok h(2) dec fits scan err in \<open>auto simp: wal_log_def wal_scan_def header_consts\<close>)
qed

lemma wal_open_scan:
  assumes "wal_reader_open crc c = Inr c" and c: "c = valid @ rest"
    and len: "length valid = 64 + length (frames crc ps)"
    and scan: "wal_scan False crc c = Inr \<lparr>sr_records = rs, sr_valid_bytes = length (frames crc ps),
       sr_truncated_tail = (rest \<noteq> []), sr_tail_error = err\<rparr>"
  shows "wal_writer_open crc now (Some c) =
    bindE (if rs = [] then Inr 1 else if wal_lsn (last rs) = - 1 then Inl WalOverflow
            else Inr (wal_lsn (last rs) + 1)) (\<lambda>next_lsn.
         Inr \<lparr>ww_file = valid, ww_next_lsn = next_lsn, ww_truncated_tail = (rest \<noteq> []),
              ww_discarded_tail_bytes = length rest\<rparr>)"
proof -
  have "\<not> length c < 64" using len by (simp add: c)
  then show ?thesis using assms by (cases rest) (auto simp: wal_writer_open_def header_consts)
qed

lemma wal_open_inv:
  assumes "wal_writer_open crc now (Some c) = Inr w" and "c \<noteq> []"
  shows "\<exists>rs. wal_writer_inv crc w rs"
proof -
  from assms have opened: "wal_reader_open crc c = Inr c"
    by (auto simp: wal_writer_open_def wal_reader_open_def bindE_eq_Inr Let_def split: if_splits)
  from wal_scan_log [OF this] obtain valid ps rs rest err where
    c: "c = valid @ rest" and len: "length valid = 64 + length (frames crc ps)"
    and log: "wal_log crc valid ps rs"
    and scan: "wal_scan False crc c = Inr \<lparr>sr_records = rs, sr_valid_bytes = length (frames crc ps),
       sr_truncated_tail = (rest \<noteq> []), sr_tail_error = err\<rparr>" by metis
  from wal_open_scan [OF opened c len scan] assms(1) have content: "ww_file w = valid"
    and next_lsn: "if rs = [] then ww_next_lsn w = 1
         else wal_lsn (last rs) \<noteq> - 1 \<and> ww_next_lsn w = wal_lsn (last rs) + 1"
    by (auto simp: bindE_eq_Inr split: if_splits)
  from log next_lsn show ?thesis unfolding wal_writer_inv_log content by blast
qed

lemma wal_open_new_inv:
  "wal_writer_open crc now None = Inr w \<or> wal_writer_open crc now (Some []) = Inr w \<Longrightarrow> wal_writer_inv crc w []"
  by (auto simp: wal_writer_inv_log wal_log_def wal_writer_open_def intro!: exI [of _ "[]"]
      exI [of _ "file_header_new WalFile 0 now"])

section \<open>Appending\<close>

fun wal_append_all :: "(bytes \<Rightarrow> u32) \<Rightarrow> wal_writer \<Rightarrow> wal_record list \<Rightarrow> wal_error + wal_writer" where
  "wal_append_all crc w [] = Inr w"
| "wal_append_all crc w (r # rs) = bindE (wal_append crc w r) (\<lambda>(lsn, w'). wal_append_all crc w' rs)"

text \<open>The records as they are written: consecutive LSNs from the writer's next one.\<close>

fun stamped :: "u64 \<Rightarrow> wal_record list \<Rightarrow> wal_record list" where
  "stamped lsn [] = []"
| "stamped lsn (r # rs) = with_lsn r lsn # stamped (lsn + 1) rs"

lemma length_stamped [simp]: "length (stamped l rs) = length rs"
  by (induction rs arbitrary: l) simp_all

lemma take_stamped: "take k (stamped l rs) = stamped l (take k rs)"
  by (induction rs arbitrary: l k) (auto simp: take_Cons')

lemma with_lsn_simps [simp]:
  "wal_lsn (with_lsn r l) = l" "wal_txn_id (with_lsn r l) = wal_txn_id r"
  "wal_flags (with_lsn r l) = wal_flags r" "wr_body (with_lsn r l) = wr_body r"
  "wal_record_ok (with_lsn r l) = wal_record_ok r"
  by (cases "wr_header r"; simp add: with_lsn_def wal_lsn_def wal_txn_id_def wal_flags_def wal_record_ok_def)+

lemma stamped_ok: "\<forall>r \<in> set rs. wal_record_ok r \<Longrightarrow> \<forall>r \<in> set (stamped l rs). wal_record_ok r"
  by (induction rs arbitrary: l) simp_all

lemma wal_append_Inr_iff:
  "wal_append crc w r = Inr (lsn, w') \<longleftrightarrow>
     lsn = ww_next_lsn w \<and> lsn \<noteq> - 1 \<and> fits_frame (wal_record_encode (with_lsn r lsn))
     \<and> w' = w\<lparr>ww_file := ww_file w @ frame crc (wal_record_encode (with_lsn r lsn)), ww_next_lsn := lsn + 1\<rparr>"
  by (auto simp: wal_append_def append_record_frame_def frame_def fits_frame_def Let_def bindE_eq_Inr
      split: if_splits)

lemma wal_append_all_Inr:
  "wal_append_all crc w rs = Inr w' \<Longrightarrow>
     ww_file w' = ww_file w @ frames crc (map wal_record_encode (stamped (ww_next_lsn w) rs))
     \<and> (\<forall>r \<in> set (stamped (ww_next_lsn w) rs). fits_frame (wal_record_encode r))
     \<and> (rs \<noteq> [] \<longrightarrow> wal_lsn (last (stamped (ww_next_lsn w) rs)) \<noteq> - 1
          \<and> ww_next_lsn w' = wal_lsn (last (stamped (ww_next_lsn w) rs)) + 1)
     \<and> (rs = [] \<longrightarrow> w' = w)"
proof (induction rs arbitrary: w)
  case (Cons r rs)
  then obtain lsn w1 where step: "wal_append crc w r = Inr (lsn, w1)" and rec: "wal_append_all crc w1 rs = Inr w'"
    by (auto simp: bindE_eq_Inr)
  note w1 = step [unfolded wal_append_Inr_iff]
  have "stamped (ww_next_lsn w + 1) rs = [] \<longleftrightarrow> rs = []" by (cases rs) simp_all
  with Cons.IH [OF rec] w1 show ?case by (cases "rs = []") auto
qed simp

lemma wal_append_all_take:
  "wal_append_all crc w rs = Inr w' \<Longrightarrow> \<exists>wk. wal_append_all crc w (take k rs) = Inr wk"
proof (induction rs arbitrary: w k)
  case (Cons r rs)
  then show ?case by (cases k) (auto simp: bindE_eq_Inr)
qed simp

lemma decodes_to_encode:
  "\<forall>r \<in> set rs. wal_record_ok r \<Longrightarrow> decodes_to (map wal_record_encode rs) rs"
  by (induction rs) (simp_all add: wal_codec.decode_encode)

lemma wal_append_all_inv:
  assumes "wal_writer_inv crc w rs0" and "\<forall>r \<in> set rs. wal_record_ok r"
    and "wal_append_all crc w rs = Inr w'"
  shows "wal_writer_inv crc w' (rs0 @ stamped (ww_next_lsn w) rs)"
proof -
  let ?new = "stamped (ww_next_lsn w) rs"
  from assms(1) obtain ps where log: "wal_log crc (ww_file w) ps rs0" by (auto simp: wal_writer_inv_log)
  note w' = wal_append_all_Inr [OF assms(3)]
  have "decodes_to (map wal_record_encode ?new) ?new"
    using assms(2) by (intro decodes_to_encode stamped_ok)
  with log w' have "wal_log crc (ww_file w') (ps @ map wal_record_encode ?new) (rs0 @ ?new)"
    by (auto simp: wal_log_def intro!: list_all2_appendI)
  moreover have "?new = [] \<longleftrightarrow> rs = []" by (cases rs) simp_all
  ultimately show ?thesis using assms(1) w' unfolding wal_writer_inv_log
    by (cases "rs = []") (auto simp: last_append)
qed

section \<open>Which transactions recovery returns\<close>

text \<open>
  The records of transaction \<open>t\<close> since its last commit or abort, and what a commit then makes
  durable: the last begin LSN and the mutations in log order.
\<close>

definition txn_ends :: "wal_record \<Rightarrow> bool" where
  "txn_ends r \<longleftrightarrow> wr_body r = CommitTxn \<or> wr_body r = AbortTxn"

definition open_window :: "u64 \<Rightarrow> wal_record list \<Rightarrow> wal_record list" where
  "open_window t rs = rev (takeWhile (\<lambda>r. \<not> txn_ends r) (rev (filter (\<lambda>r. wal_txn_id r = t) rs)))"

definition window_begin :: "wal_record list \<Rightarrow> u64 option" where
  "window_begin rs = (case filter (\<lambda>r. wr_body r = BeginTxn) rs of [] \<Rightarrow> None | bs \<Rightarrow> Some (wal_lsn (last bs)))"

definition window_mutations :: "wal_record list \<Rightarrow> wal_mutation list" where
  "window_mutations rs = concat (map (\<lambda>r. case wr_body r of
       Mutation p \<Rightarrow> [\<lparr>wm_lsn = wal_lsn r, wm_flags = wal_flags r, wm_payload = p\<rparr>] | _ \<Rightarrow> []) rs)"

definition commit_at :: "wal_record list \<Rightarrow> nat \<Rightarrow> recovered_txn list" where
  "commit_at rs i = (let r = rs ! i; w = open_window (wal_txn_id r) (take i rs) in
       if wr_body r = CommitTxn
       then [\<lparr>rt_txn_id = wal_txn_id r, rt_begin_lsn = window_begin w, rt_commit_lsn = wal_lsn r,
              rt_mutations = window_mutations w\<rparr>]
       else [])"

definition committed_txns :: "wal_record list \<Rightarrow> recovered_txn list" where
  "committed_txns rs = concat (map (commit_at rs) [0..<length rs])"

lemma open_window_snoc:
  "open_window t (rs @ [r]) =
     (if wal_txn_id r \<noteq> t then open_window t rs else if txn_ends r then [] else open_window t rs @ [r])"
  by (simp add: open_window_def)

lemma committed_txns_snoc: "committed_txns (rs @ [r]) = committed_txns rs @ commit_at (rs @ [r]) (length rs)"
proof -
  have same: "map (commit_at (rs @ [r])) [0..<length rs] = map (commit_at rs) [0..<length rs]"
    by (rule map_cong) (auto simp: nth_append commit_at_def)
  have "committed_txns (rs @ [r]) = concat (map (commit_at (rs @ [r])) [0..<length rs]) @ commit_at (rs @ [r]) (length rs)"
    by (simp add: committed_txns_def)
  then show ?thesis by (simp only: same committed_txns_def)
qed

lemma commit_at_last:
  "commit_at (rs @ [r]) (length rs) = (if wr_body r = CommitTxn
      then [\<lparr>rt_txn_id = wal_txn_id r, rt_begin_lsn = window_begin (open_window (wal_txn_id r) rs),
             rt_commit_lsn = wal_lsn r, rt_mutations = window_mutations (open_window (wal_txn_id r) rs)\<rparr>]
      else [])"
  by (simp add: commit_at_def Let_def)

lemma committed_txns_prefix: "\<exists>more. committed_txns (rs @ rs') = committed_txns rs @ more"
proof (induction rs' rule: rev_induct)
  case (snoc r rs')
  then obtain more where "committed_txns (rs @ rs') = committed_txns rs @ more" by blast
  then have "committed_txns ((rs @ rs') @ [r]) = committed_txns rs @ (more @ commit_at ((rs @ rs') @ [r]) (length (rs @ rs')))"
    unfolding committed_txns_snoc by simp
  then show ?case unfolding append_assoc by blast
qed simp

lemma window_begin_snoc:
  "window_begin (rs @ [r]) = (if wr_body r = BeginTxn then Some (wal_lsn r) else window_begin rs)"
proof -
  have eq: "window_begin rs = (if filter (\<lambda>r. wr_body r = BeginTxn) rs = [] then None
      else Some (wal_lsn (last (filter (\<lambda>r. wr_body r = BeginTxn) rs))))" for rs
    by (simp add: window_begin_def split: list.splits)
  show ?thesis by (simp add: eq)
qed

lemma window_mutations_snoc:
  "window_mutations (rs @ [r]) = window_mutations rs @ (case wr_body r of
       Mutation p \<Rightarrow> [\<lparr>wm_lsn = wal_lsn r, wm_flags = wal_flags r, wm_payload = p\<rparr>] | _ \<Rightarrow> [])"
  by (simp add: window_mutations_def)

lemma recover_step_spec:
  assumes "\<forall>t. pending_get (rc_pending s) t =
      \<lparr>pt_begin_lsn = window_begin (open_window t rs), pt_mutations = window_mutations (open_window t rs)\<rparr>"
    and "rc_txns s = committed_txns rs"
  shows "(\<forall>t. pending_get (rc_pending (recover_step s r)) t =
      \<lparr>pt_begin_lsn = window_begin (open_window t (rs @ [r])), pt_mutations = window_mutations (open_window t (rs @ [r]))\<rparr>)
    \<and> rc_txns (recover_step s r) = committed_txns (rs @ [r])"
proof -
  have other: "pending_get ((rc_pending s)(t := x)) t' = pending_get (rc_pending s) t'" if "t' \<noteq> t" for t t' x
    using that by (simp add: pending_get_def)
  have same: "pending_get (m(t \<mapsto> p)) t = p" "pending_get (m(t := None)) t = pending_default" for m t p
    by (simp_all add: pending_get_def)
  have empty: "window_begin [] = None" "window_mutations [] = []"
    by (simp_all add: window_begin_def window_mutations_def)
  show ?thesis
  proof (cases "wr_body r")
    case BeginTxn
    then show ?thesis using assms other same
      by (auto simp: recover_step_def Let_def open_window_snoc committed_txns_snoc commit_at_last txn_ends_def window_begin_snoc window_mutations_snoc)
  next
    case (Mutation p)
    then show ?thesis using assms other same
      by (auto simp: recover_step_def Let_def open_window_snoc committed_txns_snoc commit_at_last txn_ends_def window_begin_snoc window_mutations_snoc)
  next
    case CommitTxn
    then show ?thesis using assms other same empty
      by (auto simp: recover_step_def Let_def open_window_snoc committed_txns_snoc commit_at_last txn_ends_def pending_default_def)
  next
    case AbortTxn
    then show ?thesis using assms other same empty
      by (auto simp: recover_step_def Let_def open_window_snoc committed_txns_snoc commit_at_last txn_ends_def pending_default_def)
  qed
qed

lemma recover_spec:
  "(\<forall>t. pending_get (rc_pending (foldl recover_step recover_init rs)) t =
      \<lparr>pt_begin_lsn = window_begin (open_window t rs), pt_mutations = window_mutations (open_window t rs)\<rparr>)
    \<and> rc_txns (foldl recover_step recover_init rs) = committed_txns rs"
proof (induction rs rule: rev_induct)
  case Nil
  show ?case
    by (simp add: recover_init_def pending_get_def pending_default_def open_window_def window_begin_def
        window_mutations_def committed_txns_def)
next
  case (snoc r rs)
  then show ?case using recover_step_spec by simp
qed

lemma wal_scan_lenient_total: "\<exists>scan. wal_scan False crc content = Inr scan"
  using wal_scan_loop_lenient [of "drop FILE_HEADER_LEN content" crc "[]" 0] unfolding wal_scan_def by blast

lemma wal_recover_txns:
  assumes "wal_scan False crc content = Inr scan"
  shows "\<exists>rv. wal_recover crc content = Inr rv \<and> wrv_txns rv = committed_txns (sr_records scan)"
  using assms recover_spec [of "sr_records scan"] by (simp add: wal_recover_def Let_def)

text \<open>
  (C5) Recovery returns exactly the committed transactions. On any file content recovery succeeds,
  and the transactions it returns are, in commit order, one for each commit record of the valid
  part of the log: its mutations are those the transaction logged since its previous commit or
  abort, in log order. Uncommitted and aborted mutations never appear.
\<close>

theorem wal_recover_committed:
  "\<exists>scan rv. wal_scan False crc content = Inr scan \<and> wal_recover crc content = Inr rv
     \<and> wrv_txns rv = committed_txns (sr_records scan)"
  using wal_scan_lenient_total wal_recover_txns by blast

section \<open>Crash safety\<close>

lemma wal_scan_valid_torn:
  assumes log: "wal_log crc valid ps rs"
    and torn: "rest \<noteq> [] \<Longrightarrow> decode_record_frame crc rest = Inl UnexpectedEof"
  shows "\<exists>err. wal_scan False crc (valid @ rest) = Inr \<lparr>sr_records = rs, sr_valid_bytes = length (frames crc ps),
       sr_truncated_tail = (rest \<noteq> []), sr_tail_error = err\<rparr>"
proof -
  have "drop 64 (valid @ rest) = frames crc ps @ rest"
    using wal_log_drop [OF log] wal_log_length [OF log] by simp
  moreover have "wal_scan_loop False crc (frames crc ps @ rest) [] 0 =
      wal_scan_loop False crc rest rs (length (frames crc ps))"
    using log wal_scan_loop_frames [of ps rs False crc rest "[]" 0] by (simp add: wal_log_def)
  ultimately show ?thesis using torn by (cases "rest = []") (simp_all add: wal_scan_def header_consts wal_scan_loop_torn)
qed

lemma wal_log_length_eq: "wal_log crc c ps rs \<Longrightarrow> length c = 64 + length (frames crc ps)"
  by (auto simp: wal_log_def)

lemma wal_reopen_torn:
  assumes inv: "wal_writer_inv crc w rs"
    and torn: "rest \<noteq> [] \<Longrightarrow> decode_record_frame crc rest = Inl UnexpectedEof"
  shows "wal_writer_open crc now (Some (ww_file w @ rest)) =
      Inr (w\<lparr>ww_truncated_tail := (rest \<noteq> []), ww_discarded_tail_bytes := length rest\<rparr>)"
    and "\<exists>rv. wal_recover crc (ww_file w @ rest) = Inr rv \<and> wrv_txns rv = committed_txns rs"
proof -
  from inv obtain ps where log: "wal_log crc (ww_file w) ps rs"
    and lsn: "if rs = [] then ww_next_lsn w = 1 else wal_lsn (last rs) \<noteq> - 1 \<and> ww_next_lsn w = wal_lsn (last rs) + 1"
    by (auto simp: wal_writer_inv_log)
  obtain err where scan: "wal_scan False crc (ww_file w @ rest) = Inr \<lparr>sr_records = rs,
      sr_valid_bytes = length (frames crc ps), sr_truncated_tail = (rest \<noteq> []), sr_tail_error = err\<rparr>"
    using wal_scan_valid_torn [OF log torn] by blast
  show "wal_writer_open crc now (Some (ww_file w @ rest)) =
      Inr (w\<lparr>ww_truncated_tail := (rest \<noteq> []), ww_discarded_tail_bytes := length rest\<rparr>)"
    using wal_open_scan [OF wal_log_open [OF log] refl wal_log_length_eq [OF log] scan] lsn
    by (cases w) (auto split: if_splits)
  show "\<exists>rv. wal_recover crc (ww_file w @ rest) = Inr rv \<and> wrv_txns rv = committed_txns rs"
    using wal_recover_txns [OF scan] by simp
qed

lemma wal_opened_inv:
  assumes "wal_writer_open crc now fo = Inr w"
  shows "\<exists>rs. wal_writer_inv crc w rs"
proof (cases "fo = None \<or> fo = Some []")
  case True
  then show ?thesis using assms wal_open_new_inv by blast
next
  case False
  then show ?thesis using assms wal_open_inv by (cases fo) auto
qed

lemma wal_crash_split:
  assumes "wal_append_all crc w rs = Inr w'" and "length (ww_file w) \<le> n" and "n \<le> length (ww_file w')"
  obtains k wk torn where "k \<le> length rs" "wal_append_all crc w (take k rs) = Inr wk"
    "take n (ww_file w') = ww_file wk @ torn"
    "torn \<noteq> [] \<Longrightarrow> decode_record_frame crc torn = Inl UnexpectedEof"
    "\<And>w2. k < length rs \<Longrightarrow> wal_append_all crc w (take (Suc k) rs) = Inr w2 \<Longrightarrow> n < length (ww_file w2)"
proof -
  let ?new = "stamped (ww_next_lsn w) rs"
  let ?qs = "map wal_record_encode ?new"
  note w' = wal_append_all_Inr [OF assms(1)]
  have "n - length (ww_file w) \<le> length (frames crc ?qs)" using assms(3) w' by auto
  from frames_prefix [OF this] obtain k m where k: "k \<le> length ?qs"
    and cut: "take (n - length (ww_file w)) (frames crc ?qs)
      = frames crc (take k ?qs) @ (if k < length ?qs then take m (frame crc (?qs ! k)) else [])"
    and m: "k < length ?qs \<Longrightarrow> m < length (frame crc (?qs ! k))" by metis
  define torn where "torn = (if k < length ?qs then take m (frame crc (?qs ! k)) else [])"
  obtain wk where wk: "wal_append_all crc w (take k rs) = Inr wk"
    using wal_append_all_take [OF assms(1)] by blast
  have file_k: "ww_file wk = ww_file w @ frames crc (take k ?qs)"
    using wal_append_all_Inr [OF wk] by (simp add: take_stamped take_map)
  have whole: "take n (ww_file w') = ww_file wk @ torn"
    using assms(2) w' cut by (simp add: file_k torn_def)
  have fits: "fits_frame (?qs ! k)" if "k < length rs" using w' that by simp
  show ?thesis
  proof (rule that [OF _ wk whole])
    show "k \<le> length rs" using k by simp
    show "decode_record_frame crc torn = Inl UnexpectedEof" if "torn \<noteq> []"
      using that m fits by (auto simp: torn_def intro!: decode_frame_torn split: if_splits)
    show "n < length (ww_file w2)" if less: "k < length rs" and w2: "wal_append_all crc w (take (Suc k) rs) = Inr w2" for w2
    proof -
      have "ww_file w2 = ww_file w @ frames crc (take (Suc k) ?qs)"
        using wal_append_all_Inr [OF w2] by (simp add: take_stamped take_map)
      then have "ww_file w2 = ww_file wk @ frame crc (?qs ! k)"
        using less by (simp add: file_k take_Suc_conv_app_nth)
      moreover have "length (take n (ww_file w')) = n" using assms(3) by simp
      then have "n = length (ww_file wk) + length torn" unfolding whole by simp
      moreover have "length torn \<le> m" by (simp add: torn_def)
      ultimately show ?thesis using m less by simp
    qed
  qed
qed

text \<open>
  (C4) Crash recovery of the log. A writer is opened on any file and appends records; then the file
  is cut at any point behind what was there when the writer was opened. Opening the cut file again
  succeeds and gives exactly the writer as it was after the longest run of appends that fits into
  the cut file: same content, same next LSN, with the rest reported as the discarded tail.
\<close>

theorem wal_crash_recovery:
  assumes opened: "wal_writer_open crc now0 fo = Inr w"
    and ok: "\<forall>r \<in> set rs. wal_record_ok r"
    and app: "wal_append_all crc w rs = Inr w'"
    and n: "length (ww_file w) \<le> n" "n \<le> length (ww_file w')"
  shows "\<exists>k wk. k \<le> length rs \<and> wal_append_all crc w (take k rs) = Inr wk
     \<and> wal_writer_open crc now (Some (take n (ww_file w')))
         = Inr (wk\<lparr>ww_truncated_tail := length (ww_file wk) < n, ww_discarded_tail_bytes := n - length (ww_file wk)\<rparr>)
     \<and> (\<forall>w2. k < length rs \<longrightarrow> wal_append_all crc w (take (Suc k) rs) = Inr w2 \<longrightarrow> n < length (ww_file w2))"
proof -
  obtain rs0 where inv: "wal_writer_inv crc w rs0" using wal_opened_inv [OF opened] by blast
  from wal_crash_split [OF app n] obtain k wk torn where k: "k \<le> length rs"
    and wk: "wal_append_all crc w (take k rs) = Inr wk" and cut: "take n (ww_file w') = ww_file wk @ torn"
    and torn: "torn \<noteq> [] \<Longrightarrow> decode_record_frame crc torn = Inl UnexpectedEof"
    and longest: "\<And>w2. k < length rs \<Longrightarrow> wal_append_all crc w (take (Suc k) rs) = Inr w2 \<Longrightarrow> n < length (ww_file w2)"
    by blast
  have "\<forall>r \<in> set (take k rs). wal_record_ok r" using ok by (auto dest: in_set_takeD)
  from wal_reopen_torn(1) [OF wal_append_all_inv [OF inv this wk] torn] have
    "wal_writer_open crc now (Some (take n (ww_file w'))) =
       Inr (wk\<lparr>ww_truncated_tail := (torn \<noteq> []), ww_discarded_tail_bytes := length torn\<rparr>)"
    unfolding cut by blast
  moreover have "length (take n (ww_file w')) = n" using n(2) by simp
  then have len: "n = length (ww_file wk) + length torn" unfolding cut by simp
  then have "(torn \<noteq> []) = (length (ww_file wk) < n)" "length torn = n - length (ww_file wk)" by auto
  ultimately have "wal_writer_open crc now (Some (take n (ww_file w')))
      = Inr (wk\<lparr>ww_truncated_tail := length (ww_file wk) < n, ww_discarded_tail_bytes := n - length (ww_file wk)\<rparr>)"
    by (simp only:)
  with k wk longest show ?thesis by (intro exI [of _ k] exI [of _ wk]) blast
qed

definition wal_empty :: wal_writer where
  "wal_empty = \<lparr>ww_file = file_header_encode (\<lambda>_. 7) (file_header_new WalFile 0 3), ww_next_lsn = 1,
     ww_truncated_tail = False, ww_discarded_tail_bytes = 0\<rparr>"

lemma wal_empty_open: "wal_writer_open (\<lambda>_. 7) 3 None = Inr wal_empty"
  by (simp add: wal_writer_open_def wal_empty_def)

lemma wal_empty_length: "length (ww_file wal_empty) = 64"
  by (simp add: wal_empty_def)

lemma wal_v1_control_length:
  "wr_body (wal_new_v1 b t f l) = b \<and> wal_record_ok (wal_new_v1 b t f l) =
     (case b of Mutation p \<Rightarrow> length p < 2 ^ 64 | _ \<Rightarrow> True)"
  "\<lbrakk>b = BeginTxn \<or> b = CommitTxn\<rbrakk> \<Longrightarrow> length (wal_record_encode (with_lsn (wal_new_v1 b t f l) l')) = 20"
  by (auto simp: wal_new_v1_def wal_record_ok_def wal_record_encode_def with_lsn_def split: wal_record_body.splits)

lemma wal_empty_append:
  "\<exists>w. wal_append_all (\<lambda>_. 7) wal_empty [begin_v1 5, commit_v1 5] = Inr w \<and> 66 \<le> length (ww_file w)"
proof -
  let ?p = "wal_record_encode (with_lsn (begin_v1 5) 1)" and ?q = "wal_record_encode (with_lsn (commit_v1 5) 2)"
  have len: "length ?p = 20" "length ?q = 20" unfolding begin_v1_def commit_v1_def by (simp_all add: wal_v1_control_length)
  let ?w1 = "wal_empty\<lparr>ww_file := ww_file wal_empty @ frame (\<lambda>_. 7) ?p, ww_next_lsn := 2\<rparr>"
  have "wal_append (\<lambda>_. 7) wal_empty (begin_v1 5) = Inr (1, ?w1)"
    unfolding wal_append_Inr_iff by (simp add: wal_empty_def fits_frame_def len)
  moreover have "wal_append (\<lambda>_. 7) ?w1 (commit_v1 5) = Inr (2, ?w1\<lparr>ww_file := ww_file ?w1 @ frame (\<lambda>_. 7) ?q, ww_next_lsn := 3\<rparr>)"
    unfolding wal_append_Inr_iff by (simp add: fits_frame_def len)
  ultimately show ?thesis by (simp add: wal_empty_length len)
qed

theorem wal_crash_recovery_witness:
  "\<exists>w' k wk. wal_append_all (\<lambda>_. 7) wal_empty [begin_v1 5, commit_v1 5] = Inr w'
     \<and> wal_append_all (\<lambda>_. 7) wal_empty (take k [begin_v1 5, commit_v1 5]) = Inr wk
     \<and> wal_writer_open (\<lambda>_. 7) 9 (Some (take 66 (ww_file w')))
         = Inr (wk\<lparr>ww_truncated_tail := length (ww_file wk) < 66, ww_discarded_tail_bytes := 66 - length (ww_file wk)\<rparr>)"
proof -
  obtain w' where app: "wal_append_all (\<lambda>_. 7) wal_empty [begin_v1 5, commit_v1 5] = Inr w'"
    and len: "66 \<le> length (ww_file w')" using wal_empty_append by blast
  have "\<forall>r \<in> set [begin_v1 5, commit_v1 5]. wal_record_ok r"
    by (simp add: begin_v1_def commit_v1_def wal_v1_control_length)
  from wal_crash_recovery [OF wal_empty_open this app _ len, of 9] app show ?thesis
    by (simp add: wal_empty_length) blast
qed

text \<open>
  (C6) Committed transactions are durable. Whatever recovery returns for a log is still returned,
  as a prefix of the result, after further records have been appended and the file has been cut
  anywhere behind the log as it was: a crash loses no transaction committed before it.
\<close>

theorem wal_commit_durable:
  assumes opened: "wal_writer_open crc now0 fo = Inr w"
    and ok: "\<forall>r \<in> set rs. wal_record_ok r"
    and app: "wal_append_all crc w rs = Inr w'"
    and n: "length (ww_file w) \<le> n" "n \<le> length (ww_file w')"
  shows "\<exists>before after more. wal_recover crc (ww_file w) = Inr before
     \<and> wal_recover crc (take n (ww_file w')) = Inr after \<and> wrv_txns after = wrv_txns before @ more"
proof -
  obtain rs0 where inv: "wal_writer_inv crc w rs0" using wal_opened_inv [OF opened] by blast
  from wal_crash_split [OF app n] obtain k wk torn where "k \<le> length rs"
    and wk: "wal_append_all crc w (take k rs) = Inr wk" and cut: "take n (ww_file w') = ww_file wk @ torn"
    and torn: "torn \<noteq> [] \<Longrightarrow> decode_record_frame crc torn = Inl UnexpectedEof"
    and "\<And>w2. k < length rs \<Longrightarrow> wal_append_all crc w (take (Suc k) rs) = Inr w2 \<Longrightarrow> n < length (ww_file w2)"
    by blast
  have "\<forall>r \<in> set (take k rs). wal_record_ok r" using ok by (auto dest: in_set_takeD)
  from wal_reopen_torn(2) [OF wal_append_all_inv [OF inv this wk] torn] obtain rv where
    "wal_recover crc (take n (ww_file w')) = Inr rv"
    "wrv_txns rv = committed_txns (rs0 @ stamped (ww_next_lsn w) (take k rs))"
    unfolding cut by blast
  moreover obtain rv0 where "wal_recover crc (ww_file w) = Inr rv0" "wrv_txns rv0 = committed_txns rs0"
    using wal_reopen_torn(2) [OF inv, of "[]"] by auto
  ultimately show ?thesis using committed_txns_prefix [of rs0 "stamped (ww_next_lsn w) (take k rs)"] by auto
qed

theorem wal_commit_durable_witness:
  "\<exists>w' before after more. wal_append_all (\<lambda>_. 7) wal_empty [begin_v1 5, commit_v1 5] = Inr w'
     \<and> wal_recover (\<lambda>_. 7) (ww_file wal_empty) = Inr before
     \<and> wal_recover (\<lambda>_. 7) (take 66 (ww_file w')) = Inr after \<and> wrv_txns after = wrv_txns before @ more"
proof -
  obtain w' where app: "wal_append_all (\<lambda>_. 7) wal_empty [begin_v1 5, commit_v1 5] = Inr w'"
    and len: "66 \<le> length (ww_file w')" using wal_empty_append by blast
  have "\<forall>r \<in> set [begin_v1 5, commit_v1 5]. wal_record_ok r"
    by (simp add: begin_v1_def commit_v1_def wal_v1_control_length)
  from wal_commit_durable [OF wal_empty_open this app _ len] app show ?thesis
    by (simp add: wal_empty_length)
qed

end
