(* ===== verification/Row_Segment.thy ===== *)
theory Row_Segment
  imports Core_Format
begin

text \<open>
  Row segments (\<open>rowseg.rs\<close>): the RV1 row version record, and the append-only segment file with its
  writer and reader. A file is its content, a list of bytes; the handle of a writer always stands
  at the end of the file. Offsets are 64-bit words as in the source.
\<close>

section \<open>Data\<close>

definition RSEG_RECORD_TYPE :: u8 where "RSEG_RECORD_TYPE = 0x10"
definition RSEG_RECORD_VERSION :: u8 where "RSEG_RECORD_VERSION = 1"
definition ROW_FLAG_IS_DELETE :: u16 where "ROW_FLAG_IS_DELETE = 1"
definition GROUP_REF_INLINE :: u8 where "GROUP_REF_INLINE = 0"
definition GROUP_REF_VALUE_ID :: u8 where "GROUP_REF_VALUE_ID = 1"
definition FILE_PTR_LEN :: nat where "FILE_PTR_LEN = 12"
definition VALUE_ID_LEN :: nat where "VALUE_ID_LEN = 16"

lemmas rowseg_consts = RSEG_RECORD_TYPE_def RSEG_RECORD_VERSION_def ROW_FLAG_IS_DELETE_def
  GROUP_REF_INLINE_def GROUP_REF_VALUE_ID_def FILE_PTR_LEN_def VALUE_ID_LEN_def

datatype rowseg_error =
    RsBadHeader
  | RsInvalidRecordType u8
  | RsUnsupportedRecordVersion u8
  | RsInvalidGroupRefKind u8
  | RsInvalidRecord string
  | RsTrailingRecordBytes
  | RsWriterClosed
  | RsInvalidValueIdLength
  | RsFormat format_error
  | RsIoAlreadyExists
  | RsIoNotFound
  | RsIoUnexpectedEof
  | RsCore core_error

record file_ptr =
  fp_file_id :: u32
  fp_offset :: u64

definition file_ptr_NONE :: file_ptr where
  "file_ptr_NONE = \<lparr>fp_file_id = 0, fp_offset = 0\<rparr>"

definition file_ptr_is_none :: "file_ptr \<Rightarrow> bool" where
  "file_ptr_is_none p \<longleftrightarrow> fp_file_id p = 0 \<and> fp_offset p = 0"

definition file_ptr_encode :: "file_ptr \<Rightarrow> bytes" where
  "file_ptr_encode p = le_bytes (fp_file_id p) @ le_bytes (fp_offset p)"

definition file_ptr_decode :: "bytes \<Rightarrow> rowseg_error + file_ptr" where
  "file_ptr_decode bs =
     (if length bs < FILE_PTR_LEN then Inl (RsInvalidRecord ''short FilePtr'')
      else Inr \<lparr>fp_file_id = from_le_bytes (take 4 bs), fp_offset = from_le_bytes (take 8 (drop 4 bs))\<rparr>)"

datatype row_group_ref = Inline bytes | ValueId bytes

record row_group =
  rg_group_id :: u64
  rg_data :: row_group_ref

record row_version =
  rv_flags :: u16
  rv_table_id :: u32
  rv_row_id :: u64
  rv_begin_ts :: u64
  rv_end_ts :: u64
  rv_prev_ptr :: file_ptr
  rv_groups :: "row_group list"

definition row_version_new :: "u32 \<Rightarrow> u64 \<Rightarrow> u64 \<Rightarrow> row_group list \<Rightarrow> row_version" where
  "row_version_new table_id row_id begin_ts groups =
     \<lparr>rv_flags = 0, rv_table_id = table_id, rv_row_id = row_id, rv_begin_ts = begin_ts, rv_end_ts = 0,
      rv_prev_ptr = file_ptr_NONE, rv_groups = groups\<rparr>"

definition with_prev :: "row_version \<Rightarrow> file_ptr \<Rightarrow> row_version" where
  "with_prev r prev = r\<lparr>rv_prev_ptr := prev\<rparr>"

definition with_end_ts :: "row_version \<Rightarrow> u64 \<Rightarrow> row_version" where
  "with_end_ts r end_ts = r\<lparr>rv_end_ts := end_ts\<rparr>"

definition with_is_delete :: "row_version \<Rightarrow> bool \<Rightarrow> row_version" where
  "with_is_delete r is_delete =
     (if is_delete then r\<lparr>rv_flags := rv_flags r OR ROW_FLAG_IS_DELETE\<rparr>
      else r\<lparr>rv_flags := rv_flags r AND NOT ROW_FLAG_IS_DELETE\<rparr>)"

definition row_is_delete :: "row_version \<Rightarrow> bool" where
  "row_is_delete r \<longleftrightarrow> rv_flags r AND ROW_FLAG_IS_DELETE \<noteq> 0"

section \<open>Record codec\<close>

definition row_group_encode :: "row_group \<Rightarrow> bytes" where
  "row_group_encode g = encode_varu (rg_group_id g) @
     (case rg_data g of
        Inline bs \<Rightarrow> [GROUP_REF_INLINE] @ encode_varu (word_of_nat (length bs)) @ bs
      | ValueId vid \<Rightarrow> [GROUP_REF_VALUE_ID] @ vid)"

definition row_version_encode :: "row_version \<Rightarrow> bytes" where
  "row_version_encode r =
     [RSEG_RECORD_TYPE, RSEG_RECORD_VERSION] @ le_bytes (rv_flags r) @ le_bytes (rv_table_id r)
     @ le_bytes (rv_row_id r) @ le_bytes (rv_begin_ts r) @ le_bytes (rv_end_ts r)
     @ file_ptr_encode (rv_prev_ptr r) @ encode_varu (word_of_nat (length (rv_groups r)))
     @ concat (map row_group_encode (rv_groups r))"

definition take_u16 :: "bytes \<Rightarrow> string \<Rightarrow> rowseg_error + u16 \<times> bytes" where
  "take_u16 cursor what = (if length cursor < 2 then Inl (RsInvalidRecord what)
     else Inr (from_le_bytes (take 2 cursor), drop 2 cursor))"

definition take_u32 :: "bytes \<Rightarrow> string \<Rightarrow> rowseg_error + u32 \<times> bytes" where
  "take_u32 cursor what = (if length cursor < 4 then Inl (RsInvalidRecord what)
     else Inr (from_le_bytes (take 4 cursor), drop 4 cursor))"

definition take_u64 :: "bytes \<Rightarrow> string \<Rightarrow> rowseg_error + u64 \<times> bytes" where
  "take_u64 cursor what = (if length cursor < 8 then Inl (RsInvalidRecord what)
     else Inr (from_le_bytes (take 8 cursor), drop 8 cursor))"

definition row_group_decode :: "bytes \<Rightarrow> rowseg_error + row_group \<times> bytes" where
  "row_group_decode cursor =
     bindE (map_err RsCore (decode_varu cursor)) (\<lambda>(group_id, cursor).
     if cursor = [] then Inl (RsInvalidRecord ''missing group_ref_kind'')
     else let kind = cursor ! 0; cursor = drop 1 cursor in
     if kind = GROUP_REF_INLINE then
       bindE (map_err RsCore (decode_varu cursor)) (\<lambda>(len64, cursor).
       let len = unat len64 in
       if length cursor < len then Inl (RsInvalidRecord ''short inline group bytes'')
       else Inr (\<lparr>rg_group_id = group_id, rg_data = Inline (take len cursor)\<rparr>, drop len cursor))
     else if kind = GROUP_REF_VALUE_ID then
       if length cursor < VALUE_ID_LEN then Inl (RsInvalidRecord ''short value_id'')
       else Inr (\<lparr>rg_group_id = group_id, rg_data = ValueId (take VALUE_ID_LEN cursor)\<rparr>, drop VALUE_ID_LEN cursor)
     else Inl (RsInvalidGroupRefKind kind))"

fun row_groups_decode :: "nat \<Rightarrow> bytes \<Rightarrow> row_group list \<Rightarrow> rowseg_error + row_group list \<times> bytes" where
  "row_groups_decode 0 cursor groups = Inr (groups, cursor)"
| "row_groups_decode (Suc n) cursor groups =
     bindE (row_group_decode cursor) (\<lambda>(g, cursor). row_groups_decode n cursor (groups @ [g]))"

definition row_version_decode :: "bytes \<Rightarrow> rowseg_error + row_version" where
  "row_version_decode payload =
     (if length payload < 2 then Inl (RsInvalidRecord ''short RV1 header'')
      else let rec_type = payload ! 0; rec_ver = payload ! 1; cursor = drop 2 payload in
      if rec_type \<noteq> RSEG_RECORD_TYPE then Inl (RsInvalidRecordType rec_type)
      else if rec_ver \<noteq> RSEG_RECORD_VERSION then Inl (RsUnsupportedRecordVersion rec_ver)
      else
      bindE (take_u16 cursor ''flags'') (\<lambda>(flags, cursor).
      bindE (take_u32 cursor ''table_id'') (\<lambda>(table_id, cursor).
      bindE (take_u64 cursor ''row_id'') (\<lambda>(row_id, cursor).
      bindE (take_u64 cursor ''begin_ts'') (\<lambda>(begin_ts, cursor).
      bindE (take_u64 cursor ''end_ts'') (\<lambda>(end_ts, cursor).
      if length cursor < FILE_PTR_LEN then Inl (RsInvalidRecord ''short prev_ptr'')
      else
      bindE (file_ptr_decode (take FILE_PTR_LEN cursor)) (\<lambda>prev_ptr.
      let cursor = drop FILE_PTR_LEN cursor in
      bindE (map_err RsCore (decode_varu cursor)) (\<lambda>(group_count, cursor).
      if 0xFFFFFFFF < group_count then Inl (RsInvalidRecord ''group_count too large'')
      else
      bindE (row_groups_decode (unat group_count) cursor []) (\<lambda>(groups, cursor).
      if cursor \<noteq> [] then Inl RsTrailingRecordBytes
      else Inr \<lparr>rv_flags = flags, rv_table_id = table_id, rv_row_id = row_id, rv_begin_ts = begin_ts,
                rv_end_ts = end_ts, rv_prev_ptr = prev_ptr, rv_groups = groups\<rparr>)))))))))"

section \<open>Segment file\<close>

record row_segment_entry =
  rse_offset :: u64
  rse_row :: row_version

record row_segment_writer =
  rsw_file :: bytes
  rsw_file_id :: u32
  rsw_cursor_offset :: u64
  rsw_closed :: bool

definition row_segment_create ::
    "(bytes \<Rightarrow> u32) \<Rightarrow> bytes option \<Rightarrow> u32 \<Rightarrow> u64 \<Rightarrow> rowseg_error + row_segment_writer" where
  "row_segment_create crc existing file_id created_unix_s =
     (if existing \<noteq> None then Inl RsIoAlreadyExists
      else Inr \<lparr>rsw_file = file_header_encode crc (file_header_new RowSegFile file_id created_unix_s),
                rsw_file_id = file_id, rsw_cursor_offset = word_of_nat FILE_HEADER_LEN, rsw_closed = False\<rparr>)"

definition row_segment_header :: "(bytes \<Rightarrow> u32) \<Rightarrow> bytes option \<Rightarrow> rowseg_error + bytes \<times> file_header" where
  "row_segment_header crc existing =
     (case existing of
        None \<Rightarrow> Inl RsIoNotFound
      | Some content \<Rightarrow>
          if length content < FILE_HEADER_LEN then Inl RsIoUnexpectedEof
          else bindE (map_err RsFormat (file_header_decode crc (take FILE_HEADER_LEN content))) (\<lambda>header.
          if fh_file_kind header \<noteq> RowSegFile then Inl RsBadHeader else Inr (content, header)))"

definition row_segment_open :: "(bytes \<Rightarrow> u32) \<Rightarrow> bytes option \<Rightarrow> rowseg_error + row_segment_writer" where
  "row_segment_open crc existing =
     bindE (row_segment_header crc existing) (\<lambda>(content, header).
     Inr \<lparr>rsw_file = content, rsw_file_id = fh_file_id header,
          rsw_cursor_offset = word_of_nat (length content), rsw_closed = False\<rparr>)"

definition row_segment_append ::
    "(bytes \<Rightarrow> u32) \<Rightarrow> row_segment_writer \<Rightarrow> row_version \<Rightarrow> rowseg_error + file_ptr \<times> row_segment_writer" where
  "row_segment_append crc w row =
     (if rsw_closed w then Inl RsWriterClosed
      else
      let payload = row_version_encode row in
      bindE (map_err RsFormat (append_record_frame crc [] payload)) (\<lambda>buf.
      let record_offset = rsw_cursor_offset w in
      if 2 ^ 64 \<le> unat record_offset + length buf then Inl (RsInvalidRecord ''file offset overflow'')
      else Inr (\<lparr>fp_file_id = rsw_file_id w, fp_offset = record_offset\<rparr>,
                w\<lparr>rsw_file := rsw_file w @ buf,
                  rsw_cursor_offset := record_offset + word_of_nat (length buf)\<rparr>)))"

record row_segment_reader =
  rsr_file :: bytes
  rsr_file_id :: u32
  rsr_end :: u64

definition row_segment_reader_open :: "(bytes \<Rightarrow> u32) \<Rightarrow> bytes option \<Rightarrow> rowseg_error + row_segment_reader" where
  "row_segment_reader_open crc existing =
     bindE (row_segment_header crc existing) (\<lambda>(content, header).
     Inr \<lparr>rsr_file = content, rsr_file_id = fh_file_id header, rsr_end = word_of_nat (length content)\<rparr>)"

definition READ_CAP :: nat where "READ_CAP = 16 * 1024 * 1024"

definition read_frame_at ::
    "(bytes \<Rightarrow> u32) \<Rightarrow> row_segment_reader \<Rightarrow> u64 \<Rightarrow> rowseg_error + row_segment_entry \<times> u64" where
  "read_frame_at crc rd offset =
     (let remaining = unat (rsr_end rd) - unat offset in
      if remaining < 8 then Inl (RsInvalidRecord ''short record frame header'')
      else let to_read = min remaining READ_CAP; buf = take to_read (drop (unat offset) (rsr_file rd)) in
      if length buf < to_read then Inl RsIoUnexpectedEof
      else bindE (map_err RsFormat (decode_record_frame crc buf)) (\<lambda>(payload, rest).
      let consumed = length buf - length rest in
      bindE (row_version_decode payload) (\<lambda>row.
      Inr (\<lparr>rse_offset = offset, rse_row = row\<rparr>, offset + word_of_nat consumed))))"

definition row_segment_read_at ::
    "(bytes \<Rightarrow> u32) \<Rightarrow> row_segment_reader \<Rightarrow> u64 \<Rightarrow> rowseg_error + row_segment_entry" where
  "row_segment_read_at crc rd offset =
     (if offset < word_of_nat FILE_HEADER_LEN \<or> rsr_end rd \<le> offset
      then Inl (RsInvalidRecord ''offset outside file'')
      else bindE (read_frame_at crc rd offset) (\<lambda>(entry, _). Inr entry))"

lemma read_frame_at_next:
  assumes "read_frame_at crc rd offset = Inr (e, next)"
  shows "unat offset + 8 \<le> unat next" and "unat next \<le> unat (rsr_end rd)"
proof -
  let ?r = "unat (rsr_end rd) - unat offset"
  let ?buf = "take (min ?r READ_CAP) (drop (unat offset) (rsr_file rd))"
  from assms obtain payload rest where r: "8 \<le> ?r" and len: "length ?buf = min ?r READ_CAP"
    and d: "decode_record_frame crc ?buf = Inr (payload, rest)"
    and nx: "next = offset + word_of_nat (length ?buf - length rest)"
    by (auto simp: read_frame_at_def Let_def bindE_eq_Inr split: if_splits)
  note c = decode_record_frame_canonical [OF d]
  have "length ?buf = 8 + length payload + length rest" using arg_cong [OF c(2), of length] by simp
  then have "length ?buf - length rest = 8 + length payload" and "length ?buf - length rest \<le> ?r"
    using len by linarith+
  moreover have "unat (rsr_end rd) < 2 ^ 64" by (rule unat_lt_u64)
  ultimately have "unat next = unat offset + (8 + length payload)" and "unat offset + (8 + length payload) \<le> unat (rsr_end rd)"
    using r by (simp_all add: nx unat_word_ariths unat_of_nat)
  then show "unat offset + 8 \<le> unat next" and "unat next \<le> unat (rsr_end rd)" by simp_all
qed

function read_all_loop ::
    "(bytes \<Rightarrow> u32) \<Rightarrow> row_segment_reader \<Rightarrow> u64 \<Rightarrow> row_segment_entry list \<Rightarrow> rowseg_error + row_segment_entry list" where
  "read_all_loop crc rd offset out =
     (if offset < rsr_end rd then
        bindE (read_frame_at crc rd offset) (\<lambda>(entry, next). read_all_loop crc rd next (out @ [entry]))
      else Inr out)"
  by pat_completeness auto
termination
  by (relation "measure (\<lambda>(crc, rd, offset, out). unat (rsr_end rd) - unat offset)")
    (auto dest: read_frame_at_next(1) simp: word_less_nat_alt)

declare read_all_loop.simps [simp del]

definition row_segment_read_all :: "(bytes \<Rightarrow> u32) \<Rightarrow> row_segment_reader \<Rightarrow> rowseg_error + row_segment_entry list" where
  "row_segment_read_all crc rd = read_all_loop crc rd (word_of_nat FILE_HEADER_LEN) []"

section \<open>The record codec\<close>

definition row_group_ok :: "row_group \<Rightarrow> bool" where
  "row_group_ok g \<longleftrightarrow> (case rg_data g of Inline bs \<Rightarrow> length bs < 2 ^ 64 | ValueId vid \<Rightarrow> length vid = VALUE_ID_LEN)"

definition row_version_ok :: "row_version \<Rightarrow> bool" where
  "row_version_ok r \<longleftrightarrow> length (rv_groups r) < 2 ^ 32 \<and> (\<forall>g \<in> set (rv_groups r). row_group_ok g)"

lemma file_ptr_roundtrip [simp]: "file_ptr_decode (file_ptr_encode p) = Inr p"
  by (simp add: file_ptr_decode_def file_ptr_encode_def rowseg_consts)

lemma length_file_ptr_encode [simp]: "length (file_ptr_encode p) = 12"
  by (simp add: file_ptr_encode_def)

lemma take_roundtrips [simp]:
  "take_u16 (le_bytes a @ rest) what = Inr (a, rest)"
  "take_u32 (le_bytes b @ rest) what = Inr (b, rest)"
  "take_u64 (le_bytes c @ rest) what = Inr (c, rest)"
  by (simp_all add: take_u16_def take_u32_def take_u64_def)

lemma row_group_roundtrip:
  "row_group_ok g \<Longrightarrow> row_group_decode (row_group_encode g @ rest) = Inr (g, rest)"
  by (cases g; cases "rg_data g")
    (simp_all add: row_group_decode_def row_group_encode_def row_group_ok_def unat_of_length rowseg_consts Let_def)

lemma row_groups_roundtrip:
  "\<forall>g \<in> set gs. row_group_ok g \<Longrightarrow>
     row_groups_decode (length gs) (concat (map row_group_encode gs) @ rest) acc = Inr (acc @ gs, rest)"
  by (induction gs arbitrary: acc) (simp_all add: row_group_roundtrip)

lemma row_version_roundtrip:
  assumes "row_version_ok r"
  shows "row_version_decode (row_version_encode r) = Inr r"
proof -
  have cnt: "unat (word_of_nat (length (rv_groups r)) :: u64) = length (rv_groups r)"
    using assms by (simp add: row_version_ok_def unat_of_nat)
  then have "\<not> (0xFFFFFFFF :: u64) < word_of_nat (length (rv_groups r))"
    using assms by (simp add: row_version_ok_def word_less_nat_alt)
  moreover have "row_groups_decode (length (rv_groups r)) (concat (map row_group_encode (rv_groups r))) [] = Inr (rv_groups r, [])"
    using assms row_groups_roundtrip [of "rv_groups r" "[]" "[]"] by (simp add: row_version_ok_def)
  ultimately show ?thesis
    by (simp add: row_version_decode_def row_version_encode_def rowseg_consts Let_def cnt)
qed

interpretation row_codec: record_codec row_version_encode row_version_decode row_version_ok
  by unfold_locales (rule row_version_roundtrip)

section \<open>The writer\<close>

definition row_segment_inv :: "(bytes \<Rightarrow> u32) \<Rightarrow> row_segment_writer \<Rightarrow> bool" where
  "row_segment_inv crc w \<longleftrightarrow>
     (\<exists>h body. file_header_ok h \<and> fh_file_kind h = RowSegFile \<and> fh_file_id h = rsw_file_id w
        \<and> rsw_file w = file_header_encode crc h @ body)
     \<and> length (rsw_file w) < 2 ^ 64 \<and> rsw_cursor_offset w = word_of_nat (length (rsw_file w)) \<and> \<not> rsw_closed w"

lemma row_segment_header_Inr:
  assumes "row_segment_header crc fo = Inr (c, h)"
  shows "fo = Some c" "file_header_ok h" "fh_file_kind h = RowSegFile" "c = file_header_encode crc h @ drop 64 c"
proof -
  from assms have "64 \<le> length c" and d: "file_header_decode crc (take 64 c) = Inr h"
    and fo: "fo = Some c" "fh_file_kind h = RowSegFile"
    by (auto simp: row_segment_header_def bindE_eq_Inr header_consts split: option.splits if_splits)
  then show "fo = Some c" "file_header_ok h" "fh_file_kind h = RowSegFile" "c = file_header_encode crc h @ drop 64 c"
    using file_header_decode_canonical [OF d] append_take_drop_id [of 64 c] by simp_all
qed

lemma row_segment_header_encode:
  assumes "file_header_ok h" "fh_file_kind h = RowSegFile"
  shows "row_segment_header crc (Some (file_header_encode crc h @ body)) = Inr (file_header_encode crc h @ body, h)"
  using file_header_roundtrip [OF assms(1), of crc "[]"] assms
  by (simp add: row_segment_header_def header_consts)

lemma row_segment_create_inv: "row_segment_create crc fo i t = Inr w \<Longrightarrow> row_segment_inv crc w"
  by (auto simp: row_segment_create_def row_segment_inv_def header_consts split: if_splits
      intro!: exI [of _ "file_header_new RowSegFile i t"])

lemma row_segment_open_inv:
  assumes "row_segment_open crc fo = Inr w" and "length (rsw_file w) < 2 ^ 64"
  shows "row_segment_inv crc w"
proof -
  from assms(1) obtain h where h: "row_segment_header crc fo = Inr (rsw_file w, h)"
    and w: "rsw_file_id w = fh_file_id h" "rsw_cursor_offset w = word_of_nat (length (rsw_file w))" "\<not> rsw_closed w"
    by (auto simp: row_segment_open_def bindE_eq_Inr)
  then show ?thesis using row_segment_header_Inr [OF h] assms(2) unfolding row_segment_inv_def by metis
qed

lemma row_segment_append_iff:
  assumes "row_segment_inv crc w"
  shows "row_segment_append crc w row = Inr (p, w') \<longleftrightarrow>
     fits_frame (row_version_encode row)
     \<and> length (rsw_file w) + length (frame crc (row_version_encode row)) < 2 ^ 64
     \<and> p = \<lparr>fp_file_id = rsw_file_id w, fp_offset = word_of_nat (length (rsw_file w))\<rparr>
     \<and> w' = w\<lparr>rsw_file := rsw_file w @ frame crc (row_version_encode row),
             rsw_cursor_offset := word_of_nat (length (rsw_file w) + length (frame crc (row_version_encode row)))\<rparr>"
proof (cases "fits_frame (row_version_encode row)")
  case True
  have w: "\<not> rsw_closed w" "rsw_cursor_offset w = word_of_nat (length (rsw_file w))" "length (rsw_file w) < 2 ^ 64"
    using assms by (simp_all add: row_segment_inv_def)
  with True unat_of_nat_u64 [OF w(3)] show ?thesis
    by (auto simp: row_segment_append_def append_record_frame_frame Let_def simp del: length_frame split: if_splits)
next
  case False
  then show ?thesis by (auto simp: row_segment_append_def append_record_frame_def fits_frame_def bindE_eq_Inr)
qed

lemma row_segment_append_inv:
  assumes inv: "row_segment_inv crc w" and app: "row_segment_append crc w row = Inr (p, w')"
  shows "row_segment_inv crc w'"
proof -
  from inv obtain h body where h: "file_header_ok h" "fh_file_kind h = RowSegFile" "fh_file_id h = rsw_file_id w"
    "rsw_file w = file_header_encode crc h @ body" by (auto simp: row_segment_inv_def)
  then have "rsw_file w @ frame crc (row_version_encode row) =
      file_header_encode crc h @ (body @ frame crc (row_version_encode row))" by simp
  with app [unfolded row_segment_append_iff [OF inv]] inv h show ?thesis
    by (auto simp: row_segment_inv_def)
qed

fun row_segment_append_all ::
    "(bytes \<Rightarrow> u32) \<Rightarrow> row_segment_writer \<Rightarrow> row_version list \<Rightarrow> rowseg_error + file_ptr list \<times> row_segment_writer" where
  "row_segment_append_all crc w [] = Inr ([], w)"
| "row_segment_append_all crc w (row # rows) =
     bindE (row_segment_append crc w row) (\<lambda>(p, w).
     bindE (row_segment_append_all crc w rows) (\<lambda>(ps, w). Inr (p # ps, w)))"

lemma row_segment_append_all_Inr:
  assumes "row_segment_inv crc w" and "row_segment_append_all crc w rows = Inr (ps, w')"
  shows "row_segment_inv crc w' \<and> rsw_file w' = rsw_file w @ frames crc (map row_version_encode rows)
    \<and> rsw_file_id w' = rsw_file_id w \<and> (\<forall>r \<in> set rows. fits_frame (row_version_encode r))"
  using assms
proof (induction rows arbitrary: w ps)
  case (Cons row rows)
  from Cons.prems(2) obtain p w1 ps' where step: "row_segment_append crc w row = Inr (p, w1)"
    and rec: "row_segment_append_all crc w1 rows = Inr (ps', w')"
    by (auto simp: bindE_eq_Inr)
  from Cons.IH [OF row_segment_append_inv [OF Cons.prems(1) step] rec] step [unfolded row_segment_append_iff [OF Cons.prems(1)]]
  show ?case by auto
qed simp

section \<open>Reading back\<close>

lemma row_segment_reader_open_inv:
  assumes "row_segment_inv crc w"
  shows "row_segment_reader_open crc (Some (rsw_file w)) = Inr \<lparr>rsr_file = rsw_file w, rsr_file_id = rsw_file_id w,
     rsr_end = word_of_nat (length (rsw_file w))\<rparr>"
proof -
  from assms obtain h body where h: "file_header_ok h" "fh_file_kind h = RowSegFile" "fh_file_id h = rsw_file_id w"
    "rsw_file w = file_header_encode crc h @ body" by (auto simp: row_segment_inv_def)
  then show ?thesis using row_segment_header_encode [OF h(1,2), of crc body]
    by (simp add: row_segment_reader_open_def)
qed

lemma read_frame_at_frame:
  assumes c: "rsr_file rd = pre @ frame crc (row_version_encode row) @ post"
    and e: "rsr_end rd = word_of_nat (length (rsr_file rd))" and bound: "length (rsr_file rd) < 2 ^ 64"
    and ok: "row_version_ok row" and fits: "fits_frame (row_version_encode row)"
    and small: "length (frame crc (row_version_encode row)) \<le> READ_CAP"
  shows "read_frame_at crc rd (word_of_nat (length pre)) =
    Inr (\<lparr>rse_offset = word_of_nat (length pre), rse_row = row\<rparr>,
         word_of_nat (length pre + length (frame crc (row_version_encode row))))"
proof -
  let ?f = "frame crc (row_version_encode row)"
  have "length pre < 2 ^ 64" using bound by (simp add: c)
  then have off: "unat (word_of_nat (length pre) :: u64) = length pre" by (simp add: unat_of_nat)
  have rem: "unat (rsr_end rd) - length pre = length ?f + length post"
    unfolding e unat_of_nat_u64 [OF bound] by (simp add: c)
  define k where "k = min (length ?f + length post) READ_CAP - length ?f"
  have k: "min (length ?f + length post) READ_CAP = length ?f + k" using small by (simp add: k_def)
  then have kpost: "k \<le> length post" by linarith
  have "take (length ?f + k) (drop (length pre) (rsr_file rd)) = ?f @ take k post" by (simp add: c)
  then show ?thesis using kpost ok
    by (simp add: read_frame_at_def off rem k Let_def decode_frame [OF fits] row_codec.decode_encode del: length_frame)
      (simp add: c)
qed

lemma read_frame_at_oversized:
  assumes c: "rsr_file rd = pre @ frame crc (row_version_encode row) @ post"
    and e: "rsr_end rd = word_of_nat (length (rsr_file rd))" and bound: "length (rsr_file rd) < 2 ^ 64"
    and fits: "fits_frame (row_version_encode row)"
    and large: "READ_CAP < length (frame crc (row_version_encode row))"
  shows "read_frame_at crc rd (word_of_nat (length pre)) = Inl (RsFormat UnexpectedEof)"
proof -
  let ?f = "frame crc (row_version_encode row)"
  have "length pre < 2 ^ 64" using bound by (simp add: c)
  then have off: "unat (word_of_nat (length pre) :: u64) = length pre" by (simp add: unat_of_nat)
  have rem: "unat (rsr_end rd) - length pre = length ?f + length post"
    unfolding e unat_of_nat_u64 [OF bound] by (simp add: c)
  have "min (length ?f + length post) READ_CAP = READ_CAP" using large by simp
  moreover have "take READ_CAP (drop (length pre) (rsr_file rd)) = take READ_CAP ?f" using large by (simp add: c)
  ultimately show ?thesis using large decode_frame_torn [OF fits large]
    by (simp add: read_frame_at_def off rem Let_def del: length_frame) (simp add: c)
qed


lemma read_at_frame:
  assumes "rsr_file rd = pre @ frame crc (row_version_encode row) @ post" "64 \<le> length pre"
    and "rsr_end rd = word_of_nat (length (rsr_file rd))" and bound: "length (rsr_file rd) < 2 ^ 64"
  shows "row_segment_read_at crc rd (word_of_nat (length pre)) =
    bindE (read_frame_at crc rd (word_of_nat (length pre))) (\<lambda>(entry, _). Inr entry)"
proof -
  have "length pre < length (rsr_file rd)" unfolding assms(1) by simp
  moreover then have "length pre < 2 ^ 64" using bound by simp
  note unat_of_nat_u64 [OF this] unat_of_nat_u64 [OF bound]
  ultimately show ?thesis using assms(2,3)
    by (simp add: row_segment_read_at_def word_less_nat_alt word_le_nat_alt header_consts)
qed

text \<open>The file around the record that an append adds, after any further appends.\<close>

lemma row_segment_appended:
  assumes inv: "row_segment_inv crc w" and app: "row_segment_append crc w row = Inr (p, w1)"
    and more: "row_segment_append_all crc w1 rows = Inr (ps, w2)"
  obtains rd where "row_segment_reader_open crc (Some (rsw_file w2)) = Inr rd" "rsr_file_id rd = fp_file_id p"
    "fits_frame (row_version_encode row)"
    "row_segment_read_at crc rd (fp_offset p) = bindE (read_frame_at crc rd (fp_offset p)) (\<lambda>(entry, _). Inr entry)"
    "rsr_file rd = rsw_file w @ frame crc (row_version_encode row) @ frames crc (map row_version_encode rows)"
    "rsr_end rd = word_of_nat (length (rsr_file rd))" "length (rsr_file rd) < 2 ^ 64"
    "fp_offset p = word_of_nat (length (rsw_file w))"
proof -
  note a = app [unfolded row_segment_append_iff [OF inv]]
  have inv1: "row_segment_inv crc w1" by (rule row_segment_append_inv [OF inv app])
  note b = row_segment_append_all_Inr [OF inv1 more]
  let ?rd = "\<lparr>rsr_file = rsw_file w2, rsr_file_id = rsw_file_id w2, rsr_end = word_of_nat (length (rsw_file w2))\<rparr>"
  have content: "rsw_file w2 = rsw_file w @ frame crc (row_version_encode row) @ frames crc (map row_version_encode rows)"
    using a b by simp
  have len: "64 \<le> length (rsw_file w)" using inv by (auto simp: row_segment_inv_def)
  have bound: "length (rsw_file w2) < 2 ^ 64" using b unfolding row_segment_inv_def by blast
  have off: "fp_offset p = word_of_nat (length (rsw_file w))" using a by simp
  show thesis
  proof (rule that)
    show "row_segment_reader_open crc (Some (rsw_file w2)) = Inr ?rd" using b row_segment_reader_open_inv by blast
    show "row_segment_read_at crc ?rd (fp_offset p) = bindE (read_frame_at crc ?rd (fp_offset p)) (\<lambda>(entry, _). Inr entry)"
      unfolding off by (rule read_at_frame) (simp_all add: content len bound [unfolded content, simplified])
  qed (use a b content off bound in simp_all)
qed

text \<open>
  (C17) What is appended can be read back. A row version appended to a writer whose file is a row
  segment is returned by \<open>read_at\<close> at the offset of the pointer that \<open>append\<close> returned, after any
  further appends, as long as its frame does not exceed the 16 MiB a read looks at.
\<close>

theorem row_segment_append_read_at:
  assumes opened: "row_segment_create crc fo i t = Inr w0 \<or> row_segment_open crc fo = Inr w0"
    and size: "length (rsw_file w0) < 2 ^ 64"
    and before: "row_segment_append_all crc w0 rows0 = Inr (ps0, w)"
    and app: "row_segment_append crc w row = Inr (p, w1)"
    and more: "row_segment_append_all crc w1 rows = Inr (ps, w2)"
    and ok: "row_version_ok row" and small: "length (frame crc (row_version_encode row)) \<le> READ_CAP"
  shows "\<exists>rd. row_segment_reader_open crc (Some (rsw_file w2)) = Inr rd \<and> rsr_file_id rd = fp_file_id p
     \<and> row_segment_read_at crc rd (fp_offset p) = Inr \<lparr>rse_offset = fp_offset p, rse_row = row\<rparr>"
proof -
  have "row_segment_inv crc w0" using opened size row_segment_create_inv row_segment_open_inv by blast
  then have inv: "row_segment_inv crc w" using row_segment_append_all_Inr before by blast
  obtain rd where "row_segment_reader_open crc (Some (rsw_file w2)) = Inr rd" "rsr_file_id rd = fp_file_id p"
    and fits: "fits_frame (row_version_encode row)"
    and at: "row_segment_read_at crc rd (fp_offset p) = bindE (read_frame_at crc rd (fp_offset p)) (\<lambda>(entry, _). Inr entry)"
    and rd: "rsr_file rd = rsw_file w @ frame crc (row_version_encode row) @ frames crc (map row_version_encode rows)"
    "rsr_end rd = word_of_nat (length (rsr_file rd))" "length (rsr_file rd) < 2 ^ 64"
    and off: "fp_offset p = word_of_nat (length (rsw_file w))"
    by (rule row_segment_appended [OF inv app more])
  then show ?thesis using at read_frame_at_frame [OF rd ok fits small] by (intro exI [of _ rd]) (simp add: off)
qed

text \<open>
  A row version whose frame is larger than 16 MiB is accepted by \<open>append\<close>, but \<open>read_at\<close> on the
  pointer that was returned fails with an end-of-file error, whatever is appended later.
\<close>

theorem row_segment_oversized_unreadable:
  assumes opened: "row_segment_create crc fo i t = Inr w0 \<or> row_segment_open crc fo = Inr w0"
    and size: "length (rsw_file w0) < 2 ^ 64"
    and before: "row_segment_append_all crc w0 rows0 = Inr (ps0, w)"
    and app: "row_segment_append crc w row = Inr (p, w1)"
    and more: "row_segment_append_all crc w1 rows = Inr (ps, w2)"
    and large: "READ_CAP < length (frame crc (row_version_encode row))"
  shows "\<exists>rd. row_segment_reader_open crc (Some (rsw_file w2)) = Inr rd
     \<and> row_segment_read_at crc rd (fp_offset p) = Inl (RsFormat UnexpectedEof)"
proof -
  have "row_segment_inv crc w0" using opened size row_segment_create_inv row_segment_open_inv by blast
  then have inv: "row_segment_inv crc w" using row_segment_append_all_Inr before by blast
  obtain rd where "row_segment_reader_open crc (Some (rsw_file w2)) = Inr rd" "rsr_file_id rd = fp_file_id p"
    and fits: "fits_frame (row_version_encode row)"
    and at: "row_segment_read_at crc rd (fp_offset p) = bindE (read_frame_at crc rd (fp_offset p)) (\<lambda>(entry, _). Inr entry)"
    and rd: "rsr_file rd = rsw_file w @ frame crc (row_version_encode row) @ frames crc (map row_version_encode rows)"
    "rsr_end rd = word_of_nat (length (rsr_file rd))" "length (rsr_file rd) < 2 ^ 64"
    and off: "fp_offset p = word_of_nat (length (rsw_file w))"
    by (rule row_segment_appended [OF inv app more])
  then show ?thesis using at read_frame_at_oversized [OF rd fits large] by (intro exI [of _ rd]) (simp add: off)
qed

section \<open>Reading the whole segment\<close>

text \<open>The entries of rows that were appended one after the other from an offset on.\<close>

fun entries_from :: "(bytes \<Rightarrow> u32) \<Rightarrow> nat \<Rightarrow> row_version list \<Rightarrow> row_segment_entry list" where
  "entries_from crc off [] = []"
| "entries_from crc off (r # rs) =
     \<lparr>rse_offset = word_of_nat off, rse_row = r\<rparr> # entries_from crc (off + length (frame crc (row_version_encode r))) rs"

lemma read_all_loop_frames:
  assumes "rsr_file rd = pre @ frames crc (map row_version_encode rows)"
    and "rsr_end rd = word_of_nat (length (rsr_file rd))" and "length (rsr_file rd) < 2 ^ 64"
    and "\<forall>r \<in> set rows. row_version_ok r \<and> fits_frame (row_version_encode r)
           \<and> length (frame crc (row_version_encode r)) \<le> READ_CAP"
  shows "read_all_loop crc rd (word_of_nat (length pre)) acc = Inr (acc @ entries_from crc (length pre) rows)"
  using assms
proof (induction rows arbitrary: pre acc)
  case Nil
  then show ?case by (subst read_all_loop.simps) simp
next
  case (Cons r rows)
  let ?f = "frame crc (row_version_encode r)"
  have c: "rsr_file rd = pre @ ?f @ frames crc (map row_version_encode rows)" using Cons.prems(1) by simp
  have less: "length pre < length (rsr_file rd)" unfolding c by simp
  then have "length pre < 2 ^ 64" using Cons.prems(3) by simp
  note unat_of_nat_u64 [OF this] unat_of_nat_u64 [OF Cons.prems(3)]
  then have "(word_of_nat (length pre) :: u64) < rsr_end rd" using less Cons.prems(2) by (simp add: word_less_nat_alt)
  moreover have "read_frame_at crc rd (word_of_nat (length pre)) =
      Inr (\<lparr>rse_offset = word_of_nat (length pre), rse_row = r\<rparr>, word_of_nat (length (pre @ ?f)))"
    using read_frame_at_frame [OF c Cons.prems(2,3)] Cons.prems(4) by simp
  moreover have "read_all_loop crc rd (word_of_nat (length (pre @ ?f))) (acc @ [\<lparr>rse_offset = word_of_nat (length pre), rse_row = r\<rparr>]) =
      Inr ((acc @ [\<lparr>rse_offset = word_of_nat (length pre), rse_row = r\<rparr>]) @ entries_from crc (length (pre @ ?f)) rows)"
    using c Cons.prems(2-4) by (intro Cons.IH) simp_all
  ultimately show ?case by (subst read_all_loop.simps) (simp del: length_frame)
qed

lemma row_segment_ptrs:
  assumes "row_segment_inv crc w" and "row_segment_append_all crc w rows = Inr (ps, w')"
  shows "ps = map (\<lambda>e. \<lparr>fp_file_id = rsw_file_id w, fp_offset = rse_offset e\<rparr>) (entries_from crc (length (rsw_file w)) rows)"
  using assms
proof (induction rows arbitrary: w ps)
  case (Cons row rows)
  from Cons.prems(2) obtain p w1 ps' where step: "row_segment_append crc w row = Inr (p, w1)"
    and rec: "row_segment_append_all crc w1 rows = Inr (ps', w')" and "ps = p # ps'"
    by (auto simp: bindE_eq_Inr)
  with Cons.IH [OF row_segment_append_inv [OF Cons.prems(1) step] rec] step [unfolded row_segment_append_iff [OF Cons.prems(1)]]
  show ?case by simp
qed simp

lemma map_entries_from [simp]: "map rse_row (entries_from crc off rows) = rows"
  by (induction rows arbitrary: off) simp_all

text \<open>
  A new segment holds exactly what was appended: \<open>read_all\<close> returns the appended row versions in
  order, each with the offset of the pointer its append returned.
\<close>

theorem row_segment_read_all_appended:
  assumes "row_segment_create crc None i t = Inr w"
    and app: "row_segment_append_all crc w rows = Inr (ps, w')"
    and ok: "\<forall>r \<in> set rows. row_version_ok r \<and> length (frame crc (row_version_encode r)) \<le> READ_CAP"
  shows "\<exists>rd es. row_segment_reader_open crc (Some (rsw_file w')) = Inr rd \<and> row_segment_read_all crc rd = Inr es
     \<and> map rse_row es = rows \<and> ps = map (\<lambda>e. \<lparr>fp_file_id = i, fp_offset = rse_offset e\<rparr>) es"
proof -
  from assms(1) have inv: "row_segment_inv crc w" by (rule row_segment_create_inv)
  from assms(1) have w: "rsw_file_id w = i" "length (rsw_file w) = 64"
    by (auto simp: row_segment_create_def)
  note b = row_segment_append_all_Inr [OF inv app]
  have bound: "length (rsw_file w') < 2 ^ 64" using b unfolding row_segment_inv_def by blast
  let ?rd = "\<lparr>rsr_file = rsw_file w', rsr_file_id = rsw_file_id w', rsr_end = word_of_nat (length (rsw_file w'))\<rparr>"
  have "row_segment_reader_open crc (Some (rsw_file w')) = Inr ?rd" using b row_segment_reader_open_inv by blast
  moreover have "read_all_loop crc ?rd (word_of_nat (length (rsw_file w))) [] = Inr ([] @ entries_from crc (length (rsw_file w)) rows)"
    using b bound ok by (intro read_all_loop_frames) simp_all
  then have "row_segment_read_all crc ?rd = Inr (entries_from crc 64 rows)"
    by (simp add: row_segment_read_all_def header_consts w)
  ultimately show ?thesis using row_segment_ptrs [OF inv app] by (simp add: w)
qed

section \<open>Witnesses\<close>

definition sample_segment :: row_segment_writer where
  "sample_segment = \<lparr>rsw_file = file_header_encode (\<lambda>_. 7) (file_header_new RowSegFile 1 3), rsw_file_id = 1,
     rsw_cursor_offset = 64, rsw_closed = False\<rparr>"

lemma sample_segment_create: "row_segment_create (\<lambda>_. 7) None 1 3 = Inr sample_segment"
  by (simp add: row_segment_create_def sample_segment_def header_consts)

lemma sample_segment_length: "length (rsw_file sample_segment) = 64"
  by (simp add: sample_segment_def)

definition sample_row :: "nat \<Rightarrow> row_version" where
  "sample_row n = row_version_new 4 9 2 [\<lparr>rg_group_id = 0, rg_data = Inline (replicate n 0)\<rparr>]"

lemma sample_row_length:
  "n + 56 \<le> length (frame crc (row_version_encode (sample_row n)))"
  "length (frame crc (row_version_encode (sample_row n))) \<le> n + 90"
proof -
  have low: "1 \<le> length (encode_varu v)" for v using encode_varu.simps [of v] by (auto simp: Let_def)
  show "n + 56 \<le> length (frame crc (row_version_encode (sample_row n)))"
    using low [of 1] low [of 0] low [of "word_of_nat n"]
    by (simp add: sample_row_def row_version_new_def row_version_encode_def row_group_encode_def)
  show "length (frame crc (row_version_encode (sample_row n))) \<le> n + 90"
    using length_encode_varu_le [of 1] length_encode_varu_le [of 0] length_encode_varu_le [of "word_of_nat n"]
    by (simp add: sample_row_def row_version_new_def row_version_encode_def row_group_encode_def)
qed

lemma sample_row_ok: "n < 2 ^ 31 \<Longrightarrow> row_version_ok (sample_row n)"
  by (simp add: sample_row_def row_version_new_def row_version_ok_def row_group_ok_def)

lemma sample_append:
  assumes "n < 2 ^ 31"
  obtains w where "row_segment_append (\<lambda>_. 7) sample_segment (sample_row n) = Inr (\<lparr>fp_file_id = 1, fp_offset = 64\<rparr>, w)"
proof -
  have inv: "row_segment_inv (\<lambda>_. 7) sample_segment" using sample_segment_create row_segment_create_inv by blast
  have len: "length (frame (\<lambda>_. 7) (row_version_encode (sample_row n))) \<le> n + 90" by (rule sample_row_length)
  then have "fits_frame (row_version_encode (sample_row n))" using assms by (simp add: fits_frame_def)
  moreover have "length (rsw_file sample_segment) = 64" by (simp add: sample_segment_def)
  moreover have "rsw_file_id sample_segment = 1" by (simp add: sample_segment_def)
  ultimately show thesis using len assms
    by (intro that, unfold row_segment_append_iff [OF inv]) (simp del: length_frame)
qed

theorem row_segment_append_read_at_witness:
  "\<exists>w rd. row_segment_append (\<lambda>_. 7) sample_segment (sample_row 5) = Inr (\<lparr>fp_file_id = 1, fp_offset = 64\<rparr>, w)
     \<and> row_segment_reader_open (\<lambda>_. 7) (Some (rsw_file w)) = Inr rd
     \<and> row_segment_read_at (\<lambda>_. 7) rd 64 = Inr \<lparr>rse_offset = 64, rse_row = sample_row 5\<rparr>"
proof -
  obtain w where app: "row_segment_append (\<lambda>_. 7) sample_segment (sample_row 5) = Inr (\<lparr>fp_file_id = 1, fp_offset = 64\<rparr>, w)"
    by (rule sample_append [of 5]) simp_all
  have "length (frame (\<lambda>_. 7) (row_version_encode (sample_row 5))) \<le> READ_CAP"
    by (rule order_trans [OF sample_row_length(2)]) (simp add: READ_CAP_def)
  with row_segment_append_read_at [of "\<lambda>_. 7" None 1 3 sample_segment "[]" "[]" sample_segment, OF _ _ _ app, of "[]" "[]" w]
  show ?thesis using app sample_row_ok [of 5] by (auto simp: sample_segment_create sample_segment_length)
qed

theorem row_segment_oversized_unreadable_witness:
  "\<exists>w rd. row_segment_append (\<lambda>_. 7) sample_segment (sample_row (16 * 1024 * 1024)) = Inr (\<lparr>fp_file_id = 1, fp_offset = 64\<rparr>, w)
     \<and> row_segment_reader_open (\<lambda>_. 7) (Some (rsw_file w)) = Inr rd
     \<and> row_segment_read_at (\<lambda>_. 7) rd 64 = Inl (RsFormat UnexpectedEof)"
proof -
  obtain w where app: "row_segment_append (\<lambda>_. 7) sample_segment (sample_row (16 * 1024 * 1024)) = Inr (\<lparr>fp_file_id = 1, fp_offset = 64\<rparr>, w)"
    by (rule sample_append [of "16 * 1024 * 1024"]) simp_all
  have "READ_CAP < length (frame (\<lambda>_. 7) (row_version_encode (sample_row (16 * 1024 * 1024))))"
    by (rule less_le_trans [OF _ sample_row_length(1)]) (simp add: READ_CAP_def)
  with row_segment_oversized_unreadable [of "\<lambda>_. 7" None 1 3 sample_segment "[]" "[]" sample_segment, OF _ _ _ app, of "[]" "[]" w]
  show ?thesis using app by (auto simp: sample_segment_create sample_segment_length)
qed

theorem row_segment_read_all_appended_witness:
  "\<exists>w rd es. row_segment_append_all (\<lambda>_. 7) sample_segment [sample_row 5] = Inr ([\<lparr>fp_file_id = 1, fp_offset = 64\<rparr>], w)
     \<and> row_segment_reader_open (\<lambda>_. 7) (Some (rsw_file w)) = Inr rd \<and> row_segment_read_all (\<lambda>_. 7) rd = Inr es
     \<and> map rse_row es = [sample_row 5]"
proof -
  obtain w where app: "row_segment_append (\<lambda>_. 7) sample_segment (sample_row 5) = Inr (\<lparr>fp_file_id = 1, fp_offset = 64\<rparr>, w)"
    by (rule sample_append [of 5]) simp_all
  then have all: "row_segment_append_all (\<lambda>_. 7) sample_segment [sample_row 5] = Inr ([\<lparr>fp_file_id = 1, fp_offset = 64\<rparr>], w)" by simp
  have "length (frame (\<lambda>_. 7) (row_version_encode (sample_row 5))) \<le> READ_CAP"
    by (rule order_trans [OF sample_row_length(2)]) (simp add: READ_CAP_def)
  then show ?thesis using row_segment_read_all_appended [OF sample_segment_create all] all sample_row_ok [of 5] by auto
qed

end
