(* ===== verification/Sorted_Run.thy ===== *)
theory Sorted_Run
  imports Core_Format
begin

text \<open>
  Sorted runs (\<open>run.rs\<close>): immutable files of key/value pairs in strictly increasing key order, cut
  into data blocks behind a file header, followed by an index block and a footer. The writer and the
  reader are modelled over the content of the file; \<open>usize\<close> is 64 bits wide. A panic of the source
  (capacity overflow of a vector, overflow of an addition) is the error \<open>RunPanic\<close>.
\<close>

section \<open>Data\<close>

definition DATA_BLOCK_TYPE :: u8 where "DATA_BLOCK_TYPE = 0x40"
definition INDEX_BLOCK_TYPE :: u8 where "INDEX_BLOCK_TYPE = 0x41"
definition BLOCK_VERSION :: u8 where "BLOCK_VERSION = 1"
definition RUN_FOOTER_MAGIC :: bytes where
  "RUN_FOOTER_MAGIC = [0x53, 0x4B, 0x4E, 0x52, 0x55, 0x4E, 0, 1]"
definition RUN_FOOTER_LEN :: nat where "RUN_FOOTER_LEN = 8 + 8 + 4"

lemmas run_consts = DATA_BLOCK_TYPE_def INDEX_BLOCK_TYPE_def BLOCK_VERSION_def RUN_FOOTER_LEN_def

datatype run_error =
    RunBadHeader
  | RunBadFooter
  | RunInvalidBlockType u8
  | RunUnsupportedBlockVersion u8
  | RunInvalidBlock string
  | KeysNotStrictlyIncreasing
  | WriterFinished
  | InvalidRunFileName
  | FooterCrcMismatch u32 u32
  | RunFormat format_error
  | RunIoNotFound
  | RunCore core_error
  | RunPanic

record run_entry =
  re_key :: bytes
  re_value :: bytes

record run_index_entry =
  ri_first_key :: bytes
  ri_block_offset :: u64

record run_footer =
  rf_index_offset :: u64
  rf_file_crc32c :: u32

definition run_footer_encode :: "run_footer \<Rightarrow> bytes" where
  "run_footer_encode f = RUN_FOOTER_MAGIC @ le_bytes (rf_index_offset f) @ le_bytes (rf_file_crc32c f)"

definition run_footer_decode :: "bytes \<Rightarrow> run_error + run_footer" where
  "run_footer_decode bs =
     (if length bs < RUN_FOOTER_LEN then Inl RunBadFooter
      else if take 8 bs \<noteq> RUN_FOOTER_MAGIC then Inl RunBadFooter
      else Inr \<lparr>rf_index_offset = from_le_bytes (take 8 (drop 8 bs)),
                rf_file_crc32c = from_le_bytes (take 4 (drop 16 bs))\<rparr>)"

section \<open>Blocks\<close>

text \<open>Allocating a vector of \<open>n\<close> elements panics when its bytes exceed \<open>isize::MAX\<close>.\<close>

definition capacity_ok :: "nat \<Rightarrow> nat \<Rightarrow> bool" where
  "capacity_ok n elem_size \<longleftrightarrow> n * elem_size < 2 ^ 63"

definition encode_data_block :: "run_entry list \<Rightarrow> bytes" where
  "encode_data_block entries =
     [DATA_BLOCK_TYPE, BLOCK_VERSION] @ encode_varu (word_of_nat (length entries))
     @ concat (map (\<lambda>e. encode_varu (word_of_nat (length (re_key e))) @ re_key e
                      @ encode_varu (word_of_nat (length (re_value e))) @ re_value e) entries)"

fun decode_data_entries ::
    "nat \<Rightarrow> bytes \<Rightarrow> bytes option \<Rightarrow> run_entry list \<Rightarrow> run_error + run_entry list \<times> bytes" where
  "decode_data_entries 0 rest last_key entries = Inr (entries, rest)"
| "decode_data_entries (Suc n) rest last_key entries =
     bindE (map_err RunCore (decode_varu rest)) (\<lambda>(key_len, rest).
     if length rest < unat key_len then Inl (RunInvalidBlock ''data block key exceeds remaining bytes'')
     else let key = take (unat key_len) rest; rest = drop (unat key_len) rest in
     bindE (map_err RunCore (decode_varu rest)) (\<lambda>(value_len, rest).
     if length rest < unat value_len then Inl (RunInvalidBlock ''data block value exceeds remaining bytes'')
     else let val = take (unat value_len) rest; rest = drop (unat value_len) rest in
     if (case last_key of None \<Rightarrow> False | Some lk \<Rightarrow> key \<le> lk)
     then Inl (RunInvalidBlock ''data block keys must be strictly increasing'')
     else decode_data_entries n rest (Some key) (entries @ [\<lparr>re_key = key, re_value = val\<rparr>])))"

definition decode_data_block :: "bytes \<Rightarrow> run_error + run_entry list" where
  "decode_data_block bs =
     (if length bs < 2 then Inl (RunInvalidBlock ''data block is shorter than header'')
      else if bs ! 0 \<noteq> DATA_BLOCK_TYPE then Inl (RunInvalidBlockType (bs ! 0))
      else if bs ! 1 \<noteq> BLOCK_VERSION then Inl (RunUnsupportedBlockVersion (bs ! 1))
      else bindE (map_err RunCore (decode_varu (drop 2 bs))) (\<lambda>(entry_count, rest).
      if \<not> capacity_ok (unat entry_count) 48 then Inl RunPanic
      else bindE (decode_data_entries (unat entry_count) rest None []) (\<lambda>(entries, rest).
      if rest \<noteq> [] then Inl (RunInvalidBlock ''trailing bytes after data block'') else Inr entries)))"

definition encode_index_block :: "run_index_entry list \<Rightarrow> bytes" where
  "encode_index_block index =
     [INDEX_BLOCK_TYPE, BLOCK_VERSION] @ encode_varu (word_of_nat (length index))
     @ concat (map (\<lambda>e. encode_varu (word_of_nat (length (ri_first_key e))) @ ri_first_key e
                      @ le_bytes (ri_block_offset e)) index)"

fun decode_index_entries ::
    "nat \<Rightarrow> bytes \<Rightarrow> bytes option \<Rightarrow> run_index_entry list \<Rightarrow> run_error + run_index_entry list \<times> bytes" where
  "decode_index_entries 0 rest last_key index = Inr (index, rest)"
| "decode_index_entries (Suc n) rest last_key index =
     bindE (map_err RunCore (decode_varu rest)) (\<lambda>(key_len, rest).
     if 2 ^ 64 \<le> unat key_len + 8 then Inl RunPanic
     else if length rest < unat key_len + 8 then Inl (RunInvalidBlock ''index block entry exceeds remaining bytes'')
     else let first_key = take (unat key_len) rest; rest = drop (unat key_len) rest;
              offset = from_le_bytes (take 8 rest); rest = drop 8 rest in
     if (case last_key of None \<Rightarrow> False | Some lk \<Rightarrow> first_key \<le> lk)
     then Inl (RunInvalidBlock ''index block first keys must be strictly increasing'')
     else decode_index_entries n rest (Some first_key)
            (index @ [\<lparr>ri_first_key = first_key, ri_block_offset = offset\<rparr>]))"

definition decode_index_block :: "bytes \<Rightarrow> run_error + run_index_entry list" where
  "decode_index_block bs =
     (if length bs < 2 then Inl (RunInvalidBlock ''index block is shorter than header'')
      else if bs ! 0 \<noteq> INDEX_BLOCK_TYPE then Inl (RunInvalidBlockType (bs ! 0))
      else if bs ! 1 \<noteq> BLOCK_VERSION then Inl (RunUnsupportedBlockVersion (bs ! 1))
      else bindE (map_err RunCore (decode_varu (drop 2 bs))) (\<lambda>(block_count, rest).
      if \<not> capacity_ok (unat block_count) 32 then Inl RunPanic
      else bindE (decode_index_entries (unat block_count) rest None []) (\<lambda>(index, rest).
      if rest \<noteq> [] then Inl (RunInvalidBlock ''trailing bytes after index block'') else Inr index)))"

section \<open>Writer\<close>

record run_writer_options =
  ro_target_block_size :: nat

definition run_writer_options_default :: run_writer_options where
  "run_writer_options_default = \<lparr>ro_target_block_size = 4 * 1024\<rparr>"

record run_metadata =
  rm_entry_count :: nat
  rm_block_count :: nat
  rm_index_offset :: u64
  rm_file_crc32c :: u32
  rm_file_size :: u64

record run_writer =
  rw_file :: bytes
  rw_options :: run_writer_options
  rw_pending_entries :: "run_entry list"
  rw_pending_bytes :: nat
  rw_index :: "run_index_entry list"
  rw_current_offset :: u64
  rw_last_key :: "bytes option"
  rw_entry_count :: nat
  rw_finished :: bool

definition sat_add_usize :: "nat \<Rightarrow> nat \<Rightarrow> nat" where
  "sat_add_usize a b = min (a + b) (2 ^ 64 - 1)"

definition sat_add_u64 :: "u64 \<Rightarrow> nat \<Rightarrow> u64" where
  "sat_add_u64 w n = word_of_nat (min (unat w + n) (2 ^ 64 - 1))"

definition estimate_entry_bytes :: "bytes \<Rightarrow> bytes \<Rightarrow> nat" where
  "estimate_entry_bytes key val = 2 + length key + length val + 20"

definition run_writer_create :: "(bytes \<Rightarrow> u32) \<Rightarrow> u64 \<Rightarrow> run_writer_options \<Rightarrow> run_writer" where
  "run_writer_create crc now options =
     \<lparr>rw_file = file_header_encode crc (file_header_new RunFile 0 now), rw_options = options,
      rw_pending_entries = [], rw_pending_bytes = 0, rw_index = [],
      rw_current_offset = word_of_nat FILE_HEADER_LEN, rw_last_key = None, rw_entry_count = 0,
      rw_finished = False\<rparr>"

definition flush_pending_block :: "run_writer \<Rightarrow> run_writer" where
  "flush_pending_block w =
     (if rw_pending_entries w = [] then w
      else let first_key = re_key (hd (rw_pending_entries w));
               payload = encode_data_block (rw_pending_entries w)
           in w\<lparr>rw_file := rw_file w @ payload,
                rw_index := rw_index w @ [\<lparr>ri_first_key = first_key, ri_block_offset = rw_current_offset w\<rparr>],
                rw_current_offset := sat_add_u64 (rw_current_offset w) (length payload),
                rw_pending_entries := [], rw_pending_bytes := 0\<rparr>)"

definition run_append :: "run_writer \<Rightarrow> bytes \<Rightarrow> bytes \<Rightarrow> run_error + run_writer" where
  "run_append w key val =
     (if rw_finished w then Inl WriterFinished
      else if (case rw_last_key w of None \<Rightarrow> False | Some last_key \<Rightarrow> key \<le> last_key)
      then Inl KeysNotStrictlyIncreasing
      else let w = w\<lparr>rw_pending_bytes := sat_add_usize (rw_pending_bytes w) (estimate_entry_bytes key val),
                     rw_pending_entries := rw_pending_entries w @ [\<lparr>re_key = key, re_value = val\<rparr>],
                     rw_last_key := Some key,
                     rw_entry_count := sat_add_usize (rw_entry_count w) 1\<rparr>
           in Inr (if max (ro_target_block_size (rw_options w)) 256 \<le> rw_pending_bytes w
                   then flush_pending_block w else w))"

text \<open>\<open>finish\<close> consumes the writer: the result is the metadata and the content of the file.\<close>

definition run_finish :: "(bytes \<Rightarrow> u32) \<Rightarrow> run_writer \<Rightarrow> run_error + run_metadata \<times> bytes" where
  "run_finish crc w =
     (if rw_finished w then Inl WriterFinished
      else let w = flush_pending_block w; index_offset = rw_current_offset w;
               index_block = encode_index_block (rw_index w);
               pre_footer = rw_file w @ index_block;
               current_offset = sat_add_u64 (rw_current_offset w) (length index_block);
               footer = \<lparr>rf_index_offset = index_offset, rf_file_crc32c = crc pre_footer\<rparr>
           in Inr (\<lparr>rm_entry_count = rw_entry_count w, rm_block_count = length (rw_index w),
                    rm_index_offset = index_offset, rm_file_crc32c = rf_file_crc32c footer,
                    rm_file_size = sat_add_u64 current_offset RUN_FOOTER_LEN\<rparr>,
                   pre_footer @ run_footer_encode footer))"

section \<open>Reader\<close>

record run_reader =
  rr_file :: bytes
  rr_index_offset :: u64
  rr_footer :: run_footer
  rr_index :: "run_index_entry list"

definition validate_run_header :: "(bytes \<Rightarrow> u32) \<Rightarrow> bytes \<Rightarrow> run_error + unit" where
  "validate_run_header crc content =
     (if length content < FILE_HEADER_LEN then Inl RunBadHeader
      else bindE (map_err RunFormat (file_header_decode crc (take FILE_HEADER_LEN content))) (\<lambda>header.
      if fh_file_kind header \<noteq> RunFile then Inl RunBadHeader else Inr ()))"

fun offsets_increasing :: "run_index_entry list \<Rightarrow> bool" where
  "offsets_increasing (a # b # rest) \<longleftrightarrow> ri_block_offset a < ri_block_offset b \<and> offsets_increasing (b # rest)"
| "offsets_increasing _ \<longleftrightarrow> True"

definition run_reader_open :: "(bytes \<Rightarrow> u32) \<Rightarrow> bytes option \<Rightarrow> run_error + run_reader" where
  "run_reader_open crc existing =
     (case existing of None \<Rightarrow> Inl RunIoNotFound | Some content \<Rightarrow>
      bindE (validate_run_header crc content) (\<lambda>_.
      let len = length content in
      if len < FILE_HEADER_LEN + RUN_FOOTER_LEN then Inl RunBadFooter
      else bindE (run_footer_decode (drop (len - RUN_FOOTER_LEN) content)) (\<lambda>footer.
      if rf_index_offset footer < word_of_nat FILE_HEADER_LEN
         \<or> len - RUN_FOOTER_LEN < unat (rf_index_offset footer) then Inl RunBadFooter
      else let expected_crc = rf_file_crc32c footer; actual_crc = crc (take (len - RUN_FOOTER_LEN) content) in
      if expected_crc \<noteq> 0 \<and> expected_crc \<noteq> actual_crc then Inl (FooterCrcMismatch expected_crc actual_crc)
      else bindE (decode_index_block (drop (unat (rf_index_offset footer)) (take (len - RUN_FOOTER_LEN) content))) (\<lambda>index.
      if \<not> offsets_increasing index
      then Inl (RunInvalidBlock ''index block offsets must be strictly increasing'')
      else if index \<noteq> [] \<and> rf_index_offset footer \<le> ri_block_offset (last index) then Inl RunBadFooter
      else Inr \<lparr>rr_file = content, rr_index_offset = rf_index_offset footer, rr_footer = footer,
                rr_index = index\<rparr>))))"

definition read_block_entries :: "run_reader \<Rightarrow> nat \<Rightarrow> run_error + run_entry list" where
  "read_block_entries rd idx =
     (if length (rr_index rd) \<le> idx then Inl (RunInvalidBlock ''missing data block index entry'')
      else let start = unat (ri_block_offset (rr_index rd ! idx));
               stop = (if idx + 1 < length (rr_index rd) then unat (ri_block_offset (rr_index rd ! (idx + 1)))
                       else unat (rr_index_offset rd))
           in if stop \<le> start \<or> length (rr_file rd) < stop
              then Inl (RunInvalidBlock ''data block offset range is invalid'')
              else decode_data_block (drop start (take stop (rr_file rd))))"

fun read_blocks_from :: "run_reader \<Rightarrow> nat list \<Rightarrow> run_entry list \<Rightarrow> run_error + run_entry list" where
  "read_blocks_from rd [] out = Inr out"
| "read_blocks_from rd (idx # idxs) out =
     bindE (read_block_entries rd idx) (\<lambda>entries. read_blocks_from rd idxs (out @ entries))"

definition run_read_all :: "run_reader \<Rightarrow> run_error + run_entry list" where
  "run_read_all rd = read_blocks_from rd [0..<length (rr_index rd)] []"

function block_search :: "run_index_entry list \<Rightarrow> bytes \<Rightarrow> nat \<Rightarrow> nat \<Rightarrow> nat" where
  "block_search index key lo hi =
     (if lo < hi then
        let mid = (lo + hi) div 2 in
        if ri_first_key (index ! mid) \<le> key then block_search index key (mid + 1) hi
        else block_search index key lo mid
      else lo)"
  by pat_completeness auto
termination
  by (relation "measure (\<lambda>(index, key, lo, hi). hi - lo)") auto

declare block_search.simps [simp del]

definition find_block_for_key :: "run_reader \<Rightarrow> bytes \<Rightarrow> nat option" where
  "find_block_for_key rd key =
     (if rr_index rd = [] then None
      else let lo = block_search (rr_index rd) key 0 (length (rr_index rd))
           in if lo = 0 then None else Some (lo - 1))"

fun find_in_entries :: "run_entry list \<Rightarrow> bytes \<Rightarrow> bytes option" where
  "find_in_entries [] key = None"
| "find_in_entries (entry # entries) key =
     (if re_key entry = key then Some (re_value entry)
      else if key < re_key entry then None
      else find_in_entries entries key)"

definition run_get :: "run_reader \<Rightarrow> bytes \<Rightarrow> run_error + bytes option" where
  "run_get rd key =
     (case find_block_for_key rd key of
        None \<Rightarrow> Inr None
      | Some block_idx \<Rightarrow>
          bindE (read_block_entries rd block_idx) (\<lambda>entries. Inr (find_in_entries entries key)))"

section \<open>Blocks round trip\<close>

definition run_kv :: "run_entry \<Rightarrow> bytes \<times> bytes" where
  "run_kv e = (re_key e, re_value e)"

abbreviation keys_sorted :: "run_entry list \<Rightarrow> bool" where
  "keys_sorted es \<equiv> sorted_wrt (<) (map re_key es)"

lemma length_concat_ge: "(\<And>x. x \<in> set xs \<Longrightarrow> f x \<noteq> []) \<Longrightarrow> length xs \<le> length (concat (map f xs))"
proof (induction xs)
  case (Cons x xs)
  have "0 < length (f x)" using Cons.prems by simp
  moreover have "length xs \<le> length (concat (map f xs))" using Cons by simp
  ultimately show ?case by (simp only: list.map concat.simps length_append list.size)
qed simp

lemma length_concat_member: "x \<in> set xs \<Longrightarrow> length (f x) \<le> length (concat (map f xs))"
  by (induction xs) auto

definition run_entry_bytes :: "run_entry \<Rightarrow> bytes" where
  "run_entry_bytes e = encode_varu (word_of_nat (length (re_key e))) @ re_key e
     @ encode_varu (word_of_nat (length (re_value e))) @ re_value e"

definition index_entry_bytes :: "run_index_entry \<Rightarrow> bytes" where
  "index_entry_bytes e = encode_varu (word_of_nat (length (ri_first_key e))) @ ri_first_key e
     @ le_bytes (ri_block_offset e)"

lemma encode_data_block_alt:
  "encode_data_block es = [0x40, 1] @ encode_varu (word_of_nat (length es)) @ concat (map run_entry_bytes es)"
  by (simp add: encode_data_block_def run_consts run_entry_bytes_def cong: map_cong)

lemma encode_index_block_alt:
  "encode_index_block ix = [0x41, 1] @ encode_varu (word_of_nat (length ix)) @ concat (map index_entry_bytes ix)"
  by (simp add: encode_index_block_def run_consts index_entry_bytes_def cong: map_cong)

lemma run_entry_eta [simp]:
  "\<lparr>re_key = re_key e, re_value = re_value e\<rparr> = e"
  "\<lparr>ri_first_key = ri_first_key x, ri_block_offset = ri_block_offset x\<rparr> = x"
  by simp_all

lemma decode_data_entries_roundtrip:
  assumes "keys_sorted es" and "\<And>lk e. last_key = Some lk \<Longrightarrow> e \<in> set es \<Longrightarrow> lk < re_key e"
    and "\<And>e. e \<in> set es \<Longrightarrow> length (re_key e) < 2 ^ 64 \<and> length (re_value e) < 2 ^ 64"
  shows "decode_data_entries (length es) (concat (map run_entry_bytes es) @ rest) last_key acc = Inr (acc @ es, rest)"
  using assms
proof (induction es arbitrary: last_key acc)
  case (Cons e es)
  have len: "unat (word_of_nat (length (re_key e)) :: u64) = length (re_key e)"
    "unat (word_of_nat (length (re_value e)) :: u64) = length (re_value e)"
    using Cons.prems(3) [of e] by (simp_all add: unat_of_nat)
  have "\<not> (case last_key of None \<Rightarrow> False | Some lk \<Rightarrow> re_key e \<le> lk)"
    using Cons.prems(2) [of _ e] by (auto simp: not_le split: option.splits)
  moreover have "decode_data_entries (length es) (concat (map run_entry_bytes es) @ rest) (Some (re_key e)) (acc @ [e])
      = Inr ((acc @ [e]) @ es, rest)"
    using Cons.prems by (intro Cons.IH) auto
  ultimately show ?case by (simp add: run_entry_bytes_def [of e] len Let_def)
qed simp

lemma decode_index_entries_roundtrip:
  assumes "sorted_wrt (<) (map ri_first_key ix)"
    and "\<And>lk e. last_key = Some lk \<Longrightarrow> e \<in> set ix \<Longrightarrow> lk < ri_first_key e"
    and "\<And>e. e \<in> set ix \<Longrightarrow> length (ri_first_key e) + 8 < 2 ^ 64"
  shows "decode_index_entries (length ix) (concat (map index_entry_bytes ix) @ rest) last_key acc = Inr (acc @ ix, rest)"
  using assms
proof (induction ix arbitrary: last_key acc)
  case (Cons e ix)
  have len: "unat (word_of_nat (length (ri_first_key e)) :: u64) = length (ri_first_key e)"
    and small: "length (ri_first_key e) + 8 < 2 ^ 64"
    using Cons.prems(3) [of e] by (simp_all add: unat_of_nat)
  have "\<not> (case last_key of None \<Rightarrow> False | Some lk \<Rightarrow> ri_first_key e \<le> lk)"
    using Cons.prems(2) [of _ e] by (auto simp: not_le split: option.splits)
  moreover have "decode_index_entries (length ix) (concat (map index_entry_bytes ix) @ rest) (Some (ri_first_key e)) (acc @ [e])
      = Inr ((acc @ [e]) @ ix, rest)"
    using Cons.prems by (intro Cons.IH) auto
  ultimately show ?case using small by (simp add: index_entry_bytes_def [of e] len Let_def)
qed simp

lemma data_block_bounds:
  "length es + 2 \<le> length (encode_data_block es)"
  "e \<in> set es \<Longrightarrow> length (re_key e) \<le> length (encode_data_block es) \<and> length (re_value e) \<le> length (encode_data_block es)"
proof -
  show "length es + 2 \<le> length (encode_data_block es)"
    using length_concat_ge [of es run_entry_bytes] by (simp add: encode_data_block_alt run_entry_bytes_def)
  assume "e \<in> set es"
  from length_concat_member [OF this, of run_entry_bytes]
  show "length (re_key e) \<le> length (encode_data_block es) \<and> length (re_value e) \<le> length (encode_data_block es)"
    by (simp add: encode_data_block_alt run_entry_bytes_def)
qed

lemma data_block_roundtrip:
  assumes "keys_sorted es" and small: "length (encode_data_block es) < 2 ^ 57"
  shows "decode_data_block (encode_data_block es) = Inr es"
proof -
  have cnt: "length es < 2 ^ 57" using data_block_bounds(1) [of es] small by simp
  then have len: "unat (word_of_nat (length es) :: u64) = length es" by (simp add: unat_of_nat)
  have "capacity_ok (length es) 48" using cnt by (simp add: capacity_ok_def)
  moreover have "decode_data_entries (length es) (concat (map run_entry_bytes es) @ []) None [] = Inr ([] @ es, [])"
  proof (rule decode_data_entries_roundtrip)
    fix e assume "e \<in> set es"
    from data_block_bounds(2) [OF this] small show "length (re_key e) < 2 ^ 64 \<and> length (re_value e) < 2 ^ 64" by simp
  qed (use assms in simp_all)
  ultimately show ?thesis by (simp add: decode_data_block_def encode_data_block_alt run_consts len)
qed

lemma index_block_roundtrip:
  assumes "sorted_wrt (<) (map ri_first_key ix)" and small: "length (encode_index_block ix) < 2 ^ 57"
  shows "decode_index_block (encode_index_block ix) = Inr ix"
proof -
  have "length ix \<le> length (encode_index_block ix)"
    using length_concat_ge [of ix index_entry_bytes] by (simp add: encode_index_block_alt index_entry_bytes_def)
  then have cnt: "length ix < 2 ^ 57" using small by simp
  then have len: "unat (word_of_nat (length ix) :: u64) = length ix" by (simp add: unat_of_nat)
  have "capacity_ok (length ix) 32" using cnt by (simp add: capacity_ok_def)
  moreover have "decode_index_entries (length ix) (concat (map index_entry_bytes ix) @ []) None [] = Inr ([] @ ix, [])"
  proof (rule decode_index_entries_roundtrip)
    fix e assume "e \<in> set ix"
    from length_concat_member [OF this, of index_entry_bytes] small
    show "length (ri_first_key e) + 8 < 2 ^ 64" by (simp add: encode_index_block_alt index_entry_bytes_def)
  qed (use assms in simp_all)
  ultimately show ?thesis by (simp add: decode_index_block_def encode_index_block_alt run_consts len)
qed

lemma run_footer_roundtrip [simp]: "run_footer_decode (run_footer_encode f) = Inr f"
  by (simp add: run_footer_decode_def run_footer_encode_def run_consts RUN_FOOTER_MAGIC_def)

lemma length_run_footer [simp]: "length (run_footer_encode f) = 20"
  by (simp add: run_footer_encode_def RUN_FOOTER_MAGIC_def)

section \<open>The binary search\<close>

lemma block_search_correct:
  assumes "sorted_wrt (<) (map ri_first_key ix)" "lo \<le> hi" "hi \<le> length ix"
    and "\<And>i. i < lo \<Longrightarrow> ri_first_key (ix ! i) \<le> key"
    and "\<And>i. hi \<le> i \<Longrightarrow> i < length ix \<Longrightarrow> key < ri_first_key (ix ! i)"
  shows "block_search ix key lo hi \<le> length ix
    \<and> (\<forall>i < block_search ix key lo hi. ri_first_key (ix ! i) \<le> key)
    \<and> (\<forall>i < length ix. block_search ix key lo hi \<le> i \<longrightarrow> key < ri_first_key (ix ! i))"
  using assms
proof (induction ix key lo hi rule: block_search.induct)
  case (1 ix key lo hi)
  have mono: "ri_first_key (ix ! i) < ri_first_key (ix ! j)" if "i < j" "j < length ix" for i j
    using sorted_wrt_nth_less [OF 1(3), of i j] that by simp
  show ?case
  proof (cases "lo < hi")
    case True
    let ?mid = "(lo + hi) div 2"
    have mid: "lo \<le> ?mid" "?mid < hi" "?mid < length ix" using True 1(5) by simp_all
    show ?thesis
    proof (cases "ri_first_key (ix ! ?mid) \<le> key")
      case below: True
      have "ri_first_key (ix ! i) \<le> key" if "i < ?mid + 1" for i
        using that below mono [of i ?mid] mid(3) by (cases "i = ?mid") auto
      moreover have eq: "block_search ix key lo hi = block_search ix key (?mid + 1) hi"
        using True below by (subst block_search.simps) (simp add: Let_def)
      ultimately show ?thesis unfolding eq using 1(5,7) mid by (intro 1(1) [OF True refl below 1(3)]) simp_all
    next
      case above: False
      have "key < ri_first_key (ix ! i)" if "?mid \<le> i" "i < length ix" for i
        using that above mono [of ?mid i] by (cases "i = ?mid") auto
      moreover have eq: "block_search ix key lo hi = block_search ix key lo ?mid"
        using True above by (subst block_search.simps) (simp add: Let_def)
      ultimately show ?thesis unfolding eq using 1(6) mid by (intro 1(2) [OF True refl above 1(3)]) simp_all
    qed
  next
    case False
    moreover have eq: "block_search ix key lo hi = lo" using False by (subst block_search.simps) simp
    ultimately show ?thesis unfolding eq using 1(4-7) by auto
  qed
qed

section \<open>The layout of a finished run\<close>

text \<open>The index of data blocks that are written one after the other from an offset on.\<close>

fun blocks_index :: "nat \<Rightarrow> run_entry list list \<Rightarrow> run_index_entry list" where
  "blocks_index off [] = []"
| "blocks_index off (b # bs) =
     \<lparr>ri_first_key = re_key (hd b), ri_block_offset = word_of_nat off\<rparr> # blocks_index (off + length (encode_data_block b)) bs"

abbreviation blocks_bytes :: "run_entry list list \<Rightarrow> bytes" where
  "blocks_bytes bs \<equiv> concat (map encode_data_block bs)"

lemma length_blocks_index [simp]: "length (blocks_index off bs) = length bs"
  by (induction bs arbitrary: off) simp_all

lemma blocks_index_append:
  "blocks_index off (bs @ bs') = blocks_index off bs @ blocks_index (off + length (blocks_bytes bs)) bs'"
  by (induction bs arbitrary: off) (simp_all add: add.assoc)

lemma nth_blocks_index:
  "i < length bs \<Longrightarrow> blocks_index off bs ! i =
     \<lparr>ri_first_key = re_key (hd (bs ! i)), ri_block_offset = word_of_nat (off + length (blocks_bytes (take i bs)))\<rparr>"
  by (induction bs arbitrary: off i) (auto simp: nth_Cons' take_Cons' add.assoc)

lemma blocks_index_keys: "map ri_first_key (blocks_index off bs) = map (\<lambda>b. re_key (hd b)) bs"
  by (induction bs arbitrary: off) simp_all

definition run_file :: "(bytes \<Rightarrow> u32) \<Rightarrow> file_header \<Rightarrow> run_entry list list \<Rightarrow> bytes" where
  "run_file crc h blocks =
     (let pre = file_header_encode crc h @ blocks_bytes blocks @ encode_index_block (blocks_index 64 blocks)
      in pre @ run_footer_encode \<lparr>rf_index_offset = word_of_nat (64 + length (blocks_bytes blocks)), rf_file_crc32c = crc pre\<rparr>)"

definition run_layout :: "(bytes \<Rightarrow> u32) \<Rightarrow> bytes \<Rightarrow> run_entry list list \<Rightarrow> bool" where
  "run_layout crc content blocks \<longleftrightarrow>
     (\<exists>h. file_header_ok h \<and> fh_file_kind h = RunFile \<and> content = run_file crc h blocks)
     \<and> length content < 2 ^ 57 \<and> keys_sorted (concat blocks) \<and> [] \<notin> set blocks"

lemma first_keys_sorted:
  "\<lbrakk>keys_sorted (concat blocks); [] \<notin> set blocks\<rbrakk> \<Longrightarrow> sorted_wrt (<) (map (\<lambda>b. re_key (hd b)) blocks)"
proof (induction blocks)
  case (Cons b bs)
  have "re_key (hd b) < re_key (hd b')" if "b' \<in> set bs" for b'
  proof -
    have "hd b \<in> set b" "hd b' \<in> set (concat bs)" using Cons.prems(2) that
      by (auto intro!: bexI [OF _ that] list.set_sel(1))
    then show ?thesis using Cons.prems(1) by (auto simp: sorted_wrt_append)
  qed
  then show ?case using Cons by (auto simp: sorted_wrt_append)
qed simp

lemma offsets_increasing_blocks_index:
  "off + length (blocks_bytes bs) < 2 ^ 64 \<Longrightarrow> offsets_increasing (blocks_index off bs)"
proof (induction bs arbitrary: off)
  case (Cons b bs)
  then show ?case
  proof (cases bs)
    case (Cons b' bs')
    have "0 < length (encode_data_block b)" using data_block_bounds(1) [of b] by linarith
    moreover have "off + length (encode_data_block b) < 2 ^ 64" using Cons.prems by simp
    ultimately have "(word_of_nat off :: u64) < word_of_nat (off + length (encode_data_block b))"
      by (simp add: word_less_nat_alt unat_of_nat del: of_nat_add)
    then show ?thesis using Cons.IH [of "off + length (encode_data_block b)"] Cons.prems Cons by simp
  qed simp
qed simp

lemma run_layout_file:
  assumes "run_layout crc content blocks"
  obtains h pre where "file_header_ok h" "fh_file_kind h = RunFile"
    "content = pre @ run_footer_encode \<lparr>rf_index_offset = word_of_nat (64 + length (blocks_bytes blocks)), rf_file_crc32c = crc pre\<rparr>"
    "pre = file_header_encode crc h @ blocks_bytes blocks @ encode_index_block (blocks_index 64 blocks)"
    "64 + length (blocks_bytes blocks) + length (encode_index_block (blocks_index 64 blocks)) + 20 < 2 ^ 57"
proof -
  from assms obtain h where h: "file_header_ok h" "fh_file_kind h = RunFile" "content = run_file crc h blocks"
    by (auto simp: run_layout_def)
  moreover have "length content < 2 ^ 57" using assms by (simp add: run_layout_def)
  ultimately show thesis by (intro that [OF h(1,2)]) (simp_all add: run_file_def Let_def)
qed

section \<open>Reading a finished run\<close>

lemma run_open_layout:
  assumes lay: "run_layout crc content blocks"
  obtains rd where "run_reader_open crc (Some content) = Inr rd" "rr_file rd = content"
    "rr_index rd = blocks_index 64 blocks" "unat (rr_index_offset rd) = 64 + length (blocks_bytes blocks)"
proof -
  let ?n = "64 + length (blocks_bytes blocks)" and ?ix = "encode_index_block (blocks_index 64 blocks)"
  from run_layout_file [OF lay] obtain h pre where h: "file_header_ok h" "fh_file_kind h = RunFile"
    and content: "content = pre @ run_footer_encode \<lparr>rf_index_offset = word_of_nat ?n, rf_file_crc32c = crc pre\<rparr>"
    and pre: "pre = file_header_encode crc h @ blocks_bytes blocks @ ?ix"
    and small: "?n + length ?ix + 20 < 2 ^ 57" by blast
  let ?f = "\<lparr>rf_index_offset = word_of_nat ?n, rf_file_crc32c = crc pre\<rparr>"
  have hlen: "length (file_header_encode crc h) = 64" using h(1) by simp
  have len: "length pre = ?n + length ?ix" by (simp add: pre hlen)
  have n: "unat (word_of_nat ?n :: u64) = ?n" using small by (simp add: unat_of_nat del: of_nat_add)
  have head: "take 64 content = file_header_encode crc h" by (simp add: content pre hlen)
  have "file_header_decode crc (file_header_encode crc h) = Inr h"
    using file_header_roundtrip [OF h(1), of crc "[]"] by simp
  then have valid: "validate_run_header crc content = Inr ()"
    using h(2) head len by (simp add: validate_run_header_def header_consts) (simp add: content)
  have "keys_sorted (concat blocks)" "[] \<notin> set blocks" using lay by (simp_all add: run_layout_def)
  then have "sorted_wrt (<) (map ri_first_key (blocks_index 64 blocks))"
    unfolding blocks_index_keys by (rule first_keys_sorted)
  then have dec: "decode_index_block ?ix = Inr (blocks_index 64 blocks)"
    using small by (intro index_block_roundtrip) simp_all
  have inc: "offsets_increasing (blocks_index 64 blocks)"
    using small by (intro offsets_increasing_blocks_index) simp
  have last: "ri_block_offset (last (blocks_index 64 blocks)) < word_of_nat ?n" if "blocks \<noteq> []"
  proof -
    have ne: "blocks_index 64 blocks \<noteq> []" using that length_blocks_index [of 64 blocks] by fastforce
    let ?m = "64 + length (blocks_bytes (butlast blocks))"
    have "ri_block_offset (last (blocks_index 64 blocks)) = word_of_nat ?m"
      using that by (simp add: last_conv_nth [OF ne] nth_blocks_index butlast_conv_take)
    moreover have "length (blocks_bytes blocks) = length (blocks_bytes (butlast blocks)) + length (encode_data_block (last blocks))"
      by (subst append_butlast_last_id [OF that, symmetric]) (simp del: append_butlast_last_id)
    then have "?m < ?n" using data_block_bounds(1) [of "last blocks"] by linarith
    ultimately show ?thesis using small n by (simp add: word_less_nat_alt unat_of_nat del: of_nat_add)
  qed
  then have last_off: "blocks = [] \<or> ri_block_offset (last (blocks_index 64 blocks)) < word_of_nat ?n" by blast
  let ?rd = "\<lparr>rr_file = content, rr_index_offset = word_of_nat ?n, rr_footer = ?f, rr_index = blocks_index 64 blocks\<rparr>"
  have clen: "length content = length pre + 20" by (simp add: content)
  have cut: "length content - RUN_FOOTER_LEN = length pre" by (simp add: clen run_consts)
  have guards: "\<not> length content < 64 + RUN_FOOTER_LEN" "\<not> length pre < ?n" using len by (simp_all add: clen run_consts)
  have parts: "drop (length pre) content = run_footer_encode ?f" "take (length pre) content = pre" by (simp_all add: content)
  have tail: "drop ?n pre = ?ix" by (simp add: pre hlen)
  have low: "\<not> (word_of_nat ?n :: u64) < 64" using n by (simp add: word_less_nat_alt)
  have nonempty: "blocks_index 64 blocks \<noteq> [] \<longleftrightarrow> blocks \<noteq> []" using length_blocks_index [of 64 blocks] by (metis length_0_conv)
  have opened: "run_reader_open crc (Some content) = Inr ?rd"
    using last_off by (simp add: run_reader_open_def valid cut guards parts header_consts Let_def n tail dec inc low nonempty
        not_le del: of_nat_add)
  show thesis by (rule that [OF opened]) (simp_all add: n del: of_nat_add)
qed

lemma run_block_at:
  assumes lay: "run_layout crc content blocks" and i: "i < length blocks"
  shows "drop (64 + length (blocks_bytes (take i blocks))) (take (64 + length (blocks_bytes (take (Suc i) blocks))) content)
    = encode_data_block (blocks ! i)"
    and "64 + length (blocks_bytes (take (Suc i) blocks)) \<le> length content"
    and "length (blocks_bytes (take (Suc i) blocks)) = length (blocks_bytes (take i blocks)) + length (encode_data_block (blocks ! i))"
proof -
  from run_layout_file [OF lay] obtain h rest where ok: "file_header_ok h"
    and "content = file_header_encode crc h @ blocks_bytes blocks @ rest" by (metis append_assoc)
  moreover have "blocks_bytes blocks = blocks_bytes (take i blocks) @ encode_data_block (blocks ! i) @ blocks_bytes (drop (Suc i) blocks)"
    by (subst id_take_nth_drop [OF i]) simp
  ultimately have c: "content = file_header_encode crc h @ blocks_bytes (take i blocks) @ encode_data_block (blocks ! i)
      @ blocks_bytes (drop (Suc i) blocks) @ rest" by simp
  show len: "length (blocks_bytes (take (Suc i) blocks)) = length (blocks_bytes (take i blocks)) + length (encode_data_block (blocks ! i))"
    by (simp add: take_Suc_conv_app_nth [OF i])
  show "drop (64 + length (blocks_bytes (take i blocks))) (take (64 + length (blocks_bytes (take (Suc i) blocks))) content)
    = encode_data_block (blocks ! i)" unfolding len using ok by (subst c) (simp add: add.assoc)
  show "64 + length (blocks_bytes (take (Suc i) blocks)) \<le> length content" unfolding len using ok by (subst c) simp
qed

lemma run_read_block:
  assumes lay: "run_layout crc content blocks" and i: "i < length blocks"
    and rd: "rr_file rd = content" "rr_index rd = blocks_index 64 blocks"
      "unat (rr_index_offset rd) = 64 + length (blocks_bytes blocks)"
  shows "read_block_entries rd i = Inr (blocks ! i)"
proof -
  note b = run_block_at [OF lay i]
  have size: "length content < 2 ^ 57" and sorted: "keys_sorted (concat blocks)" using lay by (simp_all add: run_layout_def)
  have off: "unat (word_of_nat (64 + length (blocks_bytes (take j blocks))) :: u64) = 64 + length (blocks_bytes (take j blocks))"
    if "j \<le> Suc i" for j
  proof -
    have "length (blocks_bytes (take j blocks)) \<le> length (blocks_bytes (take (Suc i) blocks))"
      using that i by (metis append_take_drop_id concat_append le_add1 length_append map_append min.absorb1 take_take)
    then show ?thesis using b(2) size by (simp add: unat_of_nat del: of_nat_add)
  qed
  have stop: "(if i + 1 < length (rr_index rd) then unat (ri_block_offset (rr_index rd ! (i + 1))) else unat (rr_index_offset rd))
      = 64 + length (blocks_bytes (take (Suc i) blocks))"
    using i off [of "Suc i"] by (simp add: rd nth_blocks_index not_less del: of_nat_add)
  have start: "unat (ri_block_offset (rr_index rd ! i)) = 64 + length (blocks_bytes (take i blocks))"
    using i off [of i] by (simp add: rd nth_blocks_index del: of_nat_add)
  have pos: "0 < length (encode_data_block (blocks ! i))" using data_block_bounds(1) [of "blocks ! i"] by linarith
  have "keys_sorted (blocks ! i)"
    using sorted by (subst (asm) id_take_nth_drop [OF i]) (simp add: sorted_wrt_append)
  moreover have "length (encode_data_block (blocks ! i)) < 2 ^ 57" using b(2,3) size by simp
  ultimately have dec: "decode_data_block (encode_data_block (blocks ! i)) = Inr (blocks ! i)"
    by (rule data_block_roundtrip)
  have "read_block_entries rd i = decode_data_block (drop (64 + length (blocks_bytes (take i blocks)))
      (take (64 + length (blocks_bytes (take (Suc i) blocks))) content))"
    unfolding read_block_entries_def Let_def stop start using i b(2,3) pos by (simp add: rd(1,2))
  then show ?thesis unfolding b(1) dec .
qed

lemma find_in_entries_map_of:
  "keys_sorted es \<Longrightarrow> find_in_entries es key = map_of (map run_kv es) key"
proof (induction es)
  case (Cons e es)
  have "map_of (map run_kv es) key = None" if "key < re_key e"
    using that Cons.prems by (force simp: map_of_eq_None_iff run_kv_def)
  then show ?case using Cons by (auto simp: run_kv_def [of e])
qed simp

lemma map_of_concat_block:
  assumes sorted: "keys_sorted (concat blocks)" and ne: "[] \<notin> set blocks" and i: "i < length blocks"
    and low: "re_key (hd (blocks ! i)) \<le> key"
    and high: "\<And>j. i < j \<Longrightarrow> j < length blocks \<Longrightarrow> key < re_key (hd (blocks ! j))"
  shows "map_of (map run_kv (concat blocks)) key = map_of (map run_kv (blocks ! i)) key"
proof -
  have hd_mem: "hd (blocks ! j) \<in> set (blocks ! j)" if "j < length blocks" for j
    using ne that nth_mem by (metis list.set_sel(1))
  have before: "map_of (map run_kv (concat (take i blocks))) key = None"
  proof -
    have "concat blocks = concat (take i blocks) @ blocks ! i @ concat (drop (Suc i) blocks)"
      by (subst id_take_nth_drop [OF i]) simp
    then have "\<forall>x \<in> set (concat (take i blocks)). \<forall>y \<in> set (blocks ! i). re_key x < re_key y"
      using sorted by (simp only: map_append sorted_wrt_append set_map set_append) blast
    then have "re_key e < re_key (hd (blocks ! i))" if "e \<in> set (concat (take i blocks))" for e
      using that hd_mem [OF i] by blast
    then show ?thesis using low by (force simp: map_of_eq_None_iff run_kv_def)
  qed
  have after: "map_of (map run_kv (concat (drop (Suc i) blocks))) key = None"
  proof -
    have "key < re_key e" if e: "e \<in> set (concat (drop (Suc i) blocks))" for e
    proof -
      from e obtain b where "b \<in> set (drop (Suc i) blocks)" "e \<in> set b" by auto
      then obtain m where "m < length blocks - Suc i" "e \<in> set (blocks ! (Suc i + m))"
        by (metis in_set_conv_nth length_drop nth_drop less_imp_le_nat Suc_leI i)
      then obtain j where j: "Suc i \<le> j" "j < length blocks" "e \<in> set (blocks ! j)" by (metis le_add1 less_diff_conv add.commute)
      have "keys_sorted (blocks ! j)"
        using sorted by (subst (asm) id_take_nth_drop [OF j(2)]) (simp add: sorted_wrt_append)
      then have "re_key (hd (blocks ! j)) \<le> re_key e" using j(3) by (cases "blocks ! j") auto
      then show ?thesis using high [of j] j by simp
    qed
    then show ?thesis by (force simp: map_of_eq_None_iff run_kv_def)
  qed
  show ?thesis
    by (subst id_take_nth_drop [OF i])
      (use before after in \<open>simp add: map_add_def map_of_append [symmetric] split: option.splits\<close>)
qed

lemma run_get_layout:
  assumes lay: "run_layout crc content blocks"
    and rd: "rr_file rd = content" "rr_index rd = blocks_index 64 blocks"
      "unat (rr_index_offset rd) = 64 + length (blocks_bytes blocks)"
  shows "run_get rd key = Inr (map_of (map run_kv (concat blocks)) key)"
proof -
  let ?ix = "blocks_index 64 blocks"
  define r where "r = block_search ?ix key 0 (length ?ix)"
  have sorted: "keys_sorted (concat blocks)" and ne: "[] \<notin> set blocks" using lay by (simp_all add: run_layout_def)
  have "sorted_wrt (<) (map ri_first_key ?ix)" unfolding blocks_index_keys by (rule first_keys_sorted [OF sorted ne])
  from block_search_correct [OF this, of 0 "length ?ix" key] have r: "r \<le> length blocks"
    and low: "\<And>i. i < r \<Longrightarrow> re_key (hd (blocks ! i)) \<le> key"
    and high: "\<And>i. r \<le> i \<Longrightarrow> i < length blocks \<Longrightarrow> key < re_key (hd (blocks ! i))"
    by (auto simp: r_def nth_blocks_index)
  show ?thesis
  proof (cases "r = 0")
    case True
    have "find_block_for_key rd key = None"
      using True by (auto simp: find_block_for_key_def rd r_def Let_def)
    moreover have "map_of (map run_kv (concat blocks)) key = None"
    proof (cases blocks)
      case (Cons b bs)
      then have "key < re_key (hd b)" using high [of 0] True by simp
      moreover have "re_key (hd b) \<le> re_key e" if "e \<in> set (concat blocks)" for e
        using that sorted ne Cons by (cases b) (fastforce intro: less_imp_le)+
      ultimately show ?thesis by (force simp: map_of_eq_None_iff run_kv_def)
    qed simp
    ultimately show ?thesis by (simp add: run_get_def)
  next
    case False
    then have i: "r - 1 < length blocks" using r by linarith
    have ix: "?ix \<noteq> []" using i by (metis length_blocks_index list.size(3) not_less_zero)
    have "find_block_for_key rd key = Some (r - 1)"
      using False ix by (simp add: find_block_for_key_def rd r_def Let_def)
    moreover have "keys_sorted (blocks ! (r - 1))"
      using sorted by (subst (asm) id_take_nth_drop [OF i]) (simp add: sorted_wrt_append)
    moreover have "map_of (map run_kv (concat blocks)) key = map_of (map run_kv (blocks ! (r - 1))) key"
      using low [of "r - 1"] high False by (intro map_of_concat_block [OF sorted ne i]) auto
    moreover note run_read_block [OF lay i rd]
    ultimately show ?thesis by (simp add: run_get_def find_in_entries_map_of)
  qed
qed

lemma run_read_all_layout:
  assumes lay: "run_layout crc content blocks"
    and rd: "rr_file rd = content" "rr_index rd = blocks_index 64 blocks"
      "unat (rr_index_offset rd) = 64 + length (blocks_bytes blocks)"
  shows "run_read_all rd = Inr (concat blocks)"
proof -
  have "read_blocks_from rd [i..<length blocks] acc = Inr (acc @ concat (drop i blocks))" if "i \<le> length blocks" for i acc
    using that
  proof (induction "length blocks - i" arbitrary: i acc)
    case (Suc n)
    then have i: "i < length blocks" by linarith
    then have "read_blocks_from rd [i..<length blocks] acc = read_blocks_from rd [Suc i..<length blocks] (acc @ blocks ! i)"
      by (simp add: upt_conv_Cons run_read_block [OF lay i rd])
    also have "\<dots> = Inr ((acc @ blocks ! i) @ concat (drop (Suc i) blocks))" using Suc i by (intro Suc.hyps) simp_all
    finally show ?case by (simp add: Cons_nth_drop_Suc [OF i, symmetric])
  qed simp
  from this [of 0 "[]"] show ?thesis by (simp add: run_read_all_def rd)
qed

section \<open>The writer's invariant\<close>

definition run_writer_inv :: "(bytes \<Rightarrow> u32) \<Rightarrow> run_writer \<Rightarrow> run_entry list \<Rightarrow> bool" where
  "run_writer_inv crc w entries \<longleftrightarrow> (\<exists>h blocks.
     file_header_ok h \<and> fh_file_kind h = RunFile \<and> rw_file w = file_header_encode crc h @ blocks_bytes blocks
     \<and> [] \<notin> set blocks \<and> concat blocks @ rw_pending_entries w = entries
     \<and> (length (rw_file w) < 2 ^ 64 \<longrightarrow>
          rw_index w = blocks_index 64 blocks \<and> rw_current_offset w = word_of_nat (length (rw_file w))))
     \<and> rw_last_key w = (if entries = [] then None else Some (re_key (last entries)))
     \<and> keys_sorted entries \<and> \<not> rw_finished w"

lemma run_create_inv: "run_writer_inv crc (run_writer_create crc now options) []"
  by (auto simp: run_writer_inv_def run_writer_create_def header_consts
      intro!: exI [of _ "file_header_new RunFile 0 now"] exI [of _ "[]"])

lemma sat_add_u64_of_nat: "n + m < 2 ^ 64 \<Longrightarrow> sat_add_u64 (word_of_nat n) m = word_of_nat (n + m)"
  by (simp add: sat_add_u64_def unat_of_nat)

lemma run_flush_inv:
  assumes "run_writer_inv crc w entries"
  shows "run_writer_inv crc (flush_pending_block w) entries" "rw_pending_entries (flush_pending_block w) = []"
proof -
  show "rw_pending_entries (flush_pending_block w) = []" by (simp add: flush_pending_block_def Let_def)
  from assms obtain h blocks where h: "file_header_ok h" "fh_file_kind h = RunFile"
    and fl: "rw_file w = file_header_encode crc h @ blocks_bytes blocks"
    and bl: "[] \<notin> set blocks" "concat blocks @ rw_pending_entries w = entries"
    and ix: "length (rw_file w) < 2 ^ 64 \<Longrightarrow>
          rw_index w = blocks_index 64 blocks \<and> rw_current_offset w = word_of_nat (length (rw_file w))"
    and rest: "rw_last_key w = (if entries = [] then None else Some (re_key (last entries)))"
      "keys_sorted entries" "\<not> rw_finished w"
    unfolding run_writer_inv_def by blast
  show "run_writer_inv crc (flush_pending_block w) entries"
  proof (cases "rw_pending_entries w = []")
    case True
    then show ?thesis using assms by (simp add: flush_pending_block_def)
  next
    case False
    let ?p = "rw_pending_entries w" and ?w = "flush_pending_block w"
    have fl': "rw_file ?w = file_header_encode crc h @ blocks_bytes (blocks @ [?p])"
      using False by (simp add: flush_pending_block_def Let_def fl)
    have "rw_index ?w = blocks_index 64 (blocks @ [?p]) \<and> rw_current_offset ?w = word_of_nat (length (rw_file ?w))"
      if "length (rw_file ?w) < 2 ^ 64"
    proof -
      have len: "length (rw_file ?w) = length (rw_file w) + length (encode_data_block ?p)" by (simp add: fl fl')
      then have "length (rw_file w) < 2 ^ 64" using that by simp
      then have "rw_index w = blocks_index 64 blocks" and cur: "rw_current_offset w = word_of_nat (length (rw_file w))"
        using ix by simp_all
      moreover have "length (rw_file w) = 64 + length (blocks_bytes blocks)" using h(1) by (simp add: fl)
      ultimately show ?thesis using False that len sat_add_u64_of_nat [of "length (rw_file w)" "length (encode_data_block ?p)"]
        by (simp add: flush_pending_block_def Let_def blocks_index_append del: of_nat_add)
    qed
    moreover have "rw_last_key ?w = rw_last_key w" "rw_finished ?w = rw_finished w" "rw_pending_entries ?w = []"
      by (simp_all add: flush_pending_block_def Let_def)
    moreover have "[] \<notin> set (blocks @ [?p])" "concat (blocks @ [?p]) @ [] = entries" using bl False by auto
    ultimately show ?thesis using h fl' rest unfolding run_writer_inv_def by metis
  qed
qed

lemma run_append_iff:
  assumes "run_writer_inv crc w entries"
  shows "(\<exists>w'. run_append w key val = Inr w') \<longleftrightarrow> (\<forall>e \<in> set entries. re_key e < key)"
    and "\<not> (\<forall>e \<in> set entries. re_key e < key) \<Longrightarrow> run_append w key val = Inl KeysNotStrictlyIncreasing"
proof -
  have last: "(\<forall>e \<in> set entries. re_key e < key) \<longleftrightarrow> (entries = [] \<or> re_key (last entries) < key)"
  proof (cases entries rule: rev_cases)
    case (snoc es e)
    have "keys_sorted entries" using assms by (simp add: run_writer_inv_def)
    then show ?thesis by (auto simp: snoc sorted_wrt_append dest: less_trans)
  qed simp
  have w: "\<not> rw_finished w" "rw_last_key w = (if entries = [] then None else Some (re_key (last entries)))"
    using assms by (simp_all add: run_writer_inv_def)
  show "(\<exists>w'. run_append w key val = Inr w') \<longleftrightarrow> (\<forall>e \<in> set entries. re_key e < key)"
    unfolding last by (auto simp: run_append_def w Let_def)
  show "run_append w key val = Inl KeysNotStrictlyIncreasing" if "\<not> (\<forall>e \<in> set entries. re_key e < key)"
    using that unfolding last by (simp add: run_append_def w not_less)
qed

lemma run_append_inv:
  assumes inv: "run_writer_inv crc w entries" and app: "run_append w key val = Inr w'"
  shows "run_writer_inv crc w' (entries @ [\<lparr>re_key = key, re_value = val\<rparr>])"
proof -
  let ?e = "\<lparr>re_key = key, re_value = val\<rparr>"
  let ?w = "w\<lparr>rw_pending_bytes := sat_add_usize (rw_pending_bytes w) (estimate_entry_bytes key val),
              rw_pending_entries := rw_pending_entries w @ [?e], rw_last_key := Some key,
              rw_entry_count := sat_add_usize (rw_entry_count w) 1\<rparr>"
  have less: "\<forall>e \<in> set entries. re_key e < key" using run_append_iff(1) [OF inv] app by blast
  from inv have sorted: "keys_sorted (entries @ [?e])" using less by (simp add: run_writer_inv_def sorted_wrt_append)
  from inv obtain h blocks where "file_header_ok h" "fh_file_kind h = RunFile"
    "rw_file ?w = file_header_encode crc h @ blocks_bytes blocks"
    "[] \<notin> set blocks" "concat blocks @ rw_pending_entries ?w = entries @ [?e]"
    "length (rw_file ?w) < 2 ^ 64 \<longrightarrow>
          rw_index ?w = blocks_index 64 blocks \<and> rw_current_offset ?w = word_of_nat (length (rw_file ?w))"
    unfolding run_writer_inv_def by (clarsimp simp del: of_nat_add)
  moreover have "rw_last_key ?w = (if entries @ [?e] = [] then None else Some (re_key (last (entries @ [?e]))))" "\<not> rw_finished ?w"
    using inv by (simp_all add: run_writer_inv_def)
  ultimately have "run_writer_inv crc ?w (entries @ [?e])"
    using sorted unfolding run_writer_inv_def by blast
  moreover have "w' = (if max (ro_target_block_size (rw_options ?w)) 256 \<le> rw_pending_bytes ?w then flush_pending_block ?w else ?w)"
    using app by (auto simp: run_append_def Let_def split: if_splits)
  ultimately show ?thesis using run_flush_inv(1) by simp
qed

fun run_append_all :: "run_writer \<Rightarrow> (bytes \<times> bytes) list \<Rightarrow> run_error + run_writer" where
  "run_append_all w [] = Inr w"
| "run_append_all w ((key, val) # kvs) = bindE (run_append w key val) (\<lambda>w. run_append_all w kvs)"

text \<open>Writing a whole run: create, append every pair, finish.\<close>

definition run_write ::
    "(bytes \<Rightarrow> u32) \<Rightarrow> u64 \<Rightarrow> run_writer_options \<Rightarrow> (bytes \<times> bytes) list \<Rightarrow> run_error + run_metadata \<times> bytes" where
  "run_write crc now options kvs =
     bindE (run_append_all (run_writer_create crc now options) kvs) (\<lambda>w. run_finish crc w)"

definition of_kv :: "bytes \<times> bytes \<Rightarrow> run_entry" where
  "of_kv p = \<lparr>re_key = fst p, re_value = snd p\<rparr>"

lemma run_kv_of_kv [simp]: "run_kv (of_kv p) = p" "re_key (of_kv p) = fst p"
  by (simp_all add: run_kv_def of_kv_def)

lemma run_append_all_inv:
  assumes "run_writer_inv crc w entries" and "run_append_all w kvs = Inr w'"
  shows "run_writer_inv crc w' (entries @ map of_kv kvs)"
  using assms
proof (induction kvs arbitrary: w entries)
  case (Cons p kvs)
  obtain k v where p: "p = (k, v)" by (cases p)
  with Cons.prems obtain w1 where "run_append w k v = Inr w1" and rec: "run_append_all w1 kvs = Inr w'"
    by (auto simp: bindE_eq_Inr)
  then have "run_writer_inv crc w1 (entries @ [\<lparr>re_key = k, re_value = v\<rparr>])" using Cons.prems run_append_inv by blast
  from Cons.IH [OF this rec] show ?case by (simp add: p of_kv_def)
qed simp

lemma run_append_all_sorted:
  assumes "run_writer_inv crc w entries"
  shows "(\<exists>w'. run_append_all w kvs = Inr w') \<longleftrightarrow> keys_sorted (entries @ map of_kv kvs)"
    and "\<not> keys_sorted (entries @ map of_kv kvs) \<Longrightarrow> run_append_all w kvs = Inl KeysNotStrictlyIncreasing"
proof -
  have "if keys_sorted (entries @ map of_kv kvs) then \<exists>w'. run_append_all w kvs = Inr w'
        else run_append_all w kvs = Inl KeysNotStrictlyIncreasing"
    using assms
  proof (induction kvs arbitrary: w entries)
    case Nil
    then show ?case by (simp add: run_writer_inv_def)
  next
    case (Cons p kvs)
    obtain k v where p: "p = (k, v)" by (cases p)
    show ?case
    proof (cases "\<forall>e \<in> set entries. re_key e < k")
      case True
      then obtain w1 where w1: "run_append w k v = Inr w1" using run_append_iff(1) [OF Cons.prems] by blast
      have "entries @ map of_kv (p # kvs) = (entries @ [\<lparr>re_key = k, re_value = v\<rparr>]) @ map of_kv kvs"
        by (simp add: p of_kv_def)
      then show ?thesis using Cons.IH [OF run_append_inv [OF Cons.prems w1]] w1 by (simp add: p)
    next
      case False
      then have "\<not> keys_sorted (entries @ map of_kv (p # kvs))" by (auto simp: sorted_wrt_append p)
      then show ?thesis using run_append_iff(2) [OF Cons.prems False] by (simp add: p)
    qed
  qed
  then show "(\<exists>w'. run_append_all w kvs = Inr w') \<longleftrightarrow> keys_sorted (entries @ map of_kv kvs)"
    "\<not> keys_sorted (entries @ map of_kv kvs) \<Longrightarrow> run_append_all w kvs = Inl KeysNotStrictlyIncreasing"
    by (auto split: if_splits)
qed

lemma run_finish_layout:
  assumes inv: "run_writer_inv crc w entries" and fin: "run_finish crc w = Inr (meta, content)"
    and small: "length content < 2 ^ 57"
  shows "\<exists>blocks. run_layout crc content blocks \<and> concat blocks = entries"
proof -
  let ?w = "flush_pending_block w"
  note inv' = run_flush_inv [OF inv]
  from inv'(1) obtain h blocks where h: "file_header_ok h" "fh_file_kind h = RunFile"
    and fl: "rw_file ?w = file_header_encode crc h @ blocks_bytes blocks"
    and bl: "[] \<notin> set blocks" "concat blocks = entries"
    and ix: "length (rw_file ?w) < 2 ^ 64 \<Longrightarrow>
          rw_index ?w = blocks_index 64 blocks \<and> rw_current_offset ?w = word_of_nat (length (rw_file ?w))"
    and sorted: "keys_sorted entries"
    unfolding run_writer_inv_def inv'(2) by auto
  have content: "content = (rw_file ?w @ encode_index_block (rw_index ?w)) @ run_footer_encode
      \<lparr>rf_index_offset = rw_current_offset ?w, rf_file_crc32c = crc (rw_file ?w @ encode_index_block (rw_index ?w))\<rparr>"
    using fin by (simp add: run_finish_def Let_def split: if_splits)
  then have "length (rw_file ?w) < 2 ^ 64" using small by simp
  from ix [OF this] h(1) have "content = run_file crc h blocks"
    by (simp add: content run_file_def fl Let_def)
  then show ?thesis using h bl sorted small unfolding run_layout_def by blast
qed

lemma run_finish_Inr: "run_writer_inv crc w entries \<Longrightarrow> \<exists>meta content. run_finish crc w = Inr (meta, content)"
  by (simp add: run_finish_def run_writer_inv_def Let_def)

lemma run_write_Inr_iff:
  "(\<exists>r. run_write crc now options kvs = Inr r) \<longleftrightarrow> bt_ok kvs"
  "\<not> bt_ok kvs \<Longrightarrow> run_write crc now options kvs = Inl KeysNotStrictlyIncreasing"
proof -
  let ?w = "run_writer_create crc now options"
  have sorted: "keys_sorted ([] @ map of_kv kvs) \<longleftrightarrow> bt_ok kvs" by (simp add: bt_ok_def comp_def)
  have inv: "run_writer_inv crc ?w []" by (rule run_create_inv)
  note a = run_append_all_sorted [OF inv, of kvs, unfolded sorted]
  show "(\<exists>r. run_write crc now options kvs = Inr r) \<longleftrightarrow> bt_ok kvs"
    using a(1) run_append_all_inv [OF inv] run_finish_Inr
    unfolding run_write_def bindE_eq_Inr by blast
  show "run_write crc now options kvs = Inl KeysNotStrictlyIncreasing" if "\<not> bt_ok kvs"
    using a(2) [OF that] by (simp add: run_write_def)
qed

lemma run_write_layout:
  assumes "run_write crc now options kvs = Inr (meta, content)" and "length content < 2 ^ 57"
  shows "\<exists>blocks. run_layout crc content blocks \<and> concat blocks = map of_kv kvs"
proof -
  from assms(1) obtain w where w: "run_append_all (run_writer_create crc now options) kvs = Inr w"
    and fin: "run_finish crc w = Inr (meta, content)" by (auto simp: run_write_def bindE_eq_Inr)
  from run_append_all_inv [OF run_create_inv w] have "run_writer_inv crc w (map of_kv kvs)" by simp
  from run_finish_layout [OF this fin assms(2)] show ?thesis .
qed

text \<open>
  (C15) A sorted run is an immutable map. Writing pairs with strictly increasing keys succeeds, and
  opening the file that was written (of less than 128 PiB) gives a reader that scans back exactly
  those pairs and whose point lookup, for every key, returns what the pairs say.
\<close>

theorem run_write_read:
  assumes "run_write crc now options kvs = Inr (meta, content)" and "length content < 2 ^ 57"
  shows "\<exists>rd. run_reader_open crc (Some content) = Inr rd
     \<and> (\<exists>es. run_read_all rd = Inr es \<and> map (\<lambda>e. (re_key e, re_value e)) es = kvs)
     \<and> (\<forall>key. run_get rd key = Inr (map_of kvs key))"
proof -
  from run_write_layout [OF assms] obtain blocks where lay: "run_layout crc content blocks"
    and kvs: "concat blocks = map of_kv kvs" by blast
  obtain rd where opened: "run_reader_open crc (Some content) = Inr rd" and rd: "rr_file rd = content"
    "rr_index rd = blocks_index 64 blocks" "unat (rr_index_offset rd) = 64 + length (blocks_bytes blocks)"
    by (rule run_open_layout [OF lay])
  have "map run_kv (concat blocks) = kvs" by (simp add: kvs comp_def)
  then have "map (\<lambda>e. (re_key e, re_value e)) (concat blocks) = kvs" by (simp add: run_kv_def cong: map_cong)
  with run_get_layout [OF lay rd] run_read_all_layout [OF lay rd] opened \<open>map run_kv (concat blocks) = kvs\<close>
  show ?thesis by simp
qed

text \<open>
  Keys must be appended in strictly increasing order: writing a run succeeds exactly when the
  keys are strictly increasing, and otherwise fails with the error for that case.
\<close>

theorem run_write_sorted:
  "run_write crc now options kvs = Inl KeysNotStrictlyIncreasing \<and> \<not> sorted_wrt (<) (map fst kvs)
   \<or> (\<exists>meta content. run_write crc now options kvs = Inr (meta, content) \<and> sorted_wrt (<) (map fst kvs))"
  using run_write_Inr_iff [where crc = crc and now = now and options = options and kvs = kvs] by (fastforce simp: bt_ok_def)

theorem run_write_read_witness:
  "\<exists>meta content rd. run_write (\<lambda>_. 7) 3 run_writer_options_default [([1], [2]), ([1, 0], [])] = Inr (meta, content)
     \<and> run_reader_open (\<lambda>_. 7) (Some content) = Inr rd \<and> run_get rd [1, 0] = Inr (Some [])
     \<and> run_get rd [2] = Inr None"
proof -
  let ?kvs = "[([1], [2]), ([1, 0], [])] :: (bytes \<times> bytes) list"
  have "bt_ok ?kvs" by (simp add: bt_ok_def)
  then obtain meta content where w: "run_write (\<lambda>_. 7) 3 run_writer_options_default ?kvs = Inr (meta, content)"
    using run_write_Inr_iff(1) by fastforce
  moreover have "length content < 2 ^ 57"
    using w length_encode_varu_le [of 1] length_encode_varu_le [of 2] length_encode_varu_le [of 0]
    by (auto simp: run_write_def run_writer_create_def run_append_def run_finish_def flush_pending_block_def Let_def
        estimate_entry_bytes_def sat_add_usize_def run_writer_options_default_def encode_data_block_def encode_index_block_def)
  ultimately show ?thesis using run_write_read [OF w] by auto
qed

section \<open>The contract of a sorted map file\<close>

text \<open>
  What the clients of a run rely on: a strictly sorted association list can be written, and the
  file (when it is of admissible size) answers lookups and scans as the list does.
\<close>

locale sorted_map_file =
  fixes put_all :: "('k::linorder \<times> 'v) list \<Rightarrow> 'e + 'm \<times> 'f"
    and lookup :: "'f \<Rightarrow> 'k \<Rightarrow> 'e + 'v option"
    and scan :: "'f \<Rightarrow> 'e + ('k \<times> 'v) list"
    and admissible :: "'f \<Rightarrow> bool"
  assumes write_sorted: "bt_ok m \<Longrightarrow> \<exists>meta f. put_all m = Inr (meta, f)"
    and lookup_write: "\<lbrakk>put_all m = Inr (meta, f); admissible f\<rbrakk> \<Longrightarrow> lookup f k = Inr (map_of m k)"
    and scan_write: "\<lbrakk>put_all m = Inr (meta, f); admissible f\<rbrakk> \<Longrightarrow> scan f = Inr m"
begin

lemma lookup_updated:
  "\<lbrakk>bt_ok m; put_all (bt_insert k v m) = Inr (meta, f); admissible f\<rbrakk> \<Longrightarrow>
     lookup f k' = Inr (if k' = k then Some v else map_of m k')"
  by (simp add: lookup_write)

end

definition run_lookup :: "(bytes \<Rightarrow> u32) \<Rightarrow> bytes \<Rightarrow> bytes \<Rightarrow> run_error + bytes option" where
  "run_lookup crc content key = bindE (run_reader_open crc (Some content)) (\<lambda>rd. run_get rd key)"

definition run_scan :: "(bytes \<Rightarrow> u32) \<Rightarrow> bytes \<Rightarrow> run_error + (bytes \<times> bytes) list" where
  "run_scan crc content =
     bindE (run_reader_open crc (Some content)) (\<lambda>rd. bindE (run_read_all rd) (\<lambda>es. Inr (map run_kv es)))"

definition run_size_ok :: "bytes \<Rightarrow> bool" where
  "run_size_ok content \<longleftrightarrow> length content < 2 ^ 57"

lemma run_lookup_scan:
  assumes "run_write crc now options kvs = Inr (meta, content)" and "run_size_ok content"
  shows "run_lookup crc content key = Inr (map_of kvs key)" "run_scan crc content = Inr kvs"
proof -
  from run_write_layout [OF assms(1)] assms(2) obtain blocks where lay: "run_layout crc content blocks"
    and kvs: "concat blocks = map of_kv kvs" by (auto simp: run_size_ok_def)
  obtain rd where opened: "run_reader_open crc (Some content) = Inr rd" and rd: "rr_file rd = content"
    "rr_index rd = blocks_index 64 blocks" "unat (rr_index_offset rd) = 64 + length (blocks_bytes blocks)"
    by (rule run_open_layout [OF lay])
  have "map run_kv (concat blocks) = kvs" by (simp add: kvs comp_def)
  then show "run_lookup crc content key = Inr (map_of kvs key)" "run_scan crc content = Inr kvs"
    using run_get_layout [OF lay rd] run_read_all_layout [OF lay rd] opened
    by (simp_all add: run_lookup_def run_scan_def)
qed

interpretation run_map: sorted_map_file "run_write crc now options" "run_lookup crc" "run_scan crc" run_size_ok
  for crc now options
  by unfold_locales (use run_write_Inr_iff(1) run_lookup_scan in fastforce)+

end
