(* ===== verification/Simple_Lsm.thy ===== *)
theory Simple_Lsm
  imports Sorted_Run
begin

text \<open>
  The level-0 LSM (\<open>run.rs\<close>, \<open>SimpleLsm\<close>): a memtable in memory and immutable runs on disk, read
  newest first. The directory is the list of its files, name and content, in the order \<open>read_dir\<close>
  returns them; a path is the name of a file in the directory. Every run is stamped with a time, a
  parameter of the operations that write.
\<close>

section \<open>Run file names\<close>

text \<open>
  The parts of a file name as \<open>Path\<close> defines them: the extension is what follows the last dot,
  unless there is no dot or the only dot is the first character.
\<close>

definition file_extension :: "string \<Rightarrow> string option" where
  "file_extension name =
     (if CHR ''.'' \<in> set (tl name) then Some (rev (takeWhile (\<lambda>c. c \<noteq> CHR ''.'') (rev name))) else None)"

definition file_stem :: "string \<Rightarrow> string" where
  "file_stem name =
     (if CHR ''.'' \<in> set (tl name) then rev (drop 1 (dropWhile (\<lambda>c. c \<noteq> CHR ''.'') (rev name))) else name)"

definition is_digit :: "char \<Rightarrow> bool" where
  "is_digit c \<longleftrightarrow> 48 \<le> (of_char c :: nat) \<and> (of_char c :: nat) \<le> 57"

definition digit_value :: "char \<Rightarrow> nat" where
  "digit_value c = of_char c - 48"

definition decimal_value :: "string \<Rightarrow> nat" where
  "decimal_value s = foldl (\<lambda>v c. v * 10 + digit_value c) 0 s"

text \<open>\<open>str::parse::<u32>\<close>: an optional plus sign, at least one digit, no overflow.\<close>

definition parse_u32 :: "string \<Rightarrow> u32 option" where
  "parse_u32 s =
     (let digits = (if s \<noteq> [] \<and> hd s = CHR ''+'' then tl s else s) in
      if digits \<noteq> [] \<and> (\<forall>c \<in> set digits. is_digit c) \<and> decimal_value digits < 2 ^ 32
      then Some (word_of_nat (decimal_value digits)) else None)"

definition parse_run_id :: "string \<Rightarrow> run_error + u32" where
  "parse_run_id name =
     (let stem = file_stem name in
      if take 4 stem \<noteq> ''run-'' then Inl InvalidRunFileName
      else case parse_u32 (drop 4 stem) of None \<Rightarrow> Inl InvalidRunFileName | Some i \<Rightarrow> Inr i)"

fun decimal_digits :: "nat \<Rightarrow> string" where
  "decimal_digits n = (if n < 10 then [char_of (48 + n)] else decimal_digits (n div 10) @ [char_of (48 + n mod 10)])"

declare decimal_digits.simps [simp del]

definition run_file_name :: "u32 \<Rightarrow> string" where
  "run_file_name run_id =
     (let d = decimal_digits (unat run_id) in ''run-'' @ replicate (6 - length d) CHR ''0'' @ d @ ''.run'')"

section \<open>State and operations\<close>

type_synonym run_dir = "(string \<times> bytes) list"

record lsm_config =
  lc_target_block_size :: nat
  lc_memtable_max_entries :: nat

definition lsm_config_default :: lsm_config where
  "lsm_config_default = \<lparr>lc_target_block_size = 4 * 1024, lc_memtable_max_entries = 64\<rparr>"

record simple_lsm =
  lsm_dir :: run_dir
  lsm_cfg :: lsm_config
  lsm_memtable :: "(bytes \<times> bytes) list"
  lsm_level0_runs :: "string list"
  lsm_next_run_id :: u32

fun discover_runs :: "run_dir \<Rightarrow> (u32 \<times> string) list \<Rightarrow> run_error + (u32 \<times> string) list" where
  "discover_runs [] discovered = Inr discovered"
| "discover_runs ((name, content) # entries) discovered =
     (if file_extension name \<noteq> Some ''run'' then discover_runs entries discovered
      else bindE (parse_run_id name) (\<lambda>run_id. discover_runs entries (discovered @ [(run_id, name)])))"

definition lsm_open :: "run_dir \<Rightarrow> lsm_config \<Rightarrow> run_error + simple_lsm" where
  "lsm_open dir config =
     bindE (discover_runs dir []) (\<lambda>discovered.
     let discovered = sort_key fst discovered in
     bindE (if discovered = [] then Inr 1
            else if fst (last discovered) = - 1 then Inl RunPanic
            else Inr (fst (last discovered) + 1)) (\<lambda>next_run_id.
     Inr \<lparr>lsm_dir = dir, lsm_cfg = config, lsm_memtable = [], lsm_level0_runs = map snd discovered,
          lsm_next_run_id = next_run_id\<rparr>))"

text \<open>Creating a file: an existing one of that name is truncated, a new one is added.\<close>

definition dir_write :: "string \<Rightarrow> bytes \<Rightarrow> run_dir \<Rightarrow> run_dir" where
  "dir_write name content dir =
     (if name \<in> fst ` set dir then AList.update name content dir else dir @ [(name, content)])"

definition lsm_flush_memtable ::
    "(bytes \<Rightarrow> u32) \<Rightarrow> u64 \<Rightarrow> simple_lsm \<Rightarrow> run_error + string option \<times> simple_lsm" where
  "lsm_flush_memtable crc now s =
     (if lsm_memtable s = [] then Inr (None, s)
      else let path = run_file_name (lsm_next_run_id s) in
      bindE (run_append_all (run_writer_create crc now \<lparr>ro_target_block_size = lc_target_block_size (lsm_cfg s)\<rparr>)
               (lsm_memtable s)) (\<lambda>writer.
      bindE (run_finish crc writer) (\<lambda>(_, content).
      Inr (Some path, s\<lparr>lsm_dir := dir_write path content (lsm_dir s), lsm_memtable := [],
                        lsm_level0_runs := lsm_level0_runs s @ [path],
                        lsm_next_run_id := (if lsm_next_run_id s = - 1 then - 1 else lsm_next_run_id s + 1)\<rparr>))))"

definition lsm_put ::
    "(bytes \<Rightarrow> u32) \<Rightarrow> u64 \<Rightarrow> simple_lsm \<Rightarrow> bytes \<Rightarrow> bytes \<Rightarrow> run_error + string option \<times> simple_lsm" where
  "lsm_put crc now s key val =
     (let s = s\<lparr>lsm_memtable := bt_insert key val (lsm_memtable s)\<rparr> in
      if 0 < lc_memtable_max_entries (lsm_cfg s) \<and> lc_memtable_max_entries (lsm_cfg s) \<le> length (lsm_memtable s)
      then lsm_flush_memtable crc now s
      else Inr (None, s))"

text \<open>The loop over the runs, given the lookup of one run.\<close>

fun level0_search :: "('p \<Rightarrow> 'k \<Rightarrow> 'e + 'v option) \<Rightarrow> 'p list \<Rightarrow> 'k \<Rightarrow> 'e + 'v option" where
  "level0_search lookup [] key = Inr None"
| "level0_search lookup (path # paths) key =
     bindE (lookup path key) (\<lambda>found.
     case found of Some v \<Rightarrow> Inr (Some v) | None \<Rightarrow> level0_search lookup paths key)"

definition lsm_run_get :: "(bytes \<Rightarrow> u32) \<Rightarrow> run_dir \<Rightarrow> string \<Rightarrow> bytes \<Rightarrow> run_error + bytes option" where
  "lsm_run_get crc dir path key =
     bindE (run_reader_open crc (map_of dir path)) (\<lambda>reader. run_get reader key)"

definition lsm_get :: "(bytes \<Rightarrow> u32) \<Rightarrow> simple_lsm \<Rightarrow> bytes \<Rightarrow> run_error + bytes option" where
  "lsm_get crc s key =
     (case map_of (lsm_memtable s) key of
        Some val \<Rightarrow> Inr (Some val)
      | None \<Rightarrow> level0_search (lsm_run_get crc (lsm_dir s)) (rev (lsm_level0_runs s)) key)"

section \<open>Run file names round trip\<close>

lemma digit_char: "d < 10 \<Longrightarrow> is_digit (char_of (48 + d)) \<and> digit_value (char_of (48 + d)) = d"
  by (simp add: is_digit_def digit_value_def)

lemma decimal_value_snoc: "decimal_value (s @ [c]) = decimal_value s * 10 + digit_value c"
  by (simp add: decimal_value_def)

lemma decimal_digits_correct:
  "decimal_value (decimal_digits n) = n \<and> (\<forall>c \<in> set (decimal_digits n). is_digit c) \<and> decimal_digits n \<noteq> []"
proof (induction n rule: less_induct)
  case (less n)
  show ?case
  proof (cases "n < 10")
    case True
    then have "decimal_digits n = [char_of (48 + n)]" by (subst decimal_digits.simps) simp
    then show ?thesis using digit_char [OF True] by (simp add: decimal_value_def)
  next
    case False
    then have eq: "decimal_digits n = decimal_digits (n div 10) @ [char_of (48 + n mod 10)]"
      by (subst decimal_digits.simps) simp
    have "n div 10 < n" "n mod 10 < 10" using False by simp_all
    with less digit_char show ?thesis unfolding eq decimal_value_snoc by auto
  qed
qed

lemma decimal_value_zeros: "decimal_value (replicate k CHR ''0'' @ s) = decimal_value s"
  by (induction k) (simp_all add: decimal_value_def digit_value_def)

lemma parse_u32_digits:
  "\<lbrakk>s \<noteq> []; \<forall>c \<in> set s. is_digit c; decimal_value s < 2 ^ 32\<rbrakk> \<Longrightarrow> parse_u32 s = Some (word_of_nat (decimal_value s))"
  by (cases s) (auto simp: parse_u32_def Let_def is_digit_def)

lemma run_file_name_parts:
  "file_extension (run_file_name i) = Some ''run''"
  "file_stem (run_file_name i) = ''run-'' @ replicate (6 - length (decimal_digits (unat i))) CHR ''0'' @ decimal_digits (unat i)"
  by (simp_all add: file_extension_def file_stem_def run_file_name_def Let_def)

lemma parse_run_id_name: "parse_run_id (run_file_name i) = Inr i"
proof -
  let ?d = "decimal_digits (unat i)" and ?z = "replicate (6 - length (decimal_digits (unat i))) CHR ''0''"
  have v: "decimal_value (?z @ ?d) = unat i" using decimal_digits_correct by (simp add: decimal_value_zeros)
  have "is_digit CHR ''0''" by (simp add: is_digit_def)
  then have "\<forall>c \<in> set (?z @ ?d). is_digit c" using decimal_digits_correct [of "unat i"] by auto
  moreover have "unat i < 2 ^ 32" by (rule unat_lt_u32)
  ultimately have "parse_u32 (?z @ ?d) = Some (word_of_nat (decimal_value (?z @ ?d)))"
    using decimal_digits_correct [of "unat i"] by (intro parse_u32_digits) (simp_all add: v del: replicate_append_same)
  then show ?thesis by (simp add: parse_run_id_def run_file_name_parts v)
qed

section \<open>Newest run first\<close>

context sorted_map_file
begin

lemma newest_run_shadows:
  assumes "put_all m = Inr (meta, f)" and "admissible f" and "look p = lookup f"
    and "level0_search look ps k = Inr (older k)"
  shows "level0_search look (p # ps) k = Inr ((older ++ map_of m) k)"
  using assms by (auto simp: lookup_write map_add_def split: option.splits)

end

lemma level0_search_cong:
  "(\<And>p. p \<in> set ps \<Longrightarrow> look p = look' p) \<Longrightarrow> level0_search look ps k = level0_search look' ps k"
proof (induction ps)
  case (Cons p ps)
  then have "level0_search look ps k = level0_search look' ps k" "look p = look' p" by simp_all
  then show ?case by (auto intro!: bindE_cong split: option.splits)
qed simp

section \<open>The directory\<close>

lemma discover_runs_append:
  "discover_runs (xs @ ys) acc = bindE (discover_runs xs acc) (discover_runs ys)"
  by (induction xs acc rule: discover_runs.induct) (auto intro!: bindE_cong simp: bindE_def split: sum.splits)

lemma discover_runs_Inr:
  assumes "discover_runs dir acc = Inr ds" and "(name, content) \<in> set dir" and "file_extension name = Some ''run''"
  shows "\<exists>i. parse_run_id name = Inr i \<and> (i, name) \<in> set ds"
proof -
  have mono: "discover_runs dir acc = Inr ds \<Longrightarrow> set acc \<subseteq> set ds" for dir acc ds
    by (induction dir acc rule: discover_runs.induct) (auto simp: bindE_eq_Inr split: if_splits)
  show ?thesis using assms
  proof (induction dir acc rule: discover_runs.induct)
    case (2 n c entries discovered)
    then show ?case using mono [of entries "discovered @ [(_, n)]" ds]
      by (auto simp: bindE_eq_Inr split: if_splits)
  qed simp
qed

lemma discover_runs_names:
  "discover_runs dir acc = Inr ds \<Longrightarrow> snd ` set ds \<subseteq> snd ` set acc \<union> fst ` set dir"
proof (induction dir acc rule: discover_runs.induct)
  case (2 n c entries discovered)
  show ?case
  proof (cases "file_extension n = Some ''run''")
    case True
    with 2 obtain i where "parse_run_id n = Inr i" "discover_runs entries (discovered @ [(i, n)]) = Inr ds"
      by (auto simp: bindE_eq_Inr)
    then show ?thesis using 2(2) [OF _ \<open>parse_run_id n = Inr i\<close>] True by auto
  next
    case False
    then show ?thesis using 2(1,3) by auto
  qed
qed simp

lemma sort_key_snoc_max:
  "\<forall>y \<in> set xs. f y \<le> f x \<Longrightarrow> sort_key f (xs @ [x]) = sort_key f xs @ [x]"
proof (induction xs)
  case (Cons y xs)
  have "insort_key f y (zs @ [x]) = insort_key f y zs @ [x]" if "f y \<le> f x" for zs
    using that by (induction zs) simp_all
  then show ?case using Cons by simp
qed simp

lemma sort_key_Nil_iff [simp]: "sort_key f xs = [] \<longleftrightarrow> xs = []"
  by (metis length_0_conv length_sort)

lemma sorted_last_le: "\<lbrakk>x \<in> set xs; sorted (map f xs)\<rbrakk> \<Longrightarrow> f x \<le> f (last xs)"
  by (induction xs) auto

lemma less_plus_one_u32: "(w :: u32) \<noteq> - 1 \<Longrightarrow> w < w + 1"
proof -
  assume "w \<noteq> - 1"
  then have "1 + w \<noteq> 0" by (metis add.commute add_eq_0_iff)
  then have "unat (1 + w) = Suc (unat w)" by (rule unatSuc)
  then show ?thesis by (simp add: word_less_nat_alt add.commute)
qed

section \<open>The invariant of the store\<close>

definition lsm_inv :: "simple_lsm \<Rightarrow> bool" where
  "lsm_inv s \<longleftrightarrow>
     bt_ok (lsm_memtable s) \<and> distinct (map fst (lsm_dir s))
     \<and> (lsm_next_run_id s \<noteq> - 1 \<longrightarrow> (\<exists>ds. discover_runs (lsm_dir s) [] = Inr ds
          \<and> lsm_level0_runs s = map snd (sort_key fst ds)
          \<and> lsm_next_run_id s = (if ds = [] then 1 else fst (last (sort_key fst ds)) + 1)
          \<and> (\<forall>d \<in> set ds. fst d < lsm_next_run_id s)))"

text \<open>What the runs say, whatever is in the memtable.\<close>

definition lsm_runs_hold :: "(bytes \<Rightarrow> u32) \<Rightarrow> simple_lsm \<Rightarrow> (bytes \<rightharpoonup> bytes) \<Rightarrow> bool" where
  "lsm_runs_hold crc s m \<longleftrightarrow>
     (\<forall>k. level0_search (lsm_run_get crc (lsm_dir s)) (rev (lsm_level0_runs s)) k = Inr (m k))"

lemma lsm_get_runs_hold:
  "lsm_runs_hold crc s m \<Longrightarrow> lsm_get crc s k = Inr ((m ++ map_of (lsm_memtable s)) k)"
  by (auto simp: lsm_get_def lsm_runs_hold_def map_add_def split: option.splits)

lemma lsm_open_inv:
  assumes opened: "lsm_open dir config = Inr s" and dist: "distinct (map fst dir)"
  shows "lsm_inv s" "lsm_dir s = dir" "lsm_cfg s = config" "lsm_memtable s = []"
proof -
  from opened obtain ds where ds: "discover_runs dir [] = Inr ds"
    and s: "s = \<lparr>lsm_dir = dir, lsm_cfg = config, lsm_memtable = [], lsm_level0_runs = map snd (sort_key fst ds),
          lsm_next_run_id = (if ds = [] then 1 else fst (last (sort_key fst ds)) + 1)\<rparr>"
    and max: "ds \<noteq> [] \<longrightarrow> fst (last (sort_key fst ds)) \<noteq> - 1"
    unfolding lsm_open_def Let_def bindE_eq_Inr by (auto simp: sort_key_Nil_iff split: if_splits)
  show "lsm_dir s = dir" "lsm_cfg s = config" "lsm_memtable s = []" by (simp_all add: s)
  have "fst d < fst (last (sort_key fst ds)) + 1" if d: "d \<in> set ds" for d
  proof -
    let ?l = "sort_key fst ds"
    have "d \<in> set ?l" "?l \<noteq> []" "ds \<noteq> []" using d by (auto simp: sort_key_Nil_iff)
    moreover have "sorted (map fst ?l)" by (rule sorted_sort_key)
    ultimately have "fst d \<le> fst (last ?l)" by (intro sorted_last_le)
    moreover have "fst (last ?l) < fst (last ?l) + 1" using max \<open>ds \<noteq> []\<close> by (intro less_plus_one_u32) simp
    ultimately show ?thesis by simp
  qed
  then show "lsm_inv s" using ds dist unfolding lsm_inv_def s by auto
qed


lemma lsm_flush_Inr:
  assumes "lsm_inv s"
  shows "\<exists>p s'. lsm_flush_memtable crc now s = Inr (p, s')"
proof -
  let ?opt = "\<lparr>ro_target_block_size = lc_target_block_size (lsm_cfg s)\<rparr>"
  have "bt_ok (lsm_memtable s)" using assms by (simp add: lsm_inv_def)
  then obtain meta content where "run_write crc now ?opt (lsm_memtable s) = Inr (meta, content)"
    using run_map.write_sorted by blast
  then show ?thesis by (auto simp: lsm_flush_memtable_def Let_def run_write_def bindE_eq_Inr)
qed

lemma lsm_flush_cases:
  assumes "lsm_flush_memtable crc now s = Inr (p, s')" and "lsm_memtable s \<noteq> []"
  obtains meta content where
    "run_write crc now \<lparr>ro_target_block_size = lc_target_block_size (lsm_cfg s)\<rparr> (lsm_memtable s) = Inr (meta, content)"
    "p = Some (run_file_name (lsm_next_run_id s))"
    "s' = s\<lparr>lsm_dir := dir_write (run_file_name (lsm_next_run_id s)) content (lsm_dir s), lsm_memtable := [],
            lsm_level0_runs := lsm_level0_runs s @ [run_file_name (lsm_next_run_id s)],
            lsm_next_run_id := (if lsm_next_run_id s = - 1 then - 1 else lsm_next_run_id s + 1)\<rparr>"
  using assms by (auto simp: lsm_flush_memtable_def Let_def run_write_def bindE_eq_Inr)

text \<open>The name of the next run is new in the directory.\<close>

lemma next_run_name_new:
  assumes "lsm_inv s" and "lsm_next_run_id s \<noteq> - 1"
  shows "run_file_name (lsm_next_run_id s) \<notin> fst ` set (lsm_dir s)"
proof
  let ?n = "run_file_name (lsm_next_run_id s)"
  assume "?n \<in> fst ` set (lsm_dir s)"
  then obtain c where "(?n, c) \<in> set (lsm_dir s)" by auto
  moreover from assms obtain ds where ds: "discover_runs (lsm_dir s) [] = Inr ds" "\<forall>d \<in> set ds. fst d < lsm_next_run_id s"
    by (auto simp: lsm_inv_def)
  ultimately have "(lsm_next_run_id s, ?n) \<in> set ds"
    using discover_runs_Inr [OF ds(1), of ?n c] by (simp add: run_file_name_parts parse_run_id_name)
  then show False using ds(2) by fastforce
qed

lemma distinct_dir_write: "distinct (map fst dir) \<Longrightarrow> distinct (map fst (dir_write n c dir))"
  by (auto simp: dir_write_def distinct_update)

lemma lsm_flush_inv:
  assumes inv: "lsm_inv s" and fl: "lsm_flush_memtable crc now s = Inr (p, s')"
  shows "lsm_inv s'"
proof (cases "lsm_memtable s = []")
  case True
  then show ?thesis using assms by (simp add: lsm_flush_memtable_def)
next
  case False
  let ?id = "lsm_next_run_id s" and ?n = "run_file_name (lsm_next_run_id s)"
  from lsm_flush_cases [OF fl False] obtain content where
    s': "s' = s\<lparr>lsm_dir := dir_write ?n content (lsm_dir s), lsm_memtable := [],
            lsm_level0_runs := lsm_level0_runs s @ [?n], lsm_next_run_id := (if ?id = - 1 then - 1 else ?id + 1)\<rparr>"
    by metis
  have basic: "bt_ok (lsm_memtable s')" "distinct (map fst (lsm_dir s'))"
    using inv by (simp_all add: lsm_inv_def s' distinct_dir_write)
  show ?thesis
  proof (cases "?id = - 1")
    case True
    then show ?thesis using basic by (simp add: lsm_inv_def s')
  next
    case id: False
    then obtain ds where ds: "discover_runs (lsm_dir s) [] = Inr ds" "lsm_level0_runs s = map snd (sort_key fst ds)"
      "\<forall>d \<in> set ds. fst d < ?id" using inv by (auto simp: lsm_inv_def)
    have less: "?id < ?id + 1" by (rule less_plus_one_u32 [OF id])
    have "lsm_dir s' = lsm_dir s @ [(?n, content)]" using next_run_name_new [OF inv id] by (simp add: s' dir_write_def)
    then have "discover_runs (lsm_dir s') [] = Inr (ds @ [(?id, ?n)])"
      by (simp add: discover_runs_append ds run_file_name_parts parse_run_id_name)
    moreover have sort: "sort_key fst (ds @ [(?id, ?n)]) = sort_key fst ds @ [(?id, ?n)]"
      using ds(3) by (intro sort_key_snoc_max) (auto simp: less_imp_le)
    moreover have "\<forall>d \<in> set (ds @ [(?id, ?n)]). fst d < lsm_next_run_id s'"
      using ds(3) less id by (auto simp: s' dest: less_trans)
    moreover have "lsm_level0_runs s' = map snd (sort_key fst (ds @ [(?id, ?n)]))" by (simp only: sort) (simp add: s' ds)
    moreover have "lsm_next_run_id s' = fst (last (sort_key fst (ds @ [(?id, ?n)]))) + 1" using id by (simp only: sort) (simp add: s')
    ultimately show ?thesis using basic unfolding lsm_inv_def by (intro conjI impI exI [of _ "ds @ [(?id, ?n)]"]) simp_all
  qed
qed

lemma lsm_put_Inr:
  assumes "lsm_inv s"
  shows "\<exists>p s'. lsm_put crc now s k v = Inr (p, s') \<and> lsm_inv s'"
proof -
  have inv: "lsm_inv (s\<lparr>lsm_memtable := bt_insert k v (lsm_memtable s)\<rparr>)" using assms by (simp add: lsm_inv_def)
  show ?thesis using lsm_flush_Inr [OF inv, of crc now] lsm_flush_inv [OF inv] inv by (auto simp: lsm_put_def Let_def)
qed

section \<open>The store implements a map\<close>

definition runs_admissible :: "simple_lsm \<Rightarrow> bool" where
  "runs_admissible s \<longleftrightarrow> (\<forall>c \<in> snd ` set (lsm_dir s). run_size_ok c)"

lemma lsm_flush_effect:
  assumes "lsm_flush_memtable crc now s = Inr (p, s')" and "lsm_memtable s \<noteq> []"
  shows "\<exists>meta content. run_write crc now \<lparr>ro_target_block_size = lc_target_block_size (lsm_cfg s)\<rparr> (lsm_memtable s) = Inr (meta, content)
    \<and> lsm_dir s' = dir_write (run_file_name (lsm_next_run_id s)) content (lsm_dir s)
    \<and> lsm_level0_runs s' = lsm_level0_runs s @ [run_file_name (lsm_next_run_id s)] \<and> lsm_memtable s' = []
    \<and> lsm_next_run_id s' = (if lsm_next_run_id s = - 1 then - 1 else lsm_next_run_id s + 1)"
  by (rule lsm_flush_cases [OF assms]) auto

lemma lsm_flush_memtable_empty: "lsm_flush_memtable crc now s = Inr (p, s') \<Longrightarrow> lsm_memtable s' = []"
  using lsm_flush_effect [of crc now s p s'] by (cases "lsm_memtable s = []") (auto simp: lsm_flush_memtable_def)

lemma lsm_put_inv: "\<lbrakk>lsm_inv s; lsm_put crc now s k v = Inr (p, s')\<rbrakk> \<Longrightarrow> lsm_inv s'"
  using lsm_put_Inr [of s crc now k v] by simp

lemma lsm_flush_runs_hold:
  assumes inv: "lsm_inv s" and fl: "lsm_flush_memtable crc now s = Inr (p, s')"
    and id: "lsm_next_run_id s \<noteq> - 1" and size: "runs_admissible s'" and runs: "lsm_runs_hold crc s m"
  shows "lsm_runs_hold crc s' (m ++ map_of (lsm_memtable s))"
proof (cases "lsm_memtable s = []")
  case True
  then show ?thesis using fl runs by (simp add: lsm_flush_memtable_def)
next
  case False
  let ?n = "run_file_name (lsm_next_run_id s)"
  from lsm_flush_effect [OF fl False] obtain meta content where
    wr: "run_write crc now \<lparr>ro_target_block_size = lc_target_block_size (lsm_cfg s)\<rparr> (lsm_memtable s) = Inr (meta, content)"
    and s': "lsm_dir s' = dir_write ?n content (lsm_dir s)" "lsm_level0_runs s' = lsm_level0_runs s @ [?n]"
    by blast
  have new: "?n \<notin> fst ` set (lsm_dir s)" by (rule next_run_name_new [OF inv id])
  then have dir: "lsm_dir s' = lsm_dir s @ [(?n, content)]" by (simp add: s' dir_write_def)
  then have small: "run_size_ok content" using size by (simp add: runs_admissible_def)
  have look: "lsm_run_get crc (lsm_dir s') ?n = run_lookup crc content"
    using new by (auto simp: fun_eq_iff lsm_run_get_def run_lookup_def dir map_of_eq_None_iff [symmetric] map_add_def)
  from inv id obtain ds where ds: "discover_runs (lsm_dir s) [] = Inr ds" "lsm_level0_runs s = map snd (sort_key fst ds)"
    by (auto simp: lsm_inv_def)
  have "set (lsm_level0_runs s) \<subseteq> fst ` set (lsm_dir s)" using discover_runs_names [OF ds(1)] by (simp add: ds(2))
  then have "?n \<notin> set (lsm_level0_runs s)" using new by blast
  moreover have "lsm_run_get crc (lsm_dir s') q = lsm_run_get crc (lsm_dir s) q" if "q \<noteq> ?n" for q
  proof -
    have "map_of (lsm_dir s') q = map_of (lsm_dir s) q" using that by (simp add: dir map_add_def split: option.splits)
    then show ?thesis by (simp add: fun_eq_iff lsm_run_get_def)
  qed
  ultimately have "level0_search (lsm_run_get crc (lsm_dir s')) (rev (lsm_level0_runs s)) k
      = level0_search (lsm_run_get crc (lsm_dir s)) (rev (lsm_level0_runs s)) k" for k
    by (intro level0_search_cong) (metis set_rev)
  then have "level0_search (lsm_run_get crc (lsm_dir s')) (rev (lsm_level0_runs s)) k = Inr (m k)" for k
    using runs by (simp add: lsm_runs_hold_def)
  then have "level0_search (lsm_run_get crc (lsm_dir s')) (?n # rev (lsm_level0_runs s)) k
      = Inr ((m ++ map_of (lsm_memtable s)) k)" for k
    by (intro run_map.newest_run_shadows [where look = "lsm_run_get crc (lsm_dir s')" and p = ?n, OF wr small look])
  then show ?thesis by (simp add: lsm_runs_hold_def s')
qed

datatype lsm_op = LsmPut u64 bytes bytes | LsmFlush u64

fun lsm_exec :: "(bytes \<Rightarrow> u32) \<Rightarrow> simple_lsm \<Rightarrow> lsm_op list \<Rightarrow> run_error + simple_lsm" where
  "lsm_exec crc s [] = Inr s"
| "lsm_exec crc s (LsmPut now k v # ops) = bindE (lsm_put crc now s k v) (\<lambda>(_, s). lsm_exec crc s ops)"
| "lsm_exec crc s (LsmFlush now # ops) = bindE (lsm_flush_memtable crc now s) (\<lambda>(_, s). lsm_exec crc s ops)"

text \<open>The map that the operations describe: a put updates it, a flush leaves it alone.\<close>

fun lsm_spec :: "(bytes \<rightharpoonup> bytes) \<Rightarrow> lsm_op list \<Rightarrow> (bytes \<rightharpoonup> bytes)" where
  "lsm_spec m [] = m"
| "lsm_spec m (LsmPut now k v # ops) = lsm_spec (m(k \<mapsto> v)) ops"
| "lsm_spec m (LsmFlush now # ops) = lsm_spec m ops"

lemma lsm_flush_grows:
  assumes "lsm_inv s" and "lsm_flush_memtable crc now s = Inr (p, s')" and "lsm_next_run_id s' \<noteq> - 1"
  shows "lsm_next_run_id s \<noteq> - 1 \<and> set (lsm_dir s) \<subseteq> set (lsm_dir s')"
proof (cases "lsm_memtable s = []")
  case True
  then show ?thesis using assms by (simp add: lsm_flush_memtable_def)
next
  case False
  then obtain content where d: "lsm_dir s' = dir_write (run_file_name (lsm_next_run_id s)) content (lsm_dir s)"
    and "lsm_next_run_id s' = (if lsm_next_run_id s = - 1 then - 1 else lsm_next_run_id s + 1)"
    using lsm_flush_effect [OF assms(2) False] by blast
  with assms(3) have id: "lsm_next_run_id s \<noteq> - 1" by auto
  then show ?thesis using next_run_name_new [OF assms(1) id] by (auto simp: d dir_write_def)
qed

text \<open>One operation: the store keeps its invariant, and its view changes as the map does.\<close>

lemma lsm_flush_step:
  assumes "lsm_inv s" and "lsm_flush_memtable crc now s = Inr (p, s')" and "lsm_next_run_id s' \<noteq> - 1"
    and "runs_admissible s'" and "lsm_runs_hold crc s m0" and "m = m0 ++ map_of (lsm_memtable s)"
  shows "\<exists>m1. lsm_runs_hold crc s' m1 \<and> m = m1 ++ map_of (lsm_memtable s')"
proof -
  have mem: "lsm_memtable s' = []" by (rule lsm_flush_memtable_empty [OF assms(2)])
  have "lsm_next_run_id s \<noteq> - 1" using lsm_flush_grows [OF assms(1-3)] by simp
  from lsm_flush_runs_hold [OF assms(1,2) this assms(4,5)] show ?thesis using assms(6) mem by auto
qed

lemma lsm_put_step:
  assumes inv: "lsm_inv s" and put: "lsm_put crc now s k v = Inr (p, s')" and id: "lsm_next_run_id s' \<noteq> - 1"
  shows "lsm_next_run_id s \<noteq> - 1 \<and> set (lsm_dir s) \<subseteq> set (lsm_dir s')"
    and "\<lbrakk>runs_admissible s'; lsm_runs_hold crc s m0; m = m0 ++ map_of (lsm_memtable s)\<rbrakk> \<Longrightarrow>
      \<exists>m1. lsm_runs_hold crc s' m1 \<and> m(k \<mapsto> v) = m1 ++ map_of (lsm_memtable s')"
proof -
  let ?s = "s\<lparr>lsm_memtable := bt_insert k v (lsm_memtable s)\<rparr>"
  have inv': "lsm_inv ?s" using inv by (simp add: lsm_inv_def)
  from put consider "s' = ?s" | "lsm_flush_memtable crc now ?s = Inr (p, s')"
    by (auto simp: lsm_put_def Let_def split: if_splits)
  note cases = this
  from cases show "lsm_next_run_id s \<noteq> - 1 \<and> set (lsm_dir s) \<subseteq> set (lsm_dir s')"
    by cases (use id lsm_flush_grows [OF inv' _ id] in auto)
  assume a: "runs_admissible s'" "lsm_runs_hold crc s m0" "m = m0 ++ map_of (lsm_memtable s)"
  then have h: "lsm_runs_hold crc ?s m0" "m(k \<mapsto> v) = m0 ++ map_of (lsm_memtable ?s)"
    by (simp_all add: lsm_runs_hold_def)
  from cases show "\<exists>m1. lsm_runs_hold crc s' m1 \<and> m(k \<mapsto> v) = m1 ++ map_of (lsm_memtable s')"
    by cases (use h lsm_flush_step [OF inv' _ id a(1) h] in blast)+
qed

lemma lsm_exec_total: "lsm_inv s \<Longrightarrow> \<exists>s'. lsm_exec crc s ops = Inr s' \<and> lsm_inv s'"
proof (induction ops arbitrary: s)
  case (Cons op ops)
  show ?case
  proof (cases op)
    case (LsmPut now k v)
    then show ?thesis using Cons lsm_put_Inr [OF Cons.prems, of crc now k v] by auto
  next
    case (LsmFlush now)
    then show ?thesis using Cons lsm_flush_Inr [OF Cons.prems, of crc now] lsm_flush_inv [OF Cons.prems] by fastforce
  qed
qed simp

lemma lsm_exec_grows:
  "\<lbrakk>lsm_inv s; lsm_exec crc s ops = Inr s'; lsm_next_run_id s' \<noteq> - 1\<rbrakk> \<Longrightarrow>
     lsm_next_run_id s \<noteq> - 1 \<and> set (lsm_dir s) \<subseteq> set (lsm_dir s')"
proof (induction ops arbitrary: s)
  case (Cons op ops)
  show ?case
  proof (cases op)
    case (LsmPut now k v)
    then obtain p s1 where put: "lsm_put crc now s k v = Inr (p, s1)" and rest: "lsm_exec crc s1 ops = Inr s'"
      using Cons.prems by (auto simp: bindE_eq_Inr)
    then have "lsm_inv s1" using lsm_put_inv [OF Cons.prems(1)] by blast
    from Cons.IH [OF this rest Cons.prems(3)] lsm_put_step(1) [OF Cons.prems(1) put] show ?thesis by auto
  next
    case (LsmFlush now)
    then obtain p s1 where fl: "lsm_flush_memtable crc now s = Inr (p, s1)" and rest: "lsm_exec crc s1 ops = Inr s'"
      using Cons.prems by (auto simp: bindE_eq_Inr)
    from Cons.IH [OF lsm_flush_inv [OF Cons.prems(1) fl] rest Cons.prems(3)] lsm_flush_grows [OF Cons.prems(1) fl]
    show ?thesis by auto
  qed
qed simp

lemma lsm_exec_view:
  "\<lbrakk>lsm_inv s; lsm_exec crc s ops = Inr s'; lsm_next_run_id s' \<noteq> - 1; runs_admissible s';
    lsm_runs_hold crc s m0; m = m0 ++ map_of (lsm_memtable s)\<rbrakk> \<Longrightarrow>
     \<exists>m1. lsm_runs_hold crc s' m1 \<and> lsm_spec m ops = m1 ++ map_of (lsm_memtable s')"
proof (induction ops arbitrary: s m m0)
  case (Cons op ops)
  show ?case
  proof (cases op)
    case (LsmPut now k v)
    then obtain p s1 where put: "lsm_put crc now s k v = Inr (p, s1)" and rest: "lsm_exec crc s1 ops = Inr s'"
      using Cons.prems by (auto simp: bindE_eq_Inr)
    then have inv1: "lsm_inv s1" using lsm_put_inv [OF Cons.prems(1)] by blast
    note grows = lsm_exec_grows [OF inv1 rest Cons.prems(3)]
    then have adm: "runs_admissible s1" using Cons.prems(4) by (auto simp: runs_admissible_def)
    from lsm_put_step(2) [OF Cons.prems(1) put _ adm Cons.prems(5,6)] grows obtain m1 where
      "lsm_runs_hold crc s1 m1" "m(k \<mapsto> v) = m1 ++ map_of (lsm_memtable s1)" by blast
    from Cons.IH [OF inv1 rest Cons.prems(3,4) this] show ?thesis unfolding LsmPut lsm_spec.simps .
  next
    case (LsmFlush now)
    then obtain p s1 where fl: "lsm_flush_memtable crc now s = Inr (p, s1)" and rest: "lsm_exec crc s1 ops = Inr s'"
      using Cons.prems by (auto simp: bindE_eq_Inr)
    have inv1: "lsm_inv s1" by (rule lsm_flush_inv [OF Cons.prems(1) fl])
    note grows = lsm_exec_grows [OF inv1 rest Cons.prems(3)]
    then have adm: "runs_admissible s1" using Cons.prems(4) by (auto simp: runs_admissible_def)
    from lsm_flush_step [OF Cons.prems(1) fl _ adm Cons.prems(5,6)] grows obtain m1 where
      "lsm_runs_hold crc s1 m1" "m = m1 ++ map_of (lsm_memtable s1)" by blast
    from Cons.IH [OF inv1 rest Cons.prems(3,4) this] show ?thesis by (simp add: LsmFlush)
  qed
qed auto

text \<open>
  (C18) The LSM implements a map. On a store opened on any directory whose runs can be read, every
  sequence of puts and flushes succeeds, and as long as the run numbers and the file sizes stay in
  range, a lookup returns what the operations say: the last value put for the key, or what the
  directory held for it before.
\<close>

theorem lsm_refines_map:
  assumes opened: "lsm_open dir config = Inr s" and dist: "distinct (map fst dir)"
    and before: "\<forall>k. lsm_get crc s k = Inr (m k)"
  shows "\<exists>s'. lsm_exec crc s ops = Inr s'
     \<and> (lsm_next_run_id s' \<noteq> - 1 \<and> runs_admissible s' \<longrightarrow> (\<forall>k. lsm_get crc s' k = Inr (lsm_spec m ops k)))"
proof -
  note s = lsm_open_inv [OF opened dist]
  have runs: "lsm_runs_hold crc s m" using before s(4) by (simp add: lsm_runs_hold_def lsm_get_def)
  obtain s' where s': "lsm_exec crc s ops = Inr s'" using lsm_exec_total [OF s(1)] by blast
  show ?thesis
  proof (intro exI [of _ s'] conjI impI allI)
    fix k assume a: "lsm_next_run_id s' \<noteq> - 1 \<and> runs_admissible s'"
    from lsm_exec_view [OF s(1) s' _ _ runs, of m] a s(4) obtain m1 where
      "lsm_runs_hold crc s' m1" "lsm_spec m ops = m1 ++ map_of (lsm_memtable s')" by auto
    then show "lsm_get crc s' k = Inr (lsm_spec m ops k)" using lsm_get_runs_hold by metis
  qed (rule s')
qed

text \<open>
  A flushed store survives a restart: after any operations and a flush, opening the directory
  again gives exactly the store as it was, runs, order and next run number.
\<close>

theorem lsm_flush_reopen:
  assumes opened: "lsm_open dir config = Inr s" and dist: "distinct (map fst dir)"
    and "lsm_exec crc s ops = Inr s1" and fl: "lsm_flush_memtable crc now s1 = Inr (p, s2)"
    and id: "lsm_next_run_id s2 \<noteq> - 1"
  shows "lsm_open (lsm_dir s2) (lsm_cfg s2) = Inr s2"
proof -
  have "lsm_inv s1" using lsm_exec_total [OF lsm_open_inv(1) [OF opened dist], of crc ops] assms(3) by simp
  then have inv: "lsm_inv s2" using lsm_flush_inv fl by blast
  have mem: "lsm_memtable s2 = []" by (rule lsm_flush_memtable_empty [OF fl])
  from inv id obtain ds where ds: "discover_runs (lsm_dir s2) [] = Inr ds"
    "lsm_level0_runs s2 = map snd (sort_key fst ds)"
    "lsm_next_run_id s2 = (if ds = [] then 1 else fst (last (sort_key fst ds)) + 1)"
    "\<forall>d \<in> set ds. fst d < lsm_next_run_id s2" by (auto simp: lsm_inv_def)
  have "fst (last (sort_key fst ds)) \<noteq> - 1" if "ds \<noteq> []"
  proof -
    have "last (sort_key fst ds) \<in> set ds" using that last_in_set [of "sort_key fst ds"] by simp
    then show ?thesis using ds(4) word_order.extremum_strict by (metis linorder_not_less word_order.extremum)
  qed
  then show ?thesis using ds mem by (cases s2) (auto simp: lsm_open_def Let_def)
qed

lemma lsm_open_empty: "lsm_open [] lsm_config_default =
    Inr \<lparr>lsm_dir = [], lsm_cfg = lsm_config_default, lsm_memtable = [], lsm_level0_runs = [], lsm_next_run_id = 1\<rparr>"
  by (simp add: lsm_open_def)

theorem lsm_refines_map_witness:
  "\<exists>s s'. lsm_open [] lsm_config_default = Inr s
     \<and> lsm_exec (\<lambda>_. 7) s [LsmPut 1 [5] [6], LsmPut 2 [5] [7]] = Inr s' \<and> lsm_get (\<lambda>_. 7) s' [5] = Inr (Some [7])"
proof -
  let ?s = "\<lparr>lsm_dir = [], lsm_cfg = lsm_config_default, lsm_memtable = [], lsm_level0_runs = [], lsm_next_run_id = 1\<rparr>"
  let ?ops = "[LsmPut 1 [5] [6], LsmPut 2 [5] [7]]"
  have "\<forall>k. lsm_get (\<lambda>_. 7) ?s k = Inr (Map.empty k)" by (simp add: lsm_get_def)
  from lsm_refines_map [OF lsm_open_empty _ this, of ?ops] obtain s' where s': "lsm_exec (\<lambda>_. 7) ?s ?ops = Inr s'"
    and get: "lsm_next_run_id s' \<noteq> - 1 \<and> runs_admissible s' \<longrightarrow> (\<forall>k. lsm_get (\<lambda>_. 7) s' k = Inr (lsm_spec Map.empty ?ops k))"
    by auto
  moreover have "lsm_next_run_id s' = 1 \<and> lsm_dir s' = []" using s' by (auto simp: lsm_put_def lsm_config_default_def)
  then have "lsm_next_run_id s' \<noteq> - 1 \<and> runs_admissible s'" by (simp add: runs_admissible_def)
  ultimately show ?thesis using lsm_open_empty by simp
qed

theorem lsm_flush_reopen_witness:
  "\<exists>s s1 p s2. lsm_open [] lsm_config_default = Inr s
     \<and> lsm_exec (\<lambda>_. 7) s [LsmPut 1 [5] [6]] = Inr s1 \<and> lsm_flush_memtable (\<lambda>_. 7) 2 s1 = Inr (p, s2)
     \<and> p = Some (run_file_name 1) \<and> lsm_open (lsm_dir s2) (lsm_cfg s2) = Inr s2"
proof -
  let ?s = "\<lparr>lsm_dir = [], lsm_cfg = lsm_config_default, lsm_memtable = [], lsm_level0_runs = [], lsm_next_run_id = 1\<rparr>"
  let ?s1 = "?s\<lparr>lsm_memtable := [([5], [6])]\<rparr>"
  have s1: "lsm_exec (\<lambda>_. 7) ?s [LsmPut 1 [5] [6]] = Inr ?s1" by (simp add: lsm_put_def lsm_config_default_def)
  have "lsm_inv ?s1" using lsm_exec_total [OF lsm_open_inv(1) [OF lsm_open_empty], of "\<lambda>_. 7" "[LsmPut 1 [5] [6]]"] s1 by simp
  then obtain p s2 where fl: "lsm_flush_memtable (\<lambda>_. 7) 2 ?s1 = Inr (p, s2)" using lsm_flush_Inr by blast
  moreover have p: "p = Some (run_file_name 1)" "lsm_next_run_id s2 = 2"
    by (rule lsm_flush_cases [OF fl]; simp)+
  moreover from p(2) have "lsm_next_run_id s2 \<noteq> - 1" by simp
  ultimately show ?thesis using lsm_flush_reopen [OF lsm_open_empty _ s1 fl] lsm_open_empty s1 by simp
qed

end
