(* ===== verification/Row_Dir.thy ===== *)
theory Row_Dir
  imports Row_Segment Sorted_Run
begin

text \<open>
  The row directory (\<open>rowdir.rs\<close>): row id to head pointer of the version chain, kept in an ordered
  map, flushed to a sorted run and loaded from one.
\<close>

section \<open>Data and operations\<close>

definition ENTRY_TAG_LIVE :: u8 where "ENTRY_TAG_LIVE = 0"
definition ENTRY_TAG_TOMBSTONE :: u8 where "ENTRY_TAG_TOMBSTONE = 1"

lemmas rowdir_consts = ENTRY_TAG_LIVE_def ENTRY_TAG_TOMBSTONE_def

datatype rowdir_error =
    InvalidRunEntry string
  | UnsupportedEntryTag u8
  | RowDirRun run_error

datatype row_dir_entry = Live file_ptr | Tombstone

fun as_live :: "row_dir_entry \<Rightarrow> file_ptr option" where
  "as_live (Live p) = Some p"
| "as_live Tombstone = None"

type_synonym row_dir = "(u64 \<times> row_dir_entry) list"

definition row_dir_new :: row_dir where
  "row_dir_new = []"

definition row_dir_put :: "row_dir \<Rightarrow> u64 \<Rightarrow> file_ptr \<Rightarrow> row_dir" where
  "row_dir_put d row_id head = bt_insert row_id (Live head) d"

definition row_dir_remove :: "row_dir \<Rightarrow> u64 \<Rightarrow> row_dir" where
  "row_dir_remove d row_id = bt_insert row_id Tombstone d"

definition row_dir_forget :: "row_dir \<Rightarrow> u64 \<Rightarrow> row_dir" where
  "row_dir_forget d row_id = bt_remove row_id d"

definition row_dir_get :: "row_dir \<Rightarrow> u64 \<Rightarrow> file_ptr option" where
  "row_dir_get d row_id = Option.bind (map_of d row_id) as_live"

definition row_dir_get_entry :: "row_dir \<Rightarrow> u64 \<Rightarrow> row_dir_entry option" where
  "row_dir_get_entry d row_id = map_of d row_id"

definition row_dir_len :: "row_dir \<Rightarrow> nat" where
  "row_dir_len d = length d"

fun encode_entry :: "row_dir_entry \<Rightarrow> bytes" where
  "encode_entry (Live p) = [ENTRY_TAG_LIVE] @ file_ptr_encode p"
| "encode_entry Tombstone = [ENTRY_TAG_TOMBSTONE]"

definition decode_entry :: "bytes \<Rightarrow> rowdir_error + row_dir_entry" where
  "decode_entry bs =
     (if bs = [] then Inl (InvalidRunEntry ''empty value'')
      else let tag = bs ! 0 in
      if tag = ENTRY_TAG_LIVE then
        if length bs \<noteq> 1 + FILE_PTR_LEN then Inl (InvalidRunEntry ''live entry length'')
        else bindE (map_err (\<lambda>_. InvalidRunEntry ''malformed FilePtr'') (file_ptr_decode (drop 1 bs))) (\<lambda>p. Inr (Live p))
      else if tag = ENTRY_TAG_TOMBSTONE then
        if length bs \<noteq> 1 then Inl (InvalidRunEntry ''tombstone trailing bytes'') else Inr Tombstone
      else Inl (UnsupportedEntryTag tag))"

definition decode_row_id_key :: "bytes \<Rightarrow> rowdir_error + u64" where
  "decode_row_id_key key =
     (if length key \<noteq> 8 then Inl (InvalidRunEntry ''row_id key length'')
      else Inr (from_be_bytes key))"

fun row_dir_append_all :: "run_writer \<Rightarrow> row_dir \<Rightarrow> run_error + run_writer" where
  "row_dir_append_all writer [] = Inr writer"
| "row_dir_append_all writer ((row_id, entry) # rest) =
     bindE (run_append writer (be_bytes row_id) (encode_entry entry)) (\<lambda>writer. row_dir_append_all writer rest)"

text \<open>Flushing returns the content of the file it writes.\<close>

definition flush_to_run :: "(bytes \<Rightarrow> u32) \<Rightarrow> u64 \<Rightarrow> row_dir \<Rightarrow> rowdir_error + bytes" where
  "flush_to_run crc now d =
     map_err RowDirRun
       (bindE (row_dir_append_all (run_writer_create crc now run_writer_options_default) d) (\<lambda>writer.
        bindE (run_finish crc writer) (\<lambda>(_, content). Inr content)))"

fun load_entries :: "row_dir \<Rightarrow> run_entry list \<Rightarrow> rowdir_error + row_dir" where
  "load_entries d [] = Inr d"
| "load_entries d (entry # entries) =
     bindE (decode_row_id_key (re_key entry)) (\<lambda>row_id.
     bindE (decode_entry (re_value entry)) (\<lambda>e.
     case e of
       Live p \<Rightarrow> load_entries (bt_insert row_id (Live p) d) entries
     | Tombstone \<Rightarrow> load_entries (bt_remove row_id d) entries))"

definition load_from_run :: "(bytes \<Rightarrow> u32) \<Rightarrow> row_dir \<Rightarrow> bytes option \<Rightarrow> rowdir_error + row_dir" where
  "load_from_run crc d path =
     bindE (map_err RowDirRun (run_reader_open crc path)) (\<lambda>reader.
     bindE (map_err RowDirRun (run_read_all reader)) (\<lambda>entries. load_entries d entries))"

definition from_run :: "(bytes \<Rightarrow> u32) \<Rightarrow> bytes option \<Rightarrow> rowdir_error + row_dir" where
  "from_run crc path = load_from_run crc row_dir_new path"

section \<open>Round trips\<close>

lemma decode_encode_entry [simp]: "decode_entry (encode_entry e) = Inr e"
  by (cases e) (simp_all add: decode_entry_def rowdir_consts rowseg_consts Let_def)

lemma decode_row_id_key_be [simp]: "decode_row_id_key (be_bytes r) = Inr r"
  by (simp add: decode_row_id_key_def)

definition entry_kv :: "u64 \<times> row_dir_entry \<Rightarrow> bytes \<times> bytes" where
  "entry_kv p = (be_bytes (fst p), encode_entry (snd p))"

lemma row_dir_append_all_run: "row_dir_append_all w d = run_append_all w (map entry_kv d)"
proof (induction d arbitrary: w)
  case (Cons p d)
  obtain r e where "p = (r, e)" by (cases p)
  then show ?case using Cons by (simp add: entry_kv_def cong: bindE_cong)
qed simp

lemma flush_to_run_write:
  "flush_to_run crc now d = Inr content \<longleftrightarrow>
     (\<exists>meta. run_write crc now run_writer_options_default (map entry_kv d) = Inr (meta, content))"
  by (auto simp: flush_to_run_def run_write_def row_dir_append_all_run bindE_eq_Inr)

lemma bt_ok_entry_kv: "bt_ok d \<Longrightarrow> bt_ok (map entry_kv d)"
  by (induction d) (auto simp: bt_ok_def entry_kv_def be_bytes_mono)

lemma load_from_run_scan:
  "run_scan crc content = Inr kvs \<Longrightarrow> load_from_run crc d (Some content) = load_entries d (map of_kv kvs)"
  by (auto simp: load_from_run_def run_scan_def bindE_eq_Inr of_kv_def run_kv_def comp_def)

text \<open>What loading does to the directory: live entries overwrite, tombstones delete.\<close>

lemma load_entries_kv:
  "\<exists>d'. load_entries d (map (of_kv \<circ> entry_kv) es) = Inr d' \<and> (bt_ok d \<longrightarrow> bt_ok d')
     \<and> (distinct (map fst es) \<longrightarrow> (\<forall>r. map_of d' r = (case map_of es r of
          None \<Rightarrow> map_of d r | Some (Live p) \<Rightarrow> Some (Live p) | Some Tombstone \<Rightarrow> None)))"
proof (induction es arbitrary: d)
  case (Cons p es)
  obtain r e where p: "p = (r, e)" by (cases p)
  let ?d = "case e of Live q \<Rightarrow> bt_insert r (Live q) d | Tombstone \<Rightarrow> bt_remove r d"
  have step: "load_entries d (map (of_kv \<circ> entry_kv) (p # es)) = load_entries ?d (map (of_kv \<circ> entry_kv) es)"
    by (cases e) (simp_all add: p of_kv_def entry_kv_def del: encode_entry.simps)
  from Cons.IH [of ?d] obtain d' where d': "load_entries ?d (map (of_kv \<circ> entry_kv) es) = Inr d'"
    and ok: "bt_ok ?d \<longrightarrow> bt_ok d'" and get: "distinct (map fst es) \<longrightarrow> (\<forall>r. map_of d' r = (case map_of es r of
          None \<Rightarrow> map_of ?d r | Some (Live p) \<Rightarrow> Some (Live p) | Some Tombstone \<Rightarrow> None))" by blast
  have "bt_ok d \<longrightarrow> bt_ok ?d" by (cases e) simp_all
  moreover have "map_of d' r' = (case map_of (p # es) r' of
          None \<Rightarrow> map_of d r' | Some (Live p) \<Rightarrow> Some (Live p) | Some Tombstone \<Rightarrow> None)" if "distinct (map fst (p # es))" for r'
  proof (cases "r' = r")
    case True
    have "map_of es r = None" using that by (simp add: p map_of_eq_None_iff)
    then show ?thesis using True that get by (cases e) (simp_all add: p)
  next
    case False
    then have "map_of ?d r' = map_of d r'" by (cases e) simp_all
    moreover have "map_of d' r' = (case map_of es r' of
          None \<Rightarrow> map_of ?d r' | Some (Live p) \<Rightarrow> Some (Live p) | Some Tombstone \<Rightarrow> None)" using that get by (simp add: p)
    ultimately show ?thesis using False by (simp only: p map_of.simps fst_conv snd_conv) simp
  qed
  ultimately show ?case unfolding step d' using ok by (intro exI [of _ d']) blast
qed simp

text \<open>
  (C26) The row directory survives a flush. Flushing an ordered directory succeeds; loading the file
  into any directory then succeeds and overrides it: rows that were live get their head pointer,
  rows that were deleted disappear, and all other rows are as they were. Loading into an empty
  directory gives back every live head pointer.
\<close>

theorem row_dir_flush_load:
  assumes "bt_ok d" and "bt_ok d0"
  shows "\<exists>content. flush_to_run crc now d = Inr content \<and> (length content < 2 ^ 57 \<longrightarrow>
     (\<exists>d'. load_from_run crc d0 (Some content) = Inr d' \<and> bt_ok d'
        \<and> (\<forall>r. row_dir_get d' r = (if row_dir_get_entry d r = None then row_dir_get d0 r else row_dir_get d r)
             \<and> (row_dir_get_entry d r = Some Tombstone \<longrightarrow> row_dir_get_entry d' r = None)))
     \<and> (\<exists>d'. from_run crc (Some content) = Inr d' \<and> (\<forall>r. row_dir_get d' r = row_dir_get d r)))"
proof -
  obtain meta content where w: "run_write crc now run_writer_options_default (map entry_kv d) = Inr (meta, content)"
    using run_map.write_sorted [OF bt_ok_entry_kv [OF assms(1)]] by blast
  have load: "\<exists>d'. load_from_run crc d1 (Some content) = Inr d' \<and> (bt_ok d1 \<longrightarrow> bt_ok d') \<and> (\<forall>r. map_of d' r = (case map_of d r of
          None \<Rightarrow> map_of d1 r | Some (Live p) \<Rightarrow> Some (Live p) | Some Tombstone \<Rightarrow> None))"
    if "length content < 2 ^ 57" for d1
  proof -
    have "run_scan crc content = Inr (map entry_kv d)"
      using that by (intro run_map.scan_write [OF w]) (simp add: run_size_ok_def)
    from load_from_run_scan [OF this, of d1] show ?thesis
      using load_entries_kv [of d1 d] bt_ok_distinct [OF assms(1)] by (simp add: comp_def)
  qed
  have get: "row_dir_get d' r = (case map_of d r of None \<Rightarrow> row_dir_get d1 r | Some e \<Rightarrow> as_live e)"
    if "\<forall>r. map_of d' r = (case map_of d r of
          None \<Rightarrow> map_of d1 r | Some (Live p) \<Rightarrow> Some (Live p) | Some Tombstone \<Rightarrow> None)" for d' d1 r
    using that by (simp add: row_dir_get_def split: option.splits row_dir_entry.splits)
  show ?thesis
  proof (intro exI [of _ content] conjI impI)
    show "flush_to_run crc now d = Inr content" using w by (auto simp: flush_to_run_write)
    assume small: "length content < 2 ^ 57"
    from load [OF small, of d0] obtain d' where "load_from_run crc d0 (Some content) = Inr d'" "bt_ok d'"
      and d': "\<forall>r. map_of d' r = (case map_of d r of
          None \<Rightarrow> map_of d0 r | Some (Live p) \<Rightarrow> Some (Live p) | Some Tombstone \<Rightarrow> None)"
      using assms(2) by blast
    then show "\<exists>d'. load_from_run crc d0 (Some content) = Inr d' \<and> bt_ok d'
        \<and> (\<forall>r. row_dir_get d' r = (if row_dir_get_entry d r = None then row_dir_get d0 r else row_dir_get d r)
             \<and> (row_dir_get_entry d r = Some Tombstone \<longrightarrow> row_dir_get_entry d' r = None))"
      using get [OF d'] by (auto simp: row_dir_get_entry_def row_dir_get_def [of d] split: option.splits)
    from load [OF small, of "[]"] obtain d' where "load_from_run crc [] (Some content) = Inr d'"
      and d': "\<forall>r. map_of d' r = (case map_of d r of
          None \<Rightarrow> map_of [] r | Some (Live p) \<Rightarrow> Some (Live p) | Some Tombstone \<Rightarrow> None)"
      by blast
    then show "\<exists>d'. from_run crc (Some content) = Inr d' \<and> (\<forall>r. row_dir_get d' r = row_dir_get d r)"
      using get [OF d'] by (auto simp: from_run_def row_dir_new_def row_dir_get_def [of d] row_dir_get_def [of "[]"] split: option.splits)
  qed
qed

theorem row_dir_flush_load_witness:
  "\<exists>content. flush_to_run (\<lambda>_. 7) 3 [(1, Live file_ptr_NONE), (2, Tombstone)] = Inr content"
  using row_dir_flush_load [of "[(1, Live file_ptr_NONE), (2, Tombstone)]" "[]" "\<lambda>_. 7" 3] by (auto simp: bt_ok_def)

text \<open>
  The directory is a map from row ids to head pointers: put, remove and forget keep it ordered
  and change what \<open>get\<close> returns for that row only; remove leaves a tombstone, forget leaves nothing.
\<close>

theorem row_dir_ops:
  assumes "bt_ok d"
  shows "bt_ok (row_dir_put d r p) \<and> bt_ok (row_dir_remove d r) \<and> bt_ok (row_dir_forget d r)
     \<and> row_dir_get (row_dir_put d r p) = (row_dir_get d)(r \<mapsto> p)
     \<and> row_dir_get (row_dir_remove d r) = (row_dir_get d)(r := None)
     \<and> row_dir_get (row_dir_forget d r) = (row_dir_get d)(r := None)
     \<and> row_dir_get_entry (row_dir_remove d r) r = Some Tombstone
     \<and> row_dir_get_entry (row_dir_forget d r) r = None"
  using assms by (auto simp: fun_eq_iff row_dir_get_def row_dir_put_def row_dir_remove_def row_dir_forget_def row_dir_get_entry_def)

theorem row_dir_ops_witness:
  "bt_ok (row_dir_remove [(2, Live file_ptr_NONE)] 1) \<and> row_dir_get (row_dir_remove [(2, Live file_ptr_NONE)] 1) 2 = Some file_ptr_NONE"
  using row_dir_ops [of "[(2, Live file_ptr_NONE)]" 1 file_ptr_NONE] by (simp add: bt_ok_def row_dir_get_def)

end
