(* ===== verification/Mvcc.thy ===== *)
theory Mvcc
  imports Row_Dir
begin

text \<open>
  MVCC visibility (\<open>mvcc.rs\<close>): which version of a row a snapshot sees, the walk along a chain of
  versions, and the bounded cache of visible versions. A \<open>RowVersionResolver\<close> is the function
  \<open>load\<close> from pointers to rows; loading moves file handles but nothing else, so the walk reads it as
  a function. A \<open>HashMap\<close> is an association list with distinct keys.
\<close>

section \<open>Data\<close>

record snapshot =
  as_of_ts :: "u64 option"

definition snapshot_latest :: snapshot where
  "snapshot_latest = \<lparr>as_of_ts = None\<rparr>"

definition snapshot_as_of :: "u64 \<Rightarrow> snapshot" where
  "snapshot_as_of ts = \<lparr>as_of_ts = Some ts\<rparr>"

definition is_row_visible :: "snapshot \<Rightarrow> row_version \<Rightarrow> bool" where
  "is_row_visible s row =
     (if rv_begin_ts row = 0 then False
      else let snapshot_ts = (case as_of_ts s of None \<Rightarrow> - 1 | Some ts \<Rightarrow> ts)
           in rv_begin_ts row \<le> snapshot_ts \<and> (rv_end_ts row = 0 \<or> snapshot_ts < rv_end_ts row))"

datatype mvcc_error =
    MissingSegment u32
  | ChainCycle file_ptr
  | RowIdMismatch u64 u64
  | TableIdMismatch u32 u32
  | MvccRowSeg rowseg_error

type_synonym resolver = "file_ptr \<Rightarrow> mvcc_error + row_version"

type_synonym row_segment_set = "(u32 \<times> row_segment_reader) list"

definition row_segment_set_new :: row_segment_set where
  "row_segment_set_new = []"

definition insert_path :: "(bytes \<Rightarrow> u32) \<Rightarrow> row_segment_set \<Rightarrow> bytes option \<Rightarrow> mvcc_error + row_segment_set" where
  "insert_path crc segs path =
     bindE (map_err MvccRowSeg (row_segment_reader_open crc path)) (\<lambda>reader.
     Inr (AList.update (rsr_file_id reader) reader segs))"

fun insert_paths :: "(bytes \<Rightarrow> u32) \<Rightarrow> row_segment_set \<Rightarrow> bytes option list \<Rightarrow> mvcc_error + row_segment_set" where
  "insert_paths crc segs [] = Inr segs"
| "insert_paths crc segs (path # paths) = bindE (insert_path crc segs path) (\<lambda>segs. insert_paths crc segs paths)"

definition open_paths :: "(bytes \<Rightarrow> u32) \<Rightarrow> bytes option list \<Rightarrow> mvcc_error + row_segment_set" where
  "open_paths crc paths = insert_paths crc row_segment_set_new paths"

definition load_row_version :: "(bytes \<Rightarrow> u32) \<Rightarrow> row_segment_set \<Rightarrow> resolver" where
  "load_row_version crc segs ptr =
     (case map_of segs (fp_file_id ptr) of
        None \<Rightarrow> Inl (MissingSegment (fp_file_id ptr))
      | Some reader \<Rightarrow>
          bindE (map_err MvccRowSeg (row_segment_read_at crc reader (fp_offset ptr))) (\<lambda>entry. Inr (rse_row entry)))"

record visible_version =
  vv_ptr :: file_ptr
  vv_row :: row_version
  vv_hops :: nat

datatype mvcc_lookup = Missing | Deleted visible_version | Visible visible_version

fun lookup_visible :: "mvcc_lookup \<Rightarrow> visible_version option" where
  "lookup_visible (Visible v) = Some v"
| "lookup_visible _ = None"

definition lookup_of :: "visible_version \<Rightarrow> mvcc_lookup" where
  "lookup_of v = (if row_is_delete (vv_row v) then Deleted v else Visible v)"

section \<open>Resolving a chain\<close>

lemma finite_file_ptrs: "finite (UNIV :: file_ptr set)"
proof -
  have "inj (\<lambda>p :: file_ptr. (fp_file_id p, fp_offset p))" by (rule injI) (simp add: file_ptr.equality)
  then show ?thesis using finite_imageD [of "\<lambda>p. (fp_file_id p, fp_offset p)" UNIV] finite [of "range (\<lambda>p :: file_ptr. (fp_file_id p, fp_offset p))"]
    by blast
qed

function resolve_loop ::
    "resolver \<Rightarrow> file_ptr set \<Rightarrow> nat \<Rightarrow> file_ptr \<Rightarrow> u64 option \<Rightarrow> u32 option \<Rightarrow> snapshot \<Rightarrow> mvcc_error + mvcc_lookup" where
  "resolve_loop load seen hops ptr expected_row_id expected_table_id s =
     (if ptr \<in> seen then Inl (ChainCycle ptr)
      else bindE (load ptr) (\<lambda>row.
      bindE (case expected_row_id of
               Some expected \<Rightarrow> if rv_row_id row \<noteq> expected then Inl (RowIdMismatch expected (rv_row_id row)) else Inr expected
             | None \<Rightarrow> Inr (rv_row_id row)) (\<lambda>row_id.
      bindE (case expected_table_id of
               Some expected \<Rightarrow> if rv_table_id row \<noteq> expected then Inl (TableIdMismatch expected (rv_table_id row)) else Inr expected
             | None \<Rightarrow> Inr (rv_table_id row)) (\<lambda>table_id.
      if is_row_visible s row then Inr (lookup_of \<lparr>vv_ptr = ptr, vv_row = row, vv_hops = hops + 1\<rparr>)
      else if file_ptr_is_none (rv_prev_ptr row) then Inr Missing
      else resolve_loop load (insert ptr seen) (hops + 1) (rv_prev_ptr row) (Some row_id) (Some table_id) s))))"
  by pat_completeness auto
termination
proof (relation "measure (\<lambda>(load, seen, hops, ptr, r, t, s). card (UNIV - seen))", goal_cases)
  case (2 load seen hops ptr r t s)
  have "card (UNIV - insert ptr seen) < card (UNIV - seen)"
    using 2(1) finite_file_ptrs by (intro psubset_card_mono) (auto intro: finite_subset)
  then show ?case by simp
qed simp

declare resolve_loop.simps [simp del]

definition resolve_chain ::
    "resolver \<Rightarrow> file_ptr \<Rightarrow> u64 option \<Rightarrow> u32 option \<Rightarrow> snapshot \<Rightarrow> mvcc_error + mvcc_lookup" where
  "resolve_chain load ptr expected_row_id expected_table_id s =
     (if file_ptr_is_none ptr then Inr Missing
      else resolve_loop load {} 0 ptr expected_row_id expected_table_id s)"

definition resolve_head :: "resolver \<Rightarrow> file_ptr \<Rightarrow> snapshot \<Rightarrow> mvcc_error + mvcc_lookup" where
  "resolve_head load head s = resolve_chain load head None None s"

definition resolve_row_id :: "row_dir \<Rightarrow> resolver \<Rightarrow> u64 \<Rightarrow> snapshot \<Rightarrow> mvcc_error + mvcc_lookup" where
  "resolve_row_id dir load row_id s =
     (case row_dir_get dir row_id of
        None \<Rightarrow> Inr Missing
      | Some head \<Rightarrow> resolve_chain load head (Some row_id) None s)"

section \<open>The cache of visible versions\<close>

definition DEFAULT_VISIBLE_VERSION_BUCKET_WIDTH :: u64 where "DEFAULT_VISIBLE_VERSION_BUCKET_WIDTH = 1000"
definition DEFAULT_VISIBLE_VERSION_INDEX_CAPACITY :: nat where "DEFAULT_VISIBLE_VERSION_INDEX_CAPACITY = 4096"

datatype snapshot_epoch_bucket = BucketLatest | BucketAsOf u64

definition bucket_from_snapshot :: "snapshot \<Rightarrow> u64 \<Rightarrow> snapshot_epoch_bucket" where
  "bucket_from_snapshot s bucket_width =
     (case as_of_ts s of Some ts \<Rightarrow> BucketAsOf (ts div max bucket_width 1) | None \<Rightarrow> BucketLatest)"

type_synonym cache_key = "u64 \<times> snapshot_epoch_bucket"

record cache_entry =
  ce_head :: "file_ptr option"
  ce_lookup :: mvcc_lookup

record index_stats =
  st_hits :: nat
  st_misses :: nat
  st_stale :: nat
  st_inserts :: nat
  st_evictions :: nat

record visible_version_index =
  vi_bucket_width :: u64
  vi_capacity :: nat
  vi_entries :: "(cache_key \<times> cache_entry) list"
  vi_order :: "cache_key list"
  vi_stats :: index_stats

definition index_new :: "u64 \<Rightarrow> nat \<Rightarrow> visible_version_index" where
  "index_new bucket_width capacity =
     \<lparr>vi_bucket_width = max bucket_width 1, vi_capacity = capacity, vi_entries = [], vi_order = [],
      vi_stats = \<lparr>st_hits = 0, st_misses = 0, st_stale = 0, st_inserts = 0, st_evictions = 0\<rparr>\<rparr>"

definition remove_key :: "visible_version_index \<Rightarrow> cache_key \<Rightarrow> visible_version_index" where
  "remove_key ix key = ix\<lparr>vi_entries := AList.delete key (vi_entries ix), vi_order := filter (\<lambda>q. q \<noteq> key) (vi_order ix)\<rparr>"

fun evict_loop :: "nat \<Rightarrow> (cache_key \<times> cache_entry) list \<Rightarrow> cache_key list \<Rightarrow> nat \<Rightarrow>
    (cache_key \<times> cache_entry) list \<times> cache_key list \<times> nat" where
  "evict_loop capacity entries [] evictions = (entries, [], evictions)"
| "evict_loop capacity entries (oldest # order) evictions =
     (if capacity \<le> length entries
      then evict_loop capacity (AList.delete oldest entries) order
             (if map_of entries oldest \<noteq> None then evictions + 1 else evictions)
      else (entries, oldest # order, evictions))"

definition index_insert :: "visible_version_index \<Rightarrow> cache_key \<Rightarrow> cache_entry \<Rightarrow> visible_version_index" where
  "index_insert ix key entry =
     (let ix = remove_key ix key;
          (entries, order, evictions) = evict_loop (vi_capacity ix) (vi_entries ix) (vi_order ix) (st_evictions (vi_stats ix))
      in ix\<lparr>vi_entries := AList.update key entry entries, vi_order := order @ [key],
            vi_stats := (vi_stats ix)\<lparr>st_evictions := evictions, st_inserts := st_inserts (vi_stats ix) + 1\<rparr>\<rparr>)"

fun cached_lookup_matches_snapshot :: "mvcc_lookup \<Rightarrow> snapshot \<Rightarrow> bool" where
  "cached_lookup_matches_snapshot (Visible v) s = is_row_visible s (vv_row v)"
| "cached_lookup_matches_snapshot (Deleted v) s = is_row_visible s (vv_row v)"
| "cached_lookup_matches_snapshot Missing s = False"

text \<open>A lookup that the cache does not answer: walk the chain and remember what it found.\<close>

definition index_miss ::
    "visible_version_index \<Rightarrow> row_dir \<Rightarrow> resolver \<Rightarrow> u64 \<Rightarrow> snapshot \<Rightarrow> cache_key \<Rightarrow> file_ptr option \<Rightarrow>
     (mvcc_error + mvcc_lookup) \<times> visible_version_index" where
  "index_miss ix dir load row_id s key head =
     (case resolve_row_id dir load row_id s of
        Inl e \<Rightarrow> (Inl e, ix)
      | Inr lookup \<Rightarrow>
          (Inr lookup, if lookup = Missing then ix
                       else index_insert ix key \<lparr>ce_head = head, ce_lookup = lookup\<rparr>))"

definition index_resolve_row_id ::
    "visible_version_index \<Rightarrow> row_dir \<Rightarrow> resolver \<Rightarrow> u64 \<Rightarrow> snapshot \<Rightarrow>
     (mvcc_error + mvcc_lookup) \<times> visible_version_index" where
  "index_resolve_row_id ix dir load row_id s =
     (let ix = ix\<lparr>vi_stats := (vi_stats ix)\<lparr>st_misses := st_misses (vi_stats ix) + 1\<rparr>\<rparr> in
      if vi_capacity ix = 0 then (resolve_row_id dir load row_id s, ix)
      else
      let key = (row_id, bucket_from_snapshot s (vi_bucket_width ix)); head = row_dir_get dir row_id
      in case map_of (vi_entries ix) key of
           None \<Rightarrow> index_miss ix dir load row_id s key head
         | Some entry \<Rightarrow>
             if ce_head entry = head \<and> cached_lookup_matches_snapshot (ce_lookup entry) s
             then (Inr (ce_lookup entry),
                   ix\<lparr>vi_stats := (vi_stats ix)\<lparr>st_hits := st_hits (vi_stats ix) + 1,
                        st_misses := st_misses (vi_stats ix) - 1\<rparr>\<rparr>)
             else index_miss (remove_key (ix\<lparr>vi_stats := (vi_stats ix)\<lparr>st_stale := st_stale (vi_stats ix) + 1\<rparr>\<rparr>) key)
                    dir load row_id s key head)"

section \<open>Walking a chain\<close>

text \<open>
  \<open>path load p vs q\<close>: following previous-version pointers from \<open>p\<close> visits the versions \<open>vs\<close>
  (pointer and row) and arrives at \<open>q\<close>.
\<close>

fun path :: "resolver \<Rightarrow> file_ptr \<Rightarrow> (file_ptr \<times> row_version) list \<Rightarrow> file_ptr \<Rightarrow> bool" where
  "path load p [] q \<longleftrightarrow> p = q"
| "path load p ((p', row) # vs) q \<longleftrightarrow>
     p' = p \<and> \<not> file_ptr_is_none p \<and> load p = Inr row \<and> path load (rv_prev_ptr row) vs q"

definition same_row :: "u64 \<Rightarrow> u32 \<Rightarrow> (file_ptr \<times> row_version) list \<Rightarrow> bool" where
  "same_row r t vs \<longleftrightarrow> (\<forall>v \<in> set vs. rv_row_id (snd v) = r \<and> rv_table_id (snd v) = t)"

lemma path_append: "path load p (vs @ ws) q \<longleftrightarrow> (\<exists>m. path load p vs m \<and> path load m ws q)"
  by (induction load p vs q rule: path.induct) auto

lemma chain_unique:
  "\<lbrakk>path load p vs q; path load p ws q'; file_ptr_is_none q; file_ptr_is_none q'\<rbrakk> \<Longrightarrow> vs = ws"
proof (induction load p vs q arbitrary: ws rule: path.induct)
  case (1 load p q)
  then show ?case by (cases ws) auto
next
  case (2 load p p' row vs q)
  then show ?case by (cases ws) auto
qed

text \<open>A chain that ends cannot visit a pointer twice.\<close>

lemma chain_distinct: "\<lbrakk>path load p vs q; file_ptr_is_none q\<rbrakk> \<Longrightarrow> distinct (map fst vs)"
proof (induction load p vs q rule: path.induct)
  case (2 load p p' row vs q)
  have "p \<notin> fst ` set vs"
  proof
    assume "p \<in> fst ` set vs"
    then obtain us row' zs where split: "vs = us @ (p, row') # zs" by (auto dest!: split_list)
    with 2(2) have "path load (rv_prev_ptr row) zs q" by (auto simp: path_append)
    then have "vs = zs" using 2(2,3) chain_unique by auto
    then show False using split by simp
  qed
  then show ?case using 2 by auto
qed simp

lemma resolve_loop_step:
  assumes "ptr \<notin> seen" "load ptr = Inr row" "rv_row_id row = r" "rv_table_id row = t"
    and "er = Some r \<or> er = None" and "et = Some t \<or> et = None"
  shows "resolve_loop load seen hops ptr er et s =
     (if is_row_visible s row then Inr (lookup_of \<lparr>vv_ptr = ptr, vv_row = row, vv_hops = hops + 1\<rparr>)
      else if file_ptr_is_none (rv_prev_ptr row) then Inr Missing
      else resolve_loop load (insert ptr seen) (hops + 1) (rv_prev_ptr row) (Some r) (Some t) s)"
  using assms by (subst resolve_loop.simps) (auto simp: bindE_def)

text \<open>Invisible versions are skipped.\<close>

lemma resolve_loop_skip:
  assumes "path load p vs q" "same_row r t vs" "\<not> file_ptr_is_none q" "distinct (map fst vs)" "fst ` set vs \<inter> seen = {}"
    and "\<forall>v \<in> set vs. \<not> is_row_visible s (snd v)" and "er = Some r \<or> er = None" and "et = Some t \<or> et = None"
    and "vs \<noteq> []"
  shows "resolve_loop load seen hops p er et s = resolve_loop load (fst ` set vs \<union> seen) (hops + length vs) q (Some r) (Some t) s"
  using assms
proof (induction vs arbitrary: p seen hops er et)
  case (Cons v vs)
  obtain row where v: "v = (p, row)" and load: "load p = Inr row" and vs: "path load (rv_prev_ptr row) vs q"
    using Cons.prems(1) by (cases v) auto
  have "\<not> file_ptr_is_none (rv_prev_ptr row)" using vs Cons.prems(3) by (cases vs) auto
  then have step: "resolve_loop load seen hops p er et s
      = resolve_loop load (insert p seen) (hops + 1) (rv_prev_ptr row) (Some r) (Some t) s"
    using resolve_loop_step [of p seen load row r t er et hops s] Cons.prems load by (simp add: v same_row_def)
  show ?case
  proof (cases "vs = []")
    case True
    then show ?thesis using step vs by (simp add: v)
  next
    case False
    have "resolve_loop load (insert p seen) (hops + 1) (rv_prev_ptr row) (Some r) (Some t) s
        = resolve_loop load (fst ` set vs \<union> insert p seen) (hops + 1 + length vs) q (Some r) (Some t) s"
      using Cons.prems False by (intro Cons.IH [OF vs]) (auto simp: v same_row_def)
    then show ?thesis using step by (simp add: v)
  qed
qed simp

text \<open>The three ways a walk ends: at a visible version, at the end of the chain, in a cycle.\<close>

lemma resolve_chain_found:
  assumes "path load p (vs @ [(m, row)]) q" "same_row r t (vs @ [(m, row)])" "distinct (map fst (vs @ [(m, row)]))"
    and "\<forall>v \<in> set vs. \<not> is_row_visible s (snd v)" "is_row_visible s row"
    and "er = Some r \<or> er = None"
  shows "resolve_chain load p er None s = Inr (lookup_of \<lparr>vv_ptr = m, vv_row = row, vv_hops = length vs + 1\<rparr>)"
proof -
  from assms(1) have vs: "path load p vs m" and m: "\<not> file_ptr_is_none m" "load m = Inr row" by (auto simp: path_append)
  have row: "rv_row_id row = r" "rv_table_id row = t" "same_row r t vs" using assms(2) by (auto simp: same_row_def)
  have p: "\<not> file_ptr_is_none p" using vs m(1) by (cases vs) auto
  show ?thesis
  proof (cases "vs = []")
    case True
    then show ?thesis using vs p assms(5,6) resolve_loop_step [of m "{}" load row r t er None 0 s] m(2) row(1,2)
      by (simp add: resolve_chain_def)
  next
    case False
    then have "resolve_loop load {} 0 p er None s = resolve_loop load (fst ` set vs) (length vs) m (Some r) (Some t) s"
      using resolve_loop_skip [OF vs row(3) m(1), of "{}" s er None 0] assms by simp
    moreover have "m \<notin> fst ` set vs" using assms(3) by auto
    ultimately show ?thesis using p assms(5) resolve_loop_step [of m "fst ` set vs" load row r t "Some r" "Some t" "length vs" s] m(2) row(1,2)
      by (simp add: resolve_chain_def)
  qed
qed

lemma resolve_chain_missing:
  assumes "path load p vs q" "file_ptr_is_none q" "same_row r t vs"
    and "\<forall>v \<in> set vs. \<not> is_row_visible s (snd v)" and "er = Some r \<or> er = None"
  shows "resolve_chain load p er None s = Inr Missing"
proof (cases vs rule: rev_cases)
  case Nil
  then show ?thesis using assms by (simp add: resolve_chain_def)
next
  case (snoc us v)
  obtain m row where v: "v = (m, row)" by (cases v)
  from assms(1) have us: "path load p us m" and m: "\<not> file_ptr_is_none m" "load m = Inr row" "rv_prev_ptr row = q"
    by (auto simp: snoc v path_append)
  have row: "rv_row_id row = r" "rv_table_id row = t" "same_row r t us" using assms(3) by (auto simp: same_row_def snoc v)
  have dist: "distinct (map fst us)" "m \<notin> fst ` set us" using chain_distinct [OF assms(1,2)] by (auto simp: snoc v)
  have p: "\<not> file_ptr_is_none p" using us m(1) by (cases us) auto
  have inv: "\<not> is_row_visible s row" using assms(4) by (auto simp: snoc v)
  show ?thesis
  proof (cases "us = []")
    case True
    then show ?thesis using us p inv m assms(2,5) resolve_loop_step [of m "{}" load row r t er None 0 s] m(2) row(1,2)
      by (simp add: resolve_chain_def)
  next
    case False
    have "resolve_loop load {} 0 p er None s = resolve_loop load (fst ` set us) (length us) m (Some r) (Some t) s"
      using resolve_loop_skip [OF us row(3) m(1) dist(1), of "{}" s er None 0] assms(4,5) False by (simp add: snoc)
    then show ?thesis using p inv m(3) assms(2) dist(2) resolve_loop_step [of m "fst ` set us" load row r t "Some r" "Some t" "length us" s] m(2) row(1,2)
      by (simp add: resolve_chain_def)
  qed
qed

lemma resolve_chain_cycle:
  assumes "path load p vs q" "q \<in> fst ` set vs" "\<not> file_ptr_is_none q" "same_row r t vs" "distinct (map fst vs)"
    and "\<forall>v \<in> set vs. \<not> is_row_visible s (snd v)" and "er = Some r \<or> er = None"
  shows "resolve_chain load p er None s = Inl (ChainCycle q)"
proof -
  have ne: "vs \<noteq> []" using assms(2) by auto
  have p: "\<not> file_ptr_is_none p" using assms(1) ne by (cases vs) auto
  have "resolve_loop load {} 0 p er None s = resolve_loop load (fst ` set vs \<union> {}) (0 + length vs) q (Some r) (Some t) s"
    using assms ne by (intro resolve_loop_skip) simp_all
  also have "\<dots> = Inl (ChainCycle q)" using assms(2) by (subst resolve_loop.simps) simp
  finally show ?thesis using p by (simp add: resolve_chain_def)
qed

section \<open>Snapshot reads\<close>

definition committed_at :: "u64 \<Rightarrow> row_version \<Rightarrow> bool" where
  "committed_at ts row \<longleftrightarrow> rv_begin_ts row \<noteq> 0 \<and> rv_begin_ts row \<le> ts"

text \<open>
  A chain as writers build it: committed versions are ordered newest first, and a version that has
  an end was not ended before a newer version began.
\<close>

definition well_ordered :: "(file_ptr \<times> row_version) list \<Rightarrow> bool" where
  "well_ordered vs \<longleftrightarrow>
     sorted_wrt (\<lambda>v w. rv_begin_ts w < rv_begin_ts v) (filter (\<lambda>row. rv_begin_ts row \<noteq> 0) (map snd vs))
     \<and> (\<forall>row \<in> set (map snd vs). rv_end_ts row \<noteq> 0 \<longrightarrow>
          (\<exists>row' \<in> set (map snd vs). rv_begin_ts row < rv_begin_ts row' \<and> rv_begin_ts row' \<le> rv_end_ts row))"

lemma visible_committed: "is_row_visible (snapshot_as_of ts) row \<Longrightarrow> committed_at ts row"
  by (auto simp: is_row_visible_def committed_at_def snapshot_as_of_def Let_def split: if_splits)

lemma newest_committed_visible:
  assumes "well_ordered vs" "(m, row) \<in> set vs" "committed_at ts row"
    and newest: "\<forall>v \<in> set vs. committed_at ts (snd v) \<longrightarrow> rv_begin_ts (snd v) \<le> rv_begin_ts row"
  shows "is_row_visible (snapshot_as_of ts) row"
proof -
  have "ts < rv_end_ts row" if e: "rv_end_ts row \<noteq> 0"
  proof -
    have "row \<in> set (map snd vs)" using assms(2) by force
    with assms(1) e obtain v where v: "v \<in> set vs" "rv_begin_ts row < rv_begin_ts (snd v)" "rv_begin_ts (snd v) \<le> rv_end_ts row"
      unfolding well_ordered_def by (metis (mono_tags, lifting) imageE list.set_map)
    then have "\<not> committed_at ts (snd v)" using newest by auto
    moreover have "rv_begin_ts (snd v) \<noteq> 0" using v(2) by auto
    ultimately show ?thesis using v(3) by (auto simp: committed_at_def)
  qed
  then show ?thesis using assms(3) by (auto simp: is_row_visible_def committed_at_def snapshot_as_of_def)
qed

lemma first_committed_newest:
  assumes "well_ordered vs" "\<exists>v \<in> set vs. committed_at ts (snd v)"
  obtains us m row ws where "vs = us @ (m, row) # ws" "committed_at ts row" "\<forall>v \<in> set us. \<not> committed_at ts (snd v)"
    "\<forall>v \<in> set vs. committed_at ts (snd v) \<longrightarrow> rv_begin_ts (snd v) \<le> rv_begin_ts row"
proof -
  from assms(2) obtain us v ws where split: "vs = us @ v # ws" "committed_at ts (snd v)" "\<forall>u \<in> set us. \<not> committed_at ts (snd u)"
    using split_list_first_prop [of vs "\<lambda>v. committed_at ts (snd v)"] by blast
  obtain m row where v: "v = (m, row)" by (cases v)
  have sorted: "sorted_wrt (\<lambda>v w. rv_begin_ts w < rv_begin_ts v) (filter (\<lambda>row. rv_begin_ts row \<noteq> 0) (map snd vs))"
    using assms(1) by (simp add: well_ordered_def)
  have "rv_begin_ts row \<noteq> 0" using split(2) by (simp add: v committed_at_def)
  then have later: "rv_begin_ts (snd w) < rv_begin_ts row" if "w \<in> set ws" "rv_begin_ts (snd w) \<noteq> 0" for w
    using sorted that by (simp add: split(1) v sorted_wrt_append)
  have "rv_begin_ts (snd w) \<le> rv_begin_ts row" if w: "w \<in> set vs" "committed_at ts (snd w)" for w
  proof -
    have "w \<notin> set us" using split(3) w(2) by blast
    then consider "w = v" | "w \<in> set ws" using w(1) by (auto simp: split(1))
    then show ?thesis using later [of w] w(2) by cases (auto simp: v committed_at_def)
  qed
  then show thesis using that [of us m row ws] split v by simp
qed

text \<open>
  (C24) A snapshot reads the newest version committed by then. For a row whose chain of versions ends,
  is ordered newest first, and in which every version with an end was succeeded, by that end, by a
  newer version of the chain (a delete leaves a delete marker, not a bare end), reading as of \<open>ts\<close> returns the version with the greatest commit
  timestamp not after \<open>ts\<close> (as deleted when it is a delete marker), and reports the row as missing
  exactly when no version was committed by \<open>ts\<close>.
\<close>

theorem mvcc_snapshot_read:
  assumes head: "row_dir_get dir r = Some head"
    and chain: "path load head vs q" "file_ptr_is_none q" and rows: "same_row r t vs" and ordered: "well_ordered vs"
  shows "if \<exists>v \<in> set vs. committed_at ts (snd v)
     then \<exists>m row hops. (m, row) \<in> set vs \<and> committed_at ts row
        \<and> (\<forall>v \<in> set vs. committed_at ts (snd v) \<longrightarrow> rv_begin_ts (snd v) \<le> rv_begin_ts row)
        \<and> resolve_row_id dir load r (snapshot_as_of ts) = Inr (lookup_of \<lparr>vv_ptr = m, vv_row = row, vv_hops = hops\<rparr>)
     else resolve_row_id dir load r (snapshot_as_of ts) = Inr Missing"
proof (cases "\<exists>v \<in> set vs. committed_at ts (snd v)")
  case True
  from first_committed_newest [OF ordered True] obtain us m row ws where vs: "vs = us @ (m, row) # ws"
    and row: "committed_at ts row" and us: "\<forall>v \<in> set us. \<not> committed_at ts (snd v)"
    and newest: "\<forall>v \<in> set vs. committed_at ts (snd v) \<longrightarrow> rv_begin_ts (snd v) \<le> rv_begin_ts row" by metis
  have mem: "(m, row) \<in> set vs" by (simp add: vs)
  have "path load head (us @ [(m, row)]) (rv_prev_ptr row)" using chain(1) by (auto simp: vs path_append)
  moreover have "distinct (map fst (us @ [(m, row)]))" using chain_distinct [OF chain] by (auto simp: vs)
  moreover have "\<forall>v \<in> set us. \<not> is_row_visible (snapshot_as_of ts) (snd v)" using us visible_committed by blast
  moreover have "same_row r t (us @ [(m, row)])" using rows by (auto simp: vs same_row_def)
  moreover have "is_row_visible (snapshot_as_of ts) row" by (rule newest_committed_visible [OF ordered mem row newest])
  ultimately have "resolve_chain load head (Some r) None (snapshot_as_of ts)
      = Inr (lookup_of \<lparr>vv_ptr = m, vv_row = row, vv_hops = length us + 1\<rparr>)"
    by (intro resolve_chain_found) simp_all
  then show ?thesis using True mem row newest head by (auto simp: resolve_row_id_def)
next
  case False
  then have "\<forall>v \<in> set vs. \<not> is_row_visible (snapshot_as_of ts) (snd v)" using visible_committed by blast
  then have "resolve_chain load head (Some r) None (snapshot_as_of ts) = Inr Missing"
    by (intro resolve_chain_missing [OF chain rows]) simp_all
  then show ?thesis using False head by (simp add: resolve_row_id_def)
qed

text \<open>
  Cycles are detected. If following previous-version pointers from the head comes back to a
  pointer already visited and no version on the way is visible, the walk fails with a cycle error
  naming that pointer instead of running forever.
\<close>

theorem mvcc_cycle_detected:
  assumes "path load head vs q" "q \<in> fst ` set vs" "\<not> file_ptr_is_none q" "same_row r t vs" "distinct (map fst vs)"
    and "\<forall>v \<in> set vs. \<not> is_row_visible s (snd v)"
  shows "resolve_head load head s = Inl (ChainCycle q)"
  unfolding resolve_head_def by (rule resolve_chain_cycle [OF assms]) simp

section \<open>The cache agrees with the chain\<close>

text \<open>What a walk that found a version has seen.\<close>

lemma resolve_loop_inv:
  assumes "resolve_loop load seen hops p er et s = Inr lk" "lk \<noteq> Missing" "\<not> file_ptr_is_none p"
  shows "\<exists>vs m row r t. path load p (vs @ [(m, row)]) (rv_prev_ptr row) \<and> same_row r t (vs @ [(m, row)])
     \<and> distinct (map fst (vs @ [(m, row)])) \<and> fst ` set (vs @ [(m, row)]) \<inter> seen = {}
     \<and> (\<forall>v \<in> set vs. \<not> is_row_visible s (snd v)) \<and> is_row_visible s row
     \<and> lk = lookup_of \<lparr>vv_ptr = m, vv_row = row, vv_hops = hops + length vs + 1\<rparr>
     \<and> (er = Some r \<or> er = None) \<and> (et = Some t \<or> et = None)"
  using assms
proof (induction load seen hops p er et s rule: resolve_loop.induct)
  case (1 load seen hops p er et s)
  from 1(2) obtain row where p: "p \<notin> seen" and load: "load p = Inr row"
    and er: "er = Some (rv_row_id row) \<or> er = None" and et: "et = Some (rv_table_id row) \<or> et = None"
    by (subst (asm) resolve_loop.simps) (auto simp: bindE_eq_Inr split: if_splits option.splits)
  note step = resolve_loop_step [of p seen load row "rv_row_id row" "rv_table_id row" er et hops s]
  show ?case
  proof (cases "is_row_visible s row")
    case True
    then have "lk = lookup_of \<lparr>vv_ptr = p, vv_row = row, vv_hops = hops + 1\<rparr>" using 1(2) step p load er et by simp
    then show ?thesis using True p load er et 1(4)
      by (intro exI [of _ "[]"] exI [of _ p] exI [of _ row] exI [of _ "rv_row_id row"] exI [of _ "rv_table_id row"])
        (simp add: same_row_def)
  next
    case False
    then have prev: "\<not> file_ptr_is_none (rv_prev_ptr row)"
      and rec: "resolve_loop load (insert p seen) (hops + 1) (rv_prev_ptr row) (Some (rv_row_id row)) (Some (rv_table_id row)) s = Inr lk"
      using 1(2,3) step p load er et by (auto split: if_splits)
    have "\<exists>vs m row' r t. path load (rv_prev_ptr row) (vs @ [(m, row')]) (rv_prev_ptr row') \<and> same_row r t (vs @ [(m, row')])
       \<and> distinct (map fst (vs @ [(m, row')])) \<and> fst ` set (vs @ [(m, row')]) \<inter> insert p seen = {}
       \<and> (\<forall>v \<in> set vs. \<not> is_row_visible s (snd v)) \<and> is_row_visible s row'
       \<and> lk = lookup_of \<lparr>vv_ptr = m, vv_row = row', vv_hops = hops + 1 + length vs + 1\<rparr>
       \<and> (Some (rv_row_id row) = Some r \<or> Some (rv_row_id row) = None) \<and> (Some (rv_table_id row) = Some t \<or> Some (rv_table_id row) = None)"
      using er et by (intro 1(1) [OF p load _ _ False prev rec 1(3) prev]) auto
    then obtain vs m row' where "path load (rv_prev_ptr row) (vs @ [(m, row')]) (rv_prev_ptr row')"
      "same_row (rv_row_id row) (rv_table_id row) (vs @ [(m, row')])" "distinct (map fst (vs @ [(m, row')]))"
      "fst ` set (vs @ [(m, row')]) \<inter> insert p seen = {}" "\<forall>v \<in> set vs. \<not> is_row_visible s (snd v)" "is_row_visible s row'"
      "lk = lookup_of \<lparr>vv_ptr = m, vv_row = row', vv_hops = hops + 1 + length vs + 1\<rparr>" by auto
    then show ?thesis using p load er et 1(4) False
      by (intro exI [of _ "(p, row) # vs"] exI [of _ m] exI [of _ row'] exI [of _ "rv_row_id row"] exI [of _ "rv_table_id row"])
        (auto simp: same_row_def)
  qed
qed

definition load_extends :: "resolver \<Rightarrow> resolver \<Rightarrow> bool" where
  "load_extends load load' \<longleftrightarrow> (\<forall>p row. load p = Inr row \<longrightarrow> load' p = Inr row)"

text \<open>No snapshot sees two versions of one chain.\<close>

definition single_visible :: "resolver \<Rightarrow> bool" where
  "single_visible load \<longleftrightarrow> (\<forall>p us v ws w q s. path load p (us @ v # ws @ [w]) q \<longrightarrow>
     \<not> (is_row_visible s (snd v) \<and> is_row_visible s (snd w)))"

definition found_from :: "resolver \<Rightarrow> u64 \<Rightarrow> file_ptr \<Rightarrow> mvcc_lookup \<Rightarrow> bool" where
  "found_from load r head lk \<longleftrightarrow> (\<exists>vs m row t. path load head (vs @ [(m, row)]) (rv_prev_ptr row)
     \<and> same_row r t (vs @ [(m, row)]) \<and> distinct (map fst (vs @ [(m, row)]))
     \<and> lk = lookup_of \<lparr>vv_ptr = m, vv_row = row, vv_hops = length vs + 1\<rparr>)"

definition cache_valid :: "resolver \<Rightarrow> visible_version_index \<Rightarrow> bool" where
  "cache_valid load ix \<longleftrightarrow> (\<forall>r b e. map_of (vi_entries ix) (r, b) = Some e \<longrightarrow>
     (\<exists>head. ce_head e = Some head \<and> found_from load r head (ce_lookup e)))"

lemma path_extends: "\<lbrakk>load_extends load load'; path load p vs q\<rbrakk> \<Longrightarrow> path load' p vs q"
  by (induction load p vs q rule: path.induct) (auto simp: load_extends_def)

lemma cache_valid_extends: "\<lbrakk>load_extends load load'; cache_valid load ix\<rbrakk> \<Longrightarrow> cache_valid load' ix"
  unfolding cache_valid_def found_from_def using path_extends by meson

lemma lookup_of_cases [simp]:
  "lookup_of v \<noteq> Missing" "cached_lookup_matches_snapshot (lookup_of v) s = is_row_visible s (vv_row v)"
  by (simp_all add: lookup_of_def)

lemma resolve_chain_found_from:
  assumes "resolve_chain load head (Some r) None s = Inr lk" "lk \<noteq> Missing"
  shows "found_from load r head lk"
proof -
  from assms have head: "\<not> file_ptr_is_none head" and loop: "resolve_loop load {} 0 head (Some r) None s = Inr lk"
    by (auto simp: resolve_chain_def split: if_splits)
  from resolve_loop_inv [OF loop assms(2) head] show ?thesis unfolding found_from_def by auto
qed

lemma found_from_resolve:
  assumes single: "single_visible load" and found: "found_from load r head lk" and vis: "cached_lookup_matches_snapshot lk s"
  shows "resolve_chain load head (Some r) None s = Inr lk"
proof -
  from found obtain vs m row t where walk: "path load head (vs @ [(m, row)]) (rv_prev_ptr row)"
    "same_row r t (vs @ [(m, row)])" "distinct (map fst (vs @ [(m, row)]))"
    and lk: "lk = lookup_of \<lparr>vv_ptr = m, vv_row = row, vv_hops = length vs + 1\<rparr>" by (auto simp: found_from_def)
  have row: "is_row_visible s row" using vis by (simp add: lk)
  have "\<not> is_row_visible s (snd v)" if v: "v \<in> set vs" for v
  proof
    assume "is_row_visible s (snd v)"
    moreover from v obtain us ws where "vs = us @ v # ws" by (auto dest: split_list)
    ultimately show False using single walk(1) row unfolding single_visible_def by fastforce
  qed
  then show ?thesis unfolding lk by (intro resolve_chain_found [OF walk _ row]) auto
qed

lemma evict_loop_subset:
  "map_of (fst (evict_loop c es order n)) k = Some e \<Longrightarrow> map_of es k = Some e"
  by (induction c es order n rule: evict_loop.induct) (auto simp: AList.delete_conv' split: if_splits)

lemma cache_valid_remove: "cache_valid load ix \<Longrightarrow> cache_valid load (remove_key ix key)"
  by (auto simp: cache_valid_def remove_key_def AList.delete_conv' split: if_splits)

lemma cache_valid_insert:
  assumes "cache_valid load ix" "ce_head e = Some head" "found_from load r head (ce_lookup e)"
  shows "cache_valid load (index_insert ix (r, b) e)"
proof -
  let ?ix = "remove_key ix (r, b)"
  obtain es order n where ev: "evict_loop (vi_capacity ?ix) (vi_entries ?ix) (vi_order ?ix) (st_evictions (vi_stats ?ix)) = (es, order, n)"
    by (cases "evict_loop (vi_capacity ?ix) (vi_entries ?ix) (vi_order ?ix) (st_evictions (vi_stats ?ix))") auto
  have sub: "map_of es k = Some e' \<Longrightarrow> map_of (vi_entries ?ix) k = Some e'" for k e'
    using evict_loop_subset [of _ _ _ _ k e'] ev by (metis fst_conv)
  have "vi_entries (index_insert ix (r, b) e) = AList.update (r, b) e es"
    using ev by (simp add: index_insert_def Let_def)
  moreover have "\<exists>head. ce_head e' = Some head \<and> found_from load r' head (ce_lookup e')"
    if "map_of (AList.update (r, b) e es) (r', b') = Some e'" for r' b' e'
  proof (cases "(r', b') = (r, b)")
    case True
    then show ?thesis using that assms(2,3) by (auto simp: AList.update_conv')
  next
    case False
    then have "map_of es (r', b') = Some e'" using that by (auto simp: AList.update_conv' split: if_splits)
    from sub [OF this] show ?thesis using cache_valid_remove [OF assms(1), of "(r, b)"] unfolding cache_valid_def by blast
  qed
  ultimately show ?thesis unfolding cache_valid_def by simp
qed

lemma cache_valid_stats [simp]: "cache_valid load (ix\<lparr>vi_stats := st\<rparr>) = cache_valid load ix"
  by (simp add: cache_valid_def)

lemma index_miss_valid:
  assumes "cache_valid load ix"
  shows "fst (index_miss ix dir load r s (r, b) (row_dir_get dir r)) = resolve_row_id dir load r s
     \<and> cache_valid load (snd (index_miss ix dir load r s (r, b) (row_dir_get dir r)))"
proof (cases "resolve_row_id dir load r s")
  case (Inr lk)
  show ?thesis
  proof (cases "lk = Missing")
    case False
    with Inr obtain head where head: "row_dir_get dir r = Some head" and "resolve_chain load head (Some r) None s = Inr lk"
      by (auto simp: resolve_row_id_def split: option.splits)
    then have "found_from load r head lk" using False resolve_chain_found_from by blast
    then show ?thesis using Inr False assms head by (simp add: cache_valid_insert index_miss_def)
  qed (use Inr assms in \<open>simp add: index_miss_def\<close>)
qed (use assms in \<open>simp add: index_miss_def\<close>)

lemma index_resolve_valid:
  assumes valid: "cache_valid load ix" and single: "single_visible load"
  shows "fst (index_resolve_row_id ix dir load r s) = resolve_row_id dir load r s
     \<and> cache_valid load (snd (index_resolve_row_id ix dir load r s))"
proof (cases "vi_capacity ix = 0 \<or> map_of (vi_entries ix) (r, bucket_from_snapshot s (vi_bucket_width ix)) = None")
  case True
  then show ?thesis using valid by (auto simp: index_resolve_row_id_def Let_def index_miss_valid)
next
  case False
  then obtain e where e: "map_of (vi_entries ix) (r, bucket_from_snapshot s (vi_bucket_width ix)) = Some e" by auto
  with valid obtain head where head: "ce_head e = Some head" "found_from load r head (ce_lookup e)"
    unfolding cache_valid_def by blast
  show ?thesis
  proof (cases "ce_head e = row_dir_get dir r \<and> cached_lookup_matches_snapshot (ce_lookup e) s")
    case True
    then have "resolve_row_id dir load r s = Inr (ce_lookup e)"
      using found_from_resolve [OF single head(2), of s] head(1) by (auto simp: resolve_row_id_def split: option.splits)
    then show ?thesis using True e False valid by (simp add: index_resolve_row_id_def Let_def)
  next
    case stale: False
    then show ?thesis using False e valid
      by (auto simp: index_resolve_row_id_def Let_def index_miss_valid cache_valid_remove)
  qed
qed

text \<open>A sequence of lookups through one index; directory and segments may change in between.\<close>

type_synonym lookup_call = "row_dir \<times> resolver \<times> u64 \<times> snapshot"

fun index_run :: "visible_version_index \<Rightarrow> lookup_call list \<Rightarrow> (mvcc_error + mvcc_lookup) list" where
  "index_run ix [] = []"
| "index_run ix ((dir, load, r, s) # calls) =
     fst (index_resolve_row_id ix dir load r s) # index_run (snd (index_resolve_row_id ix dir load r s)) calls"

lemma index_run_uncached:
  assumes "cache_valid load0 ix" "\<forall>c \<in> set calls. single_visible (fst (snd c))"
    and "sorted_wrt load_extends (load0 # map (\<lambda>c. fst (snd c)) calls)"
  shows "index_run ix calls = map (\<lambda>(dir, load, r, s). resolve_row_id dir load r s) calls"
  using assms
proof (induction calls arbitrary: ix load0)
  case (Cons c calls)
  obtain dir load r s where c: "c = (dir, load, r, s)" by (cases c)
  have "cache_valid load ix" using cache_valid_extends [OF _ Cons.prems(1), of load] Cons.prems(3) by (simp add: c)
  from index_resolve_valid [OF this, of dir r s] Cons.prems(2)
  have step: "fst (index_resolve_row_id ix dir load r s) = resolve_row_id dir load r s"
    "cache_valid load (snd (index_resolve_row_id ix dir load r s))" by (simp_all add: c)
  from Cons.IH [OF step(2)] Cons.prems(2,3) show ?case by (simp add: c step(1))
qed simp

text \<open>
  (C25) The cache of visible versions is transparent. For any sequence of lookups through one index,
  with the row directory changing in between and segments only growing, every lookup returns what
  the walk along the chain returns, provided no snapshot sees two versions of the same chain.
\<close>

theorem mvcc_cache_transparent:
  assumes "\<forall>c \<in> set calls. single_visible (fst (snd c))"
    and "sorted_wrt load_extends (map (\<lambda>c. fst (snd c)) calls)"
  shows "index_run (index_new bucket_width capacity) calls
     = map (\<lambda>(dir, load, r, s). resolve_row_id dir load r s) calls"
proof (cases calls)
  case (Cons c cs)
  have "cache_valid (fst (snd c)) (index_new bucket_width capacity)" by (simp add: cache_valid_def index_new_def)
  moreover have "load_extends (fst (snd c)) (fst (snd c))" by (simp add: load_extends_def)
  ultimately show ?thesis using assms Cons by (intro index_run_uncached) auto
qed simp

section \<open>The cache is bounded\<close>

definition index_wf :: "visible_version_index \<Rightarrow> bool" where
  "index_wf ix \<longleftrightarrow> distinct (map fst (vi_entries ix)) \<and> distinct (vi_order ix)
     \<and> set (vi_order ix) = fst ` set (vi_entries ix) \<and> length (vi_entries ix) \<le> vi_capacity ix"

lemma length_delete_member:
  "\<lbrakk>distinct (map fst es); k \<in> fst ` set es\<rbrakk> \<Longrightarrow> Suc (length (AList.delete k es)) = length es"
proof (induction es)
  case (Cons p es)
  show ?case
  proof (cases "fst p = k")
    case True
    then have "AList.delete k es = es" using Cons.prems by (intro AList.delete_id) auto
    then show ?thesis using True by (cases p) simp
  next
    case False
    then show ?thesis using Cons by (cases p) auto
  qed
qed simp

lemma evict_loop_wf:
  assumes "distinct (map fst es)" "distinct order" "set order = fst ` set es" "length es \<le> c" "0 < c"
    and "evict_loop c es order n = (es', order', n')"
  shows "distinct (map fst es') \<and> distinct order' \<and> set order' = fst ` set es' \<and> length es' < c \<and> fst ` set es' \<subseteq> fst ` set es"
  using assms
proof (induction c es order n rule: evict_loop.induct)
  case (2 c es old order n)
  show ?case
  proof (cases "c \<le> length es")
    case True
    let ?es = "AList.delete old es"
    have len: "Suc (length ?es) = length es" using 2(2,4) by (intro length_delete_member) auto
    have keys: "fst ` set ?es = fst ` set es - {old}"
      using arg_cong [OF AList.delete_keys [of old es], of set] by simp
    from True 2(7) have rec: "evict_loop c ?es order (if map_of es old \<noteq> None then n + 1 else n) = (es', order', n')" by simp
    have "distinct (map fst ?es)" "distinct order" "set order = fst ` set ?es" "length ?es \<le> c"
      using 2(2-5) len keys by (auto simp: AList.distinct_delete)
    from 2(1) [OF True this 2(6) rec] show ?thesis using keys by auto
  next
    case False
    then show ?thesis using 2 by auto
  qed
qed auto

lemma remove_key_wf:
  assumes "index_wf ix"
  shows "index_wf (remove_key ix key)" "key \<notin> fst ` set (vi_entries (remove_key ix key))"
    "vi_capacity (remove_key ix key) = vi_capacity ix"
proof -
  have "fst ` set (AList.delete key (vi_entries ix)) = fst ` set (vi_entries ix) - {key}"
    using arg_cong [OF AList.delete_keys [of key "vi_entries ix"], of set] by simp
  then show "index_wf (remove_key ix key)" "key \<notin> fst ` set (vi_entries (remove_key ix key))"
    using assms AList.length_delete_le [of key "vi_entries ix"]
    by (auto simp: index_wf_def remove_key_def AList.distinct_delete)
qed (simp add: remove_key_def)

lemma length_update_le: "length (AList.update k v es) \<le> Suc (length es)"
  by (induction es) auto

lemma index_insert_wf:
  assumes "index_wf ix" and "0 < vi_capacity ix"
  shows "index_wf (index_insert ix key e) \<and> vi_capacity (index_insert ix key e) = vi_capacity ix"
proof -
  let ?ix = "remove_key ix key"
  note rk = remove_key_wf [OF assms(1), of key]
  obtain es order n where ev: "evict_loop (vi_capacity ?ix) (vi_entries ?ix) (vi_order ?ix) (st_evictions (vi_stats ?ix)) = (es, order, n)"
    by (cases "evict_loop (vi_capacity ?ix) (vi_entries ?ix) (vi_order ?ix) (st_evictions (vi_stats ?ix))") auto
  have wf: "distinct (map fst es)" "distinct order" "set order = fst ` set es" "length es < vi_capacity ix" "key \<notin> fst ` set es"
    using evict_loop_wf [OF _ _ _ _ _ ev] rk assms(2) by (auto simp: index_wf_def)
  then show ?thesis using ev rk(3) length_update_le [of key e es]
    by (auto simp: index_insert_def Let_def index_wf_def AList.distinct_update AList.dom_update)
qed

lemma index_wf_stats [simp]: "index_wf (ix\<lparr>vi_stats := st\<rparr>) = index_wf ix"
  by (simp add: index_wf_def)

lemma index_miss_wf:
  assumes "index_wf ix" and "0 < vi_capacity ix"
  shows "index_wf (snd (index_miss ix dir load r s key head)) \<and> vi_capacity (snd (index_miss ix dir load r s key head)) = vi_capacity ix"
  using assms index_insert_wf [OF assms] by (auto simp: index_miss_def split: sum.splits)

lemma index_resolve_wf:
  assumes "index_wf ix"
  shows "index_wf (snd (index_resolve_row_id ix dir load r s)) \<and> vi_capacity (snd (index_resolve_row_id ix dir load r s)) = vi_capacity ix"
proof (cases "vi_capacity ix = 0")
  case True
  then show ?thesis using assms by (simp add: index_resolve_row_id_def)
next
  case False
  let ?ix = "ix\<lparr>vi_stats := (vi_stats ix)\<lparr>st_misses := st_misses (vi_stats ix) + 1,
      st_stale := st_stale (vi_stats ix) + 1\<rparr>\<rparr>"
  have wf: "index_wf ?ix" using assms by simp
  have "index_wf (remove_key ?ix key)" "vi_capacity (remove_key ?ix key) = vi_capacity ix" for key
    using remove_key_wf [OF wf, of key] by simp_all
  then have "index_wf (snd (index_miss (remove_key ?ix key) dir load r s key' head))
      \<and> vi_capacity (snd (index_miss (remove_key ?ix key) dir load r s key' head)) = vi_capacity ix" for key key' head
    using index_miss_wf False by simp
  then show ?thesis using assms False
    by (auto simp: index_resolve_row_id_def Let_def index_miss_wf split: option.splits)
qed

definition index_after :: "visible_version_index \<Rightarrow> lookup_call list \<Rightarrow> visible_version_index" where
  "index_after ix calls = foldl (\<lambda>ix (dir, load, r, s). snd (index_resolve_row_id ix dir load r s)) ix calls"

text \<open>
  The cache stays bounded: after any sequence of lookups it holds at most \<open>capacity\<close> entries, and
  its eviction queue lists exactly the cached keys, each once.
\<close>

theorem mvcc_cache_bounded:
  "length (vi_entries (index_after (index_new bucket_width capacity) calls)) \<le> capacity
   \<and> distinct (vi_order (index_after (index_new bucket_width capacity) calls))
   \<and> set (vi_order (index_after (index_new bucket_width capacity) calls))
      = fst ` set (vi_entries (index_after (index_new bucket_width capacity) calls))"
proof -
  have "index_wf (index_after ix calls) \<and> vi_capacity (index_after ix calls) = vi_capacity ix" if "index_wf ix" for ix
    using that
  proof (induction calls arbitrary: ix)
    case (Cons c calls)
    obtain dir load r s where c: "c = (dir, load, r, s)" by (cases c)
    show ?case using Cons.IH index_resolve_wf [OF Cons.prems, of dir load r s] by (simp add: index_after_def c)
  qed (simp add: index_after_def)
  moreover have "index_wf (index_new bucket_width capacity)" "vi_capacity (index_new bucket_width capacity) = capacity"
    by (simp_all add: index_wf_def index_new_def)
  ultimately have "index_wf (index_after (index_new bucket_width capacity) calls)
      \<and> vi_capacity (index_after (index_new bucket_width capacity) calls) = capacity" by simp
  then show ?thesis by (auto simp: index_wf_def)
qed

section \<open>Examples\<close>

text \<open>Two versions of a row, the newer one in front, both left open as \<open>RowVersion::new\<close> builds them.\<close>

definition old_version :: row_version where
  "old_version = row_version_new 1 7 1 []"

definition new_version :: row_version where
  "new_version = with_prev (row_version_new 1 7 2 []) \<lparr>fp_file_id = 1, fp_offset = 64\<rparr>"

definition two_versions :: "row_version \<Rightarrow> resolver" where
  "two_versions old p = (if p = \<lparr>fp_file_id = 1, fp_offset = 64\<rparr> then Inr old
     else if p = \<lparr>fp_file_id = 1, fp_offset = 128\<rparr> then Inr new_version else Inl (MissingSegment (fp_file_id p)))"

lemmas version_defs = old_version_def new_version_def two_versions_def row_version_new_def with_prev_def
  with_end_ts_def file_ptr_NONE_def file_ptr_is_none_def

lemma two_versions_path:
  "rv_prev_ptr old = file_ptr_NONE \<Longrightarrow> path (two_versions old) \<lparr>fp_file_id = 1, fp_offset = 128\<rparr>
     [(\<lparr>fp_file_id = 1, fp_offset = 128\<rparr>, new_version), (\<lparr>fp_file_id = 1, fp_offset = 64\<rparr>, old)] file_ptr_NONE"
  by (simp add: version_defs)

theorem mvcc_snapshot_read_witness:
  "\<exists>m row hops. committed_at 1 row \<and> resolve_row_id [(7, Live \<lparr>fp_file_id = 1, fp_offset = 128\<rparr>)] (two_versions old_version) 7 (snapshot_as_of 1)
     = Inr (lookup_of \<lparr>vv_ptr = m, vv_row = row, vv_hops = hops\<rparr>)"
proof -
  let ?vs = "[(\<lparr>fp_file_id = 1, fp_offset = 128\<rparr>, new_version), (\<lparr>fp_file_id = 1, fp_offset = 64\<rparr>, old_version)]"
  have chain: "path (two_versions old_version) \<lparr>fp_file_id = 1, fp_offset = 128\<rparr> ?vs file_ptr_NONE"
    by (rule two_versions_path) (simp add: version_defs)
  have "row_dir_get [(7, Live \<lparr>fp_file_id = 1, fp_offset = 128\<rparr>)] 7 = Some \<lparr>fp_file_id = 1, fp_offset = 128\<rparr>"
    by (simp add: row_dir_get_def)
  moreover have "same_row 7 1 ?vs" "well_ordered ?vs" "\<exists>v \<in> set ?vs. committed_at 1 (snd v)"
    by (simp_all add: same_row_def well_ordered_def committed_at_def version_defs)
  ultimately show ?thesis
    using mvcc_snapshot_read [OF _ chain, of "[(7, Live \<lparr>fp_file_id = 1, fp_offset = 128\<rparr>)]" 7 1 1]
    by (auto simp: file_ptr_is_none_def file_ptr_NONE_def)
qed

theorem mvcc_cycle_detected_witness:
  "resolve_head (\<lambda>_. Inr (with_prev (row_version_new 1 7 0 []) \<lparr>fp_file_id = 1, fp_offset = 64\<rparr>))
     \<lparr>fp_file_id = 1, fp_offset = 64\<rparr> snapshot_latest = Inl (ChainCycle \<lparr>fp_file_id = 1, fp_offset = 64\<rparr>)"
  by (rule mvcc_cycle_detected [where r = 7 and t = 1 and
        vs = "[(\<lparr>fp_file_id = 1, fp_offset = 64\<rparr>, with_prev (row_version_new 1 7 0 []) \<lparr>fp_file_id = 1, fp_offset = 64\<rparr>)]"])
    (simp_all add: version_defs same_row_def is_row_visible_def)

lemma path_loads: "path load p vs q \<Longrightarrow> v \<in> set vs \<Longrightarrow> load (fst v) = Inr (snd v)"
  by (induction load p vs q rule: path.induct) auto

lemma single_visible_two_versions: "single_visible (two_versions (with_end_ts old_version 2))"
  unfolding single_visible_def
proof (intro allI impI)
  fix p us v ws w q s
  let ?old = "with_end_ts old_version 2" and ?p1 = "\<lparr>fp_file_id = 1, fp_offset = 64\<rparr> :: file_ptr"
  assume walk: "path (two_versions ?old) p (us @ v # ws @ [w]) q"
  then obtain m where m: "path (two_versions ?old) m (v # ws @ [w]) q" by (auto simp: path_append)
  then have rest: "path (two_versions ?old) (rv_prev_ptr (snd v)) (ws @ [w]) q" by (cases v) auto
  have none: "\<not> path (two_versions ?old) file_ptr_NONE (zs @ [z]) q" for zs z
    by (cases z; cases zs) (auto simp: file_ptr_is_none_def file_ptr_NONE_def)
  have "rv_prev_ptr ?old = file_ptr_NONE" by (simp add: version_defs)
  then have "snd v \<noteq> ?old" using rest none by metis
  moreover have "two_versions ?old (fst v) = Inr (snd v)" using path_loads [OF m, of v] by simp
  ultimately have v: "snd v = new_version" by (auto simp: two_versions_def split: if_splits)
  then have "path (two_versions ?old) ?p1 (ws @ [w]) q" using rest by (simp add: version_defs)
  then have "snd w = ?old"
  proof (cases ws)
    case (Cons u us)
    with \<open>path (two_versions ?old) ?p1 (ws @ [w]) q\<close> have "path (two_versions ?old) file_ptr_NONE (us @ [w]) q"
      by (cases u) (auto simp: version_defs)
    then show ?thesis using none by blast
  qed (cases w, auto simp: two_versions_def)
  then show "\<not> (is_row_visible s (snd v) \<and> is_row_visible s (snd w))"
    by (auto simp: v version_defs is_row_visible_def Let_def split: if_splits)
qed

theorem mvcc_cache_transparent_witness:
  "index_run (index_new 1000 16)
     [([(7, Live \<lparr>fp_file_id = 1, fp_offset = 128\<rparr>)], two_versions (with_end_ts old_version 2), 7, snapshot_as_of 1),
      ([(7, Live \<lparr>fp_file_id = 1, fp_offset = 128\<rparr>)], two_versions (with_end_ts old_version 2), 7, snapshot_as_of 2)]
   = [resolve_row_id [(7, Live \<lparr>fp_file_id = 1, fp_offset = 128\<rparr>)] (two_versions (with_end_ts old_version 2)) 7 (snapshot_as_of 1),
      resolve_row_id [(7, Live \<lparr>fp_file_id = 1, fp_offset = 128\<rparr>)] (two_versions (with_end_ts old_version 2)) 7 (snapshot_as_of 2)]"
  by (subst mvcc_cache_transparent) (simp_all add: single_visible_two_versions load_extends_def)

text \<open>
  Without that condition the cache returns stale versions. When a superseded version is left
  open-ended, as \<open>RowVersion::new\<close> builds it and append-only segments keep it, a lookup as of an
  earlier time makes a later lookup in the same bucket return the old version, although the chain
  walk finds the newer one and neither the head nor the segments have changed.
\<close>

theorem mvcc_cache_stale:
  "let dir = [(7, Live \<lparr>fp_file_id = 1, fp_offset = 128\<rparr>)]; load = two_versions old_version;
       old = \<lparr>vv_ptr = \<lparr>fp_file_id = 1, fp_offset = 64\<rparr>, vv_row = old_version, vv_hops = 2\<rparr>;
       new = \<lparr>vv_ptr = \<lparr>fp_file_id = 1, fp_offset = 128\<rparr>, vv_row = new_version, vv_hops = 1\<rparr>
   in index_run (index_new 1000 4096) [(dir, load, 7, snapshot_as_of 1), (dir, load, 7, snapshot_as_of 2)]
        = [Inr (Visible old), Inr (Visible old)]
      \<and> resolve_row_id dir load 7 (snapshot_as_of 2) = Inr (Visible new)"
proof -
  let ?dir = "[(7, Live \<lparr>fp_file_id = 1, fp_offset = 128\<rparr>)] :: row_dir" and ?load = "two_versions old_version"
  let ?old = "\<lparr>vv_ptr = \<lparr>fp_file_id = 1, fp_offset = 64\<rparr>, vv_row = old_version, vv_hops = 2\<rparr>"
  let ?new = "\<lparr>vv_ptr = \<lparr>fp_file_id = 1, fp_offset = 128\<rparr>, vv_row = new_version, vv_hops = 1\<rparr>"
  have live: "lookup_of ?old = Visible ?old" "lookup_of ?new = Visible ?new"
    by (simp_all add: lookup_of_def row_is_delete_def version_defs)
  have vis: "is_row_visible (snapshot_as_of 1) old_version" "is_row_visible (snapshot_as_of 2) old_version"
    "\<not> is_row_visible (snapshot_as_of 1) new_version" "is_row_visible (snapshot_as_of 2) new_version"
    by (simp_all add: is_row_visible_def snapshot_as_of_def version_defs word_le_nat_alt)
  have "resolve_chain ?load \<lparr>fp_file_id = 1, fp_offset = 128\<rparr> (Some 7) None (snapshot_as_of 1) = Inr (lookup_of ?old)"
    using resolve_chain_found [of ?load "\<lparr>fp_file_id = 1, fp_offset = 128\<rparr>" "[(\<lparr>fp_file_id = 1, fp_offset = 128\<rparr>, new_version)]"
        "\<lparr>fp_file_id = 1, fp_offset = 64\<rparr>" old_version file_ptr_NONE 7 1 "snapshot_as_of 1" "Some 7"] vis two_versions_path [of old_version]
    by (simp add: same_row_def version_defs flip: numeral_2_eq_2)
  then have one: "resolve_row_id ?dir ?load 7 (snapshot_as_of 1) = Inr (Visible ?old)"
    using live by (simp add: resolve_row_id_def row_dir_get_def)
  have "resolve_chain ?load \<lparr>fp_file_id = 1, fp_offset = 128\<rparr> (Some 7) None (snapshot_as_of 2) = Inr (lookup_of ?new)"
    using resolve_chain_found [of ?load "\<lparr>fp_file_id = 1, fp_offset = 128\<rparr>" "[]"
        "\<lparr>fp_file_id = 1, fp_offset = 128\<rparr>" new_version "\<lparr>fp_file_id = 1, fp_offset = 64\<rparr>" 7 1 "snapshot_as_of 2" "Some 7"] vis
    by (simp add: same_row_def version_defs)
  then have two: "resolve_row_id ?dir ?load 7 (snapshot_as_of 2) = Inr (Visible ?new)"
    using live by (simp add: resolve_row_id_def row_dir_get_def)
  have bucket: "bucket_from_snapshot (snapshot_as_of 1) 1000 = BucketAsOf 0" "bucket_from_snapshot (snapshot_as_of 2) 1000 = BucketAsOf 0"
    by (simp_all add: bucket_from_snapshot_def snapshot_as_of_def)
  have "index_run (index_new 1000 4096) [(?dir, ?load, 7, snapshot_as_of 1), (?dir, ?load, 7, snapshot_as_of 2)]
        = [Inr (Visible ?old), Inr (Visible ?old)]"
    using one vis by (simp add: index_resolve_row_id_def index_new_def bucket index_miss_def index_insert_def remove_key_def
        row_dir_get_def Let_def)
  then show ?thesis using two by (simp add: Let_def)
qed

end
