(* ===== verification/Value_Patch.thy ===== *)
theory Value_Patch
  imports Core_Format
begin

text \<open>
  Delta patches of the value store (\<open>valuestore.rs\<close>): a patch turns the bytes of a base value into
  those of a target by copying ranges of the base and adding literal bytes. The patch that is built
  keeps the common prefix and the common suffix.
\<close>

section \<open>Errors of the value store\<close>

datatype value_store_error =
    VsNotFound
  | VsBadHeader
  | InvalidSegmentRecordType u8
  | UnsupportedSegmentRecordVersion u8
  | UnsupportedValueCodec u8
  | UnsupportedDeltaCodec u8
  | InvalidValueKind u8
  | DuplicateValueId
  | InvalidSegmentEntry string
  | InvalidDelta
  | DeltaLengthMismatch
  | MissingDeltaBase
  | VsFormat format_error
  | VsIoNotFound
  | VsIoOther
  | VsCore core_error
  | VsPanic

section \<open>Building and applying patches\<close>

function common_prefix_loop :: "bytes \<Rightarrow> bytes \<Rightarrow> nat \<Rightarrow> nat" where
  "common_prefix_loop a b i =
     (if i < min (length a) (length b) \<and> a ! i = b ! i then common_prefix_loop a b (i + 1) else i)"
  by pat_completeness auto
termination
  by (relation "measure (\<lambda>(a, b, i). min (length a) (length b) - i)") auto

declare common_prefix_loop.simps [simp del]

definition common_prefix_len :: "bytes \<Rightarrow> bytes \<Rightarrow> nat" where
  "common_prefix_len a b = common_prefix_loop a b 0"

function common_suffix_loop :: "bytes \<Rightarrow> bytes \<Rightarrow> nat \<Rightarrow> nat \<Rightarrow> nat" where
  "common_suffix_loop a b prefix i =
     (if i + prefix < min (length a) (length b) \<and> a ! (length a - (1 + i)) = b ! (length b - (1 + i))
      then common_suffix_loop a b prefix (i + 1) else i)"
  by pat_completeness auto
termination
  by (relation "measure (\<lambda>(a, b, prefix, i). min (length a) (length b) - (i + prefix))") auto

declare common_suffix_loop.simps [simp del]

definition common_suffix_len :: "bytes \<Rightarrow> bytes \<Rightarrow> nat \<Rightarrow> nat" where
  "common_suffix_len a b prefix = common_suffix_loop a b prefix 0"

definition copy_op :: "nat \<Rightarrow> nat \<Rightarrow> bytes" where
  "copy_op off len = [0] @ encode_varu (word_of_nat off) @ encode_varu (word_of_nat len)"

definition add_op :: "bytes \<Rightarrow> bytes" where
  "add_op bs = [1] @ encode_varu (word_of_nat (length bs)) @ bs"

definition build_patch_bytes :: "bytes \<Rightarrow> bytes \<Rightarrow> bytes" where
  "build_patch_bytes base target =
     (if base = target then []
      else
      let prefix = common_prefix_len base target; suffix = common_suffix_len base target prefix;
          mid_start = prefix; mid_end = length target - suffix;
          ops = (if 0 < prefix then [copy_op 0 prefix] else [])
              @ (if mid_start < mid_end then [add_op (drop mid_start (take mid_end target))] else [])
              @ (if 0 < suffix then [copy_op (length base - suffix) suffix] else [])
      in encode_varu (word_of_nat (length target)) @ encode_varu (word_of_nat (length ops)) @ concat ops)"

text \<open>One operation: the bytes it appends to the output, and the rest of the patch.\<close>

definition apply_op :: "bytes \<Rightarrow> bytes \<Rightarrow> value_store_error + bytes \<times> bytes" where
  "apply_op base cursor =
     (case cursor of [] \<Rightarrow> Inl InvalidDelta | tag # cursor \<Rightarrow>
      if tag = 0 then
        bindE (map_err VsCore (decode_varu cursor)) (\<lambda>(off, cursor).
        bindE (map_err VsCore (decode_varu cursor)) (\<lambda>(len, cursor).
        let stop = min (unat off + unat len) (2 ^ 64 - 1) in
        if length base < stop then Inl InvalidDelta
        else Inr (drop (unat off) (take stop base), cursor)))
      else if tag = 1 then
        bindE (map_err VsCore (decode_varu cursor)) (\<lambda>(len, cursor).
        if length cursor < unat len then Inl InvalidDelta
        else Inr (take (unat len) cursor, drop (unat len) cursor))
      else Inl InvalidDelta)"

fun apply_ops :: "nat \<Rightarrow> bytes \<Rightarrow> bytes \<Rightarrow> bytes \<Rightarrow> value_store_error + bytes \<times> bytes" where
  "apply_ops 0 base cursor out = Inr (out, cursor)"
| "apply_ops (Suc n) base cursor out =
     bindE (apply_op base cursor) (\<lambda>(piece, cursor). apply_ops n base cursor (out @ piece))"

definition apply_patch_bytes :: "bytes \<Rightarrow> bytes \<Rightarrow> value_store_error + bytes" where
  "apply_patch_bytes base patch =
     bindE (map_err VsCore (decode_varu patch)) (\<lambda>(target_len, cursor).
     bindE (map_err VsCore (decode_varu cursor)) (\<lambda>(op_count, cursor).
     if 2 ^ 63 \<le> unat target_len then Inl VsPanic
     else bindE (apply_ops (unat op_count) base cursor []) (\<lambda>(out, cursor).
     if cursor \<noteq> [] then Inl InvalidDelta
     else if length out \<noteq> unat target_len then Inl DeltaLengthMismatch
     else Inr out)))"

section \<open>Prefix and suffix\<close>

lemma common_prefix_loop_spec:
  "\<lbrakk>take i a = take i b; i \<le> min (length a) (length b)\<rbrakk> \<Longrightarrow>
     take (common_prefix_loop a b i) a = take (common_prefix_loop a b i) b
     \<and> common_prefix_loop a b i \<le> min (length a) (length b)"
proof (induction a b i rule: common_prefix_loop.induct)
  case (1 a b i)
  show ?case
  proof (cases "i < min (length a) (length b) \<and> a ! i = b ! i")
    case True
    then have "take (i + 1) a = take (i + 1) b" using 1(2) by (simp add: take_Suc_conv_app_nth)
    moreover have "common_prefix_loop a b i = common_prefix_loop a b (i + 1)" using True by (subst common_prefix_loop.simps) simp
    ultimately show ?thesis using 1(1) [OF True] True by simp
  next
    case False
    then have "common_prefix_loop a b i = i" by (subst common_prefix_loop.simps) (simp only: if_False)
    then show ?thesis using 1 by simp
  qed
qed

lemma common_prefix_len_spec:
  "take (common_prefix_len a b) a = take (common_prefix_len a b) b"
  "common_prefix_len a b \<le> length a" "common_prefix_len a b \<le> length b"
  using common_prefix_loop_spec [of 0 a b] by (simp_all add: common_prefix_len_def)

lemma common_suffix_loop_spec:
  "\<lbrakk>drop (length a - i) a = drop (length b - i) b; i + p \<le> min (length a) (length b)\<rbrakk> \<Longrightarrow>
     drop (length a - common_suffix_loop a b p i) a = drop (length b - common_suffix_loop a b p i) b
     \<and> common_suffix_loop a b p i + p \<le> min (length a) (length b)"
proof (induction a b p i rule: common_suffix_loop.induct)
  case (1 a b p i)
  show ?case
  proof (cases "i + p < min (length a) (length b) \<and> a ! (length a - (1 + i)) = b ! (length b - (1 + i))")
    case True
    have "drop (length a - (i + 1)) a = a ! (length a - (1 + i)) # drop (length a - i) a"
      using True by (subst Cons_nth_drop_Suc [symmetric]) (auto simp: Suc_diff_Suc)
    moreover have "drop (length b - (i + 1)) b = b ! (length b - (1 + i)) # drop (length b - i) b"
      using True by (subst Cons_nth_drop_Suc [symmetric]) (auto simp: Suc_diff_Suc)
    moreover have "common_suffix_loop a b p i = common_suffix_loop a b p (i + 1)"
      using True by (subst common_suffix_loop.simps) simp
    ultimately show ?thesis using 1(1) [OF True] 1(2) True by simp
  next
    case False
    then have "common_suffix_loop a b p i = i" by (subst common_suffix_loop.simps) (simp only: if_False)
    then show ?thesis using 1 by simp
  qed
qed

lemma common_suffix_len_spec:
  assumes "p \<le> length a" "p \<le> length b"
  shows "drop (length a - common_suffix_len a b p) a = drop (length b - common_suffix_len a b p) b"
    "common_suffix_len a b p + p \<le> length a" "common_suffix_len a b p + p \<le> length b"
  using common_suffix_loop_spec [of a 0 b p] assms by (simp_all add: common_suffix_len_def)

section \<open>Applying a built patch\<close>

lemma apply_copy_op:
  assumes "off + len \<le> length base" "length base < 2 ^ 64"
  shows "apply_op base (copy_op off len @ rest) = Inr (take len (drop off base), rest)"
proof -
  have "unat (word_of_nat off :: u64) = off" "unat (word_of_nat len :: u64) = len" using assms by (simp_all add: unat_of_nat)
  then show ?thesis using assms by (simp add: apply_op_def copy_op_def Let_def take_drop add.commute)
qed

lemma apply_add_op:
  assumes "length bs < 2 ^ 64"
  shows "apply_op base (add_op bs @ rest) = Inr (bs, rest)"
  using assms by (simp add: apply_op_def add_op_def unat_of_length)

lemma apply_ops_list:
  assumes "list_all2 (\<lambda>op piece. \<forall>rest. apply_op base (op @ rest) = Inr (piece, rest)) ops pieces"
  shows "apply_ops (length ops) base (concat ops @ rest) out = Inr (out @ concat pieces, rest)"
  using assms by (induction ops pieces arbitrary: out rule: list_all2_induct) simp_all

lemma apply_build_patch:
  assumes "base \<noteq> target" "length base < 2 ^ 63" "length target < 2 ^ 63"
  shows "apply_patch_bytes base (build_patch_bytes base target) = Inr target"
proof -
  define p where "p = common_prefix_len base target"
  define s where "s = common_suffix_len base target p"
  define mid where "mid = drop p (take (length target - s) target)"
  have p: "take p base = take p target" "p \<le> length base" "p \<le> length target"
    unfolding p_def by (rule common_prefix_len_spec)+
  have s: "drop (length base - s) base = drop (length target - s) target" "s + p \<le> length base" "s + p \<le> length target"
    unfolding s_def by (rule common_suffix_len_spec [OF p(2,3)])+
  let ?o1 = "if 0 < p then [copy_op 0 p] else []" and ?o2 = "if p < length target - s then [add_op mid] else []"
  let ?o3 = "if 0 < s then [copy_op (length base - s) s] else []"
  let ?p1 = "if 0 < p then [take p base] else []" and ?p2 = "if p < length target - s then [mid] else []"
  let ?p3 = "if 0 < s then [drop (length base - s) base] else []"
  let ?ok = "list_all2 (\<lambda>op piece. \<forall>rest. apply_op base (op @ rest) = Inr (piece, rest))"
  have "?ok ?o1 ?p1" using p assms by (simp add: apply_copy_op)
  moreover have "length mid < 2 ^ 64" using assms by (simp add: mid_def)
  then have "?ok ?o2 ?p2" by (simp add: apply_add_op)
  moreover have "?ok ?o3 ?p3" using s assms by (simp add: apply_copy_op)
  ultimately have ok: "?ok (?o1 @ ?o2 @ ?o3) (?p1 @ ?p2 @ ?p3)" by (intro list_all2_appendI)
  have "concat (?p1 @ ?p2 @ ?p3) = take p target @ mid @ drop (length target - s) target"
    using p s by (auto simp: mid_def)
  also have "\<dots> = target"
  proof -
    have "p \<le> length target - s" using s by linarith
    then have "take p (take (length target - s) target) = take p target" by simp
    then have "take p target @ mid = take (length target - s) target" unfolding mid_def by (metis append_take_drop_id)
    then show ?thesis by (metis append_assoc append_take_drop_id)
  qed
  finally have out: "concat (?p1 @ ?p2 @ ?p3) = target" .
  have "length (?o1 @ ?o2 @ ?o3) \<le> 3" by simp
  then have cnt: "unat (word_of_nat (length (?o1 @ ?o2 @ ?o3)) :: u64) = length (?o1 @ ?o2 @ ?o3)"
    by (intro unat_of_nat_u64) simp
  have len: "unat (word_of_nat (length target) :: u64) = length target" using assms by (simp add: unat_of_nat)
  have patch: "build_patch_bytes base target = encode_varu (word_of_nat (length target))
      @ encode_varu (word_of_nat (length (?o1 @ ?o2 @ ?o3))) @ concat (?o1 @ ?o2 @ ?o3) @ []"
    using assms(1) by (simp only: build_patch_bytes_def Let_def p_def [symmetric] s_def [symmetric] mid_def if_False append_Nil2)
  have "apply_ops (length (?o1 @ ?o2 @ ?o3)) base (concat (?o1 @ ?o2 @ ?o3) @ []) [] = Inr ([] @ target, [])"
    using apply_ops_list [OF ok, of "[]" "[]"] unfolding out .
  then show ?thesis
    unfolding patch apply_patch_bytes_def using assms(2,3) by (simp only: decode_varu_encode map_err_simps bindE_simps case_prod_conv cnt len) simp
qed

lemma build_patch_same: "build_patch_bytes bs bs = []"
  by (simp add: build_patch_bytes_def)

text \<open>
  (C32) Applying a patch that was built for a base and a different target gives back the target, for
  values of less than \<open>2^63\<close> bytes; for equal values the patch is empty.
\<close>

theorem patch_roundtrip:
  assumes "length base < 2 ^ 63" "length target < 2 ^ 63"
  shows "if base = target then build_patch_bytes base target = []
         else apply_patch_bytes base (build_patch_bytes base target) = Inr target"
  using assms by (simp add: apply_build_patch build_patch_same)

theorem patch_roundtrip_witness:
  "apply_patch_bytes [1, 2, 3, 4] (build_patch_bytes [1, 2, 3, 4] [1, 9, 4]) = Inr [1, 9, 4]"
  using patch_roundtrip [of "[1, 2, 3, 4]" "[1, 9, 4]"] by simp

end
