(* ===== verification/Value_Store.thy ===== *)
theory Value_Store
  imports Value_Patch
begin

text \<open>
  The content-addressed value store (\<open>valuestore.rs\<close>): insertion with deduplication by hash, delta
  encoding against a base value, reconstruction, compaction, the Bloom filter, and lookups through
  the learned index.

  BLAKE3 is the parameter \<open>blake3\<close>. Floating point is not modelled: the bound on the patch size
  (\<open>full_len * min_savings_ratio\<close>), the histogram comparison and the learned model (building it and
  predicting a range) are functions in the configuration, about which nothing is assumed. A
  \<open>HashMap\<close> is an association list. Reconstruction recurses along delta bases without a guard; its
  model takes the available recursion depth as \<open>fuel\<close>. \<open>None\<close> is a call that does not return: the
  recursion exceeds the depth, or the code panics.
\<close>

section \<open>Bloom filter\<close>

fun bits_for :: "nat \<Rightarrow> nat" where
  "bits_for n = (if n \<le> 1 then 0 else Suc (bits_for ((n + 1) div 2)))"

declare bits_for.simps [simp del]

definition next_power_of_two :: "nat \<Rightarrow> nat" where
  "next_power_of_two n = 2 ^ bits_for n"

record bloom_filter =
  bf_bits :: "u64 list"
  bf_m_bits :: nat
  bf_k_hashes :: nat
  bf_count :: nat

definition bloom_new :: "nat \<Rightarrow> bloom_filter" where
  "bloom_new expected =
     (let m_bits = next_power_of_two (max expected 64 * 10)
      in \<lparr>bf_bits = replicate (m_bits div 64) 0, bf_m_bits = m_bits, bf_k_hashes = 7, bf_count = 0\<rparr>)"

definition bloom_hashes :: "bloom_filter \<Rightarrow> bytes \<Rightarrow> nat list" where
  "bloom_hashes bf vid =
     (let h1 = (from_le_bytes (take 8 vid) :: u64); h2 = (from_le_bytes (take 8 (drop 8 vid)) :: u64)
      in map (\<lambda>i. unat (h1 + word_of_nat i * h2 + word_of_nat i) mod bf_m_bits bf) [0..<7])"

definition bloom_insert :: "bloom_filter \<Rightarrow> bytes \<Rightarrow> bloom_filter" where
  "bloom_insert bf vid =
     bf\<lparr>bf_bits := foldl (\<lambda>bits pos. bits[pos div 64 := (bits ! (pos div 64)) OR push_bit (pos mod 64) 1])
                     (bf_bits bf) (bloom_hashes bf vid),
        bf_count := bf_count bf + 1\<rparr>"

definition bloom_maybe_contains :: "bloom_filter \<Rightarrow> bytes \<Rightarrow> bool" where
  "bloom_maybe_contains bf vid =
     list_all (\<lambda>pos. (bf_bits bf ! (pos div 64)) AND push_bit (pos mod 64) 1 \<noteq> 0) (bloom_hashes bf vid)"

section \<open>Data\<close>

record skip_patch =
  sk_base :: bytes
  sk_patch :: bytes
  sk_distance :: nat

record delta_entry =
  de_base :: bytes
  de_full_len :: nat
  de_depth :: nat
  de_skip :: "skip_patch list"

record value_entry =
  ve_kind :: value_kind
  ve_bytes :: bytes
  ve_delta :: "delta_entry option"

record delta_policy =
  dp_enabled :: bool
  dp_min_bytes :: nat
  dp_max_chain :: nat
  dp_min_allowed :: "nat \<Rightarrow> nat"
  dp_snapshot_interval :: nat
  dp_max_skip :: nat

text \<open>The default policy, given the bound that stands for the default savings ratio.\<close>

definition delta_policy_default :: "(nat \<Rightarrow> nat) \<Rightarrow> delta_policy" where
  "delta_policy_default min_allowed =
     \<lparr>dp_enabled = False, dp_min_bytes = 128, dp_max_chain = 4, dp_min_allowed = min_allowed,
      dp_snapshot_interval = 0, dp_max_skip = 0\<rparr>"

record value_id_histogram =
  vh_buckets :: "nat list"
  vh_total :: nat

definition sat64 :: "nat \<Rightarrow> nat" where
  "sat64 n = min n (2 ^ 64 - 1)"

definition histogram_default :: value_id_histogram where
  "histogram_default = \<lparr>vh_buckets = replicate 256 0, vh_total = 0\<rparr>"

definition histogram_record :: "value_id_histogram \<Rightarrow> bytes \<Rightarrow> value_id_histogram" where
  "histogram_record h vid =
     (let idx = unat (vid ! 0)
      in \<lparr>vh_buckets = (vh_buckets h)[idx := sat64 (vh_buckets h ! idx + 1)], vh_total = sat64 (vh_total h + 1)\<rparr>)"

record 'm value_store_config =
  vc_enable_learned_index :: bool
  vc_segment_size :: nat
  vc_min_samples :: nat
  vc_max_inserts :: nat
  vc_shift_exceeds :: "value_id_histogram \<Rightarrow> value_id_histogram \<Rightarrow> bool"
  vc_learned_build :: "bytes list \<Rightarrow> nat \<Rightarrow> 'm"
  vc_predict_range :: "'m \<Rightarrow> bytes \<Rightarrow> (nat \<times> nat) option"
  vc_delta_policy :: delta_policy

record store_stats =
  ss_lookups :: nat
  ss_learned_hits :: nat
  ss_fallback_hits :: nat
  ss_probes :: nat

record delta_stats =
  ds_values_written :: nat
  ds_bytes_saved :: nat
  ds_total_depth :: nat
  ds_reconstruct_calls :: nat
  ds_reconstruct_steps :: nat

definition delta_stats_default :: delta_stats where
  "delta_stats_default = \<lparr>ds_values_written = 0, ds_bytes_saved = 0, ds_total_depth = 0,
     ds_reconstruct_calls = 0, ds_reconstruct_steps = 0\<rparr>"

record 'm value_store =
  vs_entries :: "value_entry list"
  vs_entry_ids :: "bytes list"
  vs_index :: "(bytes \<times> nat) list"
  vs_sorted_keys :: "bytes list"
  vs_sorted_entries :: "nat list"
  vs_learned :: "'m option"
  vs_bloom :: bloom_filter
  vs_config :: "'m value_store_config"
  vs_lookup_hist :: value_id_histogram
  vs_model_hist :: "value_id_histogram option"
  vs_inserts_since_refresh :: nat
  vs_stats :: store_stats
  vs_delta_stats :: delta_stats

definition value_store_new :: "'m value_store_config \<Rightarrow> 'm value_store" where
  "value_store_new config =
     \<lparr>vs_entries = [], vs_entry_ids = [], vs_index = [], vs_sorted_keys = [], vs_sorted_entries = [],
      vs_learned = None, vs_bloom = bloom_new 1024, vs_config = config, vs_lookup_hist = histogram_default,
      vs_model_hist = None, vs_inserts_since_refresh = 0,
      vs_stats = \<lparr>ss_lookups = 0, ss_learned_hits = 0, ss_fallback_hits = 0, ss_probes = 0\<rparr>,
      vs_delta_stats = delta_stats_default\<rparr>"

definition vs_contains :: "'m value_store \<Rightarrow> bytes \<Rightarrow> bool" where
  "vs_contains st vid \<longleftrightarrow> map_of (vs_index st) vid \<noteq> None"

definition entry_by_id :: "'m value_store \<Rightarrow> bytes \<Rightarrow> value_entry option" where
  "entry_by_id st vid =
     Option.bind (map_of (vs_index st) vid) (\<lambda>idx. if idx < length (vs_entries st) then Some (vs_entries st ! idx) else None)"

definition set_delta_policy :: "'m value_store \<Rightarrow> delta_policy \<Rightarrow> 'm value_store" where
  "set_delta_policy st policy = st\<lparr>vs_config := (vs_config st)\<lparr>vc_delta_policy := policy\<rparr>\<rparr>"

section \<open>The learned index\<close>

definition id_to_u128 :: "bytes \<Rightarrow> nat" where
  "id_to_u128 vid = foldl (\<lambda>v b. v * 256 + unat b) 0 vid"

definition rebuild_sorted_keys :: "'m value_store \<Rightarrow> 'm value_store" where
  "rebuild_sorted_keys st =
     (let pairs = sort_key (\<lambda>(vid, _). id_to_u128 vid) (vs_index st)
      in st\<lparr>vs_sorted_keys := map fst pairs, vs_sorted_entries := map snd pairs\<rparr>)"

definition refresh_learned_index :: "'m value_store \<Rightarrow> 'm value_store" where
  "refresh_learned_index st =
     (if \<not> vc_enable_learned_index (vs_config st)
      then st\<lparr>vs_learned := None, vs_sorted_keys := [], vs_sorted_entries := []\<rparr>
      else let st = rebuild_sorted_keys st; segment_size = max (vc_segment_size (vs_config st)) 16
           in st\<lparr>vs_learned := (if vc_min_samples (vs_config st) \<le> length (vs_sorted_keys st)
                                then Some (vc_learned_build (vs_config st) (vs_sorted_keys st) segment_size) else None),
                 vs_inserts_since_refresh := 0, vs_model_hist := Some (vs_lookup_hist st)\<rparr>)"

definition should_refresh :: "'m value_store \<Rightarrow> bool" where
  "should_refresh st =
     (if \<not> vc_enable_learned_index (vs_config st) then False
      else if length (vs_entries st) < vc_min_samples (vs_config st) then False
      else if vs_learned st = None then True
      else if vc_max_inserts (vs_config st) \<le> vs_inserts_since_refresh st then True
      else case vs_model_hist st of
             None \<Rightarrow> False
           | Some model_hist \<Rightarrow> vc_shift_exceeds (vs_config st) (vs_lookup_hist st) model_hist)"

definition maybe_refresh :: "'m value_store \<Rightarrow> 'm value_store" where
  "maybe_refresh st = (if should_refresh st then refresh_learned_index st else st)"

record lookup_trace =
  lt_probes :: nat
  lt_used_learned :: bool
  lt_used_fallback :: bool

text \<open>The scan of the predicted range: the probes made and the entry position found.\<close>

fun learned_scan :: "bytes list \<Rightarrow> nat list \<Rightarrow> bytes \<Rightarrow> nat list \<Rightarrow> nat \<Rightarrow> nat \<times> nat option" where
  "learned_scan keys entries vid [] probes = (probes, None)"
| "learned_scan keys entries vid (idx # idxs) probes =
     (let probes = sat64 (probes + 1) in
      if idx < length keys \<and> keys ! idx = vid then (probes, Some (entries ! idx))
      else learned_scan keys entries vid idxs probes)"

definition predicted_range :: "'m value_store \<Rightarrow> bytes \<Rightarrow> (nat \<times> nat) option" where
  "predicted_range st vid =
     (if vc_enable_learned_index (vs_config st)
      then Option.bind (vs_learned st) (\<lambda>model. vc_predict_range (vs_config st) model vid) else None)"

definition learned_lookup :: "'m value_store \<Rightarrow> bytes \<Rightarrow> nat \<times> nat option" where
  "learned_lookup st vid =
     (case predicted_range st vid of
        None \<Rightarrow> (0, None)
      | Some (start, stop) \<Rightarrow> learned_scan (vs_sorted_keys st) (vs_sorted_entries st) vid [start..<stop + 1] 0)"

definition get_with_trace ::
    "'m value_store \<Rightarrow> bytes \<Rightarrow> (value_entry option \<times> lookup_trace) \<times> 'm value_store" where
  "get_with_trace st vid =
     (let st = st\<lparr>vs_lookup_hist := histogram_record (vs_lookup_hist st) vid,
                  vs_stats := (vs_stats st)\<lparr>ss_lookups := sat64 (ss_lookups (vs_stats st) + 1)\<rparr>\<rparr>;
          (probes, hit) = learned_lookup st vid; used_learned = (predicted_range st vid \<noteq> None)
      in case hit of
           Some entry_idx \<Rightarrow>
             ((if entry_idx < length (vs_entries st) then Some (vs_entries st ! entry_idx) else None,
               \<lparr>lt_probes = probes, lt_used_learned = used_learned, lt_used_fallback = False\<rparr>),
              st\<lparr>vs_stats := (vs_stats st)\<lparr>ss_learned_hits := sat64 (ss_learned_hits (vs_stats st) + 1),
                   ss_probes := sat64 (ss_probes (vs_stats st) + probes)\<rparr>\<rparr>)
         | None \<Rightarrow>
             let entry = entry_by_id st vid;
                 probes = (if entry \<noteq> None then sat64 (probes + 1) else probes);
                 stats = (if entry \<noteq> None then (vs_stats st)\<lparr>ss_fallback_hits := sat64 (ss_fallback_hits (vs_stats st) + 1)\<rparr>
                          else vs_stats st)
             in ((entry, \<lparr>lt_probes = probes, lt_used_learned = used_learned, lt_used_fallback = (entry \<noteq> None)\<rparr>),
                 st\<lparr>vs_stats := stats\<lparr>ss_probes := sat64 (ss_probes stats + probes)\<rparr>\<rparr>))"

definition vs_get :: "'m value_store \<Rightarrow> bytes \<Rightarrow> value_entry option \<times> 'm value_store" where
  "vs_get st vid = (let ((entry, _), st) = get_with_trace st vid in (entry, st))"

section \<open>Reconstruction\<close>

record reconstruct_trace =
  tr_steps :: nat
  tr_used_skip :: bool

type_synonym recon_cache = "bytes \<rightharpoonup> bytes \<times> reconstruct_trace"
type_synonym recon_result = "(value_store_error + (bytes \<times> reconstruct_trace) \<times> recon_cache) option"

text \<open>The loop over the base and the skip patches; \<open>recurse\<close> reconstructs a base.\<close>

fun mat_candidates ::
    "(bytes \<Rightarrow> recon_cache \<Rightarrow> recon_result) \<Rightarrow> nat \<Rightarrow> (bytes \<times> bytes \<times> bool) list \<Rightarrow>
     (bytes \<times> reconstruct_trace) option \<Rightarrow> recon_cache \<Rightarrow>
     (value_store_error + (bytes \<times> reconstruct_trace) option \<times> recon_cache) option" where
  "mat_candidates recurse full_len [] best cache = Some (Inr (best, cache))"
| "mat_candidates recurse full_len ((base_id, patch, is_skip) # cands) best cache =
     (case recurse base_id cache of
        None \<Rightarrow> None
      | Some (Inl e) \<Rightarrow> Some (Inl e)
      | Some (Inr ((base_bytes, base_trace), cache)) \<Rightarrow>
          (case apply_patch_bytes base_bytes patch of
             Inl e \<Rightarrow> if e = VsPanic then None else Some (Inl e)
           | Inr val \<Rightarrow>
               if length val \<noteq> full_len then Some (Inl DeltaLengthMismatch)
               else
                 let trace = \<lparr>tr_steps = sat64 (tr_steps base_trace + 1), tr_used_skip = tr_used_skip base_trace \<or> is_skip\<rparr>;
                     best_steps = (case best of None \<Rightarrow> 2 ^ 64 - 1 | Some (_, t) \<Rightarrow> tr_steps t);
                     best = (if tr_steps trace < best_steps then Some (val, trace) else best)
                 in mat_candidates recurse full_len cands best cache))"

primrec materialize_with_cache ::
    "nat \<Rightarrow> (bytes \<Rightarrow> bytes) \<Rightarrow> 'm value_store \<Rightarrow> bool \<Rightarrow> bytes \<Rightarrow> recon_cache \<Rightarrow> recon_result" where
  "materialize_with_cache 0 blake3 st use_skip vid cache = None"
| "materialize_with_cache (Suc fuel) blake3 st use_skip vid cache =
     (case cache vid of
        Some hit \<Rightarrow> Some (Inr (hit, cache))
      | None \<Rightarrow>
          (case entry_by_id st vid of
             None \<Rightarrow> Some (Inl VsNotFound)
           | Some entry \<Rightarrow>
               if ve_kind entry \<noteq> Delta then
                 let res = (ve_bytes entry, \<lparr>tr_steps = 0, tr_used_skip = False\<rparr>)
                 in Some (Inr (res, cache(vid \<mapsto> res)))
               else
                 (case ve_delta entry of
                    None \<Rightarrow> Some (Inl InvalidDelta)
                  | Some delta \<Rightarrow>
                      let candidates = (de_base delta, ve_bytes entry, False)
                            # (if use_skip then map (\<lambda>s. (sk_base s, sk_patch s, True)) (de_skip delta) else [])
                      in case mat_candidates (materialize_with_cache fuel blake3 st use_skip) (de_full_len delta) candidates None cache of
                           None \<Rightarrow> None
                         | Some (Inl e) \<Rightarrow> Some (Inl e)
                         | Some (Inr (None, _)) \<Rightarrow> Some (Inl InvalidDelta)
                         | Some (Inr (Some (val, trace), cache)) \<Rightarrow>
                             if value_id blake3 val \<noteq> vid then Some (Inl InvalidDelta)
                             else Some (Inr ((val, trace), cache(vid \<mapsto> (val, trace)))))))"

definition materialize_internal ::
    "nat \<Rightarrow> (bytes \<Rightarrow> bytes) \<Rightarrow> 'm value_store \<Rightarrow> bytes \<Rightarrow> bool \<Rightarrow> bool \<Rightarrow>
     ((value_store_error + bytes \<times> reconstruct_trace) \<times> 'm value_store) option" where
  "materialize_internal fuel blake3 st vid use_skip track_stats =
     (case materialize_with_cache fuel blake3 st use_skip vid Map.empty of
        None \<Rightarrow> None
      | Some (Inl e) \<Rightarrow> Some (Inl e, st)
      | Some (Inr ((bs, trace), _)) \<Rightarrow>
          Some (Inr (bs, trace),
            if track_stats \<and> 0 < tr_steps trace
            then st\<lparr>vs_delta_stats := (vs_delta_stats st)
                      \<lparr>ds_reconstruct_calls := sat64 (ds_reconstruct_calls (vs_delta_stats st) + 1),
                       ds_reconstruct_steps := sat64 (ds_reconstruct_steps (vs_delta_stats st) + tr_steps trace)\<rparr>\<rparr>
            else st))"

definition materialize ::
    "nat \<Rightarrow> (bytes \<Rightarrow> bytes) \<Rightarrow> 'm value_store \<Rightarrow> bytes \<Rightarrow> ((value_store_error + bytes) \<times> 'm value_store) option" where
  "materialize fuel blake3 st vid =
     (case materialize_internal fuel blake3 st vid True True of
        None \<Rightarrow> None
      | Some (Inl e, st) \<Rightarrow> Some (Inl e, st)
      | Some (Inr (bs, _), st) \<Rightarrow> Some (Inr bs, st))"

section \<open>Insertion\<close>

text \<open>What every insertion of a new entry does to the tables.\<close>

definition push_entry :: "'m value_store \<Rightarrow> bytes \<Rightarrow> value_entry \<Rightarrow> 'm value_store" where
  "push_entry st vid entry =
     (let idx = length (vs_entries st)
      in st\<lparr>vs_entry_ids := vs_entry_ids st @ [vid], vs_entries := vs_entries st @ [entry],
            vs_index := AList.update vid idx (vs_index st), vs_bloom := bloom_insert (vs_bloom st) vid\<rparr>)"

definition count_insert :: "'m value_store \<Rightarrow> 'm value_store" where
  "count_insert st = st\<lparr>vs_inserts_since_refresh := sat64 (vs_inserts_since_refresh st + 1)\<rparr>"

definition put_with_id :: "'m value_store \<Rightarrow> value_kind \<Rightarrow> bytes \<Rightarrow> bytes \<Rightarrow> bytes \<times> 'm value_store" where
  "put_with_id st kind vid bs =
     (if vs_contains st vid then (vid, st)
      else let st = count_insert (push_entry st vid \<lparr>ve_kind = kind, ve_bytes = bs, ve_delta = None\<rparr>)
           in (vid, if vc_enable_learned_index (vs_config st) then maybe_refresh st else st))"

definition vs_put :: "(bytes \<Rightarrow> bytes) \<Rightarrow> 'm value_store \<Rightarrow> value_kind \<Rightarrow> bytes \<Rightarrow> bytes \<times> 'm value_store" where
  "vs_put blake3 st kind bs = put_with_id st kind (value_id blake3 bs) bs"

primrec ancestor_at_distance :: "'m value_store \<Rightarrow> bytes \<Rightarrow> nat \<Rightarrow> bytes option" where
  "ancestor_at_distance st current 0 = Some current" |
  "ancestor_at_distance st current (Suc steps) =
     Option.bind (entry_by_id st current) (\<lambda>entry.
     Option.bind (ve_delta entry) (\<lambda>delta. ancestor_at_distance st (de_base delta) steps))"

function skip_patches_loop ::
    "nat \<Rightarrow> (bytes \<Rightarrow> bytes) \<Rightarrow> 'm value_store \<Rightarrow> bytes \<Rightarrow> bytes \<Rightarrow> nat \<Rightarrow> nat \<Rightarrow> skip_patch list \<Rightarrow> nat \<Rightarrow> skip_patch list option" where
  "skip_patches_loop fuel blake3 st bs base_id depth max_skip skip distance =
     (if distance \<le> depth \<and> length skip < max_skip then
        (case ancestor_at_distance st base_id (distance - 1) of
           None \<Rightarrow> Some skip
         | Some ancestor \<Rightarrow>
             (case materialize_internal fuel blake3 st ancestor False False of
                None \<Rightarrow> None
              | Some (Inl _, _) \<Rightarrow> Some skip
              | Some (Inr (base_bytes, _), _) \<Rightarrow>
                  let patch = build_patch_bytes base_bytes bs in
                  if patch = [] then Some skip
                  else skip_patches_loop fuel blake3 st bs base_id depth max_skip
                         (skip @ [\<lparr>sk_base = ancestor, sk_patch = patch, sk_distance = distance\<rparr>]) (sat64 (distance * 2))))
      else Some skip)"
  by pat_completeness auto
termination
  by (relation "measure (\<lambda>(fuel, blake3, st, bs, base_id, depth, max_skip, skip, distance). max_skip - length skip)") auto

declare skip_patches_loop.simps [simp del]

definition build_skip_patches ::
    "nat \<Rightarrow> (bytes \<Rightarrow> bytes) \<Rightarrow> 'm value_store \<Rightarrow> bytes \<Rightarrow> bytes \<Rightarrow> nat \<Rightarrow> nat \<Rightarrow> skip_patch list option" where
  "build_skip_patches fuel blake3 st bs base_id depth max_skip =
     skip_patches_loop fuel blake3 st bs base_id depth max_skip [] 2"

text \<open>The entry for a delta, and the counters, once the patch is accepted.\<close>

definition push_delta ::
    "'m value_store \<Rightarrow> bytes \<Rightarrow> bytes \<Rightarrow> nat \<Rightarrow> bytes \<Rightarrow> nat \<Rightarrow> skip_patch list \<Rightarrow> 'm value_store" where
  "push_delta st vid patch full_len base_id depth skip =
     (let st = count_insert (push_entry st vid \<lparr>ve_kind = Delta, ve_bytes = patch,
                 ve_delta = Some \<lparr>de_base = base_id, de_full_len = full_len, de_depth = depth, de_skip = skip\<rparr>\<rparr>);
          ds = vs_delta_stats st;
          st = st\<lparr>vs_delta_stats := ds\<lparr>ds_values_written := sat64 (ds_values_written ds + 1),
                    ds_bytes_saved := sat64 (ds_bytes_saved ds + (full_len - length patch)),
                    ds_total_depth := sat64 (ds_total_depth ds + depth)\<rparr>\<rparr>
      in if vc_enable_learned_index (vs_config st) then maybe_refresh st else st)"

text \<open>Insertion as a delta against a base that was found and reconstructed.\<close>

definition put_delta_on ::
    "nat \<Rightarrow> (bytes \<Rightarrow> bytes) \<Rightarrow> 'm value_store \<Rightarrow> value_kind \<Rightarrow> bytes \<Rightarrow> bytes \<Rightarrow> bytes \<Rightarrow> nat \<Rightarrow> (bytes \<times> 'm value_store) option" where
  "put_delta_on fuel blake3 st kind bs base_id base_bytes base_depth =
     (let vid = value_id blake3 bs; depth = sat64 (base_depth + 1); full_len = length bs;
          policy = vc_delta_policy (vs_config st); patch = build_patch_bytes base_bytes bs in
      if full_len < dp_min_bytes policy then Some (vs_put blake3 st kind bs)
      else if 0 < dp_max_chain policy \<and> dp_max_chain policy < depth then Some (vs_put blake3 st kind bs)
      else if 0 < dp_snapshot_interval policy \<and> depth mod dp_snapshot_interval policy = 0 then Some (vs_put blake3 st kind bs)
      else if patch = [] then Some (vs_put blake3 st kind bs)
      else if dp_min_allowed policy full_len < length patch then Some (vs_put blake3 st kind bs)
      else
        case (if 0 < dp_max_skip policy then build_skip_patches fuel blake3 st bs base_id depth (dp_max_skip policy) else Some []) of
          None \<Rightarrow> None
        | Some skip \<Rightarrow> Some (vid, push_delta st vid patch full_len base_id depth skip))"

definition put_with_delta ::
    "nat \<Rightarrow> (bytes \<Rightarrow> bytes) \<Rightarrow> 'm value_store \<Rightarrow> value_kind \<Rightarrow> bytes \<Rightarrow> bytes option \<Rightarrow> (bytes \<times> 'm value_store) option" where
  "put_with_delta fuel blake3 st kind bs base =
     (if \<not> dp_enabled (vc_delta_policy (vs_config st)) \<or> base = None \<or> kind \<noteq> Cell then Some (vs_put blake3 st kind bs)
      else if vs_contains st (value_id blake3 bs) then Some (value_id blake3 bs, st)
      else
        let base_id = the base in
        case entry_by_id st base_id of
          None \<Rightarrow> Some (vs_put blake3 st kind bs)
        | Some entry \<Rightarrow>
            (case materialize_internal fuel blake3 st base_id False False of
               None \<Rightarrow> None
             | Some (Inl _, _) \<Rightarrow> Some (vs_put blake3 st kind bs)
             | Some (Inr (base_bytes, _), _) \<Rightarrow>
                 put_delta_on fuel blake3 st kind bs base_id base_bytes
                   (case ve_delta entry of None \<Rightarrow> 0 | Some d \<Rightarrow> de_depth d)))"

section \<open>Chains and compaction\<close>

primrec delta_chain_depth_loop :: "nat \<Rightarrow> 'm value_store \<Rightarrow> bytes \<Rightarrow> nat \<Rightarrow> nat option option" where
  "delta_chain_depth_loop 0 st current depth = None"
| "delta_chain_depth_loop (Suc fuel) st current depth =
     (case entry_by_id st current of
        None \<Rightarrow> Some None
      | Some entry \<Rightarrow>
          if ve_kind entry \<noteq> Delta then Some (Some depth)
          else case ve_delta entry of
                 None \<Rightarrow> Some None
               | Some delta \<Rightarrow> delta_chain_depth_loop fuel st (de_base delta) (sat64 (depth + 1)))"

definition delta_chain_depth :: "nat \<Rightarrow> 'm value_store \<Rightarrow> bytes \<Rightarrow> nat option option" where
  "delta_chain_depth fuel st vid = delta_chain_depth_loop fuel st vid 0"

primrec delta_chain_bytes_loop :: "nat \<Rightarrow> 'm value_store \<Rightarrow> bytes \<Rightarrow> nat \<Rightarrow> nat option option" where
  "delta_chain_bytes_loop 0 st current acc = None"
| "delta_chain_bytes_loop (Suc fuel) st current acc =
     (case entry_by_id st current of
        None \<Rightarrow> Some None
      | Some entry \<Rightarrow>
          let acc = sat64 (acc + length (ve_bytes entry)) in
          if ve_kind entry \<noteq> Delta then Some (Some acc)
          else case ve_delta entry of
                 None \<Rightarrow> Some None
               | Some delta \<Rightarrow> delta_chain_bytes_loop fuel st (de_base delta) acc)"

definition delta_chain_bytes :: "nat \<Rightarrow> 'm value_store \<Rightarrow> bytes \<Rightarrow> nat option option" where
  "delta_chain_bytes fuel st vid = delta_chain_bytes_loop fuel st vid 0"

record compaction_report =
  cr_rewritten :: nat
  cr_skip_rebuilt :: nat
  cr_cpu_units :: nat
  cr_io_bytes_read :: nat
  cr_io_bytes_written :: nat

definition needs_rewrite :: "delta_policy \<Rightarrow> 'm value_store \<Rightarrow> bytes \<times> nat \<Rightarrow> bool" where
  "needs_rewrite policy st p =
     (if length (vs_entries st) \<le> snd p then False
      else let entry = vs_entries st ! snd p in
      if ve_kind entry \<noteq> Delta then False
      else case ve_delta entry of
             None \<Rightarrow> False
           | Some delta \<Rightarrow>
               (0 < dp_max_chain policy \<and> dp_max_chain policy < de_depth delta)
               \<or> (0 < dp_snapshot_interval policy \<and> de_depth delta mod dp_snapshot_interval policy = 0))"

text \<open>Replacing the entry at a position.\<close>

definition set_entry :: "'m value_store \<Rightarrow> nat \<Rightarrow> value_entry \<Rightarrow> 'm value_store" where
  "set_entry st idx entry = st\<lparr>vs_entries := (vs_entries st)[idx := entry]\<rparr>"

fun compact_rewrite ::
    "nat \<Rightarrow> (bytes \<Rightarrow> bytes) \<Rightarrow> bytes list \<Rightarrow> 'm value_store \<Rightarrow> compaction_report \<Rightarrow> ('m value_store \<times> compaction_report) option" where
  "compact_rewrite fuel blake3 [] st rep = Some (st, rep)"
| "compact_rewrite fuel blake3 (vid # ids) st rep =
     (case delta_chain_bytes fuel st vid of
        None \<Rightarrow> None
      | Some chain \<Rightarrow>
          let chain_bytes = (case chain of None \<Rightarrow> 0 | Some n \<Rightarrow> n) in
          case materialize_internal fuel blake3 st vid False False of
            None \<Rightarrow> None
          | Some (Inl _, _) \<Rightarrow> compact_rewrite fuel blake3 ids st rep
          | Some (Inr (bs, _), _) \<Rightarrow>
              (case map_of (vs_index st) vid of
                 None \<Rightarrow> compact_rewrite fuel blake3 ids st rep
               | Some idx \<Rightarrow>
                   if length (vs_entries st) \<le> idx then compact_rewrite fuel blake3 ids st rep
                   else compact_rewrite fuel blake3 ids
                     (set_entry st idx \<lparr>ve_kind = Cell, ve_bytes = bs, ve_delta = None\<rparr>)
                     (rep\<lparr>cr_rewritten := sat64 (cr_rewritten rep + 1),
                          cr_io_bytes_read := sat64 (cr_io_bytes_read rep + chain_bytes),
                          cr_io_bytes_written := sat64 (cr_io_bytes_written rep + length bs),
                          cr_cpu_units := sat64 (cr_cpu_units rep + sat64 (chain_bytes + length bs))\<rparr>)))"

fun skip_updates ::
    "nat \<Rightarrow> (bytes \<Rightarrow> bytes) \<Rightarrow> nat \<Rightarrow> (bytes \<times> nat) list \<Rightarrow> 'm value_store \<Rightarrow> (bytes \<times> nat \<times> skip_patch list) list \<Rightarrow>
     compaction_report \<Rightarrow> ((bytes \<times> nat \<times> skip_patch list) list \<times> compaction_report) option" where
  "skip_updates fuel blake3 max_skip [] st updates rep = Some (updates, rep)"
| "skip_updates fuel blake3 max_skip ((vid, idx) # ps) st updates rep =
     (if length (vs_entries st) \<le> idx then skip_updates fuel blake3 max_skip ps st updates rep
      else let entry = vs_entries st ! idx in
      if ve_kind entry \<noteq> Delta then skip_updates fuel blake3 max_skip ps st updates rep
      else case ve_delta entry of
        None \<Rightarrow> skip_updates fuel blake3 max_skip ps st updates rep
      | Some delta \<Rightarrow>
          (case delta_chain_depth fuel st vid of
             None \<Rightarrow> None
           | Some None \<Rightarrow> skip_updates fuel blake3 max_skip ps st updates rep
           | Some (Some depth) \<Rightarrow>
               (case materialize_internal fuel blake3 st vid False False of
                  None \<Rightarrow> None
                | Some (Inl _, _) \<Rightarrow> skip_updates fuel blake3 max_skip ps st updates rep
                | Some (Inr (bs, _), _) \<Rightarrow>
                    (case build_skip_patches fuel blake3 st bs (de_base delta) depth max_skip of
                       None \<Rightarrow> None
                     | Some skip \<Rightarrow>
                         let skip_bytes = sum_list (map (\<lambda>s. length (sk_patch s)) skip) in
                         (case delta_chain_bytes fuel st vid of
                            None \<Rightarrow> None
                          | Some chain \<Rightarrow>
                              let chain_bytes = (case chain of None \<Rightarrow> 0 | Some n \<Rightarrow> n)
                              in skip_updates fuel blake3 max_skip ps st (updates @ [(vid, depth, skip)])
                                   (rep\<lparr>cr_io_bytes_read := sat64 (cr_io_bytes_read rep + chain_bytes),
                                        cr_io_bytes_written := sat64 (cr_io_bytes_written rep + skip_bytes),
                                        cr_cpu_units := sat64 (sat64 (cr_cpu_units rep + chain_bytes) + skip_bytes)\<rparr>))))))"

fun apply_skip_updates ::
    "(bytes \<times> nat \<times> skip_patch list) list \<Rightarrow> 'm value_store \<Rightarrow> compaction_report \<Rightarrow> 'm value_store \<times> compaction_report" where
  "apply_skip_updates [] st rep = (st, rep)"
| "apply_skip_updates ((vid, depth, skip) # us) st rep =
     (case map_of (vs_index st) vid of
        None \<Rightarrow> apply_skip_updates us st rep
      | Some idx \<Rightarrow>
          if length (vs_entries st) \<le> idx then apply_skip_updates us st rep
          else case ve_delta (vs_entries st ! idx) of
                 None \<Rightarrow> apply_skip_updates us st rep
               | Some delta \<Rightarrow>
                   apply_skip_updates us
                     (set_entry st idx ((vs_entries st ! idx)\<lparr>ve_delta := Some (delta\<lparr>de_depth := depth, de_skip := skip\<rparr>)\<rparr>))
                     (rep\<lparr>cr_skip_rebuilt := sat64 (cr_skip_rebuilt rep + 1)\<rparr>))"

definition compact_deltas ::
    "nat \<Rightarrow> (bytes \<Rightarrow> bytes) \<Rightarrow> 'm value_store \<Rightarrow> ('m value_store \<times> compaction_report) option" where
  "compact_deltas fuel blake3 st =
     (let policy = vc_delta_policy (vs_config st);
          rewrite_ids = map fst (filter (needs_rewrite policy st) (vs_index st));
          rep = \<lparr>cr_rewritten = 0, cr_skip_rebuilt = 0, cr_cpu_units = 0, cr_io_bytes_read = 0, cr_io_bytes_written = 0\<rparr>
      in case compact_rewrite fuel blake3 rewrite_ids st rep of
           None \<Rightarrow> None
         | Some (st, rep) \<Rightarrow>
             if 0 < dp_max_skip policy then
               (case skip_updates fuel blake3 (dp_max_skip policy) (vs_index st) st [] rep of
                  None \<Rightarrow> None
                | Some (updates, rep) \<Rightarrow> Some (apply_skip_updates updates st rep))
             else Some (st, rep))"

end
