(* ===== verification/Value_Proofs.thy ===== *)
theory Value_Proofs
  imports Value_Store
begin

text \<open>
  Correctness of the value store: what was put can be reconstructed after any further operations,
  the Bloom filter has no false negatives, and the learned index never changes an answer.
\<close>

section \<open>Bloom filter\<close>

lemma bits_for_ge: "n \<le> 2 ^ bits_for n"
proof (induction n rule: bits_for.induct)
  case (1 n)
  show ?case
  proof (cases "n \<le> 1")
    case True
    then show ?thesis by (subst bits_for.simps) simp
  next
    case False
    have "n \<le> 2 * ((n + 1) div 2)" by linarith
    also have "\<dots> \<le> 2 * 2 ^ bits_for ((n + 1) div 2)" using 1 False by simp
    finally show ?thesis using False by (subst bits_for.simps) simp
  qed
qed

definition bloom_wf :: "bloom_filter \<Rightarrow> bool" where
  "bloom_wf bf \<longleftrightarrow> 0 < bf_m_bits bf \<and> length (bf_bits bf) * 64 = bf_m_bits bf"

lemma bloom_new_wf: "bloom_wf (bloom_new n)"
proof -
  let ?k = "bits_for (max n 64 * 10)"
  have ge: "640 \<le> (2::nat) ^ ?k" using bits_for_ge [of "max n 64 * 10"] by linarith
  have "6 \<le> ?k"
  proof (rule ccontr)
    assume "\<not> 6 \<le> ?k"
    then have "(2::nat) ^ ?k \<le> 2 ^ 6" by (intro power_increasing) simp_all
    then show False using ge by simp
  qed
  then have "(2::nat) ^ 6 dvd 2 ^ ?k" by (rule le_imp_power_dvd)
  then show ?thesis by (simp add: bloom_wf_def bloom_new_def next_power_of_two_def Let_def)
qed

lemma bloom_hashes_range: "bloom_wf bf \<Longrightarrow> pos \<in> set (bloom_hashes bf vid) \<Longrightarrow> pos div 64 < length (bf_bits bf)"
  by (auto simp: bloom_wf_def bloom_hashes_def Let_def less_mult_imp_div_less)

definition bit_set_at :: "u64 list \<Rightarrow> nat \<Rightarrow> bool" where
  "bit_set_at bits pos \<longleftrightarrow> bit (bits ! (pos div 64)) (pos mod 64)"

lemma bloom_maybe_contains_bits:
  "bloom_maybe_contains bf vid \<longleftrightarrow> (\<forall>pos \<in> set (bloom_hashes bf vid). bit_set_at (bf_bits bf) pos)"
  by (simp add: bloom_maybe_contains_def list_all_iff bit_set_at_def bit_iff_and_push_bit_not_eq_0)

definition set_bit_at :: "u64 list \<Rightarrow> nat \<Rightarrow> u64 list" where
  "set_bit_at bits pos = bits[pos div 64 := (bits ! (pos div 64)) OR push_bit (pos mod 64) 1]"

lemma length_set_bits [simp]: "length (foldl set_bit_at bits ps) = length bits"
  by (induction ps arbitrary: bits) (simp_all add: set_bit_at_def)

lemma set_bit_at_keeps: "bit_set_at bits p \<Longrightarrow> bit_set_at (set_bit_at bits pos) p"
  by (cases "pos div 64 < length bits") (auto simp: bit_set_at_def set_bit_at_def nth_list_update bit_or_iff list_update_beyond)

lemma set_bits_keep: "bit_set_at bits p \<Longrightarrow> bit_set_at (foldl set_bit_at bits ps) p"
  by (induction ps arbitrary: bits) (simp_all add: set_bit_at_keeps)

lemma set_bits_set:
  "\<lbrakk>p \<in> set ps; \<forall>q \<in> set ps. q div 64 < length bits\<rbrakk> \<Longrightarrow> bit_set_at (foldl set_bit_at bits ps) p"
proof (induction ps arbitrary: bits)
  case (Cons q ps)
  show ?case
  proof (cases "p = q")
    case True
    have "q mod 64 < 64" by simp
    then have "bit (2 ^ (q mod 64) :: u64) (q mod 64)" by (subst bit_exp_iff) simp
    then have "bit (push_bit (q mod 64) 1 :: u64) (q mod 64)" by (simp add: push_bit_eq_mult)
    then have "bit_set_at (set_bit_at bits q) q" using Cons.prems by (simp add: bit_set_at_def set_bit_at_def bit_or_iff)
    then show ?thesis using True by (simp add: set_bits_keep)
  next
    case False
    then show ?thesis using Cons by (simp add: set_bit_at_def)
  qed
qed simp

lemma bloom_insert_alt: "bf_bits (bloom_insert bf vid) = foldl set_bit_at (bf_bits bf) (bloom_hashes bf vid)"
  unfolding bloom_insert_def set_bit_at_def [abs_def] by simp

lemma bloom_hashes_insert [simp]: "bloom_hashes (bloom_insert bf v) vid = bloom_hashes bf vid"
  by (simp add: bloom_hashes_def bloom_insert_def)

lemma bloom_insert_wf: "bloom_wf bf \<Longrightarrow> bloom_wf (bloom_insert bf vid)"
  by (simp add: bloom_wf_def bloom_insert_alt) (simp add: bloom_insert_def)

lemma bloom_insert_contains:
  assumes "bloom_wf bf"
  shows "bloom_maybe_contains (bloom_insert bf vid) vid"
    and "bloom_maybe_contains bf v \<Longrightarrow> bloom_maybe_contains (bloom_insert bf vid) v"
  using assms bloom_hashes_range [OF assms]
  by (auto simp: bloom_maybe_contains_bits bloom_insert_alt intro: set_bits_set set_bits_keep)

section \<open>The invariant of the tables\<close>

definition patch_ok :: "(bytes \<rightharpoonup> bytes) \<Rightarrow> bytes set \<Rightarrow> bytes \<Rightarrow> bytes \<Rightarrow> bytes \<Rightarrow> bool" where
  "patch_ok M earlier base patch content \<longleftrightarrow>
     base \<in> earlier \<and> (\<exists>bb. M base = Some bb \<and> apply_patch_bytes bb patch = Inr content)"

definition delta_ok :: "(bytes \<Rightarrow> bytes) \<Rightarrow> (bytes \<rightharpoonup> bytes) \<Rightarrow> bytes set \<Rightarrow> bytes \<Rightarrow> bytes \<Rightarrow> bytes \<Rightarrow> delta_entry \<Rightarrow> bool" where
  "delta_ok blake3 M earlier vid content patch d \<longleftrightarrow>
     de_full_len d = length content \<and> value_id blake3 content = vid
     \<and> patch_ok M earlier (de_base d) patch content
     \<and> (\<forall>s \<in> set (de_skip d). patch_ok M earlier (sk_base s) (sk_patch s) content)"

definition entry_ok :: "(bytes \<Rightarrow> bytes) \<Rightarrow> (bytes \<rightharpoonup> bytes) \<Rightarrow> bytes set \<Rightarrow> bytes \<Rightarrow> value_entry \<Rightarrow> bool" where
  "entry_ok blake3 M earlier vid e \<longleftrightarrow> (\<exists>content. M vid = Some content \<and> length content < 2 ^ 63
     \<and> (if ve_kind e = Delta then \<exists>d. ve_delta e = Some d \<and> delta_ok blake3 M earlier vid content (ve_bytes e) d
        else ve_delta e = None \<and> ve_bytes e = content))"

text \<open>\<open>M\<close> is the content of every value: what reconstruction should return.\<close>

definition vs_inv :: "(bytes \<Rightarrow> bytes) \<Rightarrow> 'm value_store \<Rightarrow> (bytes \<rightharpoonup> bytes) \<Rightarrow> bool" where
  "vs_inv blake3 st M \<longleftrightarrow>
     length (vs_entry_ids st) = length (vs_entries st) \<and> distinct (vs_entry_ids st)
     \<and> (\<forall>vid i. map_of (vs_index st) vid = Some i \<longleftrightarrow> i < length (vs_entry_ids st) \<and> vs_entry_ids st ! i = vid)
     \<and> dom M = set (vs_entry_ids st)
     \<and> (\<forall>i < length (vs_entries st). entry_ok blake3 M (set (take i (vs_entry_ids st))) (vs_entry_ids st ! i) (vs_entries st ! i))"

lemma vs_inv_contains: "vs_inv blake3 st M \<Longrightarrow> vs_contains st vid \<longleftrightarrow> vid \<in> dom M"
  by (auto simp: vs_inv_def vs_contains_def in_set_conv_nth)

lemma vs_inv_entry:
  assumes "vs_inv blake3 st M" and "vid \<in> dom M"
  obtains i where "i < length (vs_entries st)" "vs_entry_ids st ! i = vid" "map_of (vs_index st) vid = Some i"
    "entry_by_id st vid = Some (vs_entries st ! i)"
    "entry_ok blake3 M (set (take i (vs_entry_ids st))) vid (vs_entries st ! i)"
proof -
  from assms obtain i where i: "i < length (vs_entry_ids st)" "vs_entry_ids st ! i = vid"
    by (auto simp: vs_inv_def in_set_conv_nth)
  then have m: "map_of (vs_index st) vid = Some i" and l: "length (vs_entry_ids st) = length (vs_entries st)"
    using assms by (simp_all add: vs_inv_def)
  then have "entry_by_id st vid = Some (vs_entries st ! i)" using i by (simp add: entry_by_id_def)
  moreover have "entry_ok blake3 M (set (take i (vs_entry_ids st))) vid (vs_entries st ! i)"
    using assms(1) i l by (auto simp: vs_inv_def)
  ultimately show thesis using i m l by (intro that [of i]) simp_all
qed

lemma entry_by_id_None: "vs_inv blake3 st M \<Longrightarrow> vid \<notin> dom M \<Longrightarrow> entry_by_id st vid = None"
  using vs_inv_contains [of blake3 st M vid] by (simp add: vs_contains_def entry_by_id_def)

lemma patch_ok_mono:
  "\<lbrakk>patch_ok M earlier b p c; earlier \<subseteq> earlier'; M \<subseteq>\<^sub>m M'\<rbrakk> \<Longrightarrow> patch_ok M' earlier' b p c"
  by (auto simp: patch_ok_def map_le_def dom_def)

lemma delta_ok_mono:
  "\<lbrakk>delta_ok blake3 M earlier vid c p d; earlier \<subseteq> earlier'; M \<subseteq>\<^sub>m M'\<rbrakk> \<Longrightarrow> delta_ok blake3 M' earlier' vid c p d"
  by (simp add: delta_ok_def) (blast intro: patch_ok_mono)

lemma entry_ok_mono:
  assumes "entry_ok blake3 M earlier vid e" "earlier \<subseteq> earlier'" "M \<subseteq>\<^sub>m M'"
  shows "entry_ok blake3 M' earlier' vid e"
proof -
  from assms(1) obtain c where c: "M vid = Some c" "length c < 2 ^ 63"
    "if ve_kind e = Delta then \<exists>d. ve_delta e = Some d \<and> delta_ok blake3 M earlier vid c (ve_bytes e) d
     else ve_delta e = None \<and> ve_bytes e = c" unfolding entry_ok_def by blast
  have "M' vid = Some c" using c(1) assms(3) by (auto simp: map_le_def dom_def)
  then show ?thesis using c delta_ok_mono [OF _ assms(2,3)] unfolding entry_ok_def by (auto split: if_splits)
qed

section \<open>Reconstruction\<close>

definition cache_ok :: "'m value_store \<Rightarrow> (bytes \<rightharpoonup> bytes) \<Rightarrow> recon_cache \<Rightarrow> bool" where
  "cache_ok st M c \<longleftrightarrow> (\<forall>vid bs t. c vid = Some (bs, t) \<longrightarrow>
     M vid = Some bs \<and> (\<exists>i. map_of (vs_index st) vid = Some i \<and> tr_steps t \<le> i))"

text \<open>\<open>recon_ok st M i vid r\<close>: \<open>r\<close> is a successful reconstruction of \<open>vid\<close> in at most \<open>i\<close> steps.\<close>

definition recon_ok :: "'m value_store \<Rightarrow> (bytes \<rightharpoonup> bytes) \<Rightarrow> nat \<Rightarrow> bytes \<Rightarrow> recon_result \<Rightarrow> bool" where
  "recon_ok st M i vid r \<longleftrightarrow> (\<exists>bs t c. r = Some (Inr ((bs, t), c)) \<and> M vid = Some bs \<and> tr_steps t \<le> i \<and> cache_ok st M c)"

definition best_ok :: "bytes \<Rightarrow> nat \<Rightarrow> (bytes \<times> reconstruct_trace) option \<Rightarrow> bool" where
  "best_ok content i best \<longleftrightarrow> (\<forall>bs t. best = Some (bs, t) \<longrightarrow> bs = content \<and> tr_steps t \<le> i)"

lemma mat_candidates_ok:
  assumes rec: "\<And>b c. b \<in> earlier \<Longrightarrow> cache_ok st M c \<Longrightarrow> \<exists>j < i. recon_ok st M j b (recurse b c)"
    and i: "i < 2 ^ 64 - 1"
  shows "\<lbrakk>\<forall>(b, p, k) \<in> set cands. patch_ok M earlier b p content; best_ok content i best; cache_ok st M c; cands \<noteq> [] \<or> best \<noteq> None\<rbrakk>
    \<Longrightarrow> \<exists>bs t c'. mat_candidates recurse (length content) cands best c = Some (Inr (Some (bs, t), c'))
          \<and> bs = content \<and> tr_steps t \<le> i \<and> cache_ok st M c'"
proof (induction cands arbitrary: best c)
  case Nil
  then show ?case by (cases best) (auto simp: best_ok_def)
next
  case (Cons cand cands)
  obtain b p k where cand: "cand = (b, p, k)" by (cases cand)
  from Cons.prems(1) cand obtain bb where b: "b \<in> earlier" "M b = Some bb" "apply_patch_bytes bb p = Inr content"
    by (auto simp: patch_ok_def)
  from rec [OF b(1) Cons.prems(3)] b(2) obtain j t c' where r: "j < i" "recurse b c = Some (Inr ((bb, t), c'))" "tr_steps t \<le> j"
    "cache_ok st M c'" by (auto simp: recon_ok_def)
  let ?t = "\<lparr>tr_steps = sat64 (tr_steps t + 1), tr_used_skip = tr_used_skip t \<or> k\<rparr>"
  let ?best = "if tr_steps ?t < (case best of None \<Rightarrow> 2 ^ 64 - 1 | Some (_, t) \<Rightarrow> tr_steps t) then Some (content, ?t) else best"
  have steps: "tr_steps ?t \<le> i" "tr_steps ?t < 2 ^ 64 - 1" using r i by (auto simp: sat64_def)
  have "best_ok content i ?best" using Cons.prems(2) steps by (auto simp: best_ok_def)
  moreover have "?best \<noteq> None" using steps by (auto split: option.splits)
  ultimately obtain bs t2 c2 where "mat_candidates recurse (length content) cands ?best c' = Some (Inr (Some (bs, t2), c2))"
     "bs = content \<and> tr_steps t2 \<le> i \<and> cache_ok st M c2"
    using Cons.IH [of ?best c'] Cons.prems(1) r(4) by auto
  then show ?case using cand r(2) b(3) by (auto simp: Let_def)
qed

lemma cache_ok_upd:
  "\<lbrakk>cache_ok st M c; M vid = Some bs; map_of (vs_index st) vid = Some i; tr_steps t \<le> i\<rbrakk> \<Longrightarrow> cache_ok st M (c(vid \<mapsto> (bs, t)))"
  by (auto simp: cache_ok_def)

lemma cache_ok_empty [simp]: "cache_ok st M Map.empty"
  by (simp add: cache_ok_def)

lemma materialize_with_cache_ok:
  assumes inv: "vs_inv blake3 st M" and len: "length (vs_entries st) < 2 ^ 64"
  shows "\<lbrakk>map_of (vs_index st) vid = Some i; i < fuel; cache_ok st M c\<rbrakk>
    \<Longrightarrow> recon_ok st M i vid (materialize_with_cache fuel blake3 st use_skip vid c)"
proof (induction fuel arbitrary: vid i c)
  case (Suc fuel)
  have dom: "vid \<in> dom M" using vs_inv_contains [OF inv, of vid] Suc.prems(1) by (simp add: vs_contains_def)
  obtain i' where i': "i' < length (vs_entries st)" "map_of (vs_index st) vid = Some i'"
    "entry_by_id st vid = Some (vs_entries st ! i')"
    "entry_ok blake3 M (set (take i' (vs_entry_ids st))) vid (vs_entries st ! i')"
    by (rule vs_inv_entry [OF inv dom])
  then have [simp]: "i' = i" using Suc.prems(1) by simp
  let ?e = "vs_entries st ! i" and ?earlier = "set (take i (vs_entry_ids st))"
  from i'(4) obtain content where content: "M vid = Some content" "length content < 2 ^ 63"
    "if ve_kind ?e = Delta then \<exists>d. ve_delta ?e = Some d \<and> delta_ok blake3 M ?earlier vid content (ve_bytes ?e) d
     else ve_delta ?e = None \<and> ve_bytes ?e = content"
    by (auto simp: entry_ok_def)
  show ?case
  proof (cases "c vid")
    case (Some hit)
    then show ?thesis using Suc.prems by (cases hit) (fastforce simp: recon_ok_def cache_ok_def)
  next
    case None
    show ?thesis
    proof (cases "ve_kind ?e = Delta")
      case False
      then show ?thesis using None i'(3) content Suc.prems(1,3)
        by (simp add: recon_ok_def Let_def cache_ok_upd)
    next
      case True
      then obtain d where d: "ve_delta ?e = Some d" "delta_ok blake3 M ?earlier vid content (ve_bytes ?e) d"
        using content(3) by auto
      let ?cands = "(de_base d, ve_bytes ?e, False) # (if use_skip then map (\<lambda>s. (sk_base s, sk_patch s, True)) (de_skip d) else [])"
      have rec: "\<exists>j < i. recon_ok st M j b (materialize_with_cache fuel blake3 st use_skip b c)"
        if "b \<in> ?earlier" "cache_ok st M c" for b c
      proof -
        from that(1) obtain j where j: "j < i" "j < length (vs_entry_ids st)" "vs_entry_ids st ! j = b" by (auto simp: in_set_conv_nth)
        then have "map_of (vs_index st) b = Some j" using inv by (simp add: vs_inv_def)
        then show ?thesis using Suc.IH [of b j c] Suc.prems(2) that(2) j(1) by (intro exI [of _ j]) simp
      qed
      have small: "i < 2 ^ 64 - 1" using i'(1) len by simp
      have "\<exists>bs t c'. mat_candidates (materialize_with_cache fuel blake3 st use_skip) (length content) ?cands None c
           = Some (Inr (Some (bs, t), c')) \<and> bs = content \<and> tr_steps t \<le> i \<and> cache_ok st M c'"
      proof (rule mat_candidates_ok [where earlier = ?earlier])
        show "\<forall>(b, p, k) \<in> set ?cands. patch_ok M ?earlier b p content" using d(2) by (auto simp: delta_ok_def)
      qed (use Suc.prems(3) small rec in \<open>simp_all add: best_ok_def\<close>)
      then obtain bs t c' where m: "mat_candidates (materialize_with_cache fuel blake3 st use_skip) (length content) ?cands None c
           = Some (Inr (Some (bs, t), c'))" "bs = content" "tr_steps t \<le> i" "cache_ok st M c'" by blast
      have l: "de_full_len d = length content" "value_id blake3 content = vid" using d(2) by (simp_all add: delta_ok_def)
      show ?thesis using None i'(3) True d(1) m l content(1) Suc.prems(1)
        by (simp add: recon_ok_def Let_def cache_ok_upd del: mat_candidates.simps)
    qed
  qed
qed simp

lemma materialize_internal_ok:
  assumes "vs_inv blake3 st M" "length (vs_entries st) < 2 ^ 64" "vid \<in> dom M" "length (vs_entries st) \<le> fuel"
  shows "\<exists>bs t ds. M vid = Some bs \<and> materialize_internal fuel blake3 st vid use_skip track = Some (Inr (bs, t), st\<lparr>vs_delta_stats := ds\<rparr>)"
proof -
  obtain i where i: "i < length (vs_entries st)" "map_of (vs_index st) vid = Some i" by (rule vs_inv_entry [OF assms(1,3)])
  have "recon_ok st M i vid (materialize_with_cache fuel blake3 st use_skip vid Map.empty)"
    using i assms(4) by (intro materialize_with_cache_ok [OF assms(1,2)]) simp_all
  moreover have "\<exists>ds. st = st\<lparr>vs_delta_stats := ds\<rparr>" by (rule exI [of _ "vs_delta_stats st"]) simp
  ultimately show ?thesis by (auto simp: recon_ok_def materialize_internal_def)
qed

section \<open>Operations keep the content\<close>

definition tables :: "'m value_store \<Rightarrow> value_entry list \<times> bytes list \<times> (bytes \<times> nat) list" where
  "tables st = (vs_entries st, vs_entry_ids st, vs_index st)"

lemma vs_inv_tables: "tables st' = tables st \<Longrightarrow> vs_inv blake3 st' M \<longleftrightarrow> vs_inv blake3 st M"
  by (simp add: tables_def vs_inv_def)

lemma tables_refresh [simp]: "tables (maybe_refresh st) = tables st"
  by (simp add: tables_def maybe_refresh_def refresh_learned_index_def rebuild_sorted_keys_def Let_def)

lemma tables_count_insert [simp]: "tables (count_insert st) = tables st"
  by (simp add: tables_def count_insert_def)

lemma tables_upd [simp]: "tables (st\<lparr>vs_delta_stats := ds\<rparr>) = tables st" "tables (st\<lparr>vs_config := cfg\<rparr>) = tables st"
  by (simp_all add: tables_def)

lemma tables_get [simp]: "tables (snd (vs_get st vid)) = tables st"
  by (simp add: vs_get_def get_with_trace_def Let_def tables_def split: option.split prod.split)

text \<open>The first content stored under an id stays.\<close>

definition remember :: "(bytes \<rightharpoonup> bytes) \<Rightarrow> bytes \<Rightarrow> bytes \<Rightarrow> (bytes \<rightharpoonup> bytes)" where
  "remember M vid bs = (if vid \<in> dom M then M else M(vid \<mapsto> bs))"

lemma vs_inv_push:
  assumes inv: "vs_inv blake3 st M" and new: "vid \<notin> dom M"
    and ok: "entry_ok blake3 (M(vid \<mapsto> content)) (set (vs_entry_ids st)) vid e"
  shows "vs_inv blake3 (push_entry st vid e) (M(vid \<mapsto> content))"
proof -
  have l: "length (vs_entry_ids st) = length (vs_entries st)" and d: "dom M = set (vs_entry_ids st)"
    using inv by (simp_all add: vs_inv_def)
  have le: "M \<subseteq>\<^sub>m M(vid \<mapsto> content)" using new by (auto simp: map_le_def)
  have fresh: "vid \<notin> set (vs_entry_ids st)" using d new by simp
  have index: "map_of (AList.update vid (length (vs_entries st)) (vs_index st)) v = Some i
      \<longleftrightarrow> i < length (vs_entry_ids st @ [vid]) \<and> (vs_entry_ids st @ [vid]) ! i = v" for v i
    using inv fresh l by (auto simp: vs_inv_def update_conv' nth_append less_Suc_eq split: if_splits)
  have "entry_ok blake3 (M(vid \<mapsto> content)) (set (take i (vs_entry_ids st @ [vid]))) ((vs_entry_ids st @ [vid]) ! i) ((vs_entries st @ [e]) ! i)"
    if "i < length (vs_entries st @ [e])" for i
  proof (cases "i < length (vs_entries st)")
    case True
    then have "entry_ok blake3 M (set (take i (vs_entry_ids st))) (vs_entry_ids st ! i) (vs_entries st ! i)"
      using inv by (simp add: vs_inv_def)
    then show ?thesis using entry_ok_mono [OF _ _ le] True l by (simp add: nth_append)
  next
    case False
    then have "i = length (vs_entries st)" using that by simp
    then show ?thesis using ok l by (simp add: nth_append)
  qed
  then show ?thesis using inv l d fresh index by (simp add: vs_inv_def push_entry_def Let_def)
qed

lemma put_with_id_inv:
  assumes inv: "vs_inv blake3 st M" and "kind \<noteq> Delta" "length bs < 2 ^ 63"
  shows "vs_inv blake3 (snd (put_with_id st kind vid bs)) (remember M vid bs)"
proof (cases "vid \<in> dom M")
  case True
  then show ?thesis using inv vs_inv_contains [OF inv, of vid] by (simp add: put_with_id_def remember_def)
next
  case False
  let ?e = "\<lparr>ve_kind = kind, ve_bytes = bs, ve_delta = None\<rparr>"
  have "entry_ok blake3 (M(vid \<mapsto> bs)) (set (vs_entry_ids st)) vid ?e" using assms(2,3) by (simp add: entry_ok_def)
  then have "vs_inv blake3 (push_entry st vid ?e) (M(vid \<mapsto> bs))" by (rule vs_inv_push [OF inv False])
  moreover have "\<not> vs_contains st vid" using False vs_inv_contains [OF inv] by blast
  then have "tables (snd (put_with_id st kind vid bs)) = tables (push_entry st vid ?e)"
    by (simp add: put_with_id_def Let_def)
  then have "vs_inv blake3 (snd (put_with_id st kind vid bs)) (M(vid \<mapsto> bs)) \<longleftrightarrow> vs_inv blake3 (push_entry st vid ?e) (M(vid \<mapsto> bs))"
    by (rule vs_inv_tables)
  ultimately show ?thesis using False by (simp only: remember_def if_False)
qed

lemma put_with_id_id: "fst (put_with_id st kind vid bs) = vid"
  by (simp add: put_with_id_def Let_def)

lemma patch_ok_build:
  assumes "M base = Some bb" "base \<in> earlier" "length bb < 2 ^ 63" "length bs < 2 ^ 63" "build_patch_bytes bb bs \<noteq> []"
  shows "patch_ok M earlier base (build_patch_bytes bb bs) bs"
proof -
  have "bb \<noteq> bs" using assms(5) build_patch_same by blast
  then show ?thesis using assms apply_build_patch by (simp add: patch_ok_def)
qed

lemma content_small: "vs_inv blake3 st M \<Longrightarrow> M vid = Some bs \<Longrightarrow> length bs < 2 ^ 63"
  by (rule vs_inv_entry [of blake3 st M vid]) (auto simp: entry_ok_def)

lemma ancestor_earlier:
  assumes inv: "vs_inv blake3 st M"
  shows "\<lbrakk>cur \<in> set (take n (vs_entry_ids st)); ancestor_at_distance st cur k = Some a\<rbrakk> \<Longrightarrow> a \<in> set (take n (vs_entry_ids st))"
proof (induction k arbitrary: cur)
  case (Suc k)
  from Suc.prems(2) obtain e d where e: "entry_by_id st cur = Some e" "ve_delta e = Some d"
    "ancestor_at_distance st (de_base d) k = Some a" by (auto split: Option.bind_splits)
  from Suc.prems(1) obtain j where j: "j < n" "j < length (vs_entry_ids st)" "vs_entry_ids st ! j = cur" by (auto simp: in_set_conv_nth)
  then have "map_of (vs_index st) cur = Some j" and l: "length (vs_entry_ids st) = length (vs_entries st)"
    using inv by (simp_all add: vs_inv_def)
  then have "e = vs_entries st ! j" using e(1) j(2) by (simp add: entry_by_id_def)
  then have "entry_ok blake3 M (set (take j (vs_entry_ids st))) cur e" using inv j l by (auto simp: vs_inv_def)
  then have "de_base d \<in> set (take j (vs_entry_ids st))" using e(2) by (auto simp: entry_ok_def delta_ok_def patch_ok_def split: if_splits)
  then have "de_base d \<in> set (take n (vs_entry_ids st))" using j(1) set_take_subset_set_take [of j n "vs_entry_ids st"] by auto
  then show ?case using Suc.IH e(3) by blast
qed simp

lemma skip_patches_loop_ok:
  assumes inv: "vs_inv blake3 st M" and len: "length (vs_entries st) < 2 ^ 64" "length (vs_entries st) \<le> fuel"
    and bs: "length bs < 2 ^ 63" and base: "base_id \<in> set (take n (vs_entry_ids st))"
  shows "\<forall>s \<in> set skip. patch_ok M (set (take n (vs_entry_ids st))) (sk_base s) (sk_patch s) bs \<Longrightarrow>
    \<exists>skip'. skip_patches_loop fuel blake3 st bs base_id depth max_skip skip distance = Some skip'
      \<and> (\<forall>s \<in> set skip'. patch_ok M (set (take n (vs_entry_ids st))) (sk_base s) (sk_patch s) bs)"
proof (induction "max_skip - length skip" arbitrary: skip distance rule: less_induct)
  case less
  show ?case
  proof (cases "distance \<le> depth \<and> length skip < max_skip")
    case True
    show ?thesis
    proof (cases "ancestor_at_distance st base_id (distance - 1)")
      case None
      then show ?thesis using less.prems by (subst skip_patches_loop.simps) simp
    next
      case (Some a)
      then have a: "a \<in> set (take n (vs_entry_ids st))" using ancestor_earlier [OF inv base] by blast
      then have "a \<in> dom M" using inv set_take_subset [of n "vs_entry_ids st"] by (auto simp: vs_inv_def)
      then obtain bb t ds where m: "M a = Some bb"
        "materialize_internal fuel blake3 st a False False = Some (Inr (bb, t), st\<lparr>vs_delta_stats := ds\<rparr>)"
        using materialize_internal_ok [OF inv len(1) _ len(2)] by blast
      show ?thesis
      proof (cases "build_patch_bytes bb bs = []")
        case True
        then show ?thesis using less.prems Some m by (subst skip_patches_loop.simps) simp
      next
        case False
        then have "patch_ok M (set (take n (vs_entry_ids st))) a (build_patch_bytes bb bs) bs"
          using a m(1) bs content_small [OF inv m(1)] by (intro patch_ok_build)
        moreover have "max_skip - Suc (length skip) < max_skip - length skip" using True by linarith
        ultimately show ?thesis using less.prems Some m(2) False True
          less.hyps [of "skip @ [\<lparr>sk_base = a, sk_patch = build_patch_bytes bb bs, sk_distance = distance\<rparr>]" "sat64 (distance * 2)"]
          by (subst skip_patches_loop.simps) (simp add: Let_def)
      qed
    qed
  next
    case False
    then have "skip_patches_loop fuel blake3 st bs base_id depth max_skip skip distance = Some skip"
      by (subst skip_patches_loop.simps) (simp only: if_False)
    then show ?thesis using less.prems by simp
  qed
qed

lemma push_delta_inv:
  assumes inv: "vs_inv blake3 st M" and new: "value_id blake3 bs \<notin> dom M" and bs: "length bs < 2 ^ 63"
    and p: "patch_ok M (dom M) base patch bs" and s: "\<forall>s \<in> set skip. patch_ok M (dom M) (sk_base s) (sk_patch s) bs"
  shows "vs_inv blake3 (push_delta st (value_id blake3 bs) patch (length bs) base depth skip) (M(value_id blake3 bs \<mapsto> bs))"
proof -
  let ?vid = "value_id blake3 bs"
  let ?M = "M(?vid \<mapsto> bs)"
  let ?d = "\<lparr>de_base = base, de_full_len = length bs, de_depth = depth, de_skip = skip\<rparr>"
  let ?e = "\<lparr>ve_kind = Delta, ve_bytes = patch, ve_delta = Some ?d\<rparr>"
  have le: "M \<subseteq>\<^sub>m ?M" using new by (auto simp: map_le_def)
  have d: "dom M = set (vs_entry_ids st)" using inv by (simp add: vs_inv_def)
  have "delta_ok blake3 ?M (set (vs_entry_ids st)) ?vid bs patch ?d"
    using p s patch_ok_mono [OF _ subset_refl le] by (simp add: delta_ok_def d)
  then have "entry_ok blake3 ?M (set (vs_entry_ids st)) ?vid ?e" using bs by (simp add: entry_ok_def)
  then have "vs_inv blake3 (push_entry st ?vid ?e) ?M" by (rule vs_inv_push [OF inv new])
  moreover have "tables (push_delta st ?vid patch (length bs) base depth skip) = tables (push_entry st ?vid ?e)"
    by (simp add: push_delta_def Let_def)
  ultimately show ?thesis using vs_inv_tables by blast
qed

text \<open>What insertion should do: return the id of the value, with its content remembered.\<close>

definition put_ok :: "(bytes \<Rightarrow> bytes) \<Rightarrow> (bytes \<rightharpoonup> bytes) \<Rightarrow> bytes \<Rightarrow> (bytes \<times> 'm value_store) option \<Rightarrow> bool" where
  "put_ok blake3 M bs r \<longleftrightarrow> (\<exists>st'. r = Some (value_id blake3 bs, st') \<and> vs_inv blake3 st' (remember M (value_id blake3 bs) bs))"

lemma vs_put_ok: "\<lbrakk>vs_inv blake3 st M; kind \<noteq> Delta; length bs < 2 ^ 63\<rbrakk> \<Longrightarrow> put_ok blake3 M bs (Some (vs_put blake3 st kind bs))"
  unfolding put_ok_def vs_put_def using put_with_id_inv put_with_id_id by (metis prod.collapse)

lemma put_delta_on_ok:
  assumes inv: "vs_inv blake3 st M" and len: "length (vs_entries st) < 2 ^ 64" "length (vs_entries st) \<le> fuel"
    and kind: "kind \<noteq> Delta" and bs: "length bs < 2 ^ 63" and base: "M base_id = Some bb" and new: "value_id blake3 bs \<notin> dom M"
  shows "put_ok blake3 M bs (put_delta_on fuel blake3 st kind bs base_id bb base_depth)"
proof (cases "put_delta_on fuel blake3 st kind bs base_id bb base_depth = Some (vs_put blake3 st kind bs)")
  case True
  then show ?thesis using vs_put_ok [OF inv kind bs] by simp
next
  case False
  let ?pol = "vc_delta_policy (vs_config st)" and ?depth = "sat64 (base_depth + 1)" and ?patch = "build_patch_bytes bb bs"
  have ids: "dom M = set (take (length (vs_entry_ids st)) (vs_entry_ids st))" using inv by (simp add: vs_inv_def)
  have base': "base_id \<in> set (take (length (vs_entry_ids st)) (vs_entry_ids st))" using base unfolding ids [symmetric] by blast
  define skips where "skips = (if 0 < dp_max_skip ?pol then build_skip_patches fuel blake3 st bs base_id ?depth (dp_max_skip ?pol) else Some [])"
  have "\<exists>skip. skips = Some skip \<and> (\<forall>s \<in> set skip. patch_ok M (dom M) (sk_base s) (sk_patch s) bs)"
    using skip_patches_loop_ok [OF inv len bs base', of "[]" ?depth "dp_max_skip ?pol" 2]
    unfolding skips_def build_skip_patches_def ids by (cases "0 < dp_max_skip ?pol") simp_all
  then obtain skip where skip: "skips = Some skip" "\<forall>s \<in> set skip. patch_ok M (dom M) (sk_base s) (sk_patch s) bs" by blast
  have g: "?patch \<noteq> []" "put_delta_on fuel blake3 st kind bs base_id bb base_depth
      = Some (value_id blake3 bs, push_delta st (value_id blake3 bs) ?patch (length bs) base_id ?depth skip)"
    using False skip(1) unfolding put_delta_on_def Let_def skips_def by (auto split: if_splits)
  have "patch_ok M (dom M) base_id ?patch bs"
    using base content_small [OF inv base] bs g(1) by (intro patch_ok_build) blast+
  then have "vs_inv blake3 (push_delta st (value_id blake3 bs) ?patch (length bs) base_id ?depth skip) (M(value_id blake3 bs \<mapsto> bs))"
    using skip(2) by (intro push_delta_inv inv new bs)
  then show ?thesis using g(2) new by (simp add: put_ok_def remember_def)
qed

lemma put_with_delta_ok:
  assumes inv: "vs_inv blake3 st M" and len: "length (vs_entries st) < 2 ^ 64" "length (vs_entries st) \<le> fuel"
    and kind: "kind \<noteq> Delta" and bs: "length bs < 2 ^ 63"
  shows "put_ok blake3 M bs (put_with_delta fuel blake3 st kind bs base)"
proof (cases "put_with_delta fuel blake3 st kind bs base = Some (vs_put blake3 st kind bs)")
  case True
  then show ?thesis using vs_put_ok [OF inv kind bs] by simp
next
  case False
  show ?thesis
  proof (cases "value_id blake3 bs \<in> dom M")
    case True
    then show ?thesis using False inv vs_inv_contains [OF inv, of "value_id blake3 bs"]
      by (auto simp: put_with_delta_def put_ok_def remember_def split: if_splits)
  next
    case new: False
    then obtain e where e: "entry_by_id st (the base) = Some e"
      using False vs_inv_contains [OF inv, of "value_id blake3 bs"]
      unfolding put_with_delta_def Let_def by (auto split: if_splits option.splits)
    then have "the base \<in> dom M" using entry_by_id_None [OF inv, of "the base"] by force
    then obtain bb t ds where m: "M (the base) = Some bb"
      "materialize_internal fuel blake3 st (the base) False False = Some (Inr (bb, t), st\<lparr>vs_delta_stats := ds\<rparr>)"
      using materialize_internal_ok [OF inv len(1) _ len(2)] by blast
    have "put_with_delta fuel blake3 st kind bs base
        = put_delta_on fuel blake3 st kind bs (the base) bb (case ve_delta e of None \<Rightarrow> 0 | Some d \<Rightarrow> de_depth d)"
      using False new vs_inv_contains [OF inv, of "value_id blake3 bs"] e m(2)
      unfolding put_with_delta_def Let_def by (auto split: if_splits)
    then show ?thesis using put_delta_on_ok [OF inv len kind bs m(1) new] by simp
  qed
qed

section \<open>Compaction\<close>

lemma vs_inv_at:
  assumes "vs_inv blake3 st M" "map_of (vs_index st) vid = Some i"
  shows "i < length (vs_entries st)" "vs_entry_ids st ! i = vid" "entry_by_id st vid = Some (vs_entries st ! i)" "vid \<in> dom M"
    "entry_ok blake3 M (set (take i (vs_entry_ids st))) vid (vs_entries st ! i)"
proof -
  show i: "i < length (vs_entries st)" "vs_entry_ids st ! i = vid" using assms by (auto simp: vs_inv_def)
  then show "entry_by_id st vid = Some (vs_entries st ! i)" using assms(2) by (simp add: entry_by_id_def)
  show "vid \<in> dom M" using assms vs_inv_contains by (fastforce simp: vs_contains_def)
  show "entry_ok blake3 M (set (take i (vs_entry_ids st))) vid (vs_entries st ! i)" using assms(1) i by (auto simp: vs_inv_def)
qed

lemma vs_inv_base:
  assumes inv: "vs_inv blake3 st M" and i: "map_of (vs_index st) vid = Some i" and d: "ve_delta (vs_entries st ! i) = Some d"
  shows "de_base d \<in> set (take i (vs_entry_ids st))" "\<exists>j < i. map_of (vs_index st) (de_base d) = Some j"
proof -
  show b: "de_base d \<in> set (take i (vs_entry_ids st))"
    using vs_inv_at(5) [OF inv i] d by (auto simp: entry_ok_def delta_ok_def patch_ok_def split: if_splits)
  then obtain j where "j < i" "j < length (vs_entry_ids st)" "vs_entry_ids st ! j = de_base d" by (auto simp: in_set_conv_nth)
  then show "\<exists>j < i. map_of (vs_index st) (de_base d) = Some j" using inv by (auto simp: vs_inv_def)
qed

lemma delta_chain_depth_ends:
  assumes inv: "vs_inv blake3 st M"
  shows "\<lbrakk>map_of (vs_index st) vid = Some i; i < fuel\<rbrakk> \<Longrightarrow> \<exists>r. delta_chain_depth_loop fuel st vid depth = Some r"
proof (induction fuel arbitrary: vid i depth)
  case (Suc fuel)
  show ?case
  proof (cases "ve_delta (vs_entries st ! i)")
    case None
    then show ?thesis using vs_inv_at(3) [OF inv Suc.prems(1)] by simp
  next
    case (Some d)
    from vs_inv_base(2) [OF inv Suc.prems(1) Some] obtain j where "j < i" "map_of (vs_index st) (de_base d) = Some j" by blast
    then show ?thesis using Suc.IH [of "de_base d" j "sat64 (depth + 1)"] Suc.prems(2) vs_inv_at(3) [OF inv Suc.prems(1)] Some by simp
  qed
qed simp

lemma delta_chain_bytes_ends:
  assumes inv: "vs_inv blake3 st M"
  shows "\<lbrakk>map_of (vs_index st) vid = Some i; i < fuel\<rbrakk> \<Longrightarrow> \<exists>r. delta_chain_bytes_loop fuel st vid acc = Some r"
proof (induction fuel arbitrary: vid i acc)
  case (Suc fuel)
  show ?case
  proof (cases "ve_delta (vs_entries st ! i)")
    case None
    then show ?thesis using vs_inv_at(3) [OF inv Suc.prems(1)] by (simp add: Let_def)
  next
    case (Some d)
    from vs_inv_base(2) [OF inv Suc.prems(1) Some] obtain j where "j < i" "map_of (vs_index st) (de_base d) = Some j" by blast
    then show ?thesis using Suc.IH [of "de_base d" j] Suc.prems(2) vs_inv_at(3) [OF inv Suc.prems(1)] Some by (simp add: Let_def)
  qed
qed simp

lemma set_entry_simps [simp]:
  "vs_index (set_entry st i e) = vs_index st" "vs_entry_ids (set_entry st i e) = vs_entry_ids st"
  "vs_entries (set_entry st i e) = (vs_entries st)[i := e]" "vs_config (set_entry st i e) = vs_config st"
  by (simp_all add: set_entry_def)

lemma vs_inv_set_entry:
  assumes "vs_inv blake3 st M" "map_of (vs_index st) vid = Some i" "entry_ok blake3 M (set (take i (vs_entry_ids st))) vid e"
  shows "vs_inv blake3 (set_entry st i e) M"
proof -
  have "vs_entry_ids st ! i = vid" by (rule vs_inv_at(2) [OF assms(1,2)])
  then have "entry_ok blake3 M (set (take j (vs_entry_ids st))) (vs_entry_ids st ! j) ((vs_entries st)[i := e] ! j)"
    if "j < length (vs_entries st)" for j
    using assms(1,3) that by (cases "j = i") (simp_all add: vs_inv_def)
  then show ?thesis using assms(1) by (simp add: vs_inv_def)
qed

text \<open>Stores that differ only in the stored representation of their values.\<close>

definition same_ids :: "'m value_store \<Rightarrow> 'm value_store \<Rightarrow> bool" where
  "same_ids st st' \<longleftrightarrow> (\<exists>es. length es = length (vs_entries st) \<and> st' = st\<lparr>vs_entries := es\<rparr>)"

lemma same_ids_simps:
  assumes "same_ids st st'"
  shows "vs_index st' = vs_index st" "vs_entry_ids st' = vs_entry_ids st" "length (vs_entries st') = length (vs_entries st)"
    "vs_config st' = vs_config st"
  using assms by (auto simp: same_ids_def)

lemma same_ids_refl [simp]: "same_ids st st"
  by (auto simp: same_ids_def intro!: exI [of _ "vs_entries st"])

lemma same_ids_set_entry: "same_ids (set_entry st i e) st' \<Longrightarrow> same_ids st st'"
  by (auto simp: same_ids_def set_entry_def)

lemma compact_rewrite_ok:
  assumes "set ids \<subseteq> dom M" "vs_inv blake3 st M" "length (vs_entries st) < 2 ^ 64" "length (vs_entries st) \<le> fuel"
  shows "\<exists>st' rep'. compact_rewrite fuel blake3 ids st rep = Some (st', rep') \<and> vs_inv blake3 st' M \<and> same_ids st st'"
  using assms
proof (induction ids arbitrary: st rep)
  case (Cons vid ids)
  note inv = Cons.prems(2)
  from Cons.prems(1) have dom: "vid \<in> dom M" by simp
  obtain i where i: "i < length (vs_entries st)" "map_of (vs_index st) vid = Some i" by (rule vs_inv_entry [OF inv dom])
  obtain chain where chain: "delta_chain_bytes fuel st vid = Some chain"
    using delta_chain_bytes_ends [OF inv i(2), of fuel 0] i(1) Cons.prems(4) by (auto simp: delta_chain_bytes_def)
  obtain bs t ds where m: "M vid = Some bs"
    "materialize_internal fuel blake3 st vid False False = Some (Inr (bs, t), st\<lparr>vs_delta_stats := ds\<rparr>)"
    using materialize_internal_ok [OF inv Cons.prems(3) dom Cons.prems(4)] by blast
  let ?st = "set_entry st i \<lparr>ve_kind = Cell, ve_bytes = bs, ve_delta = None\<rparr>"
  have "entry_ok blake3 M (set (take i (vs_entry_ids st))) vid \<lparr>ve_kind = Cell, ve_bytes = bs, ve_delta = None\<rparr>"
    using m(1) content_small [OF inv m(1)] by (simp add: entry_ok_def)
  then have "vs_inv blake3 ?st M" by (rule vs_inv_set_entry [OF inv i(2)])
  then have "\<exists>st' rep'. compact_rewrite fuel blake3 ids ?st rep = Some (st', rep') \<and> vs_inv blake3 st' M \<and> same_ids ?st st'" for rep
    using Cons.prems(1,3,4) by (intro Cons.IH) simp_all
  then show ?case using chain m(2) i same_ids_set_entry by (simp add: Let_def) blast
qed simp

definition update_ok :: "'m value_store \<Rightarrow> (bytes \<rightharpoonup> bytes) \<Rightarrow> bytes \<times> nat \<times> skip_patch list \<Rightarrow> bool" where
  "update_ok st M u \<longleftrightarrow> (case u of (vid, depth, skip) \<Rightarrow> \<forall>i bs. map_of (vs_index st) vid = Some i \<longrightarrow> M vid = Some bs \<longrightarrow>
     (\<forall>s \<in> set skip. patch_ok M (set (take i (vs_entry_ids st))) (sk_base s) (sk_patch s) bs))"

lemma skip_update_ok:
  assumes inv: "vs_inv blake3 st M" and len: "length (vs_entries st) < 2 ^ 64" "length (vs_entries st) \<le> fuel"
    and i: "map_of (vs_index st) vid = Some i" and d: "ve_delta (vs_entries st ! i) = Some d" and bs: "M vid = Some bs"
  shows "\<exists>skip. build_skip_patches fuel blake3 st bs (de_base d) depth max_skip = Some skip \<and> update_ok st M (vid, depth, skip)"
proof -
  have "\<exists>skip. build_skip_patches fuel blake3 st bs (de_base d) depth max_skip = Some skip
      \<and> (\<forall>s \<in> set skip. patch_ok M (set (take i (vs_entry_ids st))) (sk_base s) (sk_patch s) bs)"
    unfolding build_skip_patches_def
    by (rule skip_patches_loop_ok [OF inv len content_small [OF inv bs] vs_inv_base(1) [OF inv i d]]) simp
  then show ?thesis using i bs by (auto simp: update_ok_def)
qed

lemma skip_updates_ok:
  assumes inv: "vs_inv blake3 st M" and len: "length (vs_entries st) < 2 ^ 64" "length (vs_entries st) \<le> fuel"
  shows "\<lbrakk>\<forall>(vid, i) \<in> set ps. map_of (vs_index st) vid = Some i; \<forall>u \<in> set us. update_ok st M u\<rbrakk> \<Longrightarrow>
    \<exists>us' rep'. skip_updates fuel blake3 max_skip ps st us rep = Some (us', rep') \<and> (\<forall>u \<in> set us'. update_ok st M u)"
proof (induction ps arbitrary: us rep)
  case (Cons p ps)
  obtain vid i where p: "p = (vid, i)" by (cases p)
  then have i: "map_of (vs_index st) vid = Some i" using Cons.prems(1) by auto
  note at = vs_inv_at [OF inv i]
  have IH: "\<exists>us' rep'. skip_updates fuel blake3 max_skip ps st us rep = Some (us', rep') \<and> (\<forall>u \<in> set us'. update_ok st M u)"
    if "\<forall>u \<in> set us. update_ok st M u" for us rep using Cons.IH Cons.prems(1) that by auto
  show ?case
  proof (cases "ve_kind (vs_entries st ! i) = Delta \<and> ve_delta (vs_entries st ! i) \<noteq> None")
    case False
    then show ?thesis using IH Cons.prems(2) at(1) p by (auto simp: Let_def)
  next
    case True
    then obtain d where d: "ve_kind (vs_entries st ! i) = Delta" "ve_delta (vs_entries st ! i) = Some d" by auto
    obtain depth where depth: "delta_chain_depth fuel st vid = Some depth"
      using delta_chain_depth_ends [OF inv i, of fuel 0] at(1) len(2) by (auto simp: delta_chain_depth_def)
    obtain chain where chain: "delta_chain_bytes fuel st vid = Some chain"
      using delta_chain_bytes_ends [OF inv i, of fuel 0] at(1) len(2) by (auto simp: delta_chain_bytes_def)
    obtain bs t ds where m: "M vid = Some bs"
      "materialize_internal fuel blake3 st vid False False = Some (Inr (bs, t), st\<lparr>vs_delta_stats := ds\<rparr>)"
      using materialize_internal_ok [OF inv len(1) at(4) len(2)] by blast
    show ?thesis
    proof (cases depth)
      case None
      then show ?thesis using IH Cons.prems(2) at(1) p d depth by (simp add: Let_def)
    next
      case (Some n)
      obtain skip where skip: "build_skip_patches fuel blake3 st bs (de_base d) n max_skip = Some skip" "update_ok st M (vid, n, skip)"
        using skip_update_ok [OF inv len i d(2) m(1)] by blast
      have "\<forall>u \<in> set (us @ [(vid, n, skip)]). update_ok st M u" using skip(2) Cons.prems(2) by simp
      from IH [OF this] show ?thesis using at(1) p d depth Some m(2) skip(1) chain by (simp add: Let_def)
    qed
  qed
qed simp

lemma update_ok_same_ids: "same_ids st st' \<Longrightarrow> update_ok st M u \<Longrightarrow> update_ok st' M u"
  by (simp add: update_ok_def same_ids_simps split: prod.splits)

lemma same_ids_set_entry_self: "same_ids st (set_entry st i e)"
  unfolding same_ids_def set_entry_def by (rule exI [of _ "(vs_entries st)[i := e]"]) simp

lemma apply_skip_updates_ok:
  assumes "vs_inv blake3 st M" "\<forall>u \<in> set us. update_ok st M u"
  shows "vs_inv blake3 (fst (apply_skip_updates us st rep)) M \<and> same_ids st (fst (apply_skip_updates us st rep))"
  using assms
proof (induction us arbitrary: st rep)
  case (Cons u us)
  obtain vid depth skip where u: "u = (vid, depth, skip)" by (cases u)
  note inv = Cons.prems(1)
  show ?case
  proof (cases "\<exists>i d. map_of (vs_index st) vid = Some i \<and> ve_delta (vs_entries st ! i) = Some d")
    case False
    then have "apply_skip_updates (u # us) st rep = apply_skip_updates us st rep"
      using u by (auto split: option.splits)
    then show ?thesis using Cons by simp
  next
    case True
    then obtain i d where i: "map_of (vs_index st) vid = Some i" and d: "ve_delta (vs_entries st ! i) = Some d" by blast
    note at = vs_inv_at [OF inv i]
    let ?e = "(vs_entries st ! i)\<lparr>ve_delta := Some (d\<lparr>de_depth := depth, de_skip := skip\<rparr>)\<rparr>"
    have "entry_ok blake3 M (set (take i (vs_entry_ids st))) vid ?e"
      using at(5) d Cons.prems(2) u i by (auto simp: entry_ok_def delta_ok_def update_ok_def split: if_splits)
    then have "vs_inv blake3 (set_entry st i ?e) M" by (rule vs_inv_set_entry [OF inv i])
    moreover have "\<forall>u \<in> set us. update_ok (set_entry st i ?e) M u"
      using Cons.prems(2) update_ok_same_ids [OF same_ids_set_entry_self] by (meson list.set_intros(2))
    ultimately have "vs_inv blake3 (fst (apply_skip_updates us (set_entry st i ?e) rep)) M
        \<and> same_ids (set_entry st i ?e) (fst (apply_skip_updates us (set_entry st i ?e) rep))" for rep
      by (rule Cons.IH)
    then show ?thesis using u i d at(1) same_ids_set_entry by fastforce
  qed
qed simp

lemma same_ids_trans: "same_ids a b \<Longrightarrow> same_ids b c \<Longrightarrow> same_ids a c"
  by (auto simp: same_ids_def)

lemma compact_deltas_ok:
  assumes inv: "vs_inv blake3 st M" and len: "length (vs_entries st) < 2 ^ 64" "length (vs_entries st) \<le> fuel"
    and dist: "distinct (map fst (vs_index st))"
  shows "\<exists>st' rep. compact_deltas fuel blake3 st = Some (st', rep) \<and> vs_inv blake3 st' M \<and> same_ids st st'"
proof -
  let ?pol = "vc_delta_policy (vs_config st)" and ?rep = "\<lparr>cr_rewritten = 0, cr_skip_rebuilt = 0, cr_cpu_units = 0, cr_io_bytes_read = 0, cr_io_bytes_written = 0\<rparr>"
  let ?ids = "map fst (filter (needs_rewrite ?pol st) (vs_index st))"
  have ix: "\<forall>(vid, i) \<in> set (vs_index st). map_of (vs_index st) vid = Some i" using dist by auto
  have "set ?ids \<subseteq> dom M" using ix vs_inv_at(4) [OF inv] by fastforce
  then obtain st1 rep1 where r: "compact_rewrite fuel blake3 ?ids st ?rep = Some (st1, rep1)" "vs_inv blake3 st1 M" "same_ids st st1"
    using compact_rewrite_ok [OF _ inv len] by blast
  note same = same_ids_simps [OF r(3)]
  show ?thesis
  proof (cases "0 < dp_max_skip ?pol")
    case True
    have "\<exists>us rep2. skip_updates fuel blake3 (dp_max_skip ?pol) (vs_index st1) st1 [] rep1 = Some (us, rep2) \<and> (\<forall>u \<in> set us. update_ok st1 M u)"
      using ix len same by (intro skip_updates_ok [OF r(2)]) simp_all
    then obtain us rep2 where u: "skip_updates fuel blake3 (dp_max_skip ?pol) (vs_index st1) st1 [] rep1 = Some (us, rep2)"
      "\<forall>u \<in> set us. update_ok st1 M u" by blast
    have "vs_inv blake3 (fst (apply_skip_updates us st1 rep2)) M \<and> same_ids st (fst (apply_skip_updates us st1 rep2))"
      using apply_skip_updates_ok [OF r(2) u(2)] same_ids_trans [OF r(3)] by blast
    then show ?thesis using True r(1) u(1) by (simp add: compact_deltas_def Let_def prod_eq_iff)
  next
    case False
    then show ?thesis using r by (simp add: compact_deltas_def Let_def)
  qed
qed

end
