(* ===== verification/Value_Reach.thy ===== *)
theory Value_Reach
  imports Value_Proofs
begin

text \<open>
  Reachable states of the value store. Every public operation that changes the store is a step;
  \<open>M\<close> records the first content put under each id. Every stored value reconstructs to that content,
  whatever the later operations; the Bloom filter never denies a stored id; the learned index does
  not change the result of a lookup; compaction returns and keeps every content.

  Fuel: reconstruction of the value at position \<open>i\<close> of the table recurses at most \<open>i + 1\<close> deep,
  because a delta refers to values that were stored before it; so fuel equal to the number of
  entries is enough.
\<close>

section \<open>Indexes over the table\<close>

definition lookup_inv :: "'m value_store \<Rightarrow> bool" where
  "lookup_inv st \<longleftrightarrow> distinct (map fst (vs_index st)) \<and> bloom_wf (vs_bloom st)
     \<and> (\<forall>vid. vs_contains st vid \<longrightarrow> bloom_maybe_contains (vs_bloom st) vid)
     \<and> length (vs_sorted_entries st) = length (vs_sorted_keys st)
     \<and> (\<forall>j < length (vs_sorted_keys st). map_of (vs_index st) (vs_sorted_keys st ! j) = Some (vs_sorted_entries st ! j))"

lemma lookup_inv_cong:
  "\<lbrakk>vs_index st' = vs_index st; vs_bloom st' = vs_bloom st; vs_sorted_keys st' = vs_sorted_keys st;
    vs_sorted_entries st' = vs_sorted_entries st\<rbrakk> \<Longrightarrow> lookup_inv st' \<longleftrightarrow> lookup_inv st"
  by (simp add: lookup_inv_def vs_contains_def)

lemma lookup_inv_push:
  assumes "lookup_inv st" "\<not> vs_contains st vid"
  shows "lookup_inv (push_entry st vid e)"
proof -
  have "distinct (map fst (AList.update vid i (vs_index st)))" for i
    using assms(1) by (intro distinct_update) (simp add: lookup_inv_def)
  moreover have "vs_sorted_keys st ! j \<noteq> vid" if "j < length (vs_sorted_keys st)" for j
    using assms that by (auto simp: lookup_inv_def vs_contains_def)
  ultimately show ?thesis using assms bloom_insert_contains [of "vs_bloom st"] bloom_insert_wf
    by (auto simp: lookup_inv_def push_entry_def Let_def vs_contains_def update_conv')
qed

lemma lookup_inv_refresh:
  assumes "lookup_inv st"
  shows "lookup_inv (refresh_learned_index st)"
proof (cases "vc_enable_learned_index (vs_config st)")
  case True
  let ?pairs = "sort_key (\<lambda>(vid, _). id_to_u128 vid) (vs_index st)"
  have "map_of (vs_index st) (map fst ?pairs ! j) = Some (map snd ?pairs ! j)" if "j < length ?pairs" for j
  proof -
    have "?pairs ! j \<in> set (vs_index st)" using nth_mem [OF that] by simp
    then show ?thesis using assms that by (intro map_of_is_SomeI) (simp_all add: lookup_inv_def)
  qed
  then show ?thesis using assms True
    by (simp add: refresh_learned_index_def rebuild_sorted_keys_def Let_def lookup_inv_def vs_contains_def)
next
  case False
  then show ?thesis using assms by (simp add: refresh_learned_index_def lookup_inv_def vs_contains_def)
qed

lemma lookup_inv_maybe_refresh: "lookup_inv st \<Longrightarrow> lookup_inv (maybe_refresh st)"
  by (simp add: maybe_refresh_def lookup_inv_refresh)

lemma lookup_inv_count_insert: "lookup_inv (count_insert st) \<longleftrightarrow> lookup_inv st"
  by (rule lookup_inv_cong) (simp_all add: count_insert_def)

lemma lookup_inv_put_with_id: "lookup_inv st \<Longrightarrow> lookup_inv (snd (put_with_id st kind vid bs))"
  by (simp add: put_with_id_def Let_def lookup_inv_maybe_refresh lookup_inv_count_insert lookup_inv_push)

lemma lookup_inv_push_delta:
  assumes "lookup_inv st" "\<not> vs_contains st vid"
  shows "lookup_inv (push_delta st vid patch n base depth skip)"
proof -
  have "lookup_inv (count_insert (push_entry st vid e)\<lparr>vs_delta_stats := ds\<rparr>)" for e ds
    using lookup_inv_push [OF assms]
    by (subst lookup_inv_cong [of _ "count_insert (push_entry st vid e)"]) (simp_all add: lookup_inv_count_insert)
  then show ?thesis by (simp add: push_delta_def Let_def lookup_inv_maybe_refresh)
qed

lemma put_delta_on_cases:
  assumes "put_delta_on fuel blake3 st kind bs base bb depth = Some (vid, st')"
  shows "(vid, st') = vs_put blake3 st kind bs
    \<or> (\<exists>patch n base depth skip. st' = push_delta st (value_id blake3 bs) patch n base depth skip)"
  using assms unfolding put_delta_on_def Let_def by (simp split: if_splits option.splits) (blast+)?

lemma lookup_inv_put_with_delta:
  assumes inv: "lookup_inv st" and put: "put_with_delta fuel blake3 st kind bs base = Some (vid, st')"
  shows "lookup_inv st'"
proof -
  from put consider "(vid, st') = vs_put blake3 st kind bs" | "st' = st"
    | base bb depth where "\<not> vs_contains st (value_id blake3 bs)" "put_delta_on fuel blake3 st kind bs base bb depth = Some (vid, st')"
    unfolding put_with_delta_def Let_def by (auto split: if_splits option.splits sum.splits prod.splits)
  moreover have "lookup_inv st'" if "(vid, st') = vs_put blake3 st kind bs"
    using lookup_inv_put_with_id [OF inv] that unfolding vs_put_def by (metis snd_conv)
  ultimately show ?thesis using put_delta_on_cases inv lookup_inv_push_delta by metis
qed

section \<open>Reachable states\<close>

text \<open>
  \<open>vs_reach blake3 st M\<close>: the store \<open>st\<close> is reached by public operations, and \<open>M\<close> maps every id to the
  first content put under it. Operations that recurse get at least as much fuel as there are entries.
\<close>

inductive vs_reach :: "(bytes \<Rightarrow> bytes) \<Rightarrow> 'm value_store \<Rightarrow> (bytes \<rightharpoonup> bytes) \<Rightarrow> bool" for blake3 where
  reach_new: "vs_reach blake3 (value_store_new cfg) Map.empty"
| reach_put_with_id: "\<lbrakk>vs_reach blake3 st M; kind \<noteq> Delta; length bs < 2 ^ 63\<rbrakk>
    \<Longrightarrow> vs_reach blake3 (snd (put_with_id st kind vid bs)) (remember M vid bs)"
| reach_put_with_delta: "\<lbrakk>vs_reach blake3 st M; kind \<noteq> Delta; length bs < 2 ^ 63; length (vs_entries st) < 2 ^ 64;
      length (vs_entries st) \<le> fuel; put_with_delta fuel blake3 st kind bs base = Some (vid, st')\<rbrakk>
    \<Longrightarrow> vs_reach blake3 st' (remember M vid bs)"
| reach_get: "vs_reach blake3 st M \<Longrightarrow> vs_reach blake3 (snd (vs_get st vid)) M"
| reach_materialize: "\<lbrakk>vs_reach blake3 st M; materialize fuel blake3 st vid = Some (r, st')\<rbrakk> \<Longrightarrow> vs_reach blake3 st' M"
| reach_maybe_refresh: "vs_reach blake3 st M \<Longrightarrow> vs_reach blake3 (maybe_refresh st) M"
| reach_refresh: "vs_reach blake3 st M \<Longrightarrow> vs_reach blake3 (refresh_learned_index st) M"
| reach_set_delta_policy: "vs_reach blake3 st M \<Longrightarrow> vs_reach blake3 (set_delta_policy st policy) M"
| reach_compact_deltas: "\<lbrakk>vs_reach blake3 st M; length (vs_entries st) < 2 ^ 64; length (vs_entries st) \<le> fuel;
      compact_deltas fuel blake3 st = Some (st', rep)\<rbrakk> \<Longrightarrow> vs_reach blake3 st' M"

lemma materialize_state:
  fixes st :: "'a value_store"
  assumes "materialize fuel blake3 st vid = Some (r, st')"
  shows "\<exists>ds. st' = st\<lparr>vs_delta_stats := ds\<rparr>"
proof -
  have self: "\<exists>ds. s = s\<lparr>vs_delta_stats := ds\<rparr>" for s :: "'a value_store" by (rule exI [of _ "vs_delta_stats s"]) simp
  from assms consider "st' = st" | ds where "st' = st\<lparr>vs_delta_stats := ds\<rparr>"
    unfolding materialize_def materialize_internal_def by (auto split: option.splits sum.splits prod.splits if_splits)
  then show ?thesis using self by cases auto
qed

lemma lookup_inv_get: "lookup_inv (snd (vs_get st vid)) \<longleftrightarrow> lookup_inv st"
  by (rule lookup_inv_cong) (simp_all add: vs_get_def get_with_trace_def Let_def split: option.split prod.split)

lemma tables_refresh_always [simp]: "tables (refresh_learned_index st) = tables st"
  by (simp add: tables_def refresh_learned_index_def rebuild_sorted_keys_def Let_def)

lemma value_store_new_inv: "vs_inv blake3 (value_store_new cfg) Map.empty" "lookup_inv (value_store_new cfg)"
  by (simp_all add: vs_inv_def value_store_new_def lookup_inv_def vs_contains_def bloom_new_wf)

lemma vs_reach_inv:
  "vs_reach blake3 st M \<Longrightarrow> vs_inv blake3 st M \<and> lookup_inv st"
proof (induction rule: vs_reach.induct)
  case (reach_new cfg)
  then show ?case by (simp add: value_store_new_inv)
next
  case (reach_put_with_id st M kind bs vid)
  then show ?case by (simp add: put_with_id_inv lookup_inv_put_with_id)
next
  case (reach_put_with_delta st M kind bs fuel base vid st')
  then have "put_ok blake3 M bs (Some (vid, st'))" using put_with_delta_ok by metis
  then show ?case using reach_put_with_delta lookup_inv_put_with_delta by (auto simp: put_ok_def)
next
  case (reach_get st M vid)
  then show ?case using vs_inv_tables [OF tables_get] lookup_inv_get by blast
next
  case (reach_materialize st M fuel vid r st')
  then obtain ds where "st' = st\<lparr>vs_delta_stats := ds\<rparr>" using materialize_state by blast
  then show ?case using reach_materialize.IH vs_inv_tables [OF tables_upd(1)] lookup_inv_cong [of st' st] by auto
next
  case (reach_maybe_refresh st M)
  then show ?case using vs_inv_tables [OF tables_refresh] lookup_inv_maybe_refresh by blast
next
  case (reach_refresh st M)
  then show ?case using vs_inv_tables [OF tables_refresh_always] lookup_inv_refresh by blast
next
  case (reach_set_delta_policy st M policy)
  have "tables (set_delta_policy st policy) = tables st" "lookup_inv (set_delta_policy st policy) \<longleftrightarrow> lookup_inv st"
    by (simp_all add: set_delta_policy_def tables_def lookup_inv_def vs_contains_def)
  then show ?case using reach_set_delta_policy vs_inv_tables by blast
next
  case (reach_compact_deltas st M fuel st' rep)
  then have "vs_inv blake3 st' M" "same_ids st st'" using compact_deltas_ok [of blake3 st M fuel] by (auto simp: lookup_inv_def)
  then show ?case using reach_compact_deltas.IH lookup_inv_cong [of st' st] by (auto simp: same_ids_def)
qed

lemma materialize_content:
  assumes "vs_inv blake3 st M" "M vid = Some bs" "length (vs_entries st) < 2 ^ 64" "length (vs_entries st) \<le> fuel"
  shows "\<exists>st'. materialize fuel blake3 st vid = Some (Inr bs, st')"
proof -
  have "vid \<in> dom M" using assms(2) by blast
  from materialize_internal_ok [OF assms(1,3) this assms(4), of True True] show ?thesis using assms(2) by (auto simp: materialize_def)
qed

text \<open>
  (C11) Whatever operations follow (insertions, deltas against it, lookups, compaction, a change of the
  delta policy), a value that was stored under an id is reconstructed byte for byte, and
  reconstruction returns.
\<close>

theorem value_durable:
  assumes "vs_reach blake3 st M" "M vid = Some bs" "length (vs_entries st) < 2 ^ 64" "length (vs_entries st) \<le> fuel"
  shows "\<exists>st'. materialize fuel blake3 st vid = Some (Inr bs, st')"
  using vs_reach_inv [OF assms(1)] assms(2-4) materialize_content by blast

text \<open>
  (C30) In a reachable store compaction returns, and every value still reconstructs to the same bytes.
\<close>

theorem compaction_keeps_values:
  assumes "vs_reach blake3 st M" "length (vs_entries st) < 2 ^ 64" "length (vs_entries st) \<le> fuel"
  shows "\<exists>st' rep. compact_deltas fuel blake3 st = Some (st', rep)
    \<and> (\<forall>vid. vs_contains st' vid = vs_contains st vid)
    \<and> (\<forall>vid \<in> dom M. \<exists>a b bs. materialize fuel blake3 st vid = Some (Inr bs, a) \<and> materialize fuel blake3 st' vid = Some (Inr bs, b))"
proof -
  have inv: "vs_inv blake3 st M" "lookup_inv st" using vs_reach_inv [OF assms(1)] by simp_all
  then obtain st' rep where c: "compact_deltas fuel blake3 st = Some (st', rep)" "vs_inv blake3 st' M" "same_ids st st'"
    using compact_deltas_ok [OF inv(1) assms(2,3)] by (auto simp: lookup_inv_def)
  have "\<exists>a b bs. materialize fuel blake3 st vid = Some (Inr bs, a) \<and> materialize fuel blake3 st' vid = Some (Inr bs, b)"
    if "vid \<in> dom M" for vid
    using that materialize_content [OF inv(1) _ assms(2,3)] materialize_content [OF c(2), of vid _ fuel] assms(2,3) same_ids_simps(3) [OF c(3)]
    by (metis domD)
  then show ?thesis using c same_ids_simps(1) [OF c(3)] by (simp add: vs_contains_def)
qed

text \<open>
  The Bloom filter never says no to an id that the store contains.
\<close>

theorem bloom_no_false_negative:
  assumes "vs_reach blake3 st M" "vs_contains st vid"
  shows "bloom_maybe_contains (vs_bloom st) vid"
  using vs_reach_inv [OF assms(1)] assms(2) by (simp add: lookup_inv_def)

lemma learned_scan_sound:
  "\<lbrakk>\<forall>j < length keys. map_of ix (keys ! j) = Some (es ! j); learned_scan keys es vid idxs probes = (n, Some i)\<rbrakk>
    \<Longrightarrow> map_of ix vid = Some i"
  by (induction keys es vid idxs probes rule: learned_scan.induct) (auto simp: Let_def split: if_splits)

lemma vs_get_entry:
  fixes st :: "'a value_store"
  assumes "vs_reach blake3 st M"
  shows "fst (vs_get st vid) = entry_by_id st vid"
proof -
  have sound: "\<forall>j < length (vs_sorted_keys st). map_of (vs_index st) (vs_sorted_keys st ! j) = Some (vs_sorted_entries st ! j)"
    using vs_reach_inv [OF assms] by (simp add: lookup_inv_def)
  have hit: "learned_lookup st' vid = (probes, Some i) \<Longrightarrow> map_of (vs_index st) vid = Some i"
    if "vs_sorted_keys st' = vs_sorted_keys st" "vs_sorted_entries st' = vs_sorted_entries st" for st' :: "'a value_store" and probes i
    using learned_scan_sound [OF sound] that by (auto simp: learned_lookup_def split: option.splits prod.splits)
  let ?st = "st\<lparr>vs_lookup_hist := histogram_record (vs_lookup_hist st) vid,
               vs_stats := (vs_stats st)\<lparr>ss_lookups := sat64 (ss_lookups (vs_stats st) + 1)\<rparr>\<rparr>"
  obtain probes found where l: "learned_lookup ?st vid = (probes, found)" by fastforce
  then have "found = Some i \<Longrightarrow> map_of (vs_index st) vid = Some i" for i using hit [of ?st] by simp
  then show ?thesis using l
    by (cases found) (simp_all add: vs_get_def get_with_trace_def Let_def entry_by_id_def cong: if_cong)
qed

text \<open>
  (C31) A lookup returns the entry the id index has, whatever range the learned model predicts and
  however stale the model is: the learned index only changes the cost.
\<close>

theorem learned_index_transparent:
  assumes "vs_reach blake3 st M"
  shows "fst (vs_get st vid) = entry_by_id st vid"
  using assms by (rule vs_get_entry)

lemma entry_by_id_push: "length (vs_entries st) = n \<Longrightarrow> (\<forall>v i. map_of (vs_index st) v = Some i \<longrightarrow> i < n) \<Longrightarrow>
    entry_by_id (push_entry st vid e) v = (if v = vid then Some e else entry_by_id st v)"
  by (auto simp: entry_by_id_def push_entry_def Let_def update_conv' nth_append less_SucI split: Option.bind_split)

section \<open>A sample store\<close>

definition sample_policy :: delta_policy where
  "sample_policy = \<lparr>dp_enabled = True, dp_min_bytes = 0, dp_max_chain = 4, dp_min_allowed = (\<lambda>n. n + 8),
     dp_snapshot_interval = 0, dp_max_skip = 0\<rparr>"

definition sample_config :: "unit value_store_config" where
  "sample_config = \<lparr>vc_enable_learned_index = True, vc_segment_size = 16, vc_min_samples = 1, vc_max_inserts = 4,
     vc_shift_exceeds = (\<lambda>_ _. False), vc_learned_build = (\<lambda>_ _. ()), vc_predict_range = (\<lambda>_ _. Some (0, 7)),
     vc_delta_policy = sample_policy\<rparr>"

definition sample_hash :: "bytes \<Rightarrow> bytes" where
  "sample_hash bs = take 16 (bs @ replicate 16 0)"

definition sample_id :: bytes where
  "sample_id = value_id sample_hash [1, 2, 3, 4]"

text \<open>A store with one full value, and the same store with a second value as a delta against it.\<close>

definition sample_base :: "unit value_store" where
  "sample_base = snd (put_with_id (value_store_new sample_config) Cell sample_id [1, 2, 3, 4])"

definition sample_delta_id :: bytes where
  "sample_delta_id = value_id sample_hash [1, 9, 3, 4]"

definition sample_store :: "unit value_store" where
  "sample_store = push_delta sample_base sample_delta_id (build_patch_bytes [1, 2, 3, 4] [1, 9, 3, 4])
     (length ([1, 9, 3, 4] :: bytes)) sample_id 1 []"

lemma config_refresh [simp]: "vs_config (maybe_refresh st) = vs_config st"
  by (simp add: maybe_refresh_def refresh_learned_index_def rebuild_sorted_keys_def Let_def)

lemma config_put_with_id [simp]: "vs_config (snd (put_with_id st kind vid bs)) = vs_config st"
  by (simp add: put_with_id_def push_entry_def count_insert_def Let_def)

lemma tables_push_entry: "tables (push_entry st vid e) = (vs_entries st @ [e], vs_entry_ids st @ [vid], AList.update vid (length (vs_entries st)) (vs_index st))"
  by (simp add: tables_def push_entry_def Let_def)

lemma tables_push_delta:
  "tables (push_delta st vid patch n base depth skip) = tables (push_entry st vid \<lparr>ve_kind = Delta, ve_bytes = patch,
     ve_delta = Some \<lparr>de_base = base, de_full_len = n, de_depth = depth, de_skip = skip\<rparr>\<rparr>)"
  by (simp add: push_delta_def Let_def)

lemma sample_base_tables: "tables sample_base = ([\<lparr>ve_kind = Cell, ve_bytes = [1, 2, 3, 4], ve_delta = None\<rparr>], [sample_id], [(sample_id, 0)])"
  by (simp add: sample_base_def put_with_id_def vs_contains_def Let_def tables_push_entry) (simp add: value_store_new_def)

lemma sample_base_simps [simp]:
  "vs_entries sample_base = [\<lparr>ve_kind = Cell, ve_bytes = [1, 2, 3, 4], ve_delta = None\<rparr>]"
  "vs_entry_ids sample_base = [sample_id]" "vs_index sample_base = [(sample_id, 0)]" "vs_config sample_base = sample_config"
  using sample_base_tables by (simp_all add: tables_def) (simp add: sample_base_def value_store_new_def)

lemma sample_ids_distinct [simp]: "sample_id \<noteq> sample_delta_id" "sample_delta_id \<noteq> sample_id"
  by code_simp+

lemma sample_store_entries [simp]:
  "length (vs_entries sample_store) = 2" "ve_kind (vs_entries sample_store ! 1) = Delta"
  "vs_contains sample_store sample_delta_id"
proof -
  have "tables sample_store = (vs_entries sample_base @ [\<lparr>ve_kind = Delta, ve_bytes = build_patch_bytes [1, 2, 3, 4] [1, 9, 3, 4],
      ve_delta = Some \<lparr>de_base = sample_id, de_full_len = length ([1, 9, 3, 4] :: bytes), de_depth = 1, de_skip = []\<rparr>\<rparr>],
      [sample_id, sample_delta_id], [(sample_id, 0), (sample_delta_id, 1)])"
    by (simp add: sample_store_def tables_push_delta tables_push_entry)
  then show "length (vs_entries sample_store) = 2" "ve_kind (vs_entries sample_store ! 1) = Delta" "vs_contains sample_store sample_delta_id"
    by (simp_all add: tables_def vs_contains_def)
qed

lemma sample_store_reached: "put_with_delta 1 sample_hash sample_base Cell [1, 9, 3, 4] (Some sample_id) = Some (sample_delta_id, sample_store)"
proof -
  have "materialize_internal (Suc 0) sample_hash sample_base sample_id False False = Some (Inr ([1, 2, 3, 4], \<lparr>tr_steps = 0, tr_used_skip = False\<rparr>), sample_base)"
    by (simp add: materialize_internal_def entry_by_id_def Let_def)
  moreover have "build_patch_bytes [1, 2, 3, 4] [1, 9, 3, 4] \<noteq> []" "length (build_patch_bytes [1, 2, 3, 4] [1, 9, 3, 4]) \<le> 12"
    by code_simp+
  moreover have "value_id sample_hash [1, 9, 3, 4] = sample_delta_id" by (simp add: sample_delta_id_def)
  ultimately show ?thesis
    by (simp add: put_with_delta_def put_delta_on_def sample_config_def sample_policy_def vs_contains_def entry_by_id_def
        Let_def sample_store_def sat64_def)
qed

lemma sample_reach:
  "vs_reach sample_hash sample_store [sample_id \<mapsto> [1, 2, 3, 4], sample_delta_id \<mapsto> [1, 9, 3, 4]]"
proof -
  have "vs_reach sample_hash sample_base (remember Map.empty sample_id [1, 2, 3, 4])"
    unfolding sample_base_def by (intro reach_put_with_id reach_new) simp_all
  then have "vs_reach sample_hash sample_store (remember (remember Map.empty sample_id [1, 2, 3, 4]) sample_delta_id [1, 9, 3, 4])"
    by (rule reach_put_with_delta [where kind = Cell, OF _ _ _ _ _ sample_store_reached]) simp_all
  then show ?thesis by (simp add: remember_def)
qed

theorem value_durable_witness:
  "ve_kind (vs_entries sample_store ! 1) = Delta \<and> (\<exists>st'. materialize 2 sample_hash sample_store sample_delta_id = Some (Inr [1, 9, 3, 4], st'))"
  using value_durable [OF sample_reach, of sample_delta_id "[1, 9, 3, 4]" 2] sample_store_entries(2) by simp

theorem compaction_keeps_values_witness:
  "\<exists>st' rep. compact_deltas 2 sample_hash sample_store = Some (st', rep) \<and> vs_contains st' sample_delta_id"
  using compaction_keeps_values [OF sample_reach, of 2] by auto

theorem bloom_no_false_negative_witness: "bloom_maybe_contains (vs_bloom sample_store) sample_delta_id"
  using bloom_no_false_negative [OF sample_reach, of sample_delta_id] by simp

theorem learned_index_transparent_witness: "fst (vs_get sample_store sample_delta_id) = entry_by_id sample_store sample_delta_id"
  using learned_index_transparent [OF sample_reach] .

end
