(* ===== verification/Value_Segment.thy ===== *)
theory Value_Segment
  imports Value_Reach
begin

text \<open>
  Value segments (\<open>valuestore.rs\<close>): the VE1 encoding of a stored value with its optional
  compression, the DELTA1 encoding of a delta, the segment file with its writer and reader, loading a
  store from a segment, and the transfer of entries between stores.

  Zstandard is third-party code: \<open>compress\<close> and \<open>decompress\<close> are parameters, and a lemma that needs it
  assumes that decompression undoes compression. The file is a byte string; writing to it succeeds.
  The current time is the parameter \<open>now\<close>.
\<close>

section \<open>Entry encoding\<close>

definition VSEG_RECORD_TYPE :: u8 where "VSEG_RECORD_TYPE = 0x20"
definition VSEG_RECORD_VERSION :: u8 where "VSEG_RECORD_VERSION = 1"
definition DELTA1_CODEC_COPY_ADD :: u8 where "DELTA1_CODEC_COPY_ADD = 0"

datatype vseg_codec = Raw | Zstd

fun vseg_codec_code :: "vseg_codec \<Rightarrow> u8" where
  "vseg_codec_code Raw = 0" | "vseg_codec_code Zstd = 1"

definition vseg_codec_from_u8 :: "u8 \<Rightarrow> value_store_error + vseg_codec" where
  "vseg_codec_from_u8 v = (if v = 0 then Inr Raw else if v = 1 then Inr Zstd else Inl (UnsupportedValueCodec v))"

definition value_kind_from_u8 :: "u8 \<Rightarrow> value_store_error + value_kind" where
  "value_kind_from_u8 v =
     (if v = 1 then Inr Cell else if v = 2 then Inr Group else if v = 3 then Inr BlobChunk
      else if v = 4 then Inr BlobManifest else if v = 5 then Inr Delta else if v = 6 then Inr Embedding
      else Inl (InvalidValueKind v))"

record value_segment_entry =
  vse_id :: bytes
  vse_entry :: value_entry

definition maybe_compress_vseg_bytes :: "(bytes \<Rightarrow> bytes option) \<Rightarrow> bytes \<Rightarrow> value_store_error + vseg_codec \<times> bytes" where
  "maybe_compress_vseg_bytes compress bs =
     (case compress bs of
        None \<Rightarrow> Inl VsIoOther
      | Some compressed \<Rightarrow> if length compressed < length bs then Inr (Zstd, compressed) else Inr (Raw, bs))"

definition decode_vseg_bytes :: "(bytes \<Rightarrow> bytes option) \<Rightarrow> vseg_codec \<Rightarrow> bytes \<Rightarrow> value_store_error + bytes" where
  "decode_vseg_bytes decompress codec stored =
     (case codec of Raw \<Rightarrow> Inr stored
      | Zstd \<Rightarrow> (case decompress stored of None \<Rightarrow> Inl VsIoOther | Some bs \<Rightarrow> Inr bs))"

definition encode_delta1_bytes :: "delta_entry \<Rightarrow> bytes \<Rightarrow> bytes" where
  "encode_delta1_bytes delta patch =
     de_base delta @ [DELTA1_CODEC_COPY_ADD] @ encode_varu (word_of_nat (de_full_len delta))
     @ encode_varu (word_of_nat (length patch)) @ patch"

definition decode_delta1_bytes :: "nat \<Rightarrow> bytes \<Rightarrow> value_store_error + delta_entry \<times> bytes" where
  "decode_delta1_bytes raw_len stored =
     (if length stored < 17 then Inl (VsFormat UnexpectedEof)
      else let base = take 16 stored; delta_codec = stored ! 16 in
      if delta_codec \<noteq> DELTA1_CODEC_COPY_ADD then Inl (UnsupportedDeltaCodec delta_codec)
      else bindE (map_err VsCore (decode_varu (drop 17 stored))) (\<lambda>(full, rest).
      let full_len = unat full in
      if full_len \<noteq> raw_len then Inl (InvalidSegmentEntry ''delta full_len does not match VE1 raw_len'')
      else bindE (map_err VsCore (decode_varu rest)) (\<lambda>(plen, rest).
      let patch_len = unat plen in
      if length rest < patch_len then Inl (VsFormat UnexpectedEof)
      else if drop patch_len rest \<noteq> [] then Inl (InvalidSegmentEntry ''trailing bytes after DELTA1 payload'')
      else Inr (\<lparr>de_base = base, de_full_len = full_len, de_depth = 0, de_skip = []\<rparr>, take patch_len rest))))"

definition encode_vseg_entry :: "(bytes \<Rightarrow> bytes option) \<Rightarrow> bytes \<Rightarrow> value_entry \<Rightarrow> value_store_error + bytes" where
  "encode_vseg_entry compress vid entry =
     bindE (if ve_kind entry = Delta
            then (case ve_delta entry of
                    None \<Rightarrow> Inl InvalidDelta
                  | Some delta \<Rightarrow> Inr (de_full_len delta, encode_delta1_bytes delta (ve_bytes entry)))
            else Inr (length (ve_bytes entry), ve_bytes entry)) (\<lambda>(raw_len, raw_bytes).
     bindE (maybe_compress_vseg_bytes compress raw_bytes) (\<lambda>(codec, stored).
     Inr ([VSEG_RECORD_TYPE, VSEG_RECORD_VERSION, value_kind_code (ve_kind entry), vseg_codec_code codec] @ vid
          @ encode_varu (word_of_nat raw_len) @ encode_varu (word_of_nat (length stored)) @ stored)))"

text \<open>The entry built from the bytes once they are decompressed.\<close>

definition vseg_entry_of :: "value_kind \<Rightarrow> nat \<Rightarrow> bytes \<Rightarrow> value_store_error + value_entry" where
  "vseg_entry_of kind raw_len stored =
     (if kind = Delta
      then bindE (decode_delta1_bytes raw_len stored) (\<lambda>(delta, patch).
           Inr \<lparr>ve_kind = kind, ve_bytes = patch, ve_delta = Some delta\<rparr>)
      else if raw_len \<noteq> length stored then Inl (InvalidSegmentEntry ''raw_len does not match stored raw bytes'')
      else Inr \<lparr>ve_kind = kind, ve_bytes = stored, ve_delta = None\<rparr>)"

definition decode_vseg_entry :: "(bytes \<Rightarrow> bytes option) \<Rightarrow> bytes \<Rightarrow> value_store_error + value_segment_entry" where
  "decode_vseg_entry decompress payload =
     (if length payload < 20 then Inl (VsFormat UnexpectedEof)
      else if payload ! 0 \<noteq> VSEG_RECORD_TYPE then Inl (InvalidSegmentRecordType (payload ! 0))
      else if payload ! 1 \<noteq> VSEG_RECORD_VERSION then Inl (UnsupportedSegmentRecordVersion (payload ! 1))
      else bindE (value_kind_from_u8 (payload ! 2)) (\<lambda>kind.
      bindE (vseg_codec_from_u8 (payload ! 3)) (\<lambda>codec.
      let vid = take 16 (drop 4 payload) in
      bindE (map_err VsCore (decode_varu (drop 20 payload))) (\<lambda>(raw, rest).
      bindE (map_err VsCore (decode_varu rest)) (\<lambda>(stored, rest).
      let raw_len = unat raw; stored_len = unat stored in
      if length rest < stored_len then Inl (VsFormat UnexpectedEof)
      else bindE (decode_vseg_bytes decompress codec (take stored_len rest)) (\<lambda>stored_bytes.
      if drop stored_len rest \<noteq> [] then Inl (InvalidSegmentEntry ''trailing bytes after VE1 payload'')
      else bindE (vseg_entry_of kind raw_len stored_bytes) (\<lambda>entry.
      Inr \<lparr>vse_id = vid, vse_entry = entry\<rparr>)))))))"

section \<open>Encoding and decoding\<close>

definition zstd_ok :: "(bytes \<Rightarrow> bytes option) \<Rightarrow> (bytes \<Rightarrow> bytes option) \<Rightarrow> bool" where
  "zstd_ok compress decompress \<longleftrightarrow> (\<forall>bs z. compress bs = Some z \<longrightarrow> decompress z = Some bs)"

text \<open>What the file keeps of an entry: the recorded depth and the skip patches are rebuilt on loading.\<close>

definition strip_entry :: "value_entry \<Rightarrow> value_entry" where
  "strip_entry e = e\<lparr>ve_delta := map_option (\<lambda>d. d\<lparr>de_depth := 0, de_skip := []\<rparr>) (ve_delta e)\<rparr>"

definition vseg_ok :: "bytes \<Rightarrow> value_entry \<Rightarrow> bool" where
  "vseg_ok vid e \<longleftrightarrow> length vid = 16 \<and> length (ve_bytes e) < 2 ^ 63 \<and> (ve_kind e = Delta \<longleftrightarrow> ve_delta e \<noteq> None)
     \<and> (\<forall>d. ve_delta e = Some d \<longrightarrow> length (de_base d) = 16 \<and> de_full_len d < 2 ^ 63)"

lemma value_kind_from_code [simp]: "value_kind_from_u8 (value_kind_code k) = Inr k"
  by (cases k) (simp_all add: value_kind_from_u8_def)

lemma vseg_codec_from_code [simp]: "vseg_codec_from_u8 (vseg_codec_code c) = Inr c"
  by (cases c) (simp_all add: vseg_codec_from_u8_def)

lemma decode_encode_delta1:
  assumes "length (de_base d) = 16" "de_full_len d < 2 ^ 63" "length patch < 2 ^ 63"
  shows "decode_delta1_bytes (de_full_len d) (encode_delta1_bytes d patch) = Inr (d\<lparr>de_depth := 0, de_skip := []\<rparr>, patch)"
proof -
  have u: "unat (word_of_nat (de_full_len d) :: u64) = de_full_len d" "unat (word_of_nat (length patch) :: u64) = length patch"
    using assms(2,3) by (auto intro!: unat_of_nat_u64)
  have "\<lparr>de_base = de_base d, de_full_len = de_full_len d, de_depth = 0, de_skip = []\<rparr> = d\<lparr>de_depth := 0, de_skip := []\<rparr>"
    by (cases d) simp
  then show ?thesis using assms(1)
    by (simp add: decode_delta1_bytes_def encode_delta1_bytes_def nth_append Let_def u)
qed

lemma strip_Cell: "ve_delta e = None \<Longrightarrow> strip_entry e = \<lparr>ve_kind = ve_kind e, ve_bytes = ve_bytes e, ve_delta = None\<rparr>"
  by (cases e) (simp add: strip_entry_def)

lemma strip_Delta: "ve_delta e = Some d \<Longrightarrow> strip_entry e
    = \<lparr>ve_kind = ve_kind e, ve_bytes = ve_bytes e, ve_delta = Some (d\<lparr>de_depth := 0, de_skip := []\<rparr>)\<rparr>"
  by (cases e) (simp add: strip_entry_def)

lemma length_encode_delta1:
  assumes "length (de_base d) = 16" shows "length (encode_delta1_bytes d patch) \<le> 37 + length patch"
  using length_encode_varu_le [of "word_of_nat (de_full_len d)"] length_encode_varu_le [of "word_of_nat (length patch)"] assms
  by (simp add: encode_delta1_bytes_def)

text \<open>The bytes an entry is stored from, before compression.\<close>

definition raw_of :: "value_entry \<Rightarrow> nat \<times> bytes" where
  "raw_of e = (case ve_delta e of None \<Rightarrow> (length (ve_bytes e), ve_bytes e)
     | Some d \<Rightarrow> (de_full_len d, encode_delta1_bytes d (ve_bytes e)))"

lemma raw_of_ok:
  assumes "vseg_ok vid e"
  shows "fst (raw_of e) < 2 ^ 63" "length (snd (raw_of e)) < 2 ^ 64"
    "vseg_entry_of (ve_kind e) (fst (raw_of e)) (snd (raw_of e)) = Inr (strip_entry e)"
proof -
  show "fst (raw_of e) < 2 ^ 63" using assms by (auto simp: vseg_ok_def raw_of_def split: option.split)
  show "length (snd (raw_of e)) < 2 ^ 64"
  proof (cases "ve_delta e")
    case None
    then show ?thesis using assms by (simp add: vseg_ok_def raw_of_def)
  next
    case (Some d)
    then have "length (snd (raw_of e)) \<le> 37 + length (ve_bytes e)" "length (ve_bytes e) < 2 ^ 63"
      using assms length_encode_delta1 [of d "ve_bytes e"] by (simp_all add: vseg_ok_def raw_of_def)
    then show ?thesis by simp
  qed
  show "vseg_entry_of (ve_kind e) (fst (raw_of e)) (snd (raw_of e)) = Inr (strip_entry e)"
  proof (cases "ve_delta e")
    case None
    then show ?thesis using assms by (simp add: vseg_ok_def raw_of_def vseg_entry_of_def strip_Cell)
  next
    case (Some d)
    then have "decode_delta1_bytes (de_full_len d) (encode_delta1_bytes d (ve_bytes e)) = Inr (d\<lparr>de_depth := 0, de_skip := []\<rparr>, ve_bytes e)"
      using assms by (intro decode_encode_delta1) (auto simp: vseg_ok_def)
    then show ?thesis using assms Some by (simp add: vseg_ok_def raw_of_def vseg_entry_of_def strip_Delta)
  qed
qed

lemma encode_vseg_entry_Inr:
  assumes "vseg_ok vid e" "zstd_ok compress decompress" "encode_vseg_entry compress vid e = Inr p"
  obtains codec stored where "p = [VSEG_RECORD_TYPE, VSEG_RECORD_VERSION, value_kind_code (ve_kind e), vseg_codec_code codec] @ vid
      @ encode_varu (word_of_nat (fst (raw_of e))) @ encode_varu (word_of_nat (length stored)) @ stored"
    "length stored \<le> length (snd (raw_of e))" "decode_vseg_bytes decompress codec stored = Inr (snd (raw_of e))"
proof -
  have "(if ve_kind e = Delta then (case ve_delta e of None \<Rightarrow> Inl InvalidDelta
           | Some delta \<Rightarrow> Inr (de_full_len delta, encode_delta1_bytes delta (ve_bytes e)))
         else Inr (length (ve_bytes e), ve_bytes e)) = Inr (raw_of e)"
    using assms(1) by (auto simp: vseg_ok_def raw_of_def split: option.splits)
  then obtain codec stored where m: "maybe_compress_vseg_bytes compress (snd (raw_of e)) = Inr (codec, stored)"
    and p: "p = [VSEG_RECORD_TYPE, VSEG_RECORD_VERSION, value_kind_code (ve_kind e), vseg_codec_code codec] @ vid
      @ encode_varu (word_of_nat (fst (raw_of e))) @ encode_varu (word_of_nat (length stored)) @ stored"
    using assms(3) by (auto simp: encode_vseg_entry_def bindE_eq_Inr split: prod.splits)
  have "length stored \<le> length (snd (raw_of e)) \<and> decode_vseg_bytes decompress codec stored = Inr (snd (raw_of e))"
    using m assms(2) by (auto simp: maybe_compress_vseg_bytes_def decode_vseg_bytes_def zstd_ok_def split: option.splits if_splits)
  then show thesis using p that by blast
qed

lemma decode_encode_vseg:
  assumes "vseg_ok vid e" "zstd_ok compress decompress" "encode_vseg_entry compress vid e = Inr p"
  shows "decode_vseg_entry decompress p = Inr \<lparr>vse_id = vid, vse_entry = strip_entry e\<rparr>"
proof -
  obtain codec stored where p: "p = [VSEG_RECORD_TYPE, VSEG_RECORD_VERSION, value_kind_code (ve_kind e), vseg_codec_code codec] @ vid
      @ encode_varu (word_of_nat (fst (raw_of e))) @ encode_varu (word_of_nat (length stored)) @ stored"
    and s: "length stored \<le> length (snd (raw_of e))" "decode_vseg_bytes decompress codec stored = Inr (snd (raw_of e))"
    by (rule encode_vseg_entry_Inr [OF assms])
  note raw = raw_of_ok [OF assms(1)]
  have u: "unat (word_of_nat (fst (raw_of e)) :: u64) = fst (raw_of e)" "unat (word_of_nat (length stored) :: u64) = length stored"
    using raw(1,2) s(1) by (auto intro!: unat_of_nat_u64)
  have "length vid = 16" using assms(1) by (simp add: vseg_ok_def)
  then show ?thesis unfolding p using s(2) raw(3)
    by (simp add: decode_vseg_entry_def Let_def u)
qed

text \<open>
  The entries of a segment as a record log: encoding a well-formed entry succeeds when compression
  does, and decoding gives the entry back.
\<close>

definition vseg_encode :: "(bytes \<Rightarrow> bytes option) \<Rightarrow> value_segment_entry \<Rightarrow> bytes" where
  "vseg_encode compress r = projr (encode_vseg_entry compress (vse_id r) (vse_entry r))"

definition vseg_record_ok :: "(bytes \<Rightarrow> bytes option) \<Rightarrow> (bytes \<Rightarrow> bytes option) \<Rightarrow> value_segment_entry \<Rightarrow> bool" where
  "vseg_record_ok compress decompress r \<longleftrightarrow> zstd_ok compress decompress \<and> vseg_ok (vse_id r) (vse_entry r)
     \<and> strip_entry (vse_entry r) = vse_entry r \<and> (\<exists>p. encode_vseg_entry compress (vse_id r) (vse_entry r) = Inr p)"

interpretation vseg_codec: record_codec "vseg_encode compress" "decode_vseg_entry decompress" "vseg_record_ok compress decompress"
  for compress decompress
  by unfold_locales (auto simp: vseg_record_ok_def vseg_encode_def decode_encode_vseg)

text \<open>
  A stored value that is encoded for a segment or for transfer is decoded to itself, compressed or
  not, except that the recorded chain depth and the skip patches are reset.
\<close>

theorem vseg_entry_roundtrip:
  assumes "vseg_ok vid e" "zstd_ok compress decompress" "encode_vseg_entry compress vid e = Inr p"
  shows "decode_vseg_entry decompress p = Inr \<lparr>vse_id = vid, vse_entry = strip_entry e\<rparr>"
  using assms by (rule decode_encode_vseg)

definition sample_compress :: "bytes \<Rightarrow> bytes option" where
  "sample_compress bs = Some (if bs = [1, 1, 1] then [1] else 0 # bs)"

definition sample_decompress :: "bytes \<Rightarrow> bytes option" where
  "sample_decompress z = (if z = [1] then Some [1, 1, 1] else if z = [] then None else Some (tl z))"

lemma sample_zstd_ok: "zstd_ok sample_compress sample_decompress"
  by (simp add: zstd_ok_def sample_compress_def sample_decompress_def)

theorem vseg_entry_roundtrip_witness:
  "\<exists>p. encode_vseg_entry sample_compress (replicate 16 7) \<lparr>ve_kind = Cell, ve_bytes = [1, 1, 1], ve_delta = None\<rparr> = Inr p
     \<and> p ! 3 = vseg_codec_code Zstd
     \<and> decode_vseg_entry sample_decompress p = Inr \<lparr>vse_id = replicate 16 7, vse_entry = \<lparr>ve_kind = Cell, ve_bytes = [1, 1, 1], ve_delta = None\<rparr>\<rparr>"
proof -
  let ?e = "\<lparr>ve_kind = Cell, ve_bytes = [1, 1, 1], ve_delta = None\<rparr>"
  have ok: "vseg_ok (replicate 16 7) ?e" by (simp add: vseg_ok_def)
  obtain p where p: "encode_vseg_entry sample_compress (replicate 16 7) ?e = Inr p" and "p ! 3 = vseg_codec_code Zstd"
    by (simp add: encode_vseg_entry_def maybe_compress_vseg_bytes_def sample_compress_def)
  then show ?thesis using vseg_entry_roundtrip [OF ok sample_zstd_ok p] by (simp add: strip_entry_def)
qed

section \<open>Segment files\<close>

definition validate_vseg_header :: "(bytes \<Rightarrow> u32) \<Rightarrow> bytes \<Rightarrow> value_store_error + unit" where
  "validate_vseg_header crc content =
     (if length content < FILE_HEADER_LEN then Inl VsBadHeader
      else bindE (map_err VsFormat (file_header_decode crc (take FILE_HEADER_LEN content))) (\<lambda>header.
      if fh_file_kind header \<noteq> ValSegFile then Inl VsBadHeader else Inr ()))"

text \<open>Opening for writing: \<open>None\<close> is a path that does not exist. The result is the content of the file.\<close>

definition vseg_open_impl :: "(bytes \<Rightarrow> u32) \<Rightarrow> u64 \<Rightarrow> bytes option \<Rightarrow> bool \<Rightarrow> value_store_error + bytes" where
  "vseg_open_impl crc now existing truncate_existing =
     (let content = (if truncate_existing then [] else case existing of None \<Rightarrow> [] | Some c \<Rightarrow> c) in
      if existing = None \<or> truncate_existing \<or> length content = 0
      then Inr (file_header_encode crc (file_header_new ValSegFile 0 now))
      else bindE (validate_vseg_header crc content) (\<lambda>_. Inr content))"

definition vseg_writer_create :: "(bytes \<Rightarrow> u32) \<Rightarrow> u64 \<Rightarrow> bytes option \<Rightarrow> value_store_error + bytes" where
  "vseg_writer_create crc now existing = vseg_open_impl crc now existing True"

definition vseg_writer_open :: "(bytes \<Rightarrow> u32) \<Rightarrow> u64 \<Rightarrow> bytes option \<Rightarrow> value_store_error + bytes" where
  "vseg_writer_open crc now existing = vseg_open_impl crc now existing False"

definition vseg_append ::
    "(bytes \<Rightarrow> u32) \<Rightarrow> (bytes \<Rightarrow> bytes option) \<Rightarrow> bytes \<Rightarrow> bytes \<Rightarrow> value_entry \<Rightarrow> value_store_error + bytes" where
  "vseg_append crc compress content vid entry =
     bindE (encode_vseg_entry compress vid entry) (\<lambda>payload.
     bindE (map_err VsFormat (append_record_frame crc [] payload)) (\<lambda>buf. Inr (content @ buf)))"

fun vseg_append_all ::
    "(bytes \<Rightarrow> u32) \<Rightarrow> (bytes \<Rightarrow> bytes option) \<Rightarrow> bytes \<Rightarrow> (bytes \<times> value_entry) list \<Rightarrow> value_store_error + bytes" where
  "vseg_append_all crc compress content [] = Inr content"
| "vseg_append_all crc compress content ((vid, entry) # es) =
     bindE (vseg_append crc compress content vid entry) (\<lambda>content. vseg_append_all crc compress content es)"

definition write_segment_file ::
    "(bytes \<Rightarrow> u32) \<Rightarrow> (bytes \<Rightarrow> bytes option) \<Rightarrow> u64 \<Rightarrow> bytes option \<Rightarrow> 'm value_store \<Rightarrow> value_store_error + bytes" where
  "write_segment_file crc compress now existing st =
     bindE (vseg_writer_create crc now existing) (\<lambda>content.
     vseg_append_all crc compress content (zip (vs_entry_ids st) (vs_entries st)))"

definition vseg_reader_open :: "(bytes \<Rightarrow> u32) \<Rightarrow> bytes option \<Rightarrow> value_store_error + bytes" where
  "vseg_reader_open crc existing =
     (case existing of None \<Rightarrow> Inl VsIoNotFound
      | Some content \<Rightarrow> bindE (validate_vseg_header crc content) (\<lambda>_. Inr content))"

function vseg_read_loop ::
    "(bytes \<Rightarrow> u32) \<Rightarrow> (bytes \<Rightarrow> bytes option) \<Rightarrow> bytes \<Rightarrow> value_segment_entry list \<Rightarrow> value_store_error + value_segment_entry list" where
  "vseg_read_loop crc decompress rest entries =
     (if rest = [] then Inr entries
      else bindE (map_err VsFormat (decode_record_frame crc rest)) (\<lambda>(payload, rest).
           bindE (decode_vseg_entry decompress payload) (\<lambda>entry. vseg_read_loop crc decompress rest (entries @ [entry]))))"
  by pat_completeness auto
termination
  by (relation "measure (\<lambda>(crc, decompress, rest, entries). length rest)")
    (auto simp: map_err_def split: sum.splits dest: decode_record_frame_length)

declare vseg_read_loop.simps [simp del]

definition vseg_read_all :: "(bytes \<Rightarrow> u32) \<Rightarrow> (bytes \<Rightarrow> bytes option) \<Rightarrow> bytes \<Rightarrow> value_store_error + value_segment_entry list" where
  "vseg_read_all crc decompress content = vseg_read_loop crc decompress (drop FILE_HEADER_LEN content) []"

section \<open>Loading and transfer\<close>

definition insert_loaded_entry :: "'m value_store \<Rightarrow> bytes \<Rightarrow> value_entry \<Rightarrow> value_store_error + 'm value_store" where
  "insert_loaded_entry st vid entry = (if vs_contains st vid then Inl DuplicateValueId else Inr (push_entry st vid entry))"

type_synonym depth_memo = "bytes \<rightharpoonup> nat"

text \<open>\<open>visiting\<close> is restored by the code when it returns a depth, so it is an argument only.\<close>

function rebuild_loaded_delta_depth ::
    "'m value_store \<Rightarrow> bytes \<Rightarrow> depth_memo \<Rightarrow> bytes set \<Rightarrow> value_store_error + nat \<times> depth_memo" where
  "rebuild_loaded_delta_depth st vid memo visiting =
     (case memo vid of
        Some depth \<Rightarrow> Inr (depth, memo)
      | None \<Rightarrow>
          if vid \<in> visiting then Inl InvalidDelta
          else case entry_by_id st vid of
            None \<Rightarrow> Inl VsNotFound
          | Some entry \<Rightarrow>
              if ve_kind entry = Delta then
                (case ve_delta entry of
                   None \<Rightarrow> Inl InvalidDelta
                 | Some delta \<Rightarrow>
                     if entry_by_id st (de_base delta) = None then Inl MissingDeltaBase
                     else bindE (rebuild_loaded_delta_depth st (de_base delta) memo (insert vid visiting)) (\<lambda>(depth, memo).
                          let depth = sat64 (depth + 1) in Inr (depth, memo(vid \<mapsto> depth))))
              else Inr (0, memo(vid \<mapsto> 0)))"
  by pat_completeness auto
termination
proof (relation "measure (\<lambda>(st, vid, memo, visiting). card (fst ` set (vs_index st) - visiting))", simp, clarsimp)
  fix st :: "'m value_store" and vid visiting and e :: value_entry
  assume "vid \<notin> visiting" "entry_by_id st vid = Some e"
  then have "vid \<in> fst ` set (vs_index st) - visiting"
    by (auto simp: entry_by_id_def split: Option.bind_splits dest: map_of_SomeD intro: rev_image_eqI)
  moreover have "fst ` set (vs_index st) - insert vid visiting = (fst ` set (vs_index st) - visiting) - {vid}" by blast
  ultimately show "card (fst ` set (vs_index st) - insert vid visiting) < card (fst ` set (vs_index st) - visiting)"
    by (metis card_Diff1_less finite_Diff finite_imageI finite_set)
qed

declare rebuild_loaded_delta_depth.simps [simp del]

text \<open>The first loop of \<open>recompute_loaded_delta_metadata\<close>; an error keeps what was already updated.\<close>

fun reset_depths :: "bytes list \<Rightarrow> depth_memo \<Rightarrow> 'm value_store \<Rightarrow> (value_store_error + unit) \<times> 'm value_store" where
  "reset_depths [] memo st = (Inr (), st)"
| "reset_depths (vid # ids) memo st =
     (case rebuild_loaded_delta_depth st vid memo {} of
        Inl e \<Rightarrow> (Inl e, st)
      | Inr (depth, memo) \<Rightarrow>
          (case map_of (vs_index st) vid of
             None \<Rightarrow> reset_depths ids memo st
           | Some idx \<Rightarrow>
               if length (vs_entries st) \<le> idx then (Inl VsPanic, st)
               else case ve_delta (vs_entries st ! idx) of
                 None \<Rightarrow> reset_depths ids memo st
               | Some delta \<Rightarrow>
                   reset_depths ids memo (set_entry st idx ((vs_entries st ! idx)\<lparr>ve_delta := Some (delta\<lparr>de_depth := depth, de_skip := []\<rparr>)\<rparr>))))"

text \<open>The second loop: the counters, and every delta must reconstruct.\<close>

fun verify_deltas :: "nat \<Rightarrow> (bytes \<Rightarrow> bytes) \<Rightarrow> bytes list \<Rightarrow> 'm value_store \<Rightarrow> ((value_store_error + unit) \<times> 'm value_store) option" where
  "verify_deltas fuel blake3 [] st = Some (Inr (), st)"
| "verify_deltas fuel blake3 (vid # ids) st =
     (case map_of (vs_index st) vid of
        None \<Rightarrow> verify_deltas fuel blake3 ids st
      | Some idx \<Rightarrow>
          if length (vs_entries st) \<le> idx then None
          else let entry = vs_entries st ! idx in
          if ve_kind entry \<noteq> Delta then verify_deltas fuel blake3 ids st
          else case ve_delta entry of
            None \<Rightarrow> Some (Inl InvalidDelta, st)
          | Some delta \<Rightarrow>
              let ds = vs_delta_stats st;
                  st = st\<lparr>vs_delta_stats := ds\<lparr>ds_values_written := sat64 (ds_values_written ds + 1),
                            ds_bytes_saved := sat64 (ds_bytes_saved ds + (de_full_len delta - length (ve_bytes entry))),
                            ds_total_depth := sat64 (ds_total_depth ds + de_depth delta)\<rparr>\<rparr>
              in case materialize_internal fuel blake3 st vid False False of
                   None \<Rightarrow> None
                 | Some (Inl e, st) \<Rightarrow> Some (Inl e, st)
                 | Some (Inr _, st) \<Rightarrow> verify_deltas fuel blake3 ids st)"

definition recompute_loaded_delta_metadata ::
    "nat \<Rightarrow> (bytes \<Rightarrow> bytes) \<Rightarrow> 'm value_store \<Rightarrow> ((value_store_error + unit) \<times> 'm value_store) option" where
  "recompute_loaded_delta_metadata fuel blake3 st =
     (let ids = vs_entry_ids st in
      case reset_depths ids Map.empty st of
        (Inl e, st) \<Rightarrow> if e = VsPanic then None else Some (Inl e, st)
      | (Inr _, st) \<Rightarrow>
          (case verify_deltas fuel blake3 ids (st\<lparr>vs_delta_stats := delta_stats_default\<rparr>) of
             None \<Rightarrow> None
           | Some (Inl e, st) \<Rightarrow> Some (Inl e, st)
           | Some (Inr _, st) \<Rightarrow>
               Some (Inr (), if vc_enable_learned_index (vs_config st) then refresh_learned_index st else st)))"

fun insert_loaded_all :: "value_segment_entry list \<Rightarrow> 'm value_store \<Rightarrow> value_store_error + 'm value_store" where
  "insert_loaded_all [] st = Inr st"
| "insert_loaded_all (e # es) st =
     bindE (insert_loaded_entry st (vse_id e) (vse_entry e)) (\<lambda>st. insert_loaded_all es st)"

definition load_store ::
    "nat \<Rightarrow> (bytes \<Rightarrow> u32) \<Rightarrow> (bytes \<Rightarrow> bytes option) \<Rightarrow> (bytes \<Rightarrow> bytes) \<Rightarrow> 'm value_store_config \<Rightarrow> bytes \<Rightarrow>
     (value_store_error + 'm value_store) option" where
  "load_store fuel crc decompress blake3 config content =
     (case bindE (vseg_read_all crc decompress content) (\<lambda>entries. insert_loaded_all entries (value_store_new config)) of
        Inl e \<Rightarrow> Some (Inl e)
      | Inr st \<Rightarrow>
          (case recompute_loaded_delta_metadata fuel blake3 st of
             None \<Rightarrow> None
           | Some (Inl e, _) \<Rightarrow> Some (Inl e)
           | Some (Inr _, st) \<Rightarrow> Some (Inr st)))"

definition load_segment_file ::
    "nat \<Rightarrow> (bytes \<Rightarrow> u32) \<Rightarrow> (bytes \<Rightarrow> bytes option) \<Rightarrow> (bytes \<Rightarrow> bytes) \<Rightarrow> 'm value_store_config \<Rightarrow> bytes option \<Rightarrow>
     (value_store_error + 'm value_store) option" where
  "load_segment_file fuel crc decompress blake3 config existing =
     (case vseg_reader_open crc existing of
        Inl e \<Rightarrow> Some (Inl e)
      | Inr content \<Rightarrow> load_store fuel crc decompress blake3 config content)"

definition export_transfer_entry ::
    "(bytes \<Rightarrow> bytes option) \<Rightarrow> 'm value_store \<Rightarrow> bytes \<Rightarrow> (value_store_error + bytes) \<times> 'm value_store" where
  "export_transfer_entry compress st vid =
     (let (entry, st) = vs_get st vid in
      (case entry of None \<Rightarrow> Inl VsNotFound | Some e \<Rightarrow> encode_vseg_entry compress vid e, st))"

fun import_loop :: "value_segment_entry list \<Rightarrow> 'm value_store \<Rightarrow> nat \<Rightarrow> (value_store_error + nat) \<times> 'm value_store" where
  "import_loop [] st inserted = (Inr inserted, st)"
| "import_loop (e # es) st inserted =
     (if vs_contains st (vse_id e) then import_loop es st inserted
      else case insert_loaded_entry st (vse_id e) (vse_entry e) of
             Inl err \<Rightarrow> (Inl err, st)
           | Inr st \<Rightarrow> import_loop es st (sat64 (inserted + 1)))"

definition import_transfer_entries ::
    "nat \<Rightarrow> (bytes \<Rightarrow> bytes) \<Rightarrow> 'm value_store \<Rightarrow> value_segment_entry list \<Rightarrow> ((value_store_error + nat) \<times> 'm value_store) option" where
  "import_transfer_entries fuel blake3 st entries =
     (case import_loop entries st 0 of
        (Inl e, st) \<Rightarrow> Some (Inl e, st)
      | (Inr inserted, st) \<Rightarrow>
          if 0 < inserted then
            (case recompute_loaded_delta_metadata fuel blake3 st of
               None \<Rightarrow> None
             | Some (Inl e, st) \<Rightarrow> Some (Inl e, st)
             | Some (Inr _, st) \<Rightarrow> Some (Inr inserted, st))
          else Some (Inr inserted, st))"

text \<open>The resolver of bases is a closure with a state of its own.\<close>

definition materialize_transfer_entry_with_resolver ::
    "(bytes \<Rightarrow> bytes) \<Rightarrow> ('s \<Rightarrow> bytes \<Rightarrow> (value_store_error + bytes) \<times> 's) \<Rightarrow> bytes \<Rightarrow> value_entry \<Rightarrow> 's \<Rightarrow>
     (value_store_error + bytes) \<times> 's" where
  "materialize_transfer_entry_with_resolver blake3 resolver vid entry s =
     (if ve_kind entry \<noteq> Delta then
        (if value_id blake3 (ve_bytes entry) \<noteq> vid
         then (Inl (InvalidSegmentEntry ''transfer value id does not match raw bytes''), s)
         else (Inr (ve_bytes entry), s))
      else case ve_delta entry of
        None \<Rightarrow> (Inl InvalidDelta, s)
      | Some delta \<Rightarrow>
          let (base, s) = resolver s (de_base delta) in
          (bindE base (\<lambda>base_bytes.
           bindE (apply_patch_bytes base_bytes (ve_bytes entry)) (\<lambda>val.
           if length val \<noteq> de_full_len delta then Inl DeltaLengthMismatch
           else if value_id blake3 val \<noteq> vid then Inl InvalidDelta
           else Inr val)), s))"

section \<open>Writing and reading back\<close>

lemma vseg_append_all_frames:
  "vseg_append_all crc compress content es = Inr c \<Longrightarrow>
   \<exists>ps. c = content @ frames crc ps \<and> list_all2 (\<lambda>(vid, e) p. encode_vseg_entry compress vid e = Inr p \<and> fits_frame p) es ps"
proof (induction es arbitrary: content)
  case (Cons x es)
  obtain vid e where x: "x = (vid, e)" by (cases x)
  from Cons.prems x obtain p where p: "encode_vseg_entry compress vid e = Inr p" "fits_frame p"
    and rest: "vseg_append_all crc compress (content @ frame crc p) es = Inr c"
    by (auto simp: vseg_append_def bindE_eq_Inr append_record_frame_def fits_frame_def frame_def map_err_def split: if_splits sum.splits)
  from Cons.IH [OF rest] obtain ps where ps: "c = (content @ frame crc p) @ frames crc ps"
    "list_all2 (\<lambda>(vid, e) p. encode_vseg_entry compress vid e = Inr p \<and> fits_frame p) es ps" by blast
  then show ?case using p x by (intro exI [of _ "p # ps"]) simp
qed simp

lemma vseg_read_loop_frames:
  "list_all2 (\<lambda>p r. fits_frame p \<and> decode_vseg_entry decompress p = Inr r) ps rs \<Longrightarrow>
   vseg_read_loop crc decompress (frames crc ps) acc = Inr (acc @ rs)"
proof (induction ps rs arbitrary: acc rule: list_all2_induct)
  case Nil
  then show ?case by (subst vseg_read_loop.simps) simp
next
  case (Cons p ps r rs)
  then show ?case by (subst vseg_read_loop.simps) (simp add: decode_frame)
qed

lemma decode_encoded_all:
  assumes "zstd_ok compress decompress"
  shows "\<lbrakk>list_all2 (\<lambda>(vid, e) p. encode_vseg_entry compress vid e = Inr p \<and> fits_frame p) es ps; \<forall>(vid, e) \<in> set es. vseg_ok vid e\<rbrakk>
    \<Longrightarrow> list_all2 (\<lambda>p r. fits_frame p \<and> decode_vseg_entry decompress p = Inr r) ps
          (map (\<lambda>(vid, e). \<lparr>vse_id = vid, vse_entry = strip_entry e\<rparr>) es)"
  by (induction es ps rule: list_all2_induct) (auto simp: decode_encode_vseg [OF _ assms])

lemma write_read_segment:
  assumes w: "write_segment_file crc compress now existing st = Inr content" and z: "zstd_ok compress decompress"
    and ok: "\<forall>(vid, e) \<in> set (zip (vs_entry_ids st) (vs_entries st)). vseg_ok vid e"
  shows "vseg_reader_open crc (Some content) = Inr content"
    and "vseg_read_all crc decompress content
      = Inr (map (\<lambda>(vid, e). \<lparr>vse_id = vid, vse_entry = strip_entry e\<rparr>) (zip (vs_entry_ids st) (vs_entries st)))"
proof -
  let ?es = "zip (vs_entry_ids st) (vs_entries st)" and ?h = "file_header_new ValSegFile 0 now"
  let ?r = "\<lambda>(vid, e). \<lparr>vse_id = vid, vse_entry = strip_entry e\<rparr>"
  from w obtain ps where c: "content = file_header_encode crc ?h @ frames crc ps"
    and ps: "list_all2 (\<lambda>(vid, e) p. encode_vseg_entry compress vid e = Inr p \<and> fits_frame p) ?es ps"
    by (auto simp: write_segment_file_def vseg_writer_create_def vseg_open_impl_def dest: vseg_append_all_frames)
  have hl: "length (file_header_encode crc ?h) = FILE_HEADER_LEN" by (simp add: file_header_new_ok FILE_HEADER_LEN_def)
  have "file_header_decode crc (take FILE_HEADER_LEN content) = Inr ?h"
    using file_header_roundtrip [of ?h crc "[]"] by (simp add: c hl file_header_new_ok)
  then show "vseg_reader_open crc (Some content) = Inr content"
    using hl by (simp add: vseg_reader_open_def validate_vseg_header_def c file_header_new_def)
  have "list_all2 (\<lambda>p r. fits_frame p \<and> decode_vseg_entry decompress p = Inr r) ps (map ?r ?es)"
    by (rule decode_encoded_all [OF z ps ok])
  from vseg_read_loop_frames [OF this, of crc "[]"] show "vseg_read_all crc decompress content = Inr (map ?r ?es)"
    using hl by (simp add: vseg_read_all_def c)
qed

section \<open>Loading a store\<close>

lemma entry_ok_strip: "entry_ok blake3 M earlier vid e \<Longrightarrow> entry_ok blake3 M earlier vid (strip_entry e)"
  by (auto simp: entry_ok_def strip_entry_def delta_ok_def split: if_splits)

lemma patch_ok_restrict: "patch_ok M earlier b p c \<Longrightarrow> earlier \<subseteq> A \<Longrightarrow> patch_ok (M |` A) earlier b p c"
  by (auto simp: patch_ok_def restrict_map_def)

lemma entry_ok_restrict:
  assumes "entry_ok blake3 M earlier vid e" "earlier \<subseteq> A" "vid \<in> A"
  shows "entry_ok blake3 (M |` A) earlier vid e"
  using assms patch_ok_restrict [OF _ assms(2)] by (auto simp: entry_ok_def delta_ok_def split: if_splits)

lemma restrict_insert: "M vid = Some c \<Longrightarrow> (M |` A)(vid \<mapsto> c) = M |` insert vid A"
  by (auto simp: restrict_map_def)

lemma insert_loaded_all_ok:
  assumes "vs_inv blake3 st (M |` set (vs_entry_ids st))" "lookup_inv st" "distinct (vs_entry_ids st @ map vse_id es)"
    and "\<And>j. j < length es \<Longrightarrow> entry_ok blake3 M (set (vs_entry_ids st @ take j (map vse_id es))) (vse_id (es ! j)) (vse_entry (es ! j))"
  shows "\<exists>st'. insert_loaded_all es st = Inr st' \<and> vs_entry_ids st' = vs_entry_ids st @ map vse_id es
    \<and> vs_inv blake3 st' (M |` set (vs_entry_ids st')) \<and> lookup_inv st'"
  using assms
proof (induction es arbitrary: st)
  case (Cons e es)
  let ?vid = "vse_id e" and ?ids = "set (vs_entry_ids st)"
  let ?st = "push_entry st ?vid (vse_entry e)"
  note inv = Cons.prems(1)
  have ok: "entry_ok blake3 M ?ids ?vid (vse_entry e)" using Cons.prems(4) [of 0] by simp
  then obtain c where c: "M ?vid = Some c" by (auto simp: entry_ok_def)
  have new: "?vid \<notin> dom (M |` ?ids)" using Cons.prems(3) by auto
  have fresh: "\<not> vs_contains st ?vid" using new vs_inv_contains [OF inv] by blast
  have ids: "vs_entry_ids ?st = vs_entry_ids st @ [?vid]" by (simp add: push_entry_def Let_def)
  have "entry_ok blake3 ((M |` ?ids)(?vid \<mapsto> c)) ?ids ?vid (vse_entry e)"
    unfolding restrict_insert [of M, OF c] by (rule entry_ok_restrict [OF ok]) auto
  from vs_inv_push [OF inv new this] have "vs_inv blake3 ?st (M |` set (vs_entry_ids ?st))"
    unfolding restrict_insert [of M, OF c] ids by simp
  moreover have "entry_ok blake3 M (set (vs_entry_ids ?st @ take j (map vse_id es))) (vse_id (es ! j)) (vse_entry (es ! j))"
    if "j < length es" for j using Cons.prems(4) [of "Suc j"] that ids by simp
  ultimately have "\<exists>st'. insert_loaded_all es ?st = Inr st' \<and> vs_entry_ids st' = vs_entry_ids ?st @ map vse_id es
      \<and> vs_inv blake3 st' (M |` set (vs_entry_ids st')) \<and> lookup_inv st'"
    using Cons.prems(3) lookup_inv_push [OF Cons.prems(2) fresh] ids by (intro Cons.IH) simp_all
  then show ?case using fresh ids by (simp add: insert_loaded_entry_def)
qed simp

lemma rebuild_depth_ok:
  assumes inv: "vs_inv blake3 st M"
  shows "\<lbrakk>map_of (vs_index st) vid = Some i; \<forall>v \<in> visiting. \<forall>j. map_of (vs_index st) v = Some j \<longrightarrow> i < j\<rbrakk>
    \<Longrightarrow> \<exists>d memo'. rebuild_loaded_delta_depth st vid memo visiting = Inr (d, memo')"
proof (induction i arbitrary: vid visiting memo rule: less_induct)
  case (less i)
  note at = vs_inv_at [OF inv less.prems(1)]
  have nv: "vid \<notin> visiting" using less.prems by auto
  show ?case
  proof (cases "memo vid = None \<and> ve_kind (vs_entries st ! i) = Delta")
    case False
    then show ?thesis using at(3) nv by (subst rebuild_loaded_delta_depth.simps) (auto split: option.split)
  next
    case True
    then obtain d where d: "ve_delta (vs_entries st ! i) = Some d" using at(5) by (auto simp: entry_ok_def)
    from vs_inv_base(2) [OF inv less.prems(1) d] obtain j where j: "j < i" "map_of (vs_index st) (de_base d) = Some j" by blast
    have "\<forall>v \<in> insert vid visiting. \<forall>k. map_of (vs_index st) v = Some k \<longrightarrow> j < k"
      using less.prems j(1) by auto
    from less.IH [OF j this] obtain n memo' where "rebuild_loaded_delta_depth st (de_base d) memo (insert vid visiting) = Inr (n, memo')" by blast
    then show ?thesis using True d at(3) nv vs_inv_at(3) [OF inv j(2)]
      by (subst rebuild_loaded_delta_depth.simps) (simp add: Let_def)
  qed
qed

lemma reset_depths_ok:
  assumes "vs_inv blake3 st M" "set ids \<subseteq> dom M"
  shows "\<exists>st'. reset_depths ids memo st = (Inr (), st') \<and> vs_inv blake3 st' M \<and> same_ids st st'"
  using assms
proof (induction ids arbitrary: st memo)
  case (Cons vid ids)
  note inv = Cons.prems(1)
  have dom: "vid \<in> dom M" using Cons.prems(2) by simp
  obtain i where i: "i < length (vs_entries st)" "map_of (vs_index st) vid = Some i" by (rule vs_inv_entry [OF inv dom])
  obtain n memo' where r: "rebuild_loaded_delta_depth st vid memo {} = Inr (n, memo')"
    using rebuild_depth_ok [OF inv i(2), of "{}" memo] by auto
  show ?case
  proof (cases "ve_delta (vs_entries st ! i)")
    case None
    then show ?thesis using Cons.IH [OF inv] Cons.prems(2) r i by simp
  next
    case (Some d)
    let ?e = "(vs_entries st ! i)\<lparr>ve_delta := Some (d\<lparr>de_depth := n, de_skip := []\<rparr>)\<rparr>"
    have "entry_ok blake3 M (set (take i (vs_entry_ids st))) vid ?e"
      using vs_inv_at(5) [OF inv i(2)] Some by (auto simp: entry_ok_def delta_ok_def split: if_splits)
    then have "vs_inv blake3 (set_entry st i ?e) M" by (rule vs_inv_set_entry [OF inv i(2)])
    then have "\<exists>st'. reset_depths ids memo' (set_entry st i ?e) = (Inr (), st') \<and> vs_inv blake3 st' M \<and> same_ids (set_entry st i ?e) st'"
      using Cons.prems(2) by (intro Cons.IH) simp_all
    then show ?thesis using r i Some same_ids_set_entry by fastforce
  qed
qed simp

lemma verify_deltas_ok:
  assumes "vs_inv blake3 st M" "set ids \<subseteq> dom M" "length (vs_entries st) < 2 ^ 64" "length (vs_entries st) \<le> fuel"
  shows "\<exists>ds. verify_deltas fuel blake3 ids st = Some (Inr (), st\<lparr>vs_delta_stats := ds\<rparr>)"
  using assms
proof (induction ids arbitrary: st)
  case Nil
  then show ?case by (auto intro!: exI [of _ "vs_delta_stats st"])
next
  case (Cons vid ids)
  have dom: "vid \<in> dom M" using Cons.prems(2) by simp
  obtain i where i: "i < length (vs_entries st)" "map_of (vs_index st) vid = Some i" by (rule vs_inv_entry [OF Cons.prems(1) dom])
  have inv: "vs_inv blake3 (st\<lparr>vs_delta_stats := ds\<rparr>) M" for ds using Cons.prems(1) vs_inv_tables [OF tables_upd(1)] by blast
  have IH: "\<exists>ds'. verify_deltas fuel blake3 ids (st\<lparr>vs_delta_stats := ds\<rparr>) = Some (Inr (), st\<lparr>vs_delta_stats := ds'\<rparr>)" for ds
    using Cons.IH [OF inv, of ds] Cons.prems(2-4) by simp
  show ?case
  proof (cases "ve_kind (vs_entries st ! i) = Delta")
    case False
    have "verify_deltas fuel blake3 (vid # ids) st = verify_deltas fuel blake3 ids st" using False i by simp
    then show ?thesis using IH [of "vs_delta_stats st"] by simp
  next
    case True
    then obtain d where d: "ve_delta (vs_entries st ! i) = Some d"
      using vs_inv_at(5) [OF Cons.prems(1) i(2)] by (auto simp: entry_ok_def)
    have m: "\<exists>bs t ds'. materialize_internal fuel blake3 (st\<lparr>vs_delta_stats := ds\<rparr>) vid False False = Some (Inr (bs, t), st\<lparr>vs_delta_stats := ds'\<rparr>)" for ds
      using materialize_internal_ok [OF inv _ dom, of ds fuel False False] Cons.prems(3,4) by auto
    have "\<exists>ds'. (case materialize_internal fuel blake3 (st\<lparr>vs_delta_stats := ds\<rparr>) vid False False of
                   None \<Rightarrow> None
                 | Some (Inl e, st) \<Rightarrow> Some (Inl e, st)
                 | Some (Inr _, st) \<Rightarrow> verify_deltas fuel blake3 ids st) = Some (Inr (), st\<lparr>vs_delta_stats := ds'\<rparr>)" for ds
    proof -
      obtain bs t ds' where "materialize_internal fuel blake3 (st\<lparr>vs_delta_stats := ds\<rparr>) vid False False = Some (Inr (bs, t), st\<lparr>vs_delta_stats := ds'\<rparr>)"
        using m by blast
      then show ?thesis using IH [of ds'] by simp
    qed
    then show ?thesis using True i d by (simp add: Let_def)
  qed
qed

lemma recompute_ok:
  assumes inv: "vs_inv blake3 st M" and len: "length (vs_entries st) < 2 ^ 64" "length (vs_entries st) \<le> fuel"
  shows "\<exists>st'. recompute_loaded_delta_metadata fuel blake3 st = Some (Inr (), st') \<and> vs_inv blake3 st' M
    \<and> vs_entry_ids st' = vs_entry_ids st \<and> length (vs_entries st') = length (vs_entries st)"
proof -
  have dom: "set (vs_entry_ids st) \<subseteq> dom M" using inv by (simp add: vs_inv_def)
  obtain st1 where r: "reset_depths (vs_entry_ids st) Map.empty st = (Inr (), st1)" "vs_inv blake3 st1 M" "same_ids st st1"
    using reset_depths_ok [OF inv dom] by blast
  let ?st2 = "st1\<lparr>vs_delta_stats := delta_stats_default\<rparr>"
  have "vs_inv blake3 ?st2 M" using r(2) vs_inv_tables [OF tables_upd(1)] by blast
  then have "\<exists>ds. verify_deltas fuel blake3 (vs_entry_ids st) ?st2 = Some (Inr (), ?st2\<lparr>vs_delta_stats := ds\<rparr>)"
    using dom len same_ids_simps(3) [OF r(3)] by (intro verify_deltas_ok) simp_all
  then obtain ds where v: "verify_deltas fuel blake3 (vs_entry_ids st) ?st2 = Some (Inr (), st1\<lparr>vs_delta_stats := ds\<rparr>)" by auto
  define st3 where "st3 = (if vc_enable_learned_index (vs_config st1) then refresh_learned_index (st1\<lparr>vs_delta_stats := ds\<rparr>) else st1\<lparr>vs_delta_stats := ds\<rparr>)"
  have t: "tables st3 = tables st1" by (simp add: st3_def)
  have "recompute_loaded_delta_metadata fuel blake3 st = Some (Inr (), st3)"
    using r(1) v by (simp add: recompute_loaded_delta_metadata_def Let_def st3_def)
  then show ?thesis using t r(2) vs_inv_tables [OF t] same_ids_simps(2,3) [OF r(3)] by (simp add: tables_def)
qed

lemma vs_inv_vseg_ok:
  assumes inv: "vs_inv blake3 st M" and ids: "\<forall>vid \<in> dom M. length vid = 16"
    and small: "\<forall>e \<in> set (vs_entries st). length (ve_bytes e) < 2 ^ 63"
  shows "\<forall>(vid, e) \<in> set (zip (vs_entry_ids st) (vs_entries st)). vseg_ok vid e"
proof clarify
  fix vid e
  assume "(vid, e) \<in> set (zip (vs_entry_ids st) (vs_entries st))"
  then obtain i where i: "i < length (vs_entries st)" "i < length (vs_entry_ids st)" "vid = vs_entry_ids st ! i" "e = vs_entries st ! i"
    by (auto simp: set_zip)
  have sub: "set (take i (vs_entry_ids st)) \<subseteq> dom M" and "vid \<in> dom M"
    using inv i set_take_subset [of i "vs_entry_ids st"] by (auto simp: vs_inv_def)
  moreover have "entry_ok blake3 M (set (take i (vs_entry_ids st))) vid e" using inv i by (auto simp: vs_inv_def)
  ultimately show "vseg_ok vid e" using ids small i
    by (auto simp: entry_ok_def vseg_ok_def delta_ok_def patch_ok_def split: if_splits)
qed

lemma load_written:
  assumes inv: "vs_inv blake3 st M" and len: "length (vs_entries st) < 2 ^ 64" "length (vs_entries st) \<le> fuel"
  shows "\<exists>st1 st'. insert_loaded_all (map (\<lambda>(vid, e). \<lparr>vse_id = vid, vse_entry = strip_entry e\<rparr>) (zip (vs_entry_ids st) (vs_entries st)))
      (value_store_new config) = Inr st1 \<and> recompute_loaded_delta_metadata fuel blake3 st1 = Some (Inr (), st')
    \<and> vs_inv blake3 st' M \<and> vs_entry_ids st' = vs_entry_ids st \<and> length (vs_entries st') = length (vs_entries st)"
proof -
  let ?es = "map (\<lambda>(vid, e). \<lparr>vse_id = vid, vse_entry = strip_entry e\<rparr>) (zip (vs_entry_ids st) (vs_entries st))"
  let ?new = "value_store_new config"
  have l: "length (vs_entry_ids st) = length (vs_entries st)" and d: "distinct (vs_entry_ids st)" and M: "dom M = set (vs_entry_ids st)"
    using inv by (simp_all add: vs_inv_def)
  have ids: "map vse_id ?es = vs_entry_ids st" using l by (simp add: split_beta o_def)
  have new: "vs_entry_ids ?new = []" by (simp add: value_store_new_def)
  have ok: "entry_ok blake3 M (set (vs_entry_ids ?new @ take j (map vse_id ?es))) (vse_id (?es ! j)) (vse_entry (?es ! j))"
    if "j < length ?es" for j
    unfolding ids new using inv that l by (simp add: entry_ok_strip vs_inv_def)
  have "M |` {} = Map.empty" by (simp add: restrict_map_def)
  then have inv0: "vs_inv blake3 ?new (M |` set (vs_entry_ids ?new))" using value_store_new_inv(1) [of blake3 config] by (simp add: new)
  have "distinct (vs_entry_ids ?new @ map vse_id ?es)" unfolding ids new using d by simp
  from insert_loaded_all_ok [OF inv0 value_store_new_inv(2) this ok]
  have "\<exists>st1. insert_loaded_all ?es ?new = Inr st1 \<and> vs_entry_ids st1 = vs_entry_ids ?new @ map vse_id ?es
      \<and> vs_inv blake3 st1 (M |` set (vs_entry_ids st1)) \<and> lookup_inv st1" .
  then obtain st1 where s1: "insert_loaded_all ?es ?new = Inr st1" "vs_entry_ids st1 = vs_entry_ids st" "vs_inv blake3 st1 (M |` set (vs_entry_ids st1))"
    unfolding ids new by auto
  have "M |` set (vs_entry_ids st1) = M" unfolding s1(2) M [symmetric] by (rule ext) (auto simp: restrict_map_def domIff)
  then have inv1: "vs_inv blake3 st1 M" using s1(3) by simp
  have l1: "length (vs_entries st1) = length (vs_entries st)" using inv1 l s1(2) by (simp add: vs_inv_def)
  then show ?thesis using recompute_ok [OF inv1, of fuel] s1(1,2) len by auto
qed

text \<open>
  (C16) A store written to a segment file and loaded again, under any configuration, has the same
  values in the same order, and every one of them reconstructs to the same bytes: loading succeeds
  whatever deltas the store had.
\<close>

theorem segment_file_roundtrip:
  assumes "vs_reach blake3 st M" "\<forall>vid \<in> dom M. length vid = 16" "\<forall>e \<in> set (vs_entries st). length (ve_bytes e) < 2 ^ 63"
    and "length (vs_entries st) < 2 ^ 64" "length (vs_entries st) \<le> fuel" "zstd_ok compress decompress"
    and "write_segment_file crc compress now existing st = Inr content"
  shows "\<exists>st'. load_segment_file fuel crc decompress blake3 config (Some content) = Some (Inr st')
    \<and> vs_entry_ids st' = vs_entry_ids st
    \<and> (\<forall>vid bs. M vid = Some bs \<longrightarrow> (\<exists>st''. materialize fuel blake3 st' vid = Some (Inr bs, st'')))"
proof -
  have inv: "vs_inv blake3 st M" using vs_reach_inv [OF assms(1)] by simp
  note rd = write_read_segment [OF assms(7,6) vs_inv_vseg_ok [OF inv assms(2,3)]]
  obtain st1 st' where l: "insert_loaded_all (map (\<lambda>(vid, e). \<lparr>vse_id = vid, vse_entry = strip_entry e\<rparr>) (zip (vs_entry_ids st) (vs_entries st)))
      (value_store_new config) = Inr st1" "recompute_loaded_delta_metadata fuel blake3 st1 = Some (Inr (), st')"
    "vs_inv blake3 st' M" "vs_entry_ids st' = vs_entry_ids st" "length (vs_entries st') = length (vs_entries st)"
    using load_written [OF inv assms(4,5)] by blast
  have "load_segment_file fuel crc decompress blake3 config (Some content) = Some (Inr st')"
    using rd l(1,2) by (simp add: load_segment_file_def load_store_def)
  then show ?thesis using l(4) materialize_content [OF l(3)] l(5) assms(4,5) by auto
qed

lemma sample_ids_length [simp]: "length sample_id = 16" "length sample_delta_id = 16"
  by code_simp+

lemma sample_store_tables:
  "tables sample_store = ([\<lparr>ve_kind = Cell, ve_bytes = [1, 2, 3, 4], ve_delta = None\<rparr>,
     \<lparr>ve_kind = Delta, ve_bytes = build_patch_bytes [1, 2, 3, 4] [1, 9, 3, 4],
      ve_delta = Some \<lparr>de_base = sample_id, de_full_len = length ([1, 9, 3, 4] :: bytes), de_depth = 1, de_skip = []\<rparr>\<rparr>],
     [sample_id, sample_delta_id], [(sample_id, 0), (sample_delta_id, 1)])"
  by (simp add: sample_store_def tables_push_delta tables_push_entry)

lemma sample_patch_small: "length (build_patch_bytes [1, 2, 3, 4] [1, 9, 3, 4]) \<le> 12"
  by code_simp

lemma vseg_append_all_ok:
  "\<forall>(vid, e) \<in> set es. \<exists>p. encode_vseg_entry compress vid e = Inr p \<and> fits_frame p \<Longrightarrow> \<exists>c. vseg_append_all crc compress content es = Inr c"
proof (induction es arbitrary: content)
  case (Cons x es)
  obtain vid e where x: "x = (vid, e)" by (cases x)
  then obtain p where "encode_vseg_entry compress vid e = Inr p" "fits_frame p" using Cons.prems by auto
  then have "vseg_append crc compress content vid e = Inr (content @ frame crc p)"
    by (simp add: vseg_append_def append_record_frame_frame)
  then show ?case using Cons x by simp
qed simp

lemma encode_vseg_length:
  assumes "vseg_ok vid e" "zstd_ok compress decompress" "encode_vseg_entry compress vid e = Inr p"
  shows "length p \<le> 40 + length (snd (raw_of e))"
proof -
  obtain codec stored where p: "p = [VSEG_RECORD_TYPE, VSEG_RECORD_VERSION, value_kind_code (ve_kind e), vseg_codec_code codec] @ vid
      @ encode_varu (word_of_nat (fst (raw_of e))) @ encode_varu (word_of_nat (length stored)) @ stored"
    and s: "length stored \<le> length (snd (raw_of e))" by (rule encode_vseg_entry_Inr [OF assms])
  have "length vid = 16" using assms(1) by (simp add: vseg_ok_def)
  then show ?thesis
    using s length_encode_varu_le [of "word_of_nat (fst (raw_of e))"] length_encode_varu_le [of "word_of_nat (length stored)"]
    by (simp add: p)
qed

lemma encode_vseg_total:
  assumes "vseg_ok vid e" "\<And>bs. compress bs \<noteq> None"
  shows "\<exists>p. encode_vseg_entry compress vid e = Inr p"
proof -
  have "\<exists>c s. maybe_compress_vseg_bytes compress bs = Inr (c, s)" for bs
    using assms(2) [of bs] by (auto simp: maybe_compress_vseg_bytes_def split: if_split)
  then have "\<exists>p. bindE (maybe_compress_vseg_bytes compress bs) (\<lambda>(codec, stored). Inr (f codec stored)) = (Inr p :: value_store_error + bytes)" for bs f
    by (metis (no_types, lifting) bindE_simps(2) case_prod_conv)
  then show ?thesis using assms(1) by (auto simp: encode_vseg_entry_def vseg_ok_def)
qed

lemma sample_write: "\<exists>content. write_segment_file (\<lambda>_. 0) sample_compress 0 None sample_store = Inr content"
proof -
  have inv: "vs_inv sample_hash sample_store [sample_id \<mapsto> [1, 2, 3, 4], sample_delta_id \<mapsto> [1, 9, 3, 4]]" using vs_reach_inv [OF sample_reach] by simp
  have small: "\<forall>e \<in> set (vs_entries sample_store). length (ve_bytes e) \<le> 12"
    using sample_store_tables sample_patch_small by (simp add: tables_def)
  then have "\<forall>e \<in> set (vs_entries sample_store). length (ve_bytes e) < 2 ^ 63" by fastforce
  then have ok: "\<forall>(vid, e) \<in> set (zip (vs_entry_ids sample_store) (vs_entries sample_store)). vseg_ok vid e"
    by (intro vs_inv_vseg_ok [OF inv]) auto
  have "\<exists>p. encode_vseg_entry sample_compress vid e = Inr p \<and> fits_frame p"
    if m: "(vid, e) \<in> set (zip (vs_entry_ids sample_store) (vs_entries sample_store))" for vid e
  proof -
    have v: "vseg_ok vid e" and l: "length (ve_bytes e) \<le> 12" using m ok small set_zip_rightD by fastforce+
    obtain p where p: "encode_vseg_entry sample_compress vid e = Inr p"
      using encode_vseg_total [OF v, of sample_compress] by (auto simp: sample_compress_def)
    have "length (snd (raw_of e)) \<le> 49"
    proof (cases "ve_delta e")
      case (Some d)
      then have "length (encode_delta1_bytes d (ve_bytes e)) \<le> 37 + length (ve_bytes e)"
        using v by (intro length_encode_delta1) (auto simp: vseg_ok_def)
      then show ?thesis using l Some by (simp add: raw_of_def)
    qed (use l in \<open>simp add: raw_of_def\<close>)
    then have "fits_frame p" using encode_vseg_length [OF v sample_zstd_ok p] by (simp add: fits_frame_def)
    then show ?thesis using p by blast
  qed
  then show ?thesis unfolding write_segment_file_def vseg_writer_create_def vseg_open_impl_def
    using vseg_append_all_ok by (simp add: Let_def) blast
qed

theorem segment_file_roundtrip_witness:
  "\<exists>content st'. write_segment_file (\<lambda>_. 0) sample_compress 0 None sample_store = Inr content
     \<and> load_segment_file 2 (\<lambda>_. 0) sample_decompress sample_hash sample_config (Some content) = Some (Inr st')
     \<and> (\<exists>st''. materialize 2 sample_hash st' sample_delta_id = Some (Inr [1, 9, 3, 4], st''))"
proof -
  obtain content where c: "write_segment_file (\<lambda>_. 0) sample_compress 0 None sample_store = Inr content" using sample_write by blast
  have "\<forall>e \<in> set (vs_entries sample_store). length (ve_bytes e) < 2 ^ 63"
    using sample_store_tables le_less_trans [OF sample_patch_small] by (simp add: tables_def)
  then show ?thesis
    using segment_file_roundtrip [OF sample_reach _ _ _ _ sample_zstd_ok c, of 2 sample_config] c by auto
qed

section \<open>Transfer of deltas that form a cycle\<close>

text \<open>Two deltas, each with the other as its base.\<close>

definition cyclic_delta :: "u8 \<Rightarrow> value_entry" where
  "cyclic_delta base = \<lparr>ve_kind = Delta, ve_bytes = [0, 0],
     ve_delta = Some \<lparr>de_base = replicate 16 base, de_full_len = 0, de_depth = 0, de_skip = []\<rparr>\<rparr>"

definition cyclic_entries :: "value_segment_entry list" where
  "cyclic_entries = [\<lparr>vse_id = replicate 16 1, vse_entry = cyclic_delta 2\<rparr>, \<lparr>vse_id = replicate 16 2, vse_entry = cyclic_delta 1\<rparr>]"

lemma cyclic_materialize:
  assumes "entry_by_id st (replicate 16 1) = Some (cyclic_delta 2)" "entry_by_id st (replicate 16 2) = Some (cyclic_delta 1)"
    and "cache (replicate 16 1) = None" "cache (replicate 16 2) = None"
  shows "materialize_with_cache fuel blake3 st use_skip (replicate 16 1) cache = None
       \<and> materialize_with_cache fuel blake3 st use_skip (replicate 16 2) cache = None"
proof (induction fuel)
  case (Suc fuel)
  have d: "ve_kind (cyclic_delta b) = Delta" "ve_delta (cyclic_delta b) = Some \<lparr>de_base = replicate 16 b, de_full_len = 0, de_depth = 0, de_skip = []\<rparr>" for b
    by (simp_all add: cyclic_delta_def)
  show ?case using assms Suc by (simp add: d Let_def)
qed simp

text \<open>
  (C36) Importing two deltas that refer to each other is reported as \<open>InvalidDelta\<close>, but both entries stay
  in the store, and reconstructing one of them afterwards never returns.
\<close>

theorem cyclic_import_unreadable:
  "\<exists>st. import_transfer_entries fuel blake3 (value_store_new config) cyclic_entries = Some (Inl InvalidDelta, st)
     \<and> vs_contains st (replicate 16 1) \<and> (\<forall>depth. materialize depth blake3 st (replicate 16 1) = None)"
proof -
  let ?a = "replicate 16 (1::u8)" and ?b = "replicate 16 (2::u8)"
  let ?st1 = "push_entry (value_store_new config) ?a (cyclic_delta 2)"
  let ?st = "push_entry ?st1 ?b (cyclic_delta 1)"
  have ne: "?a \<noteq> ?b" by simp
  have e1: "entry_by_id ?st1 v = (if v = ?a then Some (cyclic_delta 2) else None)" for v
    by (subst entry_by_id_push [of _ 0]) (simp_all add: value_store_new_def entry_by_id_def)
  have e: "entry_by_id ?st ?a = Some (cyclic_delta 2)" "entry_by_id ?st ?b = Some (cyclic_delta 1)"
    using ne by (subst entry_by_id_push [of _ 1]; simp add: e1; simp add: push_entry_def value_store_new_def Let_def)+
  have c: "\<not> vs_contains (value_store_new config) v" "vs_contains ?st1 v \<longleftrightarrow> v = ?a" "vs_contains ?st ?a" for v
    by (simp_all add: vs_contains_def value_store_new_def push_entry_def Let_def)
  have d: "ve_kind (cyclic_delta b) = Delta" "ve_delta (cyclic_delta b) = Some \<lparr>de_base = replicate 16 b, de_full_len = 0, de_depth = 0, de_skip = []\<rparr>" for b
    by (simp_all add: cyclic_delta_def)
  have imp: "import_loop cyclic_entries (value_store_new config) 0 = (Inr 2, ?st)"
    unfolding cyclic_entries_def using ne by (simp add: insert_loaded_entry_def c sat64_def)
  have "rebuild_loaded_delta_depth ?st ?a Map.empty {?b, ?a} = Inl InvalidDelta"
    by (subst rebuild_loaded_delta_depth.simps) simp
  then have "rebuild_loaded_delta_depth ?st ?b Map.empty {?a} = Inl InvalidDelta"
    using ne by (subst rebuild_loaded_delta_depth.simps) (simp add: e d)
  then have "rebuild_loaded_delta_depth ?st ?a Map.empty {} = Inl InvalidDelta"
    by (subst rebuild_loaded_delta_depth.simps) (simp add: e d)
  moreover have "vs_entry_ids ?st = [?a, ?b]" by (simp add: push_entry_def value_store_new_def Let_def)
  ultimately have "import_transfer_entries fuel blake3 (value_store_new config) cyclic_entries = Some (Inl InvalidDelta, ?st)"
    by (simp add: import_transfer_entries_def imp recompute_loaded_delta_metadata_def Let_def)
  moreover have "materialize depth blake3 ?st ?a = None" for depth
    using cyclic_materialize [OF e] by (simp add: materialize_def materialize_internal_def)
  ultimately show ?thesis using c(3) by blast
qed

end
