(* ===== verification/Rust_Str.thy ===== *)
theory Rust_Str
  imports Prelude "HOL-Library.Sublist"
begin

text \<open>
  Rust strings as byte lists holding UTF-8: the validity check behind \<open>String::from_utf8\<close> and
  \<open>str::trim\<close>, which removes characters with the Unicode property White_Space at both ends.
\<close>

section \<open>UTF-8\<close>

definition utf8_cont :: "u8 \<Rightarrow> bool" where
  "utf8_cont b \<longleftrightarrow> 0x80 \<le> b \<and> b \<le> 0xBF"

text \<open>The number of bytes of the well-formed character at the front, 0 when there is none.\<close>

definition utf8_char_len :: "bytes \<Rightarrow> nat" where
  "utf8_char_len bs =
     (case bs of
        [] \<Rightarrow> 0
      | b # r \<Rightarrow>
          if b < 0x80 then 1
          else if 0xC2 \<le> b \<and> b \<le> 0xDF then
            (case r of c1 # _ \<Rightarrow> if utf8_cont c1 then 2 else 0 | _ \<Rightarrow> 0)
          else if 0xE0 \<le> b \<and> b \<le> 0xEF then
            (case r of c1 # c2 # _ \<Rightarrow>
               if utf8_cont c1 \<and> utf8_cont c2 \<and> (b = 0xE0 \<longrightarrow> 0xA0 \<le> c1) \<and> (b = 0xED \<longrightarrow> c1 \<le> 0x9F) then 3 else 0
             | _ \<Rightarrow> 0)
          else if 0xF0 \<le> b \<and> b \<le> 0xF4 then
            (case r of c1 # c2 # c3 # _ \<Rightarrow>
               if utf8_cont c1 \<and> utf8_cont c2 \<and> utf8_cont c3 \<and> (b = 0xF0 \<longrightarrow> 0x90 \<le> c1) \<and> (b = 0xF4 \<longrightarrow> c1 \<le> 0x8F) then 4 else 0
             | _ \<Rightarrow> 0)
          else 0)"

function utf8_valid :: "bytes \<Rightarrow> bool" where
  "utf8_valid bs =
     (if bs = [] then True
      else if utf8_char_len bs = 0 then False
      else utf8_valid (drop (utf8_char_len bs) bs))"
  by pat_completeness auto
termination
  by (relation "measure length") auto

declare utf8_valid.simps [simp del]

lemma utf8_valid_Nil [simp]: "utf8_valid []"
  by (subst utf8_valid.simps) simp

section \<open>Trimming\<close>

text \<open>The encodings of the White_Space characters.\<close>

definition white_space :: "bytes list" where
  "white_space =
     [[0x09], [0x0A], [0x0B], [0x0C], [0x0D], [0x20], [0xC2, 0x85], [0xC2, 0xA0], [0xE1, 0x9A, 0x80],
      [0xE2, 0x80, 0x80], [0xE2, 0x80, 0x81], [0xE2, 0x80, 0x82], [0xE2, 0x80, 0x83], [0xE2, 0x80, 0x84],
      [0xE2, 0x80, 0x85], [0xE2, 0x80, 0x86], [0xE2, 0x80, 0x87], [0xE2, 0x80, 0x88], [0xE2, 0x80, 0x89],
      [0xE2, 0x80, 0x8A], [0xE2, 0x80, 0xA8], [0xE2, 0x80, 0xA9], [0xE2, 0x80, 0xAF], [0xE2, 0x81, 0x9F],
      [0xE3, 0x80, 0x80]]"

lemma white_space_not_Nil [simp]: "[] \<notin> set white_space"
  by (simp add: white_space_def)

function trim_start :: "bytes \<Rightarrow> bytes" where
  "trim_start bs = (case find (\<lambda>w. prefix w bs) white_space of None \<Rightarrow> bs | Some w \<Rightarrow> trim_start (drop (length w) bs))"
  by pat_completeness auto
termination
proof (relation "measure length", simp)
  fix bs w assume "find (\<lambda>w. prefix w bs) white_space = Some w"
  then have "w \<in> set white_space" "prefix w bs" by (auto simp: find_Some_iff)
  then have "w \<noteq> []" "length w \<le> length bs" using white_space_not_Nil prefix_length_le by auto
  then show "(drop (length w) bs, bs) \<in> measure length" by (cases w) auto
qed

function trim_end :: "bytes \<Rightarrow> bytes" where
  "trim_end bs = (case find (\<lambda>w. suffix w bs) white_space of None \<Rightarrow> bs | Some w \<Rightarrow> trim_end (take (length bs - length w) bs))"
  by pat_completeness auto
termination
proof (relation "measure length", simp)
  fix bs w assume "find (\<lambda>w. suffix w bs) white_space = Some w"
  then have "w \<in> set white_space" "suffix w bs" by (auto simp: find_Some_iff)
  then have "w \<noteq> []" "length w \<le> length bs" using white_space_not_Nil suffix_length_le by auto
  then show "(take (length bs - length w) bs, bs) \<in> measure length" by (cases w) auto
qed

declare trim_start.simps [simp del] trim_end.simps [simp del]

definition str_trim :: "bytes \<Rightarrow> bytes" where
  "str_trim bs = trim_end (trim_start bs)"

section \<open>Trimming again changes nothing\<close>

lemma trim_start_no_prefix: "w \<in> set white_space \<Longrightarrow> \<not> prefix w (trim_start bs)"
proof (induction bs rule: trim_start.induct)
  case (1 bs)
  then show ?case by (subst trim_start.simps) (auto simp: find_None_iff split: option.split)
qed

lemma trim_end_no_suffix: "w \<in> set white_space \<Longrightarrow> \<not> suffix w (trim_end bs)"
proof (induction bs rule: trim_end.induct)
  case (1 bs)
  then show ?case by (subst trim_end.simps) (auto simp: find_None_iff split: option.split)
qed

lemma trim_end_prefix: "prefix (trim_end bs) bs"
proof (induction bs rule: trim_end.induct)
  case (1 bs)
  show ?case
    by (subst trim_end.simps) (use 1 take_is_prefix prefix_order.order_trans in \<open>fastforce split: option.split\<close>)
qed

lemma trim_start_fix: "(\<And>w. w \<in> set white_space \<Longrightarrow> \<not> prefix w bs) \<Longrightarrow> trim_start bs = bs"
  by (subst trim_start.simps) (auto simp: find_Some_iff split: option.split)

lemma trim_end_fix: "(\<And>w. w \<in> set white_space \<Longrightarrow> \<not> suffix w bs) \<Longrightarrow> trim_end bs = bs"
  by (subst trim_end.simps) (auto simp: find_Some_iff split: option.split)

lemma str_trim_idem [simp]: "str_trim (str_trim bs) = str_trim bs"
proof -
  have "\<not> prefix w (str_trim bs)" if "w \<in> set white_space" for w
    using trim_start_no_prefix [OF that] trim_end_prefix prefix_order.order_trans by (metis str_trim_def)
  then have "trim_start (str_trim bs) = str_trim bs" by (rule trim_start_fix)
  moreover have "trim_end (str_trim bs) = str_trim bs"
    unfolding str_trim_def by (rule trim_end_fix) (rule trim_end_no_suffix)
  ultimately show ?thesis by (simp add: str_trim_def)
qed

section \<open>Trimming keeps strings well formed\<close>

lemma white_space_chars: "w \<in> set white_space \<Longrightarrow> utf8_char_len (w @ r) = length w \<and> \<not> utf8_cont (hd w)"
  by (auto simp: white_space_def utf8_char_len_def utf8_cont_def word_le_nat_alt word_less_nat_alt)

lemma utf8_valid_trim_start: "utf8_valid bs \<Longrightarrow> utf8_valid (trim_start bs)"
proof (induction bs rule: trim_start.induct)
  case (1 bs)
  show ?case
  proof (cases "find (\<lambda>w. prefix w bs) white_space")
    case None
    then show ?thesis using 1 by (subst trim_start.simps) simp
  next
    case (Some w)
    then have w: "w \<in> set white_space" "prefix w bs" by (auto simp: find_Some_iff)
    then obtain r where "bs = w @ r" by (auto simp: prefix_def)
    moreover have "w \<noteq> []" using w(1) by auto
    ultimately have "utf8_valid (drop (length w) bs)"
      using 1(2) white_space_chars [OF w(1), of r] by (subst (asm) utf8_valid.simps) simp
    then show ?thesis using 1(1) [OF Some] Some by (subst trim_start.simps) simp
  qed
qed

text \<open>A character does not reach into what follows it when that starts with a leading byte.\<close>

lemma utf8_char_len_append:
  assumes "w \<noteq> []" "\<not> utf8_cont (hd w)" "u \<noteq> []" "utf8_char_len (u @ w) \<noteq> 0"
  shows "utf8_char_len u = utf8_char_len (u @ w) \<and> utf8_char_len u \<le> length u"
  using assms
  by (cases w; cases u; cases "tl u"; cases "tl (tl u)"; cases "tl (tl (tl u))")
    (auto simp: utf8_char_len_def split: if_splits list.splits)

lemma utf8_valid_append_white:
  assumes "w \<noteq> []" "\<not> utf8_cont (hd w)"
  shows "utf8_valid (u @ w) \<Longrightarrow> utf8_valid u"
proof (induction "length u" arbitrary: u rule: less_induct)
  case less
  show ?case
  proof (cases "u = []")
    case False
    have n: "utf8_char_len (u @ w) \<noteq> 0" "utf8_valid (drop (utf8_char_len (u @ w)) (u @ w))"
      using less.prems False by (subst (asm) utf8_valid.simps, simp split: if_splits)+
    note c = utf8_char_len_append [OF assms False n(1)]
    then have "utf8_valid (drop (utf8_char_len u) u @ w)" using n(2) by simp
    then have "utf8_valid (drop (utf8_char_len u) u)" using less.hyps [of "drop (utf8_char_len u) u"] c n(1) False by simp
    then show ?thesis using c n(1) False by (subst utf8_valid.simps) simp
  qed simp
qed

lemma utf8_valid_trim_end: "utf8_valid bs \<Longrightarrow> utf8_valid (trim_end bs)"
proof (induction bs rule: trim_end.induct)
  case (1 bs)
  show ?case
  proof (cases "find (\<lambda>w. suffix w bs) white_space")
    case None
    then show ?thesis using 1 by (subst trim_end.simps) simp
  next
    case (Some w)
    then have w: "w \<in> set white_space" "suffix w bs" by (auto simp: find_Some_iff)
    then obtain u where u: "bs = u @ w" by (auto simp: suffix_def)
    have "w \<noteq> []" "\<not> utf8_cont (hd w)" using w(1) white_space_chars by auto
    then have "utf8_valid u" using 1(2) u utf8_valid_append_white by blast
    then show ?thesis using 1(1) [OF Some] Some u by (subst trim_end.simps) simp
  qed
qed

lemma utf8_valid_str_trim: "utf8_valid bs \<Longrightarrow> utf8_valid (str_trim bs)"
  by (simp add: str_trim_def utf8_valid_trim_start utf8_valid_trim_end)

section \<open>Bytes of a string\<close>

text \<open>A \<open>string\<close> holds the bytes of the UTF-8 text as characters; \<open>as_bytes\<close>.\<close>

definition string_bytes :: "string \<Rightarrow> bytes" where
  "string_bytes s = map (\<lambda>c. word_of_nat (of_char c)) s"

lemma string_bytes_inj: "string_bytes s = string_bytes t \<Longrightarrow> s = t"
proof (induction s arbitrary: t)
  case (Cons c s)
  then obtain d t' where t: "t = d # t'" by (cases t) (auto simp: string_bytes_def)
  have "(word_of_nat (of_char c) :: u8) = word_of_nat (of_char d)" using Cons.prems t by (simp add: string_bytes_def)
  then have "(of_char c :: nat) mod 256 = of_char d mod 256" by (simp add: word_of_nat_eq_iff take_bit_eq_mod)
  then have "c = d" by simp
  then show ?case using Cons t by (simp add: string_bytes_def)
qed (simp add: string_bytes_def)

end
