(* ===== verification/Encryption.thy ===== *)
theory Encryption
  imports Core_Format Rust_Str "HOL-Library.AList"
begin

text \<open>
  Encryption at rest (\<open>encryption.rs\<close>): the self-describing envelope and its byte format, the key
  manager with a profile per database, encryption and decryption in the three modes, key rotation and
  re-encryption.

  The primitives are third-party crates and appear as the record \<open>crypto\<close>: HKDF-SHA-256 (salt, key,
  info, output length), AES-256-GCM-SIV (key, nonce, associated data, message) and SHA-256. The nonce
  drawn from the system is the argument \<open>rand\<close>, \<open>None\<close> when entropy is unavailable. Strings are UTF-8
  byte lists; a \<open>HashMap\<close> is an association list. The text of an \<open>InvalidEnvelope\<close> error is replaced by
  a value with the same information.
\<close>

section \<open>Data\<close>

definition ENCRYPTION_ENVELOPE_VERSION :: u8 where "ENCRYPTION_ENVELOPE_VERSION = 1"
definition ENCRYPTION_MASTER_KEY_LEN :: nat where "ENCRYPTION_MASTER_KEY_LEN = 32"
definition ENCRYPTION_NONCE_LEN :: nat where "ENCRYPTION_NONCE_LEN = 12"
definition ENCRYPTION_DERIVATION_SALT_LEN :: nat where "ENCRYPTION_DERIVATION_SALT_LEN = 32"

definition ascii :: "string \<Rightarrow> bytes" where
  "ascii s = map of_char s"

definition ENC_RANDOM_INFO :: bytes where "ENC_RANDOM_INFO = ascii ''skeindb-enc-random''"
definition ENC_MLE_DB_INFO :: bytes where "ENC_MLE_DB_INFO = ascii ''skeindb-enc-mle-db''"
definition ENC_MLE_DB_NONCE_INFO :: bytes where "ENC_MLE_DB_NONCE_INFO = ascii ''skeindb-enc-mle-db-nonce''"

datatype encryption_mode = EncOff | EncRandom | EncMleDb

fun mode_as_str :: "encryption_mode \<Rightarrow> bytes" where
  "mode_as_str EncOff = ascii ''ENC_OFF''"
| "mode_as_str EncRandom = ascii ''ENC_RANDOM''"
| "mode_as_str EncMleDb = ascii ''ENC_MLE_DB''"

definition to_ascii_lowercase :: "bytes \<Rightarrow> bytes" where
  "to_ascii_lowercase bs = map (\<lambda>b. if 0x41 \<le> b \<and> b \<le> 0x5A then b + 0x20 else b) bs"

definition mode_parse :: "bytes \<Rightarrow> encryption_mode option" where
  "mode_parse label =
     (let l = to_ascii_lowercase (str_trim label) in
      if l = ascii ''off'' \<or> l = ascii ''enc_off'' then Some EncOff
      else if l = ascii ''enc_random'' \<or> l = ascii ''random'' then Some EncRandom
      else if l = ascii ''enc_mle_db'' \<or> l = ascii ''mle_db'' \<or> l = ascii ''mle'' then Some EncMleDb
      else None)"

fun mode_code :: "encryption_mode \<Rightarrow> u8" where
  "mode_code EncOff = 0" | "mode_code EncRandom = 1" | "mode_code EncMleDb = 2"

record enc_profile =
  pf_db_id :: bytes
  pf_mode :: encryption_mode
  pf_active_key_id :: "bytes option"

definition profile_new :: "bytes \<Rightarrow> enc_profile" where
  "profile_new db_id = \<lparr>pf_db_id = db_id, pf_mode = EncOff, pf_active_key_id = None\<rparr>"

record enc_context =
  ec_db_id :: bytes
  ec_table_id :: bytes
  ec_column_id :: bytes
  ec_value_kind :: value_kind
  ec_codec_version :: u32

record envelope =
  en_version :: u8
  en_mode :: encryption_mode
  en_scope_id :: bytes
  en_key_id :: "bytes option"
  en_nonce :: "bytes option"
  en_derivation_salt :: "bytes option"
  en_ciphertext :: bytes

datatype envelope_error =
    UnsupportedVersion u8
  | UnknownMode u8
  | BadFlag string u8
  | EnvelopeEnd
  | BadLengthPrefix core_error
  | SliceTooLong nat nat
  | BadUtf8
  | FixedTooShort nat nat
  | TrailingBytes

datatype encryption_error =
    InvalidIdentifier string
  | UnknownDatabase bytes
  | MissingActiveKey bytes
  | MissingKey bytes bytes
  | ScopeMismatch bytes bytes
  | MissingEnvelopeKeyId
  | MissingNonce
  | MissingDerivationSalt
  | InvalidDerivedKeyLength
  | KeyDerivation
  | Aead
  | Entropy
  | InvalidEnvelope envelope_error

section \<open>Envelope bytes\<close>

definition normalize_required :: "bytes \<Rightarrow> string \<Rightarrow> encryption_error + bytes" where
  "normalize_required val field =
     (let trimmed = str_trim val in if trimmed = [] then Inl (InvalidIdentifier field) else Inr trimmed)"

definition len_prefixed :: "bytes \<Rightarrow> bytes" where
  "len_prefixed bs = encode_varu (word_of_nat (length bs)) @ bs"

definition aad_bytes :: "enc_context \<Rightarrow> encryption_error + bytes" where
  "aad_bytes ctx =
     bindE (normalize_required (ec_db_id ctx) ''db_id'') (\<lambda>db_id.
     Inr (len_prefixed (ascii ''skeindb-encryption-aad-v1'') @ len_prefixed db_id
          @ len_prefixed (str_trim (ec_table_id ctx)) @ len_prefixed (str_trim (ec_column_id ctx))
          @ [value_kind_code (ec_value_kind ctx)] @ le_bytes (ec_codec_version ctx)))"

definition stored_bytes :: "envelope \<Rightarrow> bytes" where
  "stored_bytes en =
     [en_version en, mode_code (en_mode en)] @ len_prefixed (en_scope_id en)
     @ (case en_key_id en of Some k \<Rightarrow> [1] @ len_prefixed k | None \<Rightarrow> [0])
     @ (case en_nonce en of Some n \<Rightarrow> [1] @ n | None \<Rightarrow> [0])
     @ (case en_derivation_salt en of Some s \<Rightarrow> [1] @ s | None \<Rightarrow> [0])
     @ len_prefixed (en_ciphertext en)"

definition read_byte :: "bytes \<Rightarrow> encryption_error + u8 \<times> bytes" where
  "read_byte cursor = (case cursor of [] \<Rightarrow> Inl (InvalidEnvelope EnvelopeEnd) | b # rest \<Rightarrow> Inr (b, rest))"

definition read_bytes :: "bytes \<Rightarrow> encryption_error + bytes \<times> bytes" where
  "read_bytes cursor =
     bindE (map_err (InvalidEnvelope \<circ> BadLengthPrefix) (decode_varu cursor)) (\<lambda>(len, cursor).
     if length cursor < unat len then Inl (InvalidEnvelope (SliceTooLong (unat len) (length cursor)))
     else Inr (take (unat len) cursor, drop (unat len) cursor))"

definition read_string :: "bytes \<Rightarrow> encryption_error + bytes \<times> bytes" where
  "read_string cursor =
     bindE (read_bytes cursor) (\<lambda>(bs, cursor).
     if utf8_valid bs then Inr (bs, cursor) else Inl (InvalidEnvelope BadUtf8))"

definition read_fixed :: "nat \<Rightarrow> bytes \<Rightarrow> encryption_error + bytes \<times> bytes" where
  "read_fixed n cursor =
     (if length cursor < n then Inl (InvalidEnvelope (FixedTooShort n (length cursor)))
      else Inr (take n cursor, drop n cursor))"

text \<open>A field with a presence flag.\<close>

definition read_optional ::
    "string \<Rightarrow> (bytes \<Rightarrow> encryption_error + bytes \<times> bytes) \<Rightarrow> bytes \<Rightarrow> encryption_error + bytes option \<times> bytes" where
  "read_optional field reader cursor =
     bindE (read_byte cursor) (\<lambda>(flag, cursor).
     if flag = 0 then Inr (None, cursor)
     else if flag = 1 then bindE (reader cursor) (\<lambda>(v, cursor). Inr (Some v, cursor))
     else Inl (InvalidEnvelope (BadFlag field flag)))"

definition from_stored_bytes :: "bytes \<Rightarrow> encryption_error + envelope" where
  "from_stored_bytes bs =
     bindE (read_byte bs) (\<lambda>(version, cursor).
     if version \<noteq> ENCRYPTION_ENVELOPE_VERSION then Inl (InvalidEnvelope (UnsupportedVersion version))
     else bindE (read_byte cursor) (\<lambda>(code, cursor).
     bindE (if code = 0 then Inr EncOff else if code = 1 then Inr EncRandom else if code = 2 then Inr EncMleDb
            else Inl (InvalidEnvelope (UnknownMode code))) (\<lambda>mode.
     bindE (read_string cursor) (\<lambda>(scope_id, cursor).
     bindE (read_optional ''key_id'' read_string cursor) (\<lambda>(key_id, cursor).
     bindE (read_optional ''nonce'' (read_fixed ENCRYPTION_NONCE_LEN) cursor) (\<lambda>(nonce, cursor).
     bindE (read_optional ''derivation_salt'' (read_fixed ENCRYPTION_DERIVATION_SALT_LEN) cursor) (\<lambda>(salt, cursor).
     bindE (read_bytes cursor) (\<lambda>(ciphertext, cursor).
     if cursor \<noteq> [] then Inl (InvalidEnvelope TrailingBytes)
     else Inr \<lparr>en_version = version, en_mode = mode, en_scope_id = scope_id, en_key_id = key_id, en_nonce = nonce,
               en_derivation_salt = salt, en_ciphertext = ciphertext\<rparr>))))))))"

section \<open>Key derivation and the cipher\<close>

record crypto =
  cr_hkdf :: "bytes option \<Rightarrow> bytes \<Rightarrow> bytes \<Rightarrow> nat \<Rightarrow> bytes option"
  cr_seal :: "bytes \<Rightarrow> bytes \<Rightarrow> bytes \<Rightarrow> bytes \<Rightarrow> bytes option"
  cr_open :: "bytes \<Rightarrow> bytes \<Rightarrow> bytes \<Rightarrow> bytes \<Rightarrow> bytes option"
  cr_sha256 :: "bytes \<Rightarrow> bytes"

definition derive_key :: "crypto \<Rightarrow> bytes \<Rightarrow> bytes option \<Rightarrow> bytes \<Rightarrow> encryption_error + bytes" where
  "derive_key cr master salt info =
     (case cr_hkdf cr salt master info ENCRYPTION_MASTER_KEY_LEN of None \<Rightarrow> Inl KeyDerivation | Some k \<Rightarrow> Inr k)"

definition derive_nonce :: "crypto \<Rightarrow> bytes \<Rightarrow> bytes option \<Rightarrow> bytes \<Rightarrow> encryption_error + bytes" where
  "derive_nonce cr master salt info =
     (case cr_hkdf cr salt master info ENCRYPTION_NONCE_LEN of None \<Rightarrow> Inl KeyDerivation | Some k \<Rightarrow> Inr k)"

definition encrypt_with_key :: "crypto \<Rightarrow> bytes \<Rightarrow> bytes \<Rightarrow> bytes \<Rightarrow> bytes \<Rightarrow> encryption_error + bytes" where
  "encrypt_with_key cr key nonce aad plaintext =
     (if length key \<noteq> ENCRYPTION_MASTER_KEY_LEN then Inl InvalidDerivedKeyLength
      else case cr_seal cr key nonce aad plaintext of None \<Rightarrow> Inl Aead | Some c \<Rightarrow> Inr c)"

definition decrypt_with_key :: "crypto \<Rightarrow> bytes \<Rightarrow> bytes \<Rightarrow> bytes \<Rightarrow> bytes \<Rightarrow> encryption_error + bytes" where
  "decrypt_with_key cr key nonce aad ciphertext =
     (if length key \<noteq> ENCRYPTION_MASTER_KEY_LEN then Inl InvalidDerivedKeyLength
      else case cr_open cr key nonce aad ciphertext of None \<Rightarrow> Inl Aead | Some p \<Rightarrow> Inr p)"

section \<open>Key manager\<close>

record key_manager =
  km_profiles :: "(bytes \<times> enc_profile) list"
  km_keys :: "((bytes \<times> bytes) \<times> bytes) list"

definition key_manager_new :: key_manager where
  "key_manager_new = \<lparr>km_profiles = [], km_keys = []\<rparr>"

text \<open>\<open>entry(db_id).or_insert_with(..)\<close>: the profile of a database, a new one if there is none.\<close>

definition profile_entry :: "key_manager \<Rightarrow> bytes \<Rightarrow> enc_profile" where
  "profile_entry km db_id = (case map_of (km_profiles km) db_id of Some p \<Rightarrow> p | None \<Rightarrow> profile_new db_id)"

definition put_profile :: "key_manager \<Rightarrow> bytes \<Rightarrow> enc_profile \<Rightarrow> key_manager" where
  "put_profile km db_id p = km\<lparr>km_profiles := AList.update db_id p (km_profiles km)\<rparr>"

definition register_database_key :: "key_manager \<Rightarrow> bytes \<Rightarrow> bytes \<Rightarrow> bytes \<Rightarrow> (encryption_error + unit) \<times> key_manager" where
  "register_database_key km db_id key_id master_key =
     (case bindE (normalize_required db_id ''db_id'') (\<lambda>d. bindE (normalize_required key_id ''key_id'') (\<lambda>k. Inr (d, k))) of
        Inl e \<Rightarrow> (Inl e, km)
      | Inr (d, k) \<Rightarrow>
          let km = km\<lparr>km_keys := AList.update (d, k) master_key (km_keys km)\<rparr>;
              profile = profile_entry km d
          in (Inr (), put_profile km d (if pf_active_key_id profile = None then profile\<lparr>pf_active_key_id := Some k\<rparr> else profile)))"

definition set_active_database_key :: "key_manager \<Rightarrow> bytes \<Rightarrow> bytes \<Rightarrow> (encryption_error + unit) \<times> key_manager" where
  "set_active_database_key km db_id key_id =
     (case bindE (normalize_required db_id ''db_id'') (\<lambda>d. bindE (normalize_required key_id ''key_id'') (\<lambda>k. Inr (d, k))) of
        Inl e \<Rightarrow> (Inl e, km)
      | Inr (d, k) \<Rightarrow>
          if map_of (km_keys km) (d, k) = None then (Inl (MissingKey d k), km)
          else (Inr (), put_profile km d ((profile_entry km d)\<lparr>pf_active_key_id := Some k\<rparr>)))"

text \<open>The profile is inserted before the checks, so it is there after an error too.\<close>

definition set_database_mode :: "key_manager \<Rightarrow> bytes \<Rightarrow> encryption_mode \<Rightarrow> (encryption_error + unit) \<times> key_manager" where
  "set_database_mode km db_id mode =
     (case normalize_required db_id ''db_id'' of
        Inl e \<Rightarrow> (Inl e, km)
      | Inr d \<Rightarrow>
          let profile = profile_entry km d; km = put_profile km d profile in
          case (if mode \<noteq> EncOff
                then (case pf_active_key_id profile of
                        None \<Rightarrow> Inl (MissingActiveKey d)
                      | Some k \<Rightarrow> if map_of (km_keys km) (d, k) = None then Inl (MissingKey d k) else Inr ())
                else Inr ()) of
            Inl e \<Rightarrow> (Inl e, km)
          | Inr _ \<Rightarrow> (Inr (), put_profile km d (profile\<lparr>pf_mode := mode\<rparr>)))"

definition km_profile :: "key_manager \<Rightarrow> bytes \<Rightarrow> enc_profile option" where
  "km_profile km db_id = map_of (km_profiles km) (str_trim db_id)"

text \<open>One profile of \<open>load_profiles\<close>.\<close>

definition load_profile :: "key_manager \<Rightarrow> enc_profile \<Rightarrow> key_manager" where
  "load_profile km profile =
     (let d = str_trim (pf_db_id profile) in
      if d = [] then km
      else let active = (case map_option str_trim (pf_active_key_id profile) of
                           Some k \<Rightarrow> if k = [] then None else Some k | None \<Rightarrow> None)
           in put_profile km d \<lparr>pf_db_id = d, pf_mode = pf_mode profile, pf_active_key_id = active\<rparr>)"

definition load_profiles :: "key_manager \<Rightarrow> enc_profile list \<Rightarrow> key_manager" where
  "load_profiles km profiles = foldl load_profile (km\<lparr>km_profiles := []\<rparr>) profiles"

definition lookup_key :: "key_manager \<Rightarrow> bytes \<Rightarrow> bytes \<Rightarrow> encryption_error + bytes" where
  "lookup_key km db_id key_id =
     (case map_of (km_keys km) (db_id, key_id) of None \<Rightarrow> Inl (MissingKey db_id key_id) | Some k \<Rightarrow> Inr k)"

text \<open>The active key of a profile and its master key.\<close>

definition active_key :: "key_manager \<Rightarrow> bytes \<Rightarrow> enc_profile \<Rightarrow> encryption_error + bytes \<times> bytes" where
  "active_key km db_id profile =
     (case pf_active_key_id profile of
        None \<Rightarrow> Inl (MissingActiveKey db_id)
      | Some key_id \<Rightarrow> bindE (lookup_key km db_id key_id) (\<lambda>master. Inr (key_id, master)))"

definition km_encrypt :: "crypto \<Rightarrow> bytes option \<Rightarrow> key_manager \<Rightarrow> enc_context \<Rightarrow> bytes \<Rightarrow> encryption_error + envelope" where
  "km_encrypt cr rand km ctx plaintext =
     bindE (normalize_required (ec_db_id ctx) ''db_id'') (\<lambda>db_id.
     case map_of (km_profiles km) db_id of
       None \<Rightarrow> Inl (UnknownDatabase db_id)
     | Some profile \<Rightarrow>
         bindE (aad_bytes ctx) (\<lambda>aad.
         case pf_mode profile of
           EncOff \<Rightarrow>
             Inr \<lparr>en_version = ENCRYPTION_ENVELOPE_VERSION, en_mode = EncOff, en_scope_id = db_id, en_key_id = None,
                  en_nonce = None, en_derivation_salt = None, en_ciphertext = plaintext\<rparr>
         | EncRandom \<Rightarrow>
             bindE (active_key km db_id profile) (\<lambda>(key_id, master).
             bindE (derive_key cr master None ENC_RANDOM_INFO) (\<lambda>content_key.
             bindE (case rand of None \<Rightarrow> Inl Entropy | Some n \<Rightarrow> Inr n) (\<lambda>nonce.
             bindE (encrypt_with_key cr content_key nonce aad plaintext) (\<lambda>ciphertext.
             Inr \<lparr>en_version = ENCRYPTION_ENVELOPE_VERSION, en_mode = EncRandom, en_scope_id = db_id, en_key_id = Some key_id,
                  en_nonce = Some nonce, en_derivation_salt = None, en_ciphertext = ciphertext\<rparr>))))
         | EncMleDb \<Rightarrow>
             bindE (active_key km db_id profile) (\<lambda>(key_id, master).
             let salt = cr_sha256 cr plaintext in
             bindE (derive_key cr master (Some salt) ENC_MLE_DB_INFO) (\<lambda>content_key.
             bindE (derive_nonce cr master (Some salt) ENC_MLE_DB_NONCE_INFO) (\<lambda>nonce.
             bindE (encrypt_with_key cr content_key nonce aad plaintext) (\<lambda>ciphertext.
             Inr \<lparr>en_version = ENCRYPTION_ENVELOPE_VERSION, en_mode = EncMleDb, en_scope_id = db_id, en_key_id = Some key_id,
                  en_nonce = None, en_derivation_salt = Some salt, en_ciphertext = ciphertext\<rparr>))))))"

definition ok_or :: "'a option \<Rightarrow> 'e \<Rightarrow> 'e + 'a" where
  "ok_or opt e = (case opt of None \<Rightarrow> Inl e | Some a \<Rightarrow> Inr a)"

definition km_decrypt :: "crypto \<Rightarrow> key_manager \<Rightarrow> enc_context \<Rightarrow> envelope \<Rightarrow> encryption_error + bytes" where
  "km_decrypt cr km ctx en =
     bindE (normalize_required (ec_db_id ctx) ''db_id'') (\<lambda>db_id.
     if en_scope_id en \<noteq> db_id then Inl (ScopeMismatch (en_scope_id en) db_id)
     else bindE (aad_bytes ctx) (\<lambda>aad.
     case en_mode en of
       EncOff \<Rightarrow> Inr (en_ciphertext en)
     | EncRandom \<Rightarrow>
         bindE (ok_or (en_key_id en) MissingEnvelopeKeyId) (\<lambda>key_id.
         bindE (ok_or (en_nonce en) MissingNonce) (\<lambda>nonce.
         bindE (lookup_key km (en_scope_id en) key_id) (\<lambda>master.
         bindE (derive_key cr master None ENC_RANDOM_INFO) (\<lambda>content_key.
         decrypt_with_key cr content_key nonce aad (en_ciphertext en)))))
     | EncMleDb \<Rightarrow>
         bindE (ok_or (en_key_id en) MissingEnvelopeKeyId) (\<lambda>key_id.
         bindE (ok_or (en_derivation_salt en) MissingDerivationSalt) (\<lambda>salt.
         bindE (lookup_key km (en_scope_id en) key_id) (\<lambda>master.
         bindE (derive_key cr master (Some salt) ENC_MLE_DB_INFO) (\<lambda>content_key.
         bindE (derive_nonce cr master (Some salt) ENC_MLE_DB_NONCE_INFO) (\<lambda>nonce.
         decrypt_with_key cr content_key nonce aad (en_ciphertext en))))))))"

section \<open>Rotation and re-encryption\<close>

record key_rotation_plan =
  rp_db_id :: bytes
  rp_previous_key_id :: "bytes option"
  rp_new_key_id :: bytes
  rp_mode :: encryption_mode

definition rotate_active_key :: "key_manager \<Rightarrow> bytes \<Rightarrow> bytes \<Rightarrow> (encryption_error + key_rotation_plan) \<times> key_manager" where
  "rotate_active_key km db_id new_key_id =
     (case bindE (normalize_required db_id ''db_id'') (\<lambda>d. bindE (normalize_required new_key_id ''key_id'') (\<lambda>k. Inr (d, k))) of
        Inl e \<Rightarrow> (Inl e, km)
      | Inr (d, k) \<Rightarrow>
          if map_of (km_keys km) (d, k) = None then (Inl (MissingKey d k), km)
          else let profile = profile_entry km d
               in (Inr \<lparr>rp_db_id = d, rp_previous_key_id = pf_active_key_id profile, rp_new_key_id = k, rp_mode = pf_mode profile\<rparr>,
                   put_profile km d (profile\<lparr>pf_active_key_id := Some k\<rparr>)))"

record reencryption_progress =
  pr_db_id :: bytes
  pr_previous_key_id :: "bytes option"
  pr_new_key_id :: "bytes option"
  pr_inspected :: nat
  pr_rewritten :: nat
  pr_skipped_off :: nat
  pr_skipped_current :: nat

definition progress_new :: "bytes \<Rightarrow> reencryption_progress" where
  "progress_new db_id = \<lparr>pr_db_id = db_id, pr_previous_key_id = None, pr_new_key_id = None, pr_inspected = 0,
     pr_rewritten = 0, pr_skipped_off = 0, pr_skipped_current = 0\<rparr>"

definition sat_inc :: "nat \<Rightarrow> nat" where
  "sat_inc n = min (n + 1) (2 ^ 64 - 1)"

definition reencrypt_envelope ::
    "crypto \<Rightarrow> bytes option \<Rightarrow> key_manager \<Rightarrow> enc_context \<Rightarrow> envelope \<Rightarrow> reencryption_progress \<Rightarrow>
     (encryption_error + envelope option) \<times> reencryption_progress" where
  "reencrypt_envelope cr rand km ctx en pr =
     (let pr = pr\<lparr>pr_inspected := sat_inc (pr_inspected pr)\<rparr> in
      if en_mode en = EncOff then (Inr None, pr\<lparr>pr_skipped_off := sat_inc (pr_skipped_off pr)\<rparr>)
      else case normalize_required (ec_db_id ctx) ''db_id'' of
        Inl e \<Rightarrow> (Inl e, pr)
      | Inr db_id \<Rightarrow>
          (case map_of (km_profiles km) db_id of
             None \<Rightarrow> (Inl (UnknownDatabase db_id), pr)
           | Some profile \<Rightarrow>
               (case pf_active_key_id profile of
                  None \<Rightarrow> (Inl (MissingActiveKey db_id), pr)
                | Some active \<Rightarrow>
                    let pr = pr\<lparr>pr_previous_key_id := en_key_id en, pr_new_key_id := Some active\<rparr> in
                    if en_key_id en = Some active \<and> en_mode en = pf_mode profile
                    then (Inr None, pr\<lparr>pr_skipped_current := sat_inc (pr_skipped_current pr)\<rparr>)
                    else case bindE (km_decrypt cr km ctx en) (\<lambda>plaintext. km_encrypt cr rand km ctx plaintext) of
                           Inl e \<Rightarrow> (Inl e, pr)
                         | Inr new \<Rightarrow> (Inr (Some new), pr\<lparr>pr_rewritten := sat_inc (pr_rewritten pr)\<rparr>))))"

section \<open>Reading back an envelope\<close>

lemma read_bytes_len_prefixed: "length bs < 2 ^ 64 \<Longrightarrow> read_bytes (len_prefixed bs @ rest) = Inr (bs, rest)"
  by (simp add: read_bytes_def len_prefixed_def unat_of_nat_u64)

lemma read_string_len_prefixed: "\<lbrakk>length bs < 2 ^ 64; utf8_valid bs\<rbrakk> \<Longrightarrow> read_string (len_prefixed bs @ rest) = Inr (bs, rest)"
  by (simp add: read_string_def read_bytes_len_prefixed)

lemma read_fixed_append: "length bs = n \<Longrightarrow> read_fixed n (bs @ rest) = Inr (bs, rest)"
  by (simp add: read_fixed_def)

lemma read_optional_append:
  assumes "\<And>v rest. opt = Some v \<Longrightarrow> reader (enc v @ rest) = Inr (v, rest)"
  shows "read_optional field reader ((case opt of Some v \<Rightarrow> 1 # enc v | None \<Rightarrow> [0]) @ rest) = Inr (opt, rest)"
  using assms by (cases opt) (simp_all add: read_optional_def read_byte_def)

definition str_ok :: "bytes \<Rightarrow> bool" where
  "str_ok s \<longleftrightarrow> utf8_valid s \<and> length s < 2 ^ 64"

definition envelope_ok :: "envelope \<Rightarrow> bool" where
  "envelope_ok en \<longleftrightarrow> en_version en = ENCRYPTION_ENVELOPE_VERSION \<and> str_ok (en_scope_id en)
     \<and> (\<forall>k. en_key_id en = Some k \<longrightarrow> str_ok k)
     \<and> (\<forall>n. en_nonce en = Some n \<longrightarrow> length n = ENCRYPTION_NONCE_LEN)
     \<and> (\<forall>s. en_derivation_salt en = Some s \<longrightarrow> length s = ENCRYPTION_DERIVATION_SALT_LEN)
     \<and> length (en_ciphertext en) < 2 ^ 64"

lemma from_stored_bytes_stored:
  assumes "envelope_ok en"
  shows "from_stored_bytes (stored_bytes en) = Inr en"
proof -
  let ?c = "len_prefixed (en_ciphertext en)"
  have s: "read_string (len_prefixed (en_scope_id en) @ rest) = Inr (en_scope_id en, rest)" for rest
    using assms by (simp add: envelope_ok_def str_ok_def read_string_len_prefixed)
  have k: "read_optional ''key_id'' read_string ((case en_key_id en of Some k \<Rightarrow> 1 # len_prefixed k | None \<Rightarrow> [0]) @ rest) = Inr (en_key_id en, rest)" for rest
    using assms by (intro read_optional_append read_string_len_prefixed) (auto simp: envelope_ok_def str_ok_def)
  have n: "read_optional ''nonce'' (read_fixed ENCRYPTION_NONCE_LEN) ((case en_nonce en of Some n \<Rightarrow> 1 # n | None \<Rightarrow> [0]) @ rest) = Inr (en_nonce en, rest)" for rest
    using assms by (intro read_optional_append [where enc = "\<lambda>v. v"] read_fixed_append) (auto simp: envelope_ok_def)
  have d: "read_optional ''derivation_salt'' (read_fixed ENCRYPTION_DERIVATION_SALT_LEN)
      ((case en_derivation_salt en of Some s \<Rightarrow> 1 # s | None \<Rightarrow> [0]) @ rest) = Inr (en_derivation_salt en, rest)" for rest
    using assms by (intro read_optional_append [where enc = "\<lambda>v. v"] read_fixed_append) (auto simp: envelope_ok_def)
  have c: "read_bytes ?c = Inr (en_ciphertext en, [])"
    using read_bytes_len_prefixed [of "en_ciphertext en" "[]"] assms by (simp add: envelope_ok_def)
  have m: "(if mode_code m = 0 then Inr EncOff else if mode_code m = 1 then Inr EncRandom else if mode_code m = 2 then Inr EncMleDb
            else Inl e) = Inr m" for m and e :: encryption_error by (cases m) simp_all
  show ?thesis using assms
    by (simp only: from_stored_bytes_def stored_bytes_def append_Cons append_Nil read_byte_def list.case bindE_simps case_prod_conv m s k n d c)
      (simp add: envelope_ok_def k n d c)
qed

text \<open>
  An encryption envelope written to bytes is read back exactly, for every mode and every
  combination of optional fields.
\<close>

theorem envelope_roundtrip:
  assumes "envelope_ok en"
  shows "from_stored_bytes (stored_bytes en) = Inr en"
  using assms by (rule from_stored_bytes_stored)

theorem envelope_roundtrip_witness:
  "from_stored_bytes (stored_bytes \<lparr>en_version = 1, en_mode = EncRandom, en_scope_id = [0x64, 0x62], en_key_id = Some [0x6B],
      en_nonce = Some (replicate 12 5), en_derivation_salt = None, en_ciphertext = [9, 8, 7]\<rparr>)
   = Inr \<lparr>en_version = 1, en_mode = EncRandom, en_scope_id = [0x64, 0x62], en_key_id = Some [0x6B],
      en_nonce = Some (replicate 12 5), en_derivation_salt = None, en_ciphertext = [9, 8, 7]\<rparr>"
proof (rule envelope_roundtrip)
  have "utf8_valid [0x64, 0x62]" "utf8_valid [0x6B]" by code_simp+
  then show "envelope_ok \<lparr>en_version = 1, en_mode = EncRandom, en_scope_id = [0x64, 0x62], en_key_id = Some [0x6B],
      en_nonce = Some (replicate 12 5), en_derivation_salt = None, en_ciphertext = [9, 8, 7]\<rparr>"
    by (simp add: envelope_ok_def str_ok_def ENCRYPTION_ENVELOPE_VERSION_def ENCRYPTION_NONCE_LEN_def)
qed

section \<open>Decryption\<close>

text \<open>What authenticated encryption promises: opening a sealed message gives the message.\<close>

definition aead_law :: "crypto \<Rightarrow> bool" where
  "aead_law cr \<longleftrightarrow> (\<forall>k n a p c. cr_seal cr k n a p = Some c \<longrightarrow> cr_open cr k n a c = Some p)"

lemma decrypt_encrypt_with_key:
  "aead_law cr \<Longrightarrow> encrypt_with_key cr k n a p = Inr c \<Longrightarrow> decrypt_with_key cr k n a c = Inr p"
  by (auto simp: encrypt_with_key_def decrypt_with_key_def aead_law_def split: if_splits option.splits)

lemma lookup_key_le: "map_of (km_keys km) \<subseteq>\<^sub>m map_of (km_keys km') \<Longrightarrow> lookup_key km d k = Inr m \<Longrightarrow> lookup_key km' d k = Inr m"
  by (auto simp: lookup_key_def map_le_def dom_def split: option.splits)

lemma active_key_Inr: "active_key km d p = Inr (k, m) \<longleftrightarrow> pf_active_key_id p = Some k \<and> lookup_key km d k = Inr m"
  by (auto simp: active_key_def bindE_eq_Inr split: option.splits)

lemma km_decrypt_encrypt:
  assumes law: "aead_law cr" and enc: "km_encrypt cr rand km ctx p = Inr en"
    and keys: "map_of (km_keys km) \<subseteq>\<^sub>m map_of (km_keys km')"
  shows "km_decrypt cr km' ctx en = Inr p"
proof -
  from enc obtain db profile aad where db: "normalize_required (ec_db_id ctx) ''db_id'' = Inr db" "map_of (km_profiles km) db = Some profile"
    "aad_bytes ctx = Inr aad" by (auto simp: km_encrypt_def bindE_eq_Inr split: option.splits)
  show ?thesis
  proof (cases "pf_mode profile")
    case EncOff
    then show ?thesis using enc db by (auto simp: km_encrypt_def km_decrypt_def)
  next
    case EncRandom
    then obtain k m ck n c where e: "active_key km db profile = Inr (k, m)" "derive_key cr m None ENC_RANDOM_INFO = Inr ck"
      "rand = Some n" "encrypt_with_key cr ck n aad p = Inr c"
      and en: "en = \<lparr>en_version = ENCRYPTION_ENVELOPE_VERSION, en_mode = EncRandom, en_scope_id = db, en_key_id = Some k,
                  en_nonce = Some n, en_derivation_salt = None, en_ciphertext = c\<rparr>"
      using enc db by (auto simp: km_encrypt_def bindE_eq_Inr split: option.splits)
    have "lookup_key km' db k = Inr m" using e(1) lookup_key_le [OF keys] by (simp add: active_key_Inr)
    then show ?thesis using e db decrypt_encrypt_with_key [OF law e(4)] by (simp add: km_decrypt_def en ok_or_def)
  next
    case EncMleDb
    let ?s = "cr_sha256 cr p"
    from EncMleDb obtain k m ck n c where e: "active_key km db profile = Inr (k, m)" "derive_key cr m (Some ?s) ENC_MLE_DB_INFO = Inr ck"
      "derive_nonce cr m (Some ?s) ENC_MLE_DB_NONCE_INFO = Inr n" "encrypt_with_key cr ck n aad p = Inr c"
      and en: "en = \<lparr>en_version = ENCRYPTION_ENVELOPE_VERSION, en_mode = EncMleDb, en_scope_id = db, en_key_id = Some k,
                  en_nonce = None, en_derivation_salt = Some ?s, en_ciphertext = c\<rparr>"
      using enc db by (auto simp: km_encrypt_def bindE_eq_Inr Let_def)
    have "lookup_key km' db k = Inr m" using e(1) lookup_key_le [OF keys] by (simp add: active_key_Inr)
    then show ?thesis using e db decrypt_encrypt_with_key [OF law e(4)] by (simp add: km_decrypt_def en ok_or_def)
  qed
qed

section \<open>Keys over time\<close>

text \<open>
  What can happen to a key manager between writing and reading a value: keys are registered (not
  under a name that is taken by another key), activated, rotated; modes and profiles change.
\<close>

inductive km_steps :: "key_manager \<Rightarrow> key_manager \<Rightarrow> bool" where
  km_refl: "km_steps km km"
| km_register: "\<lbrakk>km_steps km km1; \<forall>m. map_of (km_keys km1) (str_trim db, str_trim k) = Some m \<longrightarrow> m = key\<rbrakk>
    \<Longrightarrow> km_steps km (snd (register_database_key km1 db k key))"
| km_set_active: "km_steps km km1 \<Longrightarrow> km_steps km (snd (set_active_database_key km1 db k))"
| km_set_mode: "km_steps km km1 \<Longrightarrow> km_steps km (snd (set_database_mode km1 db mode))"
| km_rotate: "km_steps km km1 \<Longrightarrow> km_steps km (snd (rotate_active_key km1 db k))"
| km_load: "km_steps km km1 \<Longrightarrow> km_steps km (load_profiles km1 ps)"

lemma normalize_required_Inr: "normalize_required v f = Inr t \<longleftrightarrow> t = str_trim v \<and> t \<noteq> []"
  by (auto simp: normalize_required_def Let_def)

lemma km_keys_put_profile [simp]: "km_keys (put_profile km d p) = km_keys km"
  by (simp add: put_profile_def)

lemma km_keys_same:
  "km_keys (snd (set_active_database_key km db k)) = km_keys km" "km_keys (snd (set_database_mode km db mode)) = km_keys km"
  "km_keys (snd (rotate_active_key km db k)) = km_keys km" "km_keys (load_profiles km ps) = km_keys km"
proof -
  show "km_keys (snd (set_active_database_key km db k)) = km_keys km"
    by (simp add: set_active_database_key_def split: sum.split prod.split)
  show "km_keys (snd (set_database_mode km db mode)) = km_keys km"
    by (simp add: set_database_mode_def Let_def split: sum.split)
  show "km_keys (snd (rotate_active_key km db k)) = km_keys km"
    by (simp add: rotate_active_key_def Let_def split: sum.split prod.split)
  have "km_keys (foldl load_profile km ps) = km_keys km" for km
    by (induction ps arbitrary: km) (simp_all add: load_profile_def Let_def)
  then show "km_keys (load_profiles km ps) = km_keys km" by (simp add: load_profiles_def)
qed

lemma km_keys_register:
  assumes "\<forall>m. map_of (km_keys km) (str_trim db, str_trim k) = Some m \<longrightarrow> m = key"
  shows "map_of (km_keys km) \<subseteq>\<^sub>m map_of (km_keys (snd (register_database_key km db k key)))"
proof (cases "str_trim db = [] \<or> str_trim k = []")
  case True
  then show ?thesis by (auto simp: register_database_key_def normalize_required_def Let_def)
next
  case False
  then have "km_keys (snd (register_database_key km db k key)) = AList.update (str_trim db, str_trim k) key (km_keys km)"
    by (simp add: register_database_key_def normalize_required_def Let_def)
  then show ?thesis using assms by (auto simp: map_le_def update_conv')
qed

lemma km_steps_keys: "km_steps km km' \<Longrightarrow> map_of (km_keys km) \<subseteq>\<^sub>m map_of (km_keys km')"
  by (induction rule: km_steps.induct) (auto simp: km_keys_same intro: map_le_trans [OF _ km_keys_register])

text \<open>
  (C28) A value encrypted in any mode is decrypted to the same bytes in the same context, however keys
  were added, activated or rotated and modes and profiles changed since, as long as no registration
  replaced a key of any database by a different one.
\<close>

theorem encryption_survives_rotation:
  assumes "aead_law cr" "km_encrypt cr rand km ctx p = Inr en" "km_steps km km'"
  shows "km_decrypt cr km' ctx en = Inr p"
  by (rule km_decrypt_encrypt [OF assms(1,2) km_steps_keys [OF assms(3)]])

lemma km_encrypt_key:
  assumes "km_encrypt cr rand km ctx p = Inr en"
  shows "\<exists>d profile. normalize_required (ec_db_id ctx) ''db_id'' = Inr d \<and> map_of (km_profiles km) d = Some profile
    \<and> en_mode en = pf_mode profile \<and> (pf_mode profile \<noteq> EncOff \<longrightarrow> (\<exists>k. en_key_id en = Some k \<and> pf_active_key_id profile = Some k))"
proof -
  from assms obtain d profile where d: "normalize_required (ec_db_id ctx) ''db_id'' = Inr d" "map_of (km_profiles km) d = Some profile"
    by (auto simp: km_encrypt_def bindE_eq_Inr split: option.splits)
  then have "en_mode en = pf_mode profile \<and> (pf_mode profile \<noteq> EncOff \<longrightarrow> (\<exists>k. en_key_id en = Some k \<and> pf_active_key_id profile = Some k))"
    using assms by (cases "pf_mode profile") (auto simp: km_encrypt_def bindE_eq_Inr active_key_Inr Let_def)
  then show ?thesis using d by blast
qed

section \<open>A sample database\<close>

definition sample_crypto :: crypto where
  "sample_crypto = \<lparr>cr_hkdf = (\<lambda>_ _ _ n. Some (replicate n 1)), cr_seal = (\<lambda>_ _ _ p. Some (0 # p)),
     cr_open = (\<lambda>_ _ _ c. case c of [] \<Rightarrow> None | _ # p \<Rightarrow> Some p), cr_sha256 = (\<lambda>_. replicate 32 2)\<rparr>"

definition sample_key_manager :: key_manager where
  "sample_key_manager = \<lparr>km_profiles = [([0x64], \<lparr>pf_db_id = [0x64], pf_mode = EncRandom, pf_active_key_id = Some [0x6B]\<rparr>)],
     km_keys = [(([0x64], [0x6B]), replicate 32 7), (([0x64], [0x6C]), replicate 32 8)]\<rparr>"

definition sample_ctx :: enc_context where
  "sample_ctx = \<lparr>ec_db_id = [0x64], ec_table_id = [], ec_column_id = [], ec_value_kind = Cell, ec_codec_version = 1\<rparr>"

definition sample_envelope :: envelope where
  "sample_envelope = \<lparr>en_version = 1, en_mode = EncRandom, en_scope_id = [0x64], en_key_id = Some [0x6B],
     en_nonce = Some (replicate 12 3), en_derivation_salt = None, en_ciphertext = [0, 1, 2, 3]\<rparr>"

lemma sample_aead_law: "aead_law sample_crypto"
  by (simp add: aead_law_def sample_crypto_def)

lemma sample_encrypt: "km_encrypt sample_crypto (Some (replicate 12 3)) sample_key_manager sample_ctx [1, 2, 3] = Inr sample_envelope"
  by code_simp

theorem encryption_survives_rotation_witness:
  "km_decrypt sample_crypto (snd (rotate_active_key sample_key_manager [0x64] [0x6C])) sample_ctx sample_envelope = Inr [1, 2, 3]"
  by (rule encryption_survives_rotation [OF sample_aead_law sample_encrypt]) (rule km_rotate, rule km_refl)

text \<open>
  Re-encryption keeps the content and converges: the new envelope decrypts to what the old one
  did, and re-encrypting it again under the same profile leaves it alone.
\<close>

theorem reencrypt_converges:
  assumes "aead_law cr" "reencrypt_envelope cr rand km ctx en pr = (Inr (Some new), pr')"
  shows "(\<exists>p. km_decrypt cr km ctx en = Inr p \<and> km_decrypt cr km ctx new = Inr p)
    \<and> fst (reencrypt_envelope cr rand' km ctx new pr'') = Inr None"
proof -
  from assms(2) obtain p where p: "km_decrypt cr km ctx en = Inr p" "km_encrypt cr rand km ctx p = Inr new"
    by (auto simp: reencrypt_envelope_def Let_def bindE_eq_Inr split: if_splits sum.splits option.splits)
  have "km_decrypt cr km ctx new = Inr p" by (rule km_decrypt_encrypt [OF assms(1) p(2)]) simp
  moreover have "fst (reencrypt_envelope cr rand' km ctx new pr'') = Inr None"
    using km_encrypt_key [OF p(2)] by (auto simp: reencrypt_envelope_def Let_def split: option.split)
  ultimately show ?thesis using p(1) by blast
qed

definition sample_rotated :: key_manager where
  "sample_rotated = snd (rotate_active_key sample_key_manager [0x64] [0x6C])"

lemma sample_reencrypt:
  "reencrypt_envelope sample_crypto (Some (replicate 12 4)) sample_rotated sample_ctx sample_envelope (progress_new [0x64])
   = (Inr (Some (sample_envelope\<lparr>en_key_id := Some [0x6C], en_nonce := Some (replicate 12 4)\<rparr>)),
      (progress_new [0x64])\<lparr>pr_previous_key_id := Some [0x6B], pr_new_key_id := Some [0x6C], pr_inspected := sat_inc 0, pr_rewritten := sat_inc 0\<rparr>)"
proof -
  have "km_profiles sample_rotated = [([0x64], \<lparr>pf_db_id = [0x64], pf_mode = EncRandom, pf_active_key_id = Some [0x6C]\<rparr>)]"
    "km_decrypt sample_crypto sample_rotated sample_ctx sample_envelope = Inr [1, 2, 3]"
    "km_encrypt sample_crypto (Some (replicate 12 4)) sample_rotated sample_ctx [1, 2, 3]
       = Inr (sample_envelope\<lparr>en_key_id := Some [0x6C], en_nonce := Some (replicate 12 4)\<rparr>)"
    "normalize_required (ec_db_id sample_ctx) ''db_id'' = Inr [0x64]"
    "en_mode sample_envelope = EncRandom" "en_key_id sample_envelope = Some [0x6B]"
    by code_simp+
  then show ?thesis by (simp add: reencrypt_envelope_def Let_def progress_new_def)
qed

theorem reencrypt_converges_witness:
  "\<exists>new pr'. reencrypt_envelope sample_crypto (Some (replicate 12 4)) sample_rotated sample_ctx sample_envelope
       (progress_new [0x64]) = (Inr (Some new), pr') \<and> en_key_id new = Some [0x6C]
     \<and> fst (reencrypt_envelope sample_crypto None sample_rotated sample_ctx new pr') = Inr None"
  using reencrypt_converges [OF sample_aead_law sample_reencrypt] sample_reencrypt by simp

text \<open>
  (C37) Enabling encryption for a database without a key fails, but leaves a profile with encryption
  off: writes for that database, which were refused before, are then stored in the clear.
\<close>

theorem failed_enable_stores_plaintext:
  assumes "str_trim (ec_db_id ctx) \<noteq> []" "map_of (km_profiles km) (str_trim (ec_db_id ctx)) = None" "mode \<noteq> EncOff"
  shows "km_encrypt cr rand km ctx p = Inl (UnknownDatabase (str_trim (ec_db_id ctx)))
    \<and> fst (set_database_mode km (ec_db_id ctx) mode) = Inl (MissingActiveKey (str_trim (ec_db_id ctx)))
    \<and> (\<exists>en. km_encrypt cr rand (snd (set_database_mode km (ec_db_id ctx) mode)) ctx p = Inr en
           \<and> en_mode en = EncOff \<and> en_ciphertext en = p)"
  using assms
  by (simp add: km_encrypt_def set_database_mode_def normalize_required_def Let_def profile_entry_def profile_new_def
      put_profile_def aad_bytes_def update_conv')

theorem failed_enable_stores_plaintext_witness:
  "km_encrypt sample_crypto None key_manager_new sample_ctx [1] = Inl (UnknownDatabase [0x64])
   \<and> (\<exists>en. km_encrypt sample_crypto None (snd (set_database_mode key_manager_new [0x64] EncRandom)) sample_ctx [1] = Inr en
          \<and> en_mode en = EncOff \<and> en_ciphertext en = [1])"
proof -
  have t: "str_trim (ec_db_id sample_ctx) = [0x64]" "ec_db_id sample_ctx = [0x64]" by code_simp+
  then show ?thesis
    using failed_enable_stores_plaintext [of sample_ctx key_manager_new EncRandom sample_crypto None "[1]"] by (simp add: key_manager_new_def)
qed

end
