(* ===== verification/Encrypted_Store.thy ===== *)
theory Encrypted_Store
  imports Encryption Value_Reach
begin

text \<open>
  The encrypted value store (\<open>encrypted_valuestore.rs\<close>): envelopes stored as plain values of the
  content-addressed store, read back and decrypted, and re-encrypted after a key rotation. Where a
  sweep draws several nonces, \<open>rands n\<close> is the one of the \<open>n\<close>-th value.
\<close>

record encrypted_record =
  er_value_id :: bytes
  er_mode :: encryption_mode
  er_scope_id :: bytes
  er_key_id :: "bytes option"

datatype evs_error =
    EvsMissing bytes
  | UnexpectedKind bytes value_kind
  | EvsEncryption encryption_error

definition put_encrypted ::
    "crypto \<Rightarrow> bytes option \<Rightarrow> (bytes \<Rightarrow> bytes) \<Rightarrow> key_manager \<Rightarrow> 'm value_store \<Rightarrow> enc_context \<Rightarrow> bytes \<Rightarrow>
     (evs_error + encrypted_record) \<times> 'm value_store" where
  "put_encrypted cr rand blake3 km st ctx plaintext =
     (case km_encrypt cr rand km ctx plaintext of
        Inl e \<Rightarrow> (Inl (EvsEncryption e), st)
      | Inr en \<Rightarrow>
          let (vid, st) = vs_put blake3 st Cell (stored_bytes en)
          in (Inr \<lparr>er_value_id = vid, er_mode = en_mode en, er_scope_id = en_scope_id en, er_key_id = en_key_id en\<rparr>, st))"

definition read_envelope :: "'m value_store \<Rightarrow> bytes \<Rightarrow> (evs_error + envelope) \<times> 'm value_store" where
  "read_envelope st vid =
     (let (entry, st) = vs_get st vid in
      (case entry of
         None \<Rightarrow> Inl (EvsMissing vid)
       | Some e \<Rightarrow> if ve_kind e \<noteq> Cell then Inl (UnexpectedKind vid (ve_kind e))
                  else map_err EvsEncryption (from_stored_bytes (ve_bytes e)), st))"

definition get_decrypted ::
    "crypto \<Rightarrow> key_manager \<Rightarrow> 'm value_store \<Rightarrow> enc_context \<Rightarrow> bytes \<Rightarrow> (evs_error + bytes) \<times> 'm value_store" where
  "get_decrypted cr km st ctx vid =
     (let (en, st) = read_envelope st vid
      in (bindE en (\<lambda>en. map_err EvsEncryption (km_decrypt cr km ctx en)), st))"

definition reencrypt_value ::
    "crypto \<Rightarrow> bytes option \<Rightarrow> (bytes \<Rightarrow> bytes) \<Rightarrow> key_manager \<Rightarrow> 'm value_store \<Rightarrow> enc_context \<Rightarrow> bytes \<Rightarrow> reencryption_progress \<Rightarrow>
     (evs_error + bytes option) \<times> 'm value_store \<times> reencryption_progress" where
  "reencrypt_value cr rand blake3 km st ctx vid pr =
     (case read_envelope st vid of
        (Inl e, st) \<Rightarrow> (Inl e, st, pr)
      | (Inr en, st) \<Rightarrow>
          (case reencrypt_envelope cr rand km ctx en pr of
             (Inl e, pr) \<Rightarrow> (Inl (EvsEncryption e), st, pr)
           | (Inr None, pr) \<Rightarrow> (Inr None, st, pr)
           | (Inr (Some new), pr) \<Rightarrow>
               let (new_id, st) = vs_put blake3 st Cell (stored_bytes new) in (Inr (Some new_id), st, pr)))"

fun reencrypt_values ::
    "crypto \<Rightarrow> (nat \<Rightarrow> bytes option) \<Rightarrow> nat \<Rightarrow> (bytes \<Rightarrow> bytes) \<Rightarrow> key_manager \<Rightarrow> 'm value_store \<Rightarrow> enc_context \<Rightarrow> bytes list \<Rightarrow>
     reencryption_progress \<Rightarrow> (bytes \<times> bytes) list \<Rightarrow> (evs_error + (bytes \<times> bytes) list) \<times> 'm value_store \<times> reencryption_progress" where
  "reencrypt_values cr rands n blake3 km st ctx [] pr rewritten = (Inr rewritten, st, pr)"
| "reencrypt_values cr rands n blake3 km st ctx (vid # vids) pr rewritten =
     (case reencrypt_value cr (rands n) blake3 km st ctx vid pr of
        (Inl e, st, pr) \<Rightarrow> (Inl e, st, pr)
      | (Inr None, st, pr) \<Rightarrow> reencrypt_values cr rands (n + 1) blake3 km st ctx vids pr rewritten
      | (Inr (Some new_id), st, pr) \<Rightarrow>
          reencrypt_values cr rands (n + 1) blake3 km st ctx vids pr (rewritten @ [(vid, new_id)]))"

section \<open>Envelopes are well formed\<close>

lemma trim_start_length: "length (trim_start bs) \<le> length bs"
proof (induction bs rule: trim_start.induct)
  case (1 bs)
  then show ?case by (subst trim_start.simps) (fastforce split: option.split)
qed

lemma str_ok_trim: "str_ok s \<Longrightarrow> str_ok (str_trim s)"
proof -
  assume s: "str_ok s"
  have "length (str_trim s) \<le> length s"
    using prefix_length_le [OF trim_end_prefix, of "trim_start s"] trim_start_length [of s] by (simp add: str_trim_def)
  then show ?thesis using s utf8_valid_str_trim by (simp add: str_ok_def)
qed

definition enc_inputs_ok :: "crypto \<Rightarrow> bytes option \<Rightarrow> key_manager \<Rightarrow> enc_context \<Rightarrow> bytes \<Rightarrow> bool" where
  "enc_inputs_ok cr rand km ctx p \<longleftrightarrow> str_ok (ec_db_id ctx) \<and> length p < 2 ^ 62
     \<and> (\<forall>d pf k. map_of (km_profiles km) d = Some pf \<longrightarrow> pf_active_key_id pf = Some k \<longrightarrow> str_ok k \<and> length k < 2 ^ 60)
     \<and> length (ec_db_id ctx) < 2 ^ 60
     \<and> (\<forall>n. rand = Some n \<longrightarrow> length n = ENCRYPTION_NONCE_LEN) \<and> (\<forall>x. length (cr_sha256 cr x) = ENCRYPTION_DERIVATION_SALT_LEN)
     \<and> (\<forall>k n a m c. cr_seal cr k n a m = Some c \<longrightarrow> length c \<le> length m + 16)"

lemma length_len_prefixed: "length (len_prefixed bs) \<le> 10 + length bs"
  using length_encode_varu_le [of "word_of_nat (length bs)"] by (simp add: len_prefixed_def)

lemma length_stored_bytes:
  assumes "envelope_ok en" "\<forall>k. en_key_id en = Some k \<longrightarrow> length k < 2 ^ 60"
    and "length (en_scope_id en) < 2 ^ 60" "length (en_ciphertext en) < 2 ^ 62 + 16"
  shows "length (stored_bytes en) < 2 ^ 63"
proof -
  let ?k = "case en_key_id en of Some k \<Rightarrow> [1] @ len_prefixed k | None \<Rightarrow> [0]"
  let ?n = "case en_nonce en of Some n \<Rightarrow> [1] @ n | None \<Rightarrow> [0]" and ?s = "case en_derivation_salt en of Some s \<Rightarrow> [1] @ s | None \<Rightarrow> [0]"
  have "length ?k \<le> 11 + 2 ^ 60"
  proof (cases "en_key_id en")
    case (Some k)
    then have "length k < 2 ^ 60" using assms(2) by blast
    then show ?thesis using Some length_len_prefixed [of k] by simp
  qed simp
  moreover have "length ?n \<le> 13" "length ?s \<le> 33"
    using assms(1) by (auto simp: envelope_ok_def ENCRYPTION_NONCE_LEN_def ENCRYPTION_DERIVATION_SALT_LEN_def split: option.split)
  moreover have "length (stored_bytes en) = 2 + length (len_prefixed (en_scope_id en)) + length ?k + length ?n + length ?s + length (len_prefixed (en_ciphertext en))"
    by (simp add: stored_bytes_def)
  moreover note length_len_prefixed [of "en_scope_id en"] length_len_prefixed [of "en_ciphertext en"]
  ultimately show ?thesis using assms(3,4) by simp
qed

lemma encrypt_with_key_length:
  "\<lbrakk>enc_inputs_ok cr rand km ctx p; encrypt_with_key cr k n a p = Inr c\<rbrakk> \<Longrightarrow> length c < 2 ^ 62 + 16"
  unfolding enc_inputs_ok_def encrypt_with_key_def by (fastforce split: if_splits option.splits)

lemma km_encrypt_fields:
  assumes ok: "enc_inputs_ok cr rand km ctx p" and enc: "km_encrypt cr rand km ctx p = Inr en"
  shows "en_version en = ENCRYPTION_ENVELOPE_VERSION" "en_scope_id en = str_trim (ec_db_id ctx)"
    "length (en_ciphertext en) < 2 ^ 62 + 16"
    "\<forall>n. en_nonce en = Some n \<longrightarrow> length n = ENCRYPTION_NONCE_LEN"
    "\<forall>s. en_derivation_salt en = Some s \<longrightarrow> length s = ENCRYPTION_DERIVATION_SALT_LEN"
    "\<forall>k. en_key_id en = Some k \<longrightarrow> (\<exists>d pf. map_of (km_profiles km) d = Some pf \<and> pf_active_key_id pf = Some k)"
proof -
  from enc obtain d profile where d: "normalize_required (ec_db_id ctx) ''db_id'' = Inr d" "map_of (km_profiles km) d = Some profile"
    by (auto simp: km_encrypt_def bindE_eq_Inr split: option.splits)
  have "en_version en = ENCRYPTION_ENVELOPE_VERSION \<and> en_scope_id en = str_trim (ec_db_id ctx) \<and> length (en_ciphertext en) < 2 ^ 62 + 16
    \<and> (\<forall>n. en_nonce en = Some n \<longrightarrow> rand = Some n) \<and> (\<forall>s. en_derivation_salt en = Some s \<longrightarrow> (\<exists>x. s = cr_sha256 cr x))
    \<and> (\<forall>k. en_key_id en = Some k \<longrightarrow> pf_active_key_id profile = Some k)"
  proof (cases "pf_mode profile")
    case EncOff
    then show ?thesis using enc d ok by (auto simp: km_encrypt_def bindE_eq_Inr normalize_required_Inr enc_inputs_ok_def)
  next
    case EncRandom
    then show ?thesis using enc d encrypt_with_key_length [OF ok]
      by (auto simp: km_encrypt_def bindE_eq_Inr normalize_required_Inr active_key_Inr split: option.splits)
  next
    case EncMleDb
    then show ?thesis using enc d encrypt_with_key_length [OF ok]
      by (auto simp: km_encrypt_def bindE_eq_Inr normalize_required_Inr active_key_Inr Let_def)
  qed
  then show "en_version en = ENCRYPTION_ENVELOPE_VERSION" "en_scope_id en = str_trim (ec_db_id ctx)" "length (en_ciphertext en) < 2 ^ 62 + 16"
    "\<forall>n. en_nonce en = Some n \<longrightarrow> length n = ENCRYPTION_NONCE_LEN"
    "\<forall>s. en_derivation_salt en = Some s \<longrightarrow> length s = ENCRYPTION_DERIVATION_SALT_LEN"
    "\<forall>k. en_key_id en = Some k \<longrightarrow> (\<exists>d pf. map_of (km_profiles km) d = Some pf \<and> pf_active_key_id pf = Some k)"
    using ok d(2) by (auto simp: enc_inputs_ok_def) blast
qed

lemma km_encrypt_ok:
  assumes ok: "enc_inputs_ok cr rand km ctx p" and enc: "km_encrypt cr rand km ctx p = Inr en"
  shows "envelope_ok en" "length (stored_bytes en) < 2 ^ 63"
proof -
  note f = km_encrypt_fields [OF ok enc]
  have k: "\<forall>k. en_key_id en = Some k \<longrightarrow> str_ok k \<and> length k < 2 ^ 60" using f(6) ok by (auto simp: enc_inputs_ok_def)
  have "str_ok (ec_db_id ctx)" using ok by (simp add: enc_inputs_ok_def)
  then have s: "str_ok (en_scope_id en)" using str_ok_trim f(2) by simp
  show e: "envelope_ok en" using f s k by (auto simp: envelope_ok_def)
  have "length (en_scope_id en) \<le> length (ec_db_id ctx)"
    using prefix_length_le [OF trim_end_prefix, of "trim_start (ec_db_id ctx)"] trim_start_length [of "ec_db_id ctx"] f(2)
    by (simp add: str_trim_def)
  moreover have "length (ec_db_id ctx) < 2 ^ 60" using ok by (simp add: enc_inputs_ok_def)
  ultimately show "length (stored_bytes en) < 2 ^ 63" using e k f(3) by (intro length_stored_bytes) auto
qed

lemma entry_by_id_tables: "tables st' = tables st \<Longrightarrow> entry_by_id st' v = entry_by_id st v"
  by (simp add: tables_def entry_by_id_def cong: if_cong)

lemma utf8_valid_sample: "utf8_valid [0x64]" "utf8_valid [0x6B]"
  by code_simp+

lemma get_decrypted_cell:
  assumes reach: "vs_reach blake3 st M" and m: "M vid = Some (stored_bytes en)"
    and cell: "entry_by_id st vid = Some e" "ve_kind e = Cell" and ok: "envelope_ok en"
    and dec: "km_decrypt cr km ctx en = Inr p"
  shows "fst (get_decrypted cr km st ctx vid) = Inr p"
proof -
  have inv: "vs_inv blake3 st M" "lookup_inv st" using vs_reach_inv [OF reach] by simp_all
  have "vid \<in> dom M" using m by blast
  then obtain i where "entry_by_id st vid = Some (vs_entries st ! i)" "entry_ok blake3 M (set (take i (vs_entry_ids st))) vid (vs_entries st ! i)"
    by (rule vs_inv_entry [OF inv(1)]) blast
  then have "ve_bytes e = stored_bytes en" using cell m by (simp add: entry_ok_def)
  moreover have "fst (vs_get st vid) = Some e" using vs_get_entry [OF reach] cell(1) by simp
  ultimately show ?thesis using cell(2) dec from_stored_bytes_stored [OF ok]
    by (simp add: get_decrypted_def read_envelope_def split_beta)
qed

text \<open>
  (C29) A value put into the encrypted store, whose envelope was not stored before, is read back as the
  same plaintext in the same context, also after keys were rotated and modes changed.
\<close>

theorem encrypted_put_get:
  assumes "vs_reach blake3 st M" "aead_law cr" "enc_inputs_ok cr rand km ctx p" "km_steps km km'"
    and "put_encrypted cr rand blake3 km st ctx p = (Inr r, st')" "\<not> vs_contains st (er_value_id r)"
  shows "fst (get_decrypted cr km' st' ctx (er_value_id r)) = Inr p"
proof -
  from assms(5) obtain en where en: "km_encrypt cr rand km ctx p = Inr en"
    and put: "put_with_id st Cell (value_id blake3 (stored_bytes en)) (stored_bytes en) = (er_value_id r, st')"
    by (auto simp: put_encrypted_def vs_put_def split: sum.splits prod.splits)
  let ?vid = "er_value_id r"
  have vid: "?vid = value_id blake3 (stored_bytes en)" using put_with_id_id put by (metis fst_conv)
  note ok = km_encrypt_ok [OF assms(3) en]
  have reach: "vs_reach blake3 st' (remember M ?vid (stored_bytes en))"
    using reach_put_with_id [OF assms(1), of Cell "stored_bytes en" ?vid] ok(2) put vid by simp
  have "vs_inv blake3 st M" using vs_reach_inv [OF assms(1)] by simp
  then have new: "?vid \<notin> dom M" and l: "\<forall>v i. map_of (vs_index st) v = Some i \<longrightarrow> i < length (vs_entries st)"
    using assms(6) vs_inv_contains vs_inv_at(1) by blast+
  have "tables st' = tables (push_entry st ?vid \<lparr>ve_kind = Cell, ve_bytes = stored_bytes en, ve_delta = None\<rparr>)"
    using put assms(6) vid by (auto simp: put_with_id_def Let_def split: if_splits)
  then have "entry_by_id st' ?vid = Some \<lparr>ve_kind = Cell, ve_bytes = stored_bytes en, ve_delta = None\<rparr>"
    using entry_by_id_push [OF refl l, of ?vid _ ?vid] entry_by_id_tables by metis
  moreover have "remember M ?vid (stored_bytes en) ?vid = Some (stored_bytes en)" using new by (simp add: remember_def)
  moreover have "km_decrypt cr km' ctx en = Inr p" by (rule km_decrypt_encrypt [OF assms(2) en km_steps_keys [OF assms(4)]])
  ultimately show ?thesis using get_decrypted_cell [OF reach] ok(1) by simp
qed

theorem encrypted_put_get_witness:
  "\<exists>r st'. put_encrypted sample_crypto (Some (replicate 12 3)) sample_hash sample_key_manager (value_store_new sample_config) sample_ctx [1, 2, 3]
      = (Inr r, st')
    \<and> fst (get_decrypted sample_crypto (snd (rotate_active_key sample_key_manager [0x64] [0x6C])) st' sample_ctx (er_value_id r)) = Inr [1, 2, 3]"
proof -
  let ?st = "value_store_new sample_config"
  have "str_ok [0x64]" "str_ok [0x6B]"
    using utf8_valid_sample by (simp_all add: str_ok_def)
  then have ok: "enc_inputs_ok sample_crypto (Some (replicate 12 3)) sample_key_manager sample_ctx [1, 2, 3]"
    by (auto simp: enc_inputs_ok_def sample_ctx_def sample_key_manager_def sample_crypto_def ENCRYPTION_NONCE_LEN_def
        ENCRYPTION_DERIVATION_SALT_LEN_def split: if_splits)
  obtain r st' where put: "put_encrypted sample_crypto (Some (replicate 12 3)) sample_hash sample_key_manager ?st sample_ctx [1, 2, 3] = (Inr r, st')"
    by (simp add: put_encrypted_def sample_encrypt split_beta)
  have "\<not> vs_contains ?st v" for v by (simp add: vs_contains_def value_store_new_def)
  then show ?thesis
    using encrypted_put_get [OF reach_new sample_aead_law ok _ put, of "snd (rotate_active_key sample_key_manager [0x64] [0x6C])"]
      km_rotate [OF km_refl] put by blast
qed

end
