(* ===== verification/Engine_Types.thy ===== *)
theory Engine_Types
  imports Prelude "HOL-Library.Char_ord"
begin

text \<open>
  The data of the SQL engine (\<open>crates/skeindb/src/engine.rs\<close>, \<open>skeinql/src/types.rs\<close>): typed
  literals, rows, table schemas, row entries and the schema helpers of the write path. A
  \<open>String\<close> is the list of its UTF-8 bytes as characters; a float is its bit pattern. What
  \<open>serde_json\<close> and the hash function compute is the record \<open>codecs\<close>, an argument of the
  operations that call them.
\<close>

section \<open>Literals and JSON values\<close>

text \<open>\<open>serde_json::Value\<close>; an object is in key order, as its \<open>BTreeMap\<close> is.\<close>

datatype json =
    JNull
  | JBool bool
  | JPosInt u64
  | JNegInt u64
  | JFloat u64
  | JStr string
  | JArr "json list"
  | JObj "(string \<times> json) list"

text \<open>\<open>Value::get\<close> with a string index, \<open>as_array\<close>, \<open>as_str\<close>, \<open>as_bool\<close>.\<close>

fun json_get :: "string \<Rightarrow> json \<Rightarrow> json option" where
  "json_get k (JObj m) = map_of m k"
| "json_get k _ = None"

fun json_as_array :: "json \<Rightarrow> json list option" where
  "json_as_array (JArr xs) = Some xs"
| "json_as_array _ = None"

fun json_as_str :: "json \<Rightarrow> string option" where
  "json_as_str (JStr s) = Some s"
| "json_as_str _ = None"

fun json_as_bool :: "json \<Rightarrow> bool option" where
  "json_as_bool (JBool b) = Some b"
| "json_as_bool _ = None"

datatype lit =
    LNull
  | LBool bool
  | LI64 u64
  | LU64 u64
  | LF64 u64
  | LDec string
  | LStr string
  | LBytes string
  | LJson json
  | LEmbedding u32 "u32 list" "string option"
  | LDate string
  | LTime string
  | LDatetime string
  | LUuid string

text \<open>
  IEEE equality on bit patterns: a NaN (exponent all ones, mantissa not zero) is equal to
  nothing, the two zeros are equal, and every other value only to itself.
\<close>

definition f64_eq :: "u64 \<Rightarrow> u64 \<Rightarrow> bool" where
  "f64_eq a b \<longleftrightarrow>
     (let nan = (\<lambda>x. 0x7FF0000000000000 < x AND 0x7FFFFFFFFFFFFFFF) in
      \<not> nan a \<and> \<not> nan b \<and> (a = b \<or> (a OR b) AND 0x7FFFFFFFFFFFFFFF = 0))"

definition f32_eq :: "u32 \<Rightarrow> u32 \<Rightarrow> bool" where
  "f32_eq a b \<longleftrightarrow>
     (let nan = (\<lambda>x. 0x7F800000 < x AND 0x7FFFFFFF) in
      \<not> nan a \<and> \<not> nan b \<and> (a = b \<or> (a OR b) AND 0x7FFFFFFF = 0))"

fun json_eq :: "json \<Rightarrow> json \<Rightarrow> bool"
  and json_list_eq :: "json list \<Rightarrow> json list \<Rightarrow> bool"
  and json_fields_eq :: "(string \<times> json) list \<Rightarrow> (string \<times> json) list \<Rightarrow> bool" where
  "json_eq (JFloat a) (JFloat b) = f64_eq a b"
| "json_eq (JArr xs) (JArr ys) = json_list_eq xs ys"
| "json_eq (JObj xs) (JObj ys) = json_fields_eq xs ys"
| "json_eq a b = (a = b)"
| "json_list_eq [] [] = True"
| "json_list_eq (x # xs) (y # ys) = (json_eq x y \<and> json_list_eq xs ys)"
| "json_list_eq _ _ = False"
| "json_fields_eq [] [] = True"
| "json_fields_eq ((k, x) # xs) ((k', y) # ys) = (k = k' \<and> json_eq x y \<and> json_fields_eq xs ys)"
| "json_fields_eq _ _ = False"

text \<open>The derived \<open>PartialEq\<close> of \<open>Lit\<close>.\<close>

fun lit_eq :: "lit \<Rightarrow> lit \<Rightarrow> bool" where
  "lit_eq (LF64 a) (LF64 b) = f64_eq a b"
| "lit_eq (LJson a) (LJson b) = json_eq a b"
| "lit_eq (LEmbedding d v m) (LEmbedding d' v' m') = (d = d' \<and> list_all2 f32_eq v v' \<and> m = m')"
| "lit_eq a b = (a = b)"

section \<open>Rows and schemas\<close>

type_synonym row_object = "(string \<times> lit) list"

record type_desc =
  ty_kind :: string
  ty_max :: "u64 option"
  ty_precision :: "u16 option"
  ty_scale :: "u16 option"
  ty_charset :: "string option"
  ty_collation :: "string option"
  ty_unsigned :: "bool option"

record column_schema =
  cs_name :: string
  cs_type :: type_desc
  cs_nullable :: bool
  cs_auto_increment :: bool

record table_schema =
  ts_columns :: "column_schema list"
  ts_primary_key :: "string list"
  ts_compat_mysql :: "json option"
  ts_table_version :: u64
  ts_auto_inc_next :: "(string \<times> u64) list"

record row_entry =
  re_row :: row_object
  re_version :: u64
  re_schema_version :: u64
  re_deleted :: bool
  re_commit_ts_ms :: u64

text \<open>The messages of the write path; a panic (a slice out of range, a division overflow, a sort) is \<open>EngPanic\<close>.\<close>

datatype engine_error =
    TableHasNoPrimaryKey
  | MissingPkColumn string
  | NullForNonNullColumn string
  | DuplicateKey string
  | EtagConflict
  | DuplicatePkAfterGc
  | DatabaseNotFound
  | TableNotFound
  | TableDataNotLoaded
  | EncryptionKeyRequired
  | StorageCorrupt
  | WalError
  | EvalError string
  | EngPanic

text \<open>
  Third-party functions: \<open>serde_json::to_string\<close> of a list of literals, \<open>serde_json::from_value\<close>
  of a literal, and the entity tag of a row (\<open>serde_json\<close> and BLAKE3).
\<close>

record codecs =
  cd_lits_json :: "lit list \<Rightarrow> string"
  cd_lit_of_value :: "json \<Rightarrow> lit option"
  cd_etag :: "row_object \<Rightarrow> u64 \<Rightarrow> string"

section \<open>Versions\<close>

definition saturating_succ :: "u64 \<Rightarrow> u64" where
  "saturating_succ v = (if v = - 1 then v else v + 1)"

definition bump_table_version :: "table_schema \<Rightarrow> table_schema" where
  "bump_table_version schema = schema\<lparr>ts_table_version := saturating_succ (ts_table_version schema)\<rparr>"

definition next_row_version :: "table_schema \<Rightarrow> u64" where
  "next_row_version schema = saturating_succ (ts_table_version schema)"

lemma unat_saturating_succ: "unat (saturating_succ v) = min (unat v + 1) (2 ^ 64 - 1)"
proof (cases "v = - 1")
  case False
  then have "unat (v + 1) = unat v + 1" by (metis add.commute unatSuc add_eq_0_iff add.inverse_inverse Suc_eq_plus1)
  moreover have "unat (v + 1) < 2 ^ 64" by (rule unat_lt_u64)
  ultimately show ?thesis using False by (simp add: saturating_succ_def)
qed (simp add: saturating_succ_def unsigned_minus_1_eq_mask mask_eq_exp_minus_1)

section \<open>Keys\<close>

fun pk_values :: "string list \<Rightarrow> row_object \<Rightarrow> engine_error + lit list" where
  "pk_values [] row = Inr []"
| "pk_values (k # ks) row =
     (case map_of row k of
        None \<Rightarrow> Inl (MissingPkColumn k)
      | Some v \<Rightarrow> bindE (pk_values ks row) (\<lambda>pk. Inr (v # pk)))"

definition extract_pk :: "table_schema \<Rightarrow> row_object \<Rightarrow> engine_error + lit list" where
  "extract_pk schema row =
     (if ts_primary_key schema = [] then Inl TableHasNoPrimaryKey
      else pk_values (ts_primary_key schema) row)"

definition pk_key :: "codecs \<Rightarrow> lit list \<Rightarrow> string" where
  "pk_key cd pk = cd_lits_json cd pk"

section \<open>Defaults and constraints\<close>

fun not_null_violation_cols :: "column_schema list \<Rightarrow> row_object \<Rightarrow> string option" where
  "not_null_violation_cols [] row = None"
| "not_null_violation_cols (col # cols) row =
     (if cs_nullable col then not_null_violation_cols cols row
      else if map_of row (cs_name col) \<in> {Some LNull, None} then Some (cs_name col)
      else not_null_violation_cols cols row)"

definition not_null_violation :: "table_schema \<Rightarrow> row_object \<Rightarrow> string option" where
  "not_null_violation schema row = not_null_violation_cols (ts_columns schema) row"

definition mysql_compat_column_default :: "codecs \<Rightarrow> table_schema \<Rightarrow> string \<Rightarrow> lit option" where
  "mysql_compat_column_default cd schema column =
     Option.bind (Option.bind (Option.bind (ts_compat_mysql schema)
       (json_get ''column_defaults'')) (json_get column)) (cd_lit_of_value cd)"

text \<open>
  One column of \<open>apply_defaults_and_autoinc\<close>; the state is the schema (its counters), the row
  and the last generated id. The addition on the counter wraps, as it does in the release build.
\<close>

fun apply_defaults_cols ::
    "codecs \<Rightarrow> column_schema list \<Rightarrow> table_schema \<times> row_object \<times> u64
       \<Rightarrow> engine_error + table_schema \<times> row_object \<times> u64" where
  "apply_defaults_cols cd [] st = Inr st"
| "apply_defaults_cols cd (col # cols) (schema, row, last_insert_id) =
     (let name = cs_name col in
      if map_of row name \<noteq> None then apply_defaults_cols cd cols (schema, row, last_insert_id)
      else if cs_auto_increment col then
        let nxt = (case map_of (ts_auto_inc_next schema) name of Some n \<Rightarrow> n | None \<Rightarrow> 1) in
        apply_defaults_cols cd cols
               (schema\<lparr>ts_auto_inc_next := AList.update name (nxt + 1) (ts_auto_inc_next schema)\<rparr>,
                bt_insert name (LU64 nxt) row, nxt)
      else case mysql_compat_column_default cd schema name of
        Some d \<Rightarrow> apply_defaults_cols cd cols (schema, bt_insert name d row, last_insert_id)
      | None \<Rightarrow>
          if cs_nullable col then apply_defaults_cols cd cols (schema, bt_insert name LNull row, last_insert_id)
          else apply_defaults_cols cd cols (schema, row, last_insert_id))"

definition apply_defaults_and_autoinc ::
    "codecs \<Rightarrow> table_schema \<Rightarrow> row_object \<Rightarrow> u64 \<Rightarrow> engine_error + table_schema \<times> row_object \<times> u64" where
  "apply_defaults_and_autoinc cd schema row last_insert_id =
     apply_defaults_cols cd (ts_columns schema) (schema, row, last_insert_id)"

section \<open>Index definitions of the schema\<close>

record compat_index_def =
  ci_name :: string
  ci_columns :: "string list"
  ci_unique :: bool

definition mysql_compat_index_from_value :: "json \<Rightarrow> compat_index_def option" where
  "mysql_compat_index_from_value value =
     (case Option.bind (json_get ''name'' value) json_as_str of
        None \<Rightarrow> None
      | Some name \<Rightarrow>
          (case Option.bind (json_get ''columns'' value) json_as_array of
             None \<Rightarrow> None
           | Some arr \<Rightarrow>
               let columns = List.map_filter json_as_str arr in
               if columns = [] then None
               else Some \<lparr>ci_name = name, ci_columns = columns,
                          ci_unique = (case Option.bind (json_get ''unique'' value) json_as_bool of
                                         Some b \<Rightarrow> b | None \<Rightarrow> False)\<rparr>))"

definition mysql_compat_index_defs :: "table_schema \<Rightarrow> compat_index_def list" where
  "mysql_compat_index_defs schema =
     (case Option.bind (Option.bind (ts_compat_mysql schema) (json_get ''indexes'')) json_as_array of
        None \<Rightarrow> []
      | Some vs \<Rightarrow> List.map_filter mysql_compat_index_from_value vs)"

fun row_matches_cols :: "row_object \<Rightarrow> row_object \<Rightarrow> string list \<Rightarrow> bool" where
  "row_matches_cols row other [] = True"
| "row_matches_cols row other (column # columns) =
     (case (map_of row column, map_of other column) of
        (Some l, Some r) \<Rightarrow> l \<noteq> LNull \<and> r \<noteq> LNull \<and> lit_eq l r \<and> row_matches_cols row other columns
      | _ \<Rightarrow> False)"

definition row_matches_compat_index :: "row_object \<Rightarrow> row_object \<Rightarrow> string list \<Rightarrow> bool" where
  "row_matches_compat_index row other columns \<longleftrightarrow> columns \<noteq> [] \<and> row_matches_cols row other columns"

fun unique_values :: "string list \<Rightarrow> row_object \<Rightarrow> lit list option" where
  "unique_values [] row = Some []"
| "unique_values (column # columns) row =
     (case map_of row column of
        None \<Rightarrow> None
      | Some v \<Rightarrow> if v = LNull then None else map_option ((#) v) (unique_values columns row))"

definition mysql_compat_unique_key :: "codecs \<Rightarrow> string list \<Rightarrow> row_object \<Rightarrow> string option" where
  "mysql_compat_unique_key cd columns row =
     (case unique_values columns row of
        None \<Rightarrow> None
      | Some values \<Rightarrow> if values = [] then None else Some (cd_lits_json cd values))"

definition primary_key_index_name :: "table_schema \<Rightarrow> string" where
  "primary_key_index_name schema = (if ts_primary_key schema = [] then ''PRIMARY KEY'' else ''PRIMARY'')"

end
