(* ===== verification/Engine_Index.thy ===== *)
theory Engine_Index
  imports Engine_Types
begin

text \<open>
  The in-memory image of a table (\<open>TableData\<close>) and its secondary indexes: building,
  registering, incremental maintenance, staleness by table version, and the unique-key check
  that reads them. A \<open>HashMap\<close> is an association list; the iteration over
  \<open>secondary_indexes.values_mut()\<close> is a \<open>map\<close>, since each index is changed on its own.
\<close>

section \<open>Table data\<close>

record secondary_index =
  si_built_version :: u64
  si_columns :: "string list"
  si_include :: "string list"
  si_keys :: "(string \<times> nat list) list"

record table_data =
  td_rows :: "row_entry list"
  td_pk_index :: "(string \<times> nat) list"
  td_secondary :: "(string \<times> secondary_index) list"

datatype index_registration_status = IrBuilt | IrRebuilt | IrExists

section \<open>Keys of an index\<close>

fun join :: "string \<Rightarrow> string list \<Rightarrow> string" where
  "join sep [] = []"
| "join sep [x] = x"
| "join sep (x # xs) = x @ sep @ join sep xs"

definition secondary_index_key :: "string list \<Rightarrow> string list \<Rightarrow> string" where
  "secondary_index_key columns include = ''cols:'' @ join '','' columns @ ''|inc:'' @ join '','' include"

definition secondary_index_value_key :: "codecs \<Rightarrow> lit list \<Rightarrow> string" where
  "secondary_index_value_key cd values = cd_lits_json cd values"

text \<open>The values of the index columns, when the row has them all.\<close>

fun column_values :: "string list \<Rightarrow> row_object \<Rightarrow> lit list option" where
  "column_values [] row = Some []"
| "column_values (col # cols) row =
     (case map_of row col of None \<Rightarrow> None | Some v \<Rightarrow> map_option ((#) v) (column_values cols row))"

definition secondary_index_row_key :: "codecs \<Rightarrow> string list \<Rightarrow> row_object \<Rightarrow> string option" where
  "secondary_index_row_key cd columns row =
     (case column_values columns row of
        None \<Rightarrow> None
      | Some values \<Rightarrow> if values = [] then None else Some (secondary_index_value_key cd values))"

text \<open>\<open>keys.entry(key).or_default().push(idx)\<close>.\<close>

definition bucket :: "(string \<times> nat list) list \<Rightarrow> string \<Rightarrow> nat list" where
  "bucket keys k = (case map_of keys k of Some is \<Rightarrow> is | None \<Rightarrow> [])"

definition push_key :: "string \<Rightarrow> nat \<Rightarrow> (string \<times> nat list) list \<Rightarrow> (string \<times> nat list) list" where
  "push_key k idx keys = AList.update k (bucket keys k @ [idx]) keys"

section \<open>Building and registering\<close>

fun build_keys ::
    "codecs \<Rightarrow> string list \<Rightarrow> nat \<Rightarrow> row_entry list \<Rightarrow> (string \<times> nat list) list \<Rightarrow> (string \<times> nat list) list" where
  "build_keys cd columns idx [] keys = keys"
| "build_keys cd columns idx (entry # rows) keys =
     build_keys cd columns (Suc idx) rows
       (if re_deleted entry then keys
        else case column_values columns (re_row entry) of
          None \<Rightarrow> keys
        | Some values \<Rightarrow> push_key (secondary_index_value_key cd values) idx keys)"

definition build_secondary_index ::
    "codecs \<Rightarrow> u64 \<Rightarrow> string list \<Rightarrow> string list \<Rightarrow> row_entry list \<Rightarrow> secondary_index" where
  "build_secondary_index cd table_version columns include rows =
     \<lparr>si_built_version = table_version, si_columns = columns, si_include = include,
      si_keys = build_keys cd columns 0 rows []\<rparr>"

definition secondary_index_registration_status ::
    "table_schema \<Rightarrow> table_data \<Rightarrow> string list \<Rightarrow> string list \<Rightarrow> index_registration_status" where
  "secondary_index_registration_status schema td columns include =
     (case map_of (td_secondary td) (secondary_index_key columns include) of
        Some existing \<Rightarrow>
          if si_built_version existing \<noteq> ts_table_version schema then IrRebuilt else IrExists
      | None \<Rightarrow> IrBuilt)"

definition register_secondary_index ::
    "codecs \<Rightarrow> table_schema \<Rightarrow> table_data \<Rightarrow> string list \<Rightarrow> string list \<Rightarrow> index_registration_status \<times> table_data" where
  "register_secondary_index cd schema td columns include =
     (let status = secondary_index_registration_status schema td columns include in
      (status,
       if status = IrExists then td
       else td\<lparr>td_secondary :=
              AList.update (secondary_index_key columns include)
                (build_secondary_index cd (ts_table_version schema) columns include (td_rows td))
                (td_secondary td)\<rparr>))"

fun register_defs :: "codecs \<Rightarrow> table_schema \<Rightarrow> compat_index_def list \<Rightarrow> table_data \<Rightarrow> table_data" where
  "register_defs cd schema [] td = td"
| "register_defs cd schema (d # ds) td =
     register_defs cd schema ds (snd (register_secondary_index cd schema td (ci_columns d) []))"

definition ensure_mysql_compat_secondary_indexes :: "codecs \<Rightarrow> table_schema \<Rightarrow> table_data \<Rightarrow> table_data" where
  "ensure_mysql_compat_secondary_indexes cd schema td =
     register_defs cd schema (mysql_compat_index_defs schema) td"

definition map_indexes :: "(secondary_index \<Rightarrow> secondary_index) \<Rightarrow> table_data \<Rightarrow> table_data" where
  "map_indexes f td = td\<lparr>td_secondary := map (\<lambda>(k, ix). (k, f ix)) (td_secondary td)\<rparr>"

definition rebuild_if_stale :: "codecs \<Rightarrow> table_schema \<Rightarrow> row_entry list \<Rightarrow> secondary_index \<Rightarrow> secondary_index" where
  "rebuild_if_stale cd schema rows ix =
     (if si_built_version ix \<noteq> ts_table_version schema
      then build_secondary_index cd (ts_table_version schema) (si_columns ix) (si_include ix) rows
      else ix)"

definition rebuild_secondary_indexes_if_stale :: "codecs \<Rightarrow> table_schema \<Rightarrow> table_data \<Rightarrow> table_data" where
  "rebuild_secondary_indexes_if_stale cd schema td =
     (let td = ensure_mysql_compat_secondary_indexes cd schema td in
      map_indexes (rebuild_if_stale cd schema (td_rows td)) td)"

section \<open>Incremental maintenance\<close>

definition index_add_row :: "codecs \<Rightarrow> nat \<Rightarrow> row_object \<Rightarrow> secondary_index \<Rightarrow> secondary_index" where
  "index_add_row cd idx row ix =
     (case secondary_index_row_key cd (si_columns ix) row of
        None \<Rightarrow> ix
      | Some key \<Rightarrow> ix\<lparr>si_keys := push_key key idx (si_keys ix)\<rparr>)"

definition secondary_index_add_row :: "codecs \<Rightarrow> nat \<Rightarrow> row_object \<Rightarrow> table_data \<Rightarrow> table_data" where
  "secondary_index_add_row cd idx row td = map_indexes (index_add_row cd idx row) td"

definition index_remove_row :: "codecs \<Rightarrow> nat \<Rightarrow> row_object \<Rightarrow> secondary_index \<Rightarrow> secondary_index" where
  "index_remove_row cd idx row ix =
     (case secondary_index_row_key cd (si_columns ix) row of
        None \<Rightarrow> ix
      | Some key \<Rightarrow>
          (case map_of (si_keys ix) key of
             None \<Rightarrow> ix
           | Some values \<Rightarrow>
               let values = filter (\<lambda>candidate. candidate \<noteq> idx) values in
               if values = [] then ix\<lparr>si_keys := AList.delete key (si_keys ix)\<rparr>
               else ix\<lparr>si_keys := AList.update key values (si_keys ix)\<rparr>))"

definition secondary_index_remove_row :: "codecs \<Rightarrow> nat \<Rightarrow> row_object \<Rightarrow> table_data \<Rightarrow> table_data" where
  "secondary_index_remove_row cd idx row td = map_indexes (index_remove_row cd idx row) td"

definition set_secondary_indexes_built_version :: "u64 \<Rightarrow> table_data \<Rightarrow> table_data" where
  "set_secondary_indexes_built_version version td = map_indexes (\<lambda>ix. ix\<lparr>si_built_version := version\<rparr>) td"

section \<open>The unique-key check\<close>

text \<open>A candidate of the bucket conflicts when it is another live row that agrees on the columns.\<close>

definition candidate_conflicts ::
    "row_entry list \<Rightarrow> row_object \<Rightarrow> string list \<Rightarrow> nat option \<Rightarrow> nat \<Rightarrow> bool" where
  "candidate_conflicts rows row columns skip_idx idx \<longleftrightarrow>
     skip_idx \<noteq> Some idx \<and> idx < length rows \<and> \<not> re_deleted (rows ! idx) \<and>
     row_matches_compat_index row (re_row (rows ! idx)) columns"

fun unique_conflict_defs ::
    "codecs \<Rightarrow> table_data \<Rightarrow> row_object \<Rightarrow> nat option \<Rightarrow> compat_index_def list \<Rightarrow> string option" where
  "unique_conflict_defs cd td row skip_idx [] = None"
| "unique_conflict_defs cd td row skip_idx (d # ds) =
     (case mysql_compat_unique_key cd (ci_columns d) row of
        None \<Rightarrow> unique_conflict_defs cd td row skip_idx ds
      | Some key \<Rightarrow>
          (case map_of (td_secondary td) (secondary_index_key (ci_columns d) []) of
             None \<Rightarrow> unique_conflict_defs cd td row skip_idx ds
           | Some secondary \<Rightarrow>
               (case map_of (si_keys secondary) key of
                  None \<Rightarrow> unique_conflict_defs cd td row skip_idx ds
                | Some candidates \<Rightarrow>
                    if list_ex (candidate_conflicts (td_rows td) row (ci_columns d) skip_idx) candidates
                    then Some (ci_name d)
                    else unique_conflict_defs cd td row skip_idx ds)))"

definition mysql_compat_unique_conflict ::
    "codecs \<Rightarrow> table_schema \<Rightarrow> table_data \<Rightarrow> row_object \<Rightarrow> nat option \<Rightarrow> string option \<times> table_data" where
  "mysql_compat_unique_conflict cd schema td row skip_idx =
     (let td = rebuild_secondary_indexes_if_stale cd schema td in
      (unique_conflict_defs cd td row skip_idx (filter ci_unique (mysql_compat_index_defs schema)), td))"

section \<open>Live rows\<close>

definition live_map :: "row_entry list \<Rightarrow> nat \<Rightarrow> row_object option" where
  "live_map rows i = (if i < length rows \<and> \<not> re_deleted (rows ! i) then Some (re_row (rows ! i)) else None)"

lemma live_map_append: "live_map (rows @ [e]) =
    (live_map rows)(length rows := (if re_deleted e then None else Some (re_row e)))"
  by (auto simp: live_map_def fun_eq_iff nth_append)

lemma live_map_update: "i < length rows \<Longrightarrow>
    live_map (rows[i := e]) = (live_map rows)(i := (if re_deleted e then None else Some (re_row e)))"
  by (auto simp: live_map_def fun_eq_iff nth_list_update)

lemma live_map_length [simp]: "live_map rows (length rows) = None"
  by (simp add: live_map_def)

lemma live_map_SomeD: "live_map rows i = Some row \<Longrightarrow> i < length rows \<and> \<not> re_deleted (rows ! i) \<and> row = re_row (rows ! i)"
  by (simp add: live_map_def split: if_splits)

lemma live_map_Nil [simp]: "live_map [] = Map.empty"
  by (simp add: live_map_def fun_eq_iff)

section \<open>An index describes the live rows\<close>

text \<open>
  \<open>index_exact cd L ix\<close>: the buckets of \<open>ix\<close> hold, for every key, exactly the positions whose
  live row has that key, without repetition, and no bucket is empty.
\<close>

definition index_exact :: "codecs \<Rightarrow> (nat \<Rightarrow> row_object option) \<Rightarrow> secondary_index \<Rightarrow> bool" where
  "index_exact cd L ix \<longleftrightarrow>
     si_columns ix \<noteq> [] \<and> distinct (map fst (si_keys ix)) \<and>
     (\<forall>k is. map_of (si_keys ix) k = Some is \<longrightarrow> is \<noteq> [] \<and> distinct is) \<and>
     (\<forall>k i. i \<in> set (bucket (si_keys ix) k) \<longleftrightarrow>
            (\<exists>row. L i = Some row \<and> secondary_index_row_key cd (si_columns ix) row = Some k))"

lemma bucket_push [simp]:
  "bucket (push_key k i keys) k' = (if k' = k then bucket keys k @ [i] else bucket keys k')"
  by (simp add: bucket_def push_key_def update_conv')

lemma column_values_Nil_iff: "column_values cols row = Some [] \<longleftrightarrow> cols = []"
  by (cases cols) (auto split: option.splits)

lemma row_key_conv:
  "cols \<noteq> [] \<Longrightarrow> secondary_index_row_key cd cols row = map_option (secondary_index_value_key cd) (column_values cols row)"
  by (auto simp: secondary_index_row_key_def column_values_Nil_iff split: option.splits)

lemma map_of_push [simp]:
  "map_of (push_key k i keys) k' = (if k' = k then Some (bucket keys k @ [i]) else map_of keys k')"
  by (simp add: push_key_def update_conv')

lemma distinct_push [simp]: "distinct (map fst keys) \<Longrightarrow> distinct (map fst (push_key k i keys))"
  by (simp add: push_key_def distinct_update)

lemma index_exact_add:
  assumes ex: "index_exact cd L ix" and fresh: "L i = None"
  shows "index_exact cd (L(i \<mapsto> row)) (index_add_row cd i row ix)"
proof (cases "secondary_index_row_key cd (si_columns ix) row")
  case None
  with assms show ?thesis by (auto simp: index_exact_def index_add_row_def)
next
  case (Some k)
  have mem: "j \<in> set (bucket (si_keys ix) k') \<longleftrightarrow>
      (\<exists>r. L j = Some r \<and> secondary_index_row_key cd (si_columns ix) r = Some k')" for j k'
    using ex by (simp add: index_exact_def)
  have "distinct (bucket (si_keys ix) k)"
    using ex by (cases "map_of (si_keys ix) k") (auto simp: index_exact_def bucket_def)
  moreover have "i \<notin> set (bucket (si_keys ix) k)" unfolding mem using fresh by simp
  ultimately have "is \<noteq> [] \<and> distinct is" if "map_of (push_key k i (si_keys ix)) k' = Some is" for k' "is"
    using that ex by (auto simp: index_exact_def split: if_splits)
  moreover have "j \<in> set (bucket (push_key k i (si_keys ix)) k') \<longleftrightarrow>
      (\<exists>r. (L(i \<mapsto> row)) j = Some r \<and> secondary_index_row_key cd (si_columns ix) r = Some k')" for j k'
    using Some fresh by (auto simp: mem)
  moreover have "si_columns ix \<noteq> [] \<and> distinct (map fst (si_keys ix))" using ex by (simp add: index_exact_def)
  ultimately show ?thesis
    by (simp add: index_exact_def index_add_row_def Some del: map_of_push bucket_push fun_upd_apply)
qed

lemma index_exact_remove:
  assumes ex: "index_exact cd L ix" and row: "L i = Some row"
  shows "index_exact cd (L(i := None)) (index_remove_row cd i row ix)"
proof (cases "secondary_index_row_key cd (si_columns ix) row")
  case None
  with ex row show ?thesis by (auto simp: index_exact_def index_remove_row_def)
next
  case (Some k)
  have "i \<in> set (bucket (si_keys ix) k)" using ex row Some by (auto simp: index_exact_def)
  then obtain "is" where "is": "map_of (si_keys ix) k = Some is" "i \<in> set is"
    by (cases "map_of (si_keys ix) k") (auto simp: bucket_def)
  let ?vs = "filter (\<lambda>c. c \<noteq> i) is"
  let ?ix = "index_remove_row cd i row ix"
  have cols: "si_columns ?ix = si_columns ix"
    using Some "is" by (simp add: index_remove_row_def Let_def)
  have mo: "map_of (si_keys ?ix) k' = (if k' = k then (if ?vs = [] then None else Some ?vs) else map_of (si_keys ix) k')" for k'
    using Some "is" by (simp add: index_remove_row_def Let_def update_conv' delete_conv')
  have dist: "distinct (map fst (si_keys ?ix))"
    using ex Some "is" by (simp add: index_exact_def index_remove_row_def Let_def distinct_update distinct_delete)
  have b: "bucket (si_keys ?ix) k' = (if k' = k then ?vs else bucket (si_keys ix) k')" for k'
    by (simp add: bucket_def mo)
  have mem: "j \<in> set (bucket (si_keys ix) k') \<longleftrightarrow>
      (\<exists>r. L j = Some r \<and> secondary_index_row_key cd (si_columns ix) r = Some k')" for j k'
    using ex by (simp add: index_exact_def)
  have vs: "j \<in> set ?vs \<longleftrightarrow> j \<noteq> i \<and> j \<in> set (bucket (si_keys ix) k)" for j
    using "is" by (auto simp: bucket_def)
  have "j \<in> set (bucket (si_keys ?ix) k') \<longleftrightarrow>
      (\<exists>r. (L(i := None)) j = Some r \<and> secondary_index_row_key cd (si_columns ix) r = Some k')" for j k'
    unfolding b using row Some by (cases "k' = k") (auto simp: vs mem simp del: set_filter)
  moreover have "is' \<noteq> [] \<and> distinct is'" if "map_of (si_keys ?ix) k' = Some is'" for k' is'
    using that ex "is" unfolding mo index_exact_def by (auto split: if_splits)
  moreover have "si_columns ix \<noteq> []" using ex by (simp add: index_exact_def)
  ultimately show ?thesis
    unfolding index_exact_def cols using dist by blast
qed

lemma index_exact_Nil:
  "index_exact cd Map.empty \<lparr>si_built_version = v, si_columns = cols, si_include = inc, si_keys = []\<rparr> \<longleftrightarrow> cols \<noteq> []"
  by (simp add: index_exact_def bucket_def)

lemma build_keys_exact:
  assumes "index_exact cd (live_map pre) \<lparr>si_built_version = v, si_columns = cols, si_include = inc, si_keys = keys\<rparr>"
  shows "index_exact cd (live_map (pre @ rows))
           \<lparr>si_built_version = v, si_columns = cols, si_include = inc, si_keys = build_keys cd cols (length pre) rows keys\<rparr>"
  using assms
proof (induction rows arbitrary: pre keys)
  case (Cons e rows)
  let ?ix = "\<lambda>keys. \<lparr>si_built_version = v, si_columns = cols, si_include = inc, si_keys = keys\<rparr>"
  let ?keys = "if re_deleted e then keys
        else case column_values cols (re_row e) of
          None \<Rightarrow> keys | Some values \<Rightarrow> push_key (secondary_index_value_key cd values) (length pre) keys"
  have c: "cols \<noteq> []" using Cons.prems by (simp add: index_exact_def)
  have "index_exact cd (live_map (pre @ [e])) (?ix ?keys)"
  proof (cases "re_deleted e")
    case True
    then show ?thesis using Cons.prems by (simp add: live_map_append fun_upd_idem)
  next
    case False
    then have "?ix ?keys = index_add_row cd (length pre) (re_row e) (?ix keys)"
      using c by (simp add: index_add_row_def row_key_conv split: option.splits)
    then show ?thesis
      using index_exact_add [OF Cons.prems, of "length pre" "re_row e"] False by (simp add: live_map_append)
  qed
  from Cons.IH [OF this] show ?case by simp
qed simp

lemma build_secondary_index_exact:
  "cols \<noteq> [] \<Longrightarrow> index_exact cd (live_map rows) (build_secondary_index cd v cols inc rows)"
  using build_keys_exact [of cd "[]" v cols inc "[]" rows]
  by (simp add: build_secondary_index_def index_exact_Nil)

section \<open>Fresh and stale indexes\<close>

text \<open>
  The keys under which the indexes of the schema are registered join the column names with
  commas; \<open>index_names_ok\<close> says that definitions with the same key have the same columns.
\<close>

definition index_names_ok :: "table_schema \<Rightarrow> bool" where
  "index_names_ok schema \<longleftrightarrow>
     (\<forall>d \<in> set (mysql_compat_index_defs schema). \<forall>d' \<in> set (mysql_compat_index_defs schema).
        secondary_index_key (ci_columns d) [] = secondary_index_key (ci_columns d') [] \<longrightarrow>
        ci_columns d = ci_columns d')"

definition index_named :: "table_schema \<Rightarrow> string \<Rightarrow> secondary_index \<Rightarrow> bool" where
  "index_named schema k ix \<longleftrightarrow>
     (\<forall>d \<in> set (mysql_compat_index_defs schema).
        k = secondary_index_key (ci_columns d) [] \<longrightarrow> si_columns ix = ci_columns d)"

text \<open>Between statements an index may be stale, which its version shows; a current one is exact.\<close>

definition secs_ok :: "codecs \<Rightarrow> table_schema \<Rightarrow> table_data \<Rightarrow> bool" where
  "secs_ok cd schema td \<longleftrightarrow>
     (\<forall>k ix. map_of (td_secondary td) k = Some ix \<longrightarrow>
        si_columns ix \<noteq> [] \<and> index_named schema k ix \<and>
        (si_built_version ix = ts_table_version schema \<longrightarrow> index_exact cd (live_map (td_rows td)) ix))"

text \<open>Within a statement every index is current and exact, and every definition has its index.\<close>

definition secs_exact :: "codecs \<Rightarrow> table_schema \<Rightarrow> (nat \<Rightarrow> row_object option) \<Rightarrow> table_data \<Rightarrow> bool" where
  "secs_exact cd schema L td \<longleftrightarrow>
     (\<forall>k ix. map_of (td_secondary td) k = Some ix \<longrightarrow>
        si_built_version ix = ts_table_version schema \<and> index_named schema k ix \<and> index_exact cd L ix) \<and>
     (\<forall>d \<in> set (mysql_compat_index_defs schema).
        map_of (td_secondary td) (secondary_index_key (ci_columns d) []) \<noteq> None)"

lemma map_indexes_simps [simp]:
  "td_rows (map_indexes f td) = td_rows td" "td_pk_index (map_indexes f td) = td_pk_index td"
  "map_of (td_secondary (map_indexes f td)) k = map_option f (map_of (td_secondary td) k)"
  by (simp_all add: map_indexes_def map_of_map)

lemma index_def_columns: "d \<in> set (mysql_compat_index_defs schema) \<Longrightarrow> ci_columns d \<noteq> []"
  by (auto simp: mysql_compat_index_defs_def mysql_compat_index_from_value_def List.map_filter_def Let_def
      split: option.splits if_splits)

lemma register_rows [simp]:
  "td_rows (snd (register_secondary_index cd schema td cols inc)) = td_rows td"
  "td_pk_index (snd (register_secondary_index cd schema td cols inc)) = td_pk_index td"
  by (simp_all add: register_secondary_index_def Let_def)

lemma register_defs_rows [simp]:
  "td_rows (register_defs cd schema ds td) = td_rows td"
  "td_pk_index (register_defs cd schema ds td) = td_pk_index td"
  by (induction ds arbitrary: td) auto

lemma register_map_of:
  "map_of (td_secondary (snd (register_secondary_index cd schema td cols inc))) k =
     (if k = secondary_index_key cols inc \<and> secondary_index_registration_status schema td cols inc \<noteq> IrExists
      then Some (build_secondary_index cd (ts_table_version schema) cols inc (td_rows td))
      else map_of (td_secondary td) k)"
  by (simp add: register_secondary_index_def Let_def update_conv')

lemma register_exists:
  "map_of (td_secondary (snd (register_secondary_index cd schema td cols inc))) (secondary_index_key cols inc) \<noteq> None"
  unfolding register_map_of by (auto simp: secondary_index_registration_status_def split: option.splits)

lemma register_mono:
  "map_of (td_secondary td) k \<noteq> None \<Longrightarrow> map_of (td_secondary (snd (register_secondary_index cd schema td cols inc))) k \<noteq> None"
  unfolding register_map_of by auto

lemma register_defs_mono:
  "map_of (td_secondary td) k \<noteq> None \<Longrightarrow> map_of (td_secondary (register_defs cd schema ds td)) k \<noteq> None"
proof (induction ds arbitrary: td)
  case (Cons d ds)
  show ?case unfolding register_defs.simps by (rule Cons.IH [OF register_mono [OF Cons.prems]])
qed simp

lemma register_defs_registered:
  "d \<in> set ds \<Longrightarrow> map_of (td_secondary (register_defs cd schema ds td)) (secondary_index_key (ci_columns d) []) \<noteq> None"
proof (induction ds arbitrary: td)
  case (Cons e ds)
  then show ?case using register_defs_mono [OF register_exists] by (cases "d = e") auto
qed simp

lemma register_secs_ok:
  assumes "secs_ok cd schema td" "index_names_ok schema" "d \<in> set (mysql_compat_index_defs schema)"
  shows "secs_ok cd schema (snd (register_secondary_index cd schema td (ci_columns d) []))"
  using assms index_def_columns [OF assms(3)] build_secondary_index_exact [of "ci_columns d"]
  by (auto simp: secs_ok_def register_map_of index_named_def index_names_ok_def build_secondary_index_def
      split: if_splits)

lemma register_defs_secs_ok:
  assumes "secs_ok cd schema td" "index_names_ok schema" "set ds \<subseteq> set (mysql_compat_index_defs schema)"
  shows "secs_ok cd schema (register_defs cd schema ds td)"
  using assms by (induction ds arbitrary: td) (auto intro: register_secs_ok)

lemma rebuild_rows [simp]:
  "td_rows (rebuild_secondary_indexes_if_stale cd schema td) = td_rows td"
  "td_pk_index (rebuild_secondary_indexes_if_stale cd schema td) = td_pk_index td"
  by (simp_all add: rebuild_secondary_indexes_if_stale_def Let_def ensure_mysql_compat_secondary_indexes_def)

lemma rebuild_if_stale_exact:
  assumes "si_columns ix \<noteq> []"
    and "si_built_version ix = ts_table_version schema \<longrightarrow> index_exact cd (live_map rows) ix"
  shows "index_exact cd (live_map rows) (rebuild_if_stale cd schema rows ix)"
    and "si_built_version (rebuild_if_stale cd schema rows ix) = ts_table_version schema"
    and "si_columns (rebuild_if_stale cd schema rows ix) = si_columns ix"
  using assms build_secondary_index_exact [of "si_columns ix"]
  by (auto simp: rebuild_if_stale_def) (simp_all add: build_secondary_index_def)

lemma rebuild_secs_exact:
  assumes ok: "secs_ok cd schema td" and names: "index_names_ok schema"
  shows "secs_exact cd schema (live_map (td_rows td)) (rebuild_secondary_indexes_if_stale cd schema td)"
proof -
  let ?td = "ensure_mysql_compat_secondary_indexes cd schema td"
  have "secs_ok cd schema ?td"
    unfolding ensure_mysql_compat_secondary_indexes_def by (rule register_defs_secs_ok [OF ok names subset_refl])
  moreover have "td_rows ?td = td_rows td" by (simp add: ensure_mysql_compat_secondary_indexes_def)
  moreover have "\<forall>d \<in> set (mysql_compat_index_defs schema).
      map_of (td_secondary ?td) (secondary_index_key (ci_columns d) []) \<noteq> None"
    unfolding ensure_mysql_compat_secondary_indexes_def by (intro ballI register_defs_registered)
  ultimately show ?thesis
    by (fastforce simp: secs_exact_def secs_ok_def rebuild_secondary_indexes_if_stale_def index_named_def
        rebuild_if_stale_exact)
qed

lemma secs_exact_ok: "secs_exact cd schema (live_map (td_rows td)) td \<Longrightarrow> secs_ok cd schema td"
  by (auto simp: secs_exact_def secs_ok_def index_exact_def)

section \<open>Maintenance keeps the indexes exact\<close>

lemma add_row_simps [simp]:
  "td_rows (secondary_index_add_row cd i row td) = td_rows td"
  "td_pk_index (secondary_index_add_row cd i row td) = td_pk_index td"
  "td_rows (secondary_index_remove_row cd i row td) = td_rows td"
  "td_pk_index (secondary_index_remove_row cd i row td) = td_pk_index td"
  "td_rows (set_secondary_indexes_built_version v td) = td_rows td"
  "td_pk_index (set_secondary_indexes_built_version v td) = td_pk_index td"
  by (simp_all add: secondary_index_add_row_def secondary_index_remove_row_def
      set_secondary_indexes_built_version_def)

lemma index_row_header [simp]:
  "si_columns (index_add_row cd i row ix) = si_columns ix"
  "si_built_version (index_add_row cd i row ix) = si_built_version ix"
  "si_columns (index_remove_row cd i row ix) = si_columns ix"
  "si_built_version (index_remove_row cd i row ix) = si_built_version ix"
  by (simp_all add: index_add_row_def index_remove_row_def Let_def split: option.splits)

lemma secs_exact_add:
  "\<lbrakk>secs_exact cd schema L td; L i = None\<rbrakk>
    \<Longrightarrow> secs_exact cd schema (L(i \<mapsto> row)) (secondary_index_add_row cd i row td)"
  by (fastforce simp: secs_exact_def secondary_index_add_row_def index_named_def intro: index_exact_add)

lemma secs_exact_remove:
  "\<lbrakk>secs_exact cd schema L td; L i = Some row\<rbrakk>
    \<Longrightarrow> secs_exact cd schema (L(i := None)) (secondary_index_remove_row cd i row td)"
  by (fastforce simp: secs_exact_def secondary_index_remove_row_def index_named_def intro: index_exact_remove)

text \<open>Only the version, the indexed columns and the index definitions of the schema matter.\<close>

lemma secs_exact_cong:
  "\<lbrakk>ts_compat_mysql schema' = ts_compat_mysql schema; ts_table_version schema' = ts_table_version schema;
    td_secondary td' = td_secondary td\<rbrakk>
    \<Longrightarrow> secs_exact cd schema' L td' = secs_exact cd schema L td"
  by (simp add: secs_exact_def index_named_def mysql_compat_index_defs_def)

lemma index_defs_bump [simp]: "mysql_compat_index_defs (bump_table_version schema) = mysql_compat_index_defs schema"
  by (simp add: mysql_compat_index_defs_def bump_table_version_def)

lemma index_exact_set_version [simp]: "index_exact cd L (ix\<lparr>si_built_version := v\<rparr>) = index_exact cd L ix"
  by (simp add: index_exact_def)

lemma secs_exact_bump:
  "secs_exact cd schema L td \<Longrightarrow>
     secs_exact cd (bump_table_version schema) L
       (set_secondary_indexes_built_version (ts_table_version (bump_table_version schema)) td)"
  by (fastforce simp: secs_exact_def set_secondary_indexes_built_version_def index_named_def)

section \<open>The unique check is a scan of the live rows\<close>

text \<open>
  Two rows clash on the columns of a unique index when neither has a null there, their keys are
  the same text and their values are equal.
\<close>

definition rows_clash :: "codecs \<Rightarrow> string list \<Rightarrow> row_object \<Rightarrow> row_object \<Rightarrow> bool" where
  "rows_clash cd columns row other \<longleftrightarrow>
     mysql_compat_unique_key cd columns row \<noteq> None \<and>
     mysql_compat_unique_key cd columns other = mysql_compat_unique_key cd columns row \<and>
     row_matches_compat_index row other columns"

text \<open>The reference: for each unique definition, look at every live row but the skipped one.\<close>

fun unique_conflict_scan ::
    "codecs \<Rightarrow> row_entry list \<Rightarrow> row_object \<Rightarrow> nat option \<Rightarrow> compat_index_def list \<Rightarrow> string option" where
  "unique_conflict_scan cd rows row skip_idx [] = None"
| "unique_conflict_scan cd rows row skip_idx (d # ds) =
     (if \<exists>i \<in> {..<length rows}. skip_idx \<noteq> Some i \<and> \<not> re_deleted (rows ! i) \<and>
           rows_clash cd (ci_columns d) row (re_row (rows ! i))
      then Some (ci_name d)
      else unique_conflict_scan cd rows row skip_idx ds)"

lemma unique_values_column_values:
  "unique_values cols row = Some vs \<Longrightarrow> column_values cols row = Some vs"
  by (induction cols arbitrary: vs) (auto split: option.splits if_splits)

lemma unique_key_row_key:
  "mysql_compat_unique_key cd cols row = Some k \<Longrightarrow> secondary_index_row_key cd cols row = Some k"
  by (auto simp: mysql_compat_unique_key_def secondary_index_row_key_def secondary_index_value_key_def
      dest: unique_values_column_values split: option.splits if_splits)

lemma row_matches_unique_values:
  "row_matches_cols row other cols \<Longrightarrow> unique_values cols other = column_values cols other"
  by (induction cols) (auto split: option.splits)

lemma row_matches_unique_key:
  "row_matches_compat_index row other cols \<Longrightarrow>
     mysql_compat_unique_key cd cols other = secondary_index_row_key cd cols other"
  using row_matches_unique_values [of row other cols]
  by (simp add: row_matches_compat_index_def mysql_compat_unique_key_def secondary_index_row_key_def
      secondary_index_value_key_def split: option.split)

lemma index_bucket_iff:
  "\<lbrakk>index_exact cd (live_map rows) ix; si_columns ix = cols\<rbrakk> \<Longrightarrow>
     i \<in> set (bucket (si_keys ix) k) \<longleftrightarrow>
     i < length rows \<and> \<not> re_deleted (rows ! i) \<and> secondary_index_row_key cd cols (re_row (rows ! i)) = Some k"
  by (auto simp: index_exact_def live_map_def split: if_splits)

lemma index_candidates_scan:
  assumes "index_exact cd (live_map rows) ix" "si_columns ix = cols"
    and "mysql_compat_unique_key cd cols row = Some k"
  shows "list_ex (candidate_conflicts rows row cols skip_idx) (bucket (si_keys ix) k) \<longleftrightarrow>
    (\<exists>i \<in> {..<length rows}. skip_idx \<noteq> Some i \<and> \<not> re_deleted (rows ! i) \<and> rows_clash cd cols row (re_row (rows ! i)))"
  using assms(3) unfolding list_ex_iff Bex_def index_bucket_iff [OF assms(1,2)]
  by (auto simp: candidate_conflicts_def rows_clash_def row_matches_unique_key dest: unique_key_row_key)

lemma unique_conflict_defs_scan:
  assumes "secs_exact cd schema (live_map (td_rows td)) td"
    and "set ds \<subseteq> set (mysql_compat_index_defs schema)"
  shows "unique_conflict_defs cd td row skip_idx ds = unique_conflict_scan cd (td_rows td) row skip_idx ds"
  using assms(2)
proof (induction ds)
  case (Cons d ds)
  then have IH: "unique_conflict_defs cd td row skip_idx ds = unique_conflict_scan cd (td_rows td) row skip_idx ds"
    and d: "d \<in> set (mysql_compat_index_defs schema)" by auto
  obtain ix where ix: "map_of (td_secondary td) (secondary_index_key (ci_columns d) []) = Some ix"
    using assms(1) d by (auto simp: secs_exact_def)
  then have exact: "index_exact cd (live_map (td_rows td)) ix" and cols: "si_columns ix = ci_columns d"
    using assms(1) d by (auto simp: secs_exact_def index_named_def)
  show ?case
  proof (cases "mysql_compat_unique_key cd (ci_columns d) row")
    case None
    then show ?thesis by (simp add: IH rows_clash_def)
  next
    case (Some k)
    have "unique_conflict_defs cd td row skip_idx (d # ds) =
        (if list_ex (candidate_conflicts (td_rows td) row (ci_columns d) skip_idx) (bucket (si_keys ix) k)
         then Some (ci_name d) else unique_conflict_defs cd td row skip_idx ds)"
      using Some ix by (simp add: bucket_def split: option.splits)
    then show ?thesis
      unfolding index_candidates_scan [OF exact cols Some] IH unique_conflict_scan.simps .
  qed
qed simp

text \<open>
  (C3) The unique check of a write, which consults the secondary indexes (rebuilding the stale
  ones), gives the same answer as scanning every live row of the table: the name of the first
  unique index on which another live row clashes with the new row, or none.
\<close>

theorem unique_check_is_scan:
  assumes "secs_ok cd schema td" and "index_names_ok schema"
  shows "fst (mysql_compat_unique_conflict cd schema td row skip_idx) =
    unique_conflict_scan cd (td_rows td) row skip_idx (filter ci_unique (mysql_compat_index_defs schema))"
  using rebuild_secs_exact [OF assms]
  by (simp add: mysql_compat_unique_conflict_def Let_def unique_conflict_defs_scan [where schema = schema])

text \<open>A users table with a unique index on the e-mail address, for the witnesses.\<close>

definition demo_codecs :: codecs where
  "demo_codecs =
     \<lparr>cd_lits_json = concat \<circ> map (\<lambda>l. case l of LStr s \<Rightarrow> s @ '';'' | LU64 v \<Rightarrow> CHR ''#'' # replicate (unat v) CHR ''|'' @ '';'' | _ \<Rightarrow> ''?;''),
      cd_lit_of_value = (\<lambda>_. None), cd_etag = (\<lambda>_ _. [])\<rparr>"

definition demo_schema :: table_schema where
  "demo_schema =
     \<lparr>ts_columns = [], ts_primary_key = [''id''],
      ts_compat_mysql = Some (JObj [(''indexes'', JArr [JObj [(''columns'', JArr [JStr ''email'']),
        (''name'', JStr ''u_email''), (''unique'', JBool True)]])]),
      ts_table_version = 1, ts_auto_inc_next = []\<rparr>"

definition demo_row :: "u64 \<Rightarrow> string \<Rightarrow> row_object" where
  "demo_row n mail = [(''email'', LStr mail), (''id'', LU64 n)]"

definition demo_entry :: "row_object \<Rightarrow> u64 \<Rightarrow> row_entry" where
  "demo_entry row v = \<lparr>re_row = row, re_version = v, re_schema_version = 1, re_deleted = False, re_commit_ts_ms = 9\<rparr>"

definition demo_table :: table_data where
  "demo_table = \<lparr>td_rows = [demo_entry (demo_row 1 ''ann'') 1, demo_entry (demo_row 2 ''bob'') 2],
     td_pk_index = [(''#|;'', 0), (''#||;'', 1)], td_secondary = []\<rparr>"

lemma demo_defs [simp]:
  "mysql_compat_index_defs demo_schema = [\<lparr>ci_name = ''u_email'', ci_columns = [''email''], ci_unique = True\<rparr>]"
  by code_simp

lemma demo_schema_names [simp]: "index_names_ok demo_schema"
  by (simp add: index_names_ok_def)

theorem unique_check_is_scan_witness:
  "secs_ok demo_codecs demo_schema demo_table \<and> index_names_ok demo_schema \<and>
   fst (mysql_compat_unique_conflict demo_codecs demo_schema demo_table (demo_row 3 ''bob'') None) = Some ''u_email'' \<and>
   fst (mysql_compat_unique_conflict demo_codecs demo_schema demo_table (demo_row 2 ''bob'') (Some 1)) = None"
proof -
  have ok: "secs_ok demo_codecs demo_schema demo_table" by (simp add: secs_ok_def demo_table_def)
  have "unique_conflict_scan demo_codecs (td_rows demo_table) (demo_row 3 ''bob'') None
      (filter ci_unique (mysql_compat_index_defs demo_schema)) = Some ''u_email''"
    by code_simp
  moreover have "unique_conflict_scan demo_codecs (td_rows demo_table) (demo_row 2 ''bob'') (Some 1)
      (filter ci_unique (mysql_compat_index_defs demo_schema)) = None"
    by code_simp
  ultimately show ?thesis
    using ok by (simp add: unique_check_is_scan [OF ok demo_schema_names])
qed

end
