(* ===== verification/Engine_Dml.thy ===== *)
theory Engine_Dml
  imports Engine_Index
begin

text \<open>
  The row writes of the engine: the blocks of \<open>data_insert\<close>, \<open>data_update_exprs\<close> and
  \<open>data_delete\<close> that change a table in memory and collect its redo records. A write that fails
  part-way keeps what it has already done, so every operation returns its result together with
  the state reached. The predicate and the assigned expressions are functions of the current
  row; the clock gives the time of each row's write. The change feed, the value-store
  statistics, the column snapshots and the vector indexes are other parts of the engine's state,
  which these operations only write to.
\<close>

section \<open>Redo records\<close>

record wal_row_record =
  wr_db :: string
  wr_table :: string
  wr_pk :: "lit list"
  wr_row :: row_object
  wr_version :: u64
  wr_schema_version :: u64
  wr_deleted :: bool
  wr_commit_ts_ms :: u64

record table_ref =
  tr_db :: string
  tr_table :: string

definition from_entry :: "string \<Rightarrow> string \<Rightarrow> lit list \<Rightarrow> row_entry \<Rightarrow> wal_row_record" where
  "from_entry db table pk entry =
     \<lparr>wr_db = db, wr_table = table, wr_pk = pk, wr_row = re_row entry, wr_version = re_version entry,
      wr_schema_version = re_schema_version entry, wr_deleted = re_deleted entry,
      wr_commit_ts_ms = re_commit_ts_ms entry\<rparr>"

text \<open>The variables of a running statement: schema, table, collected records, last id, count.\<close>

record dml_state =
  dm_schema :: table_schema
  dm_td :: table_data
  dm_wal :: "wal_row_record list"
  dm_last_insert_id :: u64
  dm_affected :: nat

type_synonym 'a dml_result = "(engine_error + 'a) \<times> dml_state"

definition dml_start :: "table_schema \<Rightarrow> table_data \<Rightarrow> dml_state" where
  "dml_start schema td = \<lparr>dm_schema = schema, dm_td = td, dm_wal = [], dm_last_insert_id = 0, dm_affected = 0\<rparr>"

section \<open>Primary-key checks\<close>

text \<open>The row that the primary-key index names, when it is live.\<close>

definition pk_live_at :: "table_data \<Rightarrow> string \<Rightarrow> nat option" where
  "pk_live_at td key =
     (case map_of (td_pk_index td) key of
        None \<Rightarrow> None
      | Some idx \<Rightarrow> if idx < length (td_rows td) \<and> \<not> re_deleted (td_rows td ! idx) then Some idx else None)"

definition primary_key_conflict_key ::
    "codecs \<Rightarrow> table_schema \<Rightarrow> table_data \<Rightarrow> row_object \<Rightarrow> nat option \<Rightarrow> engine_error + string option" where
  "primary_key_conflict_key cd schema td row skip_idx =
     bindE (extract_pk schema row) (\<lambda>pk.
       let key = pk_key cd pk in
       Inr (case map_of (td_pk_index td) key of
              None \<Rightarrow> None
            | Some idx \<Rightarrow>
                if skip_idx \<noteq> Some idx \<and> idx < length (td_rows td) \<and> \<not> re_deleted (td_rows td ! idx)
                then Some key else None))"

section \<open>Insert\<close>

definition insert_row ::
    "codecs \<Rightarrow> table_ref \<Rightarrow> u64 \<Rightarrow> u64 \<Rightarrow> row_object \<Rightarrow> dml_state \<Rightarrow> unit dml_result" where
  "insert_row cd tref row_schema_version now row st =
     (case apply_defaults_and_autoinc cd (dm_schema st) row (dm_last_insert_id st) of
        Inl e \<Rightarrow> (Inl e, st)
      | Inr (schema, row, last_id) \<Rightarrow>
          let st = st\<lparr>dm_schema := schema, dm_last_insert_id := last_id\<rparr> in
          (case not_null_violation schema row of
             Some col \<Rightarrow> (Inl (NullForNonNullColumn col), st)
           | None \<Rightarrow>
               (case mysql_compat_unique_conflict cd schema (dm_td st) row None of
                  (Some index_name, td) \<Rightarrow> (Inl (DuplicateKey index_name), st\<lparr>dm_td := td\<rparr>)
                | (None, td) \<Rightarrow>
                    let st = st\<lparr>dm_td := td\<rparr> in
                    (case extract_pk schema row of
                       Inl e \<Rightarrow> (Inl e, st)
                     | Inr pk \<Rightarrow>
                         if pk_live_at td (pk_key cd pk) \<noteq> None
                         then (Inl (DuplicateKey (primary_key_index_name schema)), st)
                         else
                           let idx = length (td_rows td);
                               entry = \<lparr>re_row = row, re_version = next_row_version schema,
                                        re_schema_version = row_schema_version, re_deleted = False,
                                        re_commit_ts_ms = now\<rparr>;
                               td = td\<lparr>td_rows := td_rows td @ [entry],
                                       td_pk_index := AList.update (pk_key cd pk) idx (td_pk_index td)\<rparr>
                           in (Inr (),
                               st\<lparr>dm_td := secondary_index_add_row cd idx row td,
                                  dm_wal := dm_wal st @ [from_entry (tr_db tref) (tr_table tref) pk entry],
                                  dm_affected := dm_affected st + 1\<rparr>)))))"

fun insert_rows ::
    "codecs \<Rightarrow> table_ref \<Rightarrow> u64 \<Rightarrow> (nat \<Rightarrow> u64) \<Rightarrow> row_object list \<Rightarrow> dml_state \<Rightarrow> unit dml_result" where
  "insert_rows cd tref sv clock [] st = (Inr (), st)"
| "insert_rows cd tref sv clock (row # rows) st =
     (case insert_row cd tref sv (clock (dm_affected st)) row st of
        (Inl e, st) \<Rightarrow> (Inl e, st)
      | (Inr _, st) \<Rightarrow> insert_rows cd tref sv clock rows st)"

definition finish_statement :: "dml_state \<Rightarrow> dml_state" where
  "finish_statement st =
     (let schema = bump_table_version (dm_schema st) in
      st\<lparr>dm_schema := schema,
         dm_td := set_secondary_indexes_built_version (ts_table_version schema) (dm_td st)\<rparr>)"

text \<open>The result says whether the catalog has to be persisted for an auto-increment counter.\<close>

definition data_insert_rows ::
    "codecs \<Rightarrow> table_ref \<Rightarrow> u64 \<Rightarrow> (nat \<Rightarrow> u64) \<Rightarrow> row_object list \<Rightarrow> table_schema \<Rightarrow> table_data \<Rightarrow> bool dml_result" where
  "data_insert_rows cd tref sv clock rows schema td =
     (case insert_rows cd tref sv clock rows (dml_start schema (rebuild_secondary_indexes_if_stale cd schema td)) of
        (Inl e, st) \<Rightarrow> (Inl e, st)
      | (Inr _, st) \<Rightarrow>
          (Inr (dm_affected st > 0 \<and> list_ex cs_auto_increment (ts_columns (dm_schema st))),
           finish_statement st))"

section \<open>Update\<close>

type_synonym row_pred = "row_object \<Rightarrow> engine_error + bool"
type_synonym row_expr = "row_object \<Rightarrow> engine_error + lit"

fun assign_columns :: "(string \<times> row_expr) list \<Rightarrow> row_object \<Rightarrow> row_object \<Rightarrow> engine_error + row_object" where
  "assign_columns [] current new = Inr new"
| "assign_columns ((k, expr) # sets) current new =
     bindE (expr current) (\<lambda>lit. assign_columns sets current (bt_insert k lit new))"

text \<open>
  The checks of one row, in the order of the code: \<open>None\<close> when the row is skipped, otherwise
  the new row with the old and the new primary key.
\<close>

definition check_update ::
    "codecs \<Rightarrow> row_pred \<Rightarrow> (string \<times> row_expr) list \<Rightarrow> string option \<Rightarrow> nat \<Rightarrow> table_schema \<Rightarrow> table_data
       \<Rightarrow> (engine_error + (row_object \<times> lit list \<times> lit list) option) \<times> table_data" where
  "check_update cd pred sets if_match idx schema td =
     (let entry = td_rows td ! idx; current_row = re_row entry in
      if re_deleted entry then (Inr None, td)
      else case pred current_row of
        Inl e \<Rightarrow> (Inl e, td)
      | Inr False \<Rightarrow> (Inr None, td)
      | Inr True \<Rightarrow>
          if (case if_match of None \<Rightarrow> False | Some tag \<Rightarrow> cd_etag cd current_row (re_version entry) \<noteq> tag)
          then (Inl EtagConflict, td)
          else case assign_columns sets current_row current_row of
            Inl e \<Rightarrow> (Inl e, td)
          | Inr new_row \<Rightarrow>
              (case not_null_violation schema new_row of
                 Some col \<Rightarrow> (Inl (NullForNonNullColumn col), td)
               | None \<Rightarrow>
                   (case extract_pk schema current_row of
                      Inl e \<Rightarrow> (Inl e, td)
                    | Inr current_pk \<Rightarrow>
                        (case primary_key_conflict_key cd schema td new_row (Some idx) of
                           Inl e \<Rightarrow> (Inl e, td)
                         | Inr (Some _) \<Rightarrow> (Inl (DuplicateKey (primary_key_index_name schema)), td)
                         | Inr None \<Rightarrow>
                             (case mysql_compat_unique_conflict cd schema td new_row (Some idx) of
                                (Some index_name, td) \<Rightarrow> (Inl (DuplicateKey index_name), td)
                              | (None, td) \<Rightarrow>
                                  (case extract_pk schema new_row of
                                     Inl e \<Rightarrow> (Inl e, td)
                                   | Inr new_pk \<Rightarrow> (Inr (Some (new_row, current_pk, new_pk)), td)))))))"

definition update_row ::
    "codecs \<Rightarrow> table_ref \<Rightarrow> u64 \<Rightarrow> u64 \<Rightarrow> row_pred \<Rightarrow> (string \<times> row_expr) list \<Rightarrow> string option \<Rightarrow> nat \<Rightarrow> dml_state
       \<Rightarrow> bool dml_result" where
  "update_row cd tref row_schema_version now pred sets if_match idx st =
     (case check_update cd pred sets if_match idx (dm_schema st) (dm_td st) of
        (Inl e, td) \<Rightarrow> (Inl e, st\<lparr>dm_td := td\<rparr>)
      | (Inr None, td) \<Rightarrow> (Inr False, st\<lparr>dm_td := td\<rparr>)
      | (Inr (Some (new_row, current_pk, new_pk)), td) \<Rightarrow>
          let current_row = re_row (td_rows td ! idx);
              td = secondary_index_remove_row cd idx current_row td;
              td = secondary_index_add_row cd idx new_row
                     (td\<lparr>td_rows := (td_rows td)[idx := (td_rows td ! idx)\<lparr>re_row := new_row\<rparr>]\<rparr>);
              pk_changed = pk_key cd current_pk \<noteq> pk_key cd new_pk;
              td = (if pk_changed
                    then td\<lparr>td_pk_index := AList.update (pk_key cd new_pk) idx
                             (AList.delete (pk_key cd current_pk) (td_pk_index td))\<rparr>
                    else td);
              entry = (td_rows td ! idx)\<lparr>re_version := next_row_version (dm_schema st),
                        re_schema_version := row_schema_version, re_commit_ts_ms := now\<rparr>
          in (Inr True,
              st\<lparr>dm_td := td\<lparr>td_rows := (td_rows td)[idx := entry]\<rparr>,
                 dm_affected := dm_affected st + 1,
                 dm_wal := dm_wal st @ [from_entry (tr_db tref) (tr_table tref) new_pk entry] @
                   (if pk_changed
                    then [\<lparr>wr_db = tr_db tref, wr_table = tr_table tref, wr_pk = current_pk, wr_row = current_row,
                           wr_version = re_version entry, wr_schema_version = re_schema_version entry,
                           wr_deleted = True, wr_commit_ts_ms = re_commit_ts_ms entry\<rparr>]
                    else [])\<rparr>))"

text \<open>The loop over positions, shared by update and delete; it stops at the limit.\<close>

fun for_rows :: "(nat \<Rightarrow> dml_state \<Rightarrow> bool dml_result) \<Rightarrow> u64 option \<Rightarrow> nat list \<Rightarrow> dml_state \<Rightarrow> unit dml_result" where
  "for_rows f lim [] st = (Inr (), st)"
| "for_rows f lim (idx # idxs) st =
     (case f idx st of
        (Inl e, st) \<Rightarrow> (Inl e, st)
      | (Inr hit, st) \<Rightarrow>
          if hit \<and> (case lim of Some l \<Rightarrow> unat l \<le> dm_affected st | None \<Rightarrow> False) then (Inr (), st)
          else for_rows f lim idxs st)"

definition for_all_rows ::
    "codecs \<Rightarrow> (nat \<Rightarrow> dml_state \<Rightarrow> bool dml_result) \<Rightarrow> u64 option \<Rightarrow> table_schema \<Rightarrow> table_data \<Rightarrow> unit dml_result" where
  "for_all_rows cd f lim schema td =
     (case for_rows f lim [0..<length (td_rows td)]
             (dml_start schema (rebuild_secondary_indexes_if_stale cd schema td)) of
        (Inl e, st) \<Rightarrow> (Inl e, st)
      | (Inr _, st) \<Rightarrow> (Inr (), if dm_affected st > 0 then finish_statement st else st))"

definition data_update_rows ::
    "codecs \<Rightarrow> table_ref \<Rightarrow> u64 \<Rightarrow> (nat \<Rightarrow> u64) \<Rightarrow> row_pred \<Rightarrow> (string \<times> row_expr) list \<Rightarrow> u64 option \<Rightarrow> string option
       \<Rightarrow> table_schema \<Rightarrow> table_data \<Rightarrow> unit dml_result" where
  "data_update_rows cd tref sv clock pred sets lim if_match schema td =
     for_all_rows cd (\<lambda>idx st. update_row cd tref sv (clock (dm_affected st)) pred sets if_match idx st) lim schema td"

section \<open>Delete\<close>

definition delete_row ::
    "codecs \<Rightarrow> table_ref \<Rightarrow> u64 \<Rightarrow> u64 \<Rightarrow> row_pred \<Rightarrow> nat \<Rightarrow> dml_state \<Rightarrow> bool dml_result" where
  "delete_row cd tref row_schema_version now pred idx st =
     (let td = dm_td st; row = re_row (td_rows td ! idx) in
      if re_deleted (td_rows td ! idx) then (Inr False, st)
      else case pred row of
        Inl e \<Rightarrow> (Inl e, st)
      | Inr False \<Rightarrow> (Inr False, st)
      | Inr True \<Rightarrow>
          let td = secondary_index_remove_row cd idx row td;
              entry = (td_rows td ! idx)\<lparr>re_deleted := True, re_version := next_row_version (dm_schema st),
                        re_schema_version := row_schema_version, re_commit_ts_ms := now\<rparr>
          in (Inr True,
              st\<lparr>dm_td := td\<lparr>td_rows := (td_rows td)[idx := entry]\<rparr>,
                 dm_affected := dm_affected st + 1,
                 dm_wal := dm_wal st @
                   (case extract_pk (dm_schema st) row of
                      Inl _ \<Rightarrow> []
                    | Inr pk \<Rightarrow> [from_entry (tr_db tref) (tr_table tref) pk entry])\<rparr>))"

definition data_delete_rows ::
    "codecs \<Rightarrow> table_ref \<Rightarrow> u64 \<Rightarrow> (nat \<Rightarrow> u64) \<Rightarrow> row_pred \<Rightarrow> u64 option \<Rightarrow> table_schema \<Rightarrow> table_data \<Rightarrow> unit dml_result" where
  "data_delete_rows cd tref sv clock pred lim schema td =
     for_all_rows cd (\<lambda>idx st. delete_row cd tref sv (clock (dm_affected st)) pred idx st) lim schema td"

section \<open>Invariant of a table\<close>

definition row_pk_key :: "codecs \<Rightarrow> table_schema \<Rightarrow> row_object \<Rightarrow> string option" where
  "row_pk_key cd schema row = (case extract_pk schema row of Inl _ \<Rightarrow> None | Inr pk \<Rightarrow> Some (pk_key cd pk))"

text \<open>
  Every live row is the one its primary key leads to, and every entry of the primary-key index
  leads to a row (live or deleted) with that key.
\<close>

definition pk_ok :: "codecs \<Rightarrow> table_schema \<Rightarrow> table_data \<Rightarrow> bool" where
  "pk_ok cd schema td \<longleftrightarrow>
     (\<forall>i row. live_map (td_rows td) i = Some row \<longrightarrow>
        (\<exists>k. row_pk_key cd schema row = Some k \<and> map_of (td_pk_index td) k = Some i)) \<and>
     (\<forall>k i. map_of (td_pk_index td) k = Some i \<longrightarrow>
        i < length (td_rows td) \<and> row_pk_key cd schema (re_row (td_rows td ! i)) = Some k)"

text \<open>No two live rows clash on a unique index.\<close>

definition uniq_ok :: "codecs \<Rightarrow> table_schema \<Rightarrow> (nat \<Rightarrow> row_object option) \<Rightarrow> bool" where
  "uniq_ok cd schema L \<longleftrightarrow>
     (\<forall>d \<in> set (filter ci_unique (mysql_compat_index_defs schema)). \<forall>i j row other.
        L i = Some row \<and> L j = Some other \<and> i \<noteq> j \<longrightarrow> \<not> rows_clash cd (ci_columns d) row other)"

definition table_ok :: "codecs \<Rightarrow> table_schema \<Rightarrow> table_data \<Rightarrow> bool" where
  "table_ok cd schema td \<longleftrightarrow>
     index_names_ok schema \<and> pk_ok cd schema td \<and> uniq_ok cd schema (live_map (td_rows td)) \<and> secs_ok cd schema td"

text \<open>While a statement runs all indexes are current.\<close>

definition stmt_ok :: "codecs \<Rightarrow> dml_state \<Rightarrow> bool" where
  "stmt_ok cd st \<longleftrightarrow>
     index_names_ok (dm_schema st) \<and> pk_ok cd (dm_schema st) (dm_td st) \<and>
     uniq_ok cd (dm_schema st) (live_map (td_rows (dm_td st))) \<and>
     secs_exact cd (dm_schema st) (live_map (td_rows (dm_td st))) (dm_td st)"

lemma stmt_ok_table_ok: "stmt_ok cd st \<Longrightarrow> table_ok cd (dm_schema st) (dm_td st)"
  by (simp add: stmt_ok_def table_ok_def secs_exact_ok)

section \<open>Equality of literals is symmetric\<close>

lemma f64_eq_sym: "f64_eq a b = f64_eq b a"
  by (auto simp: f64_eq_def Let_def or.commute)

lemma f32_eq_sym: "f32_eq a b = f32_eq b a"
  by (auto simp: f32_eq_def Let_def or.commute)

lemma json_eq_sym:
  "json_eq a b = json_eq b a" "json_list_eq xs ys = json_list_eq ys xs" "json_fields_eq ms ns = json_fields_eq ns ms"
  by (induction a b and xs ys and ms ns rule: json_eq_json_list_eq_json_fields_eq.induct)
    (auto simp: f64_eq_sym)

lemma list_all2_f32_sym: "list_all2 f32_eq v w = list_all2 f32_eq w v"
  by (metis list.rel_flip f32_eq_sym list_all2_mono conversepI conversepE)

lemma lit_eq_sym: "lit_eq a b = lit_eq b a"
  by (cases "(a, b)" rule: lit_eq.cases) (auto simp: f64_eq_sym json_eq_sym(1) list_all2_f32_sym)

lemma row_matches_cols_sym: "row_matches_cols row other cols = row_matches_cols other row cols"
  by (induction cols) (auto simp: lit_eq_sym split: option.splits)

lemma rows_clash_sym: "rows_clash cd cols row other = rows_clash cd cols other row"
  by (auto simp: rows_clash_def row_matches_compat_index_def row_matches_cols_sym)

section \<open>What the invariant reads of the schema\<close>

definition same_layout :: "table_schema \<Rightarrow> table_schema \<Rightarrow> bool" where
  "same_layout s s' \<longleftrightarrow>
     ts_columns s' = ts_columns s \<and> ts_primary_key s' = ts_primary_key s \<and> ts_compat_mysql s' = ts_compat_mysql s"

lemma same_layout_refl [simp]: "same_layout s s"
  by (simp add: same_layout_def)

lemma same_layout_bump [simp]: "same_layout s (bump_table_version s)"
  by (simp add: same_layout_def bump_table_version_def)

lemma apply_defaults_cols_layout:
  "apply_defaults_cols cd cols (s, row, i) = Inr (s', row', i') \<Longrightarrow>
     same_layout s s' \<and> ts_table_version s' = ts_table_version s"
proof (induction cols arbitrary: s row i)
  case (Cons col cols)
  then show ?case
    by (fastforce simp: same_layout_def Let_def split: if_splits option.splits)
qed simp

lemma apply_defaults_layout:
  "apply_defaults_and_autoinc cd s row i = Inr (s', row', i') \<Longrightarrow>
     same_layout s s' \<and> ts_table_version s' = ts_table_version s"
  unfolding apply_defaults_and_autoinc_def by (rule apply_defaults_cols_layout)

lemma layout_congs:
  assumes "same_layout s s'"
  shows "extract_pk s' = extract_pk s" "row_pk_key cd s' = row_pk_key cd s" "pk_ok cd s' = pk_ok cd s"
    "uniq_ok cd s' = uniq_ok cd s" "index_names_ok s' = index_names_ok s"
    "mysql_compat_index_defs s' = mysql_compat_index_defs s"
proof -
  show 1: "extract_pk s' = extract_pk s" using assms by (simp add: same_layout_def extract_pk_def fun_eq_iff)
  then show 2: "row_pk_key cd s' = row_pk_key cd s" by (simp add: row_pk_key_def fun_eq_iff)
  then show "pk_ok cd s' = pk_ok cd s" by (simp add: pk_ok_def fun_eq_iff)
  show 3: "mysql_compat_index_defs s' = mysql_compat_index_defs s"
    using assms by (simp add: same_layout_def mysql_compat_index_defs_def)
  then show "uniq_ok cd s' = uniq_ok cd s" "index_names_ok s' = index_names_ok s"
    by (simp_all add: uniq_ok_def index_names_ok_def fun_eq_iff)
qed

lemma stmt_ok_layout:
  assumes "same_layout (dm_schema st) s" "ts_table_version s = ts_table_version (dm_schema st)"
  shows "stmt_ok cd (st\<lparr>dm_schema := s, dm_last_insert_id := i\<rparr>) = stmt_ok cd st"
  using layout_congs [OF assms(1)] secs_exact_cong [of s "dm_schema st"] assms
  by (simp add: stmt_ok_def same_layout_def)

lemma stmt_ok_accs [simp]:
  "stmt_ok cd (st\<lparr>dm_td := td, dm_wal := w, dm_affected := n\<rparr>) = stmt_ok cd (st\<lparr>dm_td := td\<rparr>)"
  "stmt_ok cd (st\<lparr>dm_td := td, dm_affected := n, dm_wal := w\<rparr>) = stmt_ok cd (st\<lparr>dm_td := td\<rparr>)"
  by (simp_all add: stmt_ok_def)

section \<open>The checks\<close>

text \<open>The unique check leaves the statement's invariant and finds every clash.\<close>

lemma unique_conflict_stmt:
  assumes "stmt_ok cd st" and "mysql_compat_unique_conflict cd (dm_schema st) (dm_td st) row skip_idx = (r, td)"
  shows "stmt_ok cd (st\<lparr>dm_td := td\<rparr>)" and "td_rows td = td_rows (dm_td st)" and "td_pk_index td = td_pk_index (dm_td st)"
    and "r = unique_conflict_scan cd (td_rows (dm_td st)) row skip_idx
           (filter ci_unique (mysql_compat_index_defs (dm_schema st)))"
proof -
  have ok: "secs_ok cd (dm_schema st) (dm_td st)" and names: "index_names_ok (dm_schema st)"
    using assms(1) by (simp_all add: stmt_ok_def secs_exact_ok)
  have td: "td = rebuild_secondary_indexes_if_stale cd (dm_schema st) (dm_td st)"
    using assms(2) by (simp add: mysql_compat_unique_conflict_def Let_def)
  then show rows: "td_rows td = td_rows (dm_td st)" and "td_pk_index td = td_pk_index (dm_td st)" by simp_all
  then show "stmt_ok cd (st\<lparr>dm_td := td\<rparr>)"
    using assms(1) rebuild_secs_exact [OF ok names] td by (simp add: stmt_ok_def pk_ok_def)
  show "r = unique_conflict_scan cd (td_rows (dm_td st)) row skip_idx
           (filter ci_unique (mysql_compat_index_defs (dm_schema st)))"
    using assms(2) rebuild_secs_exact [OF ok names]
    by (auto simp: mysql_compat_unique_conflict_def Let_def unique_conflict_defs_scan [where schema = "dm_schema st"])
qed

lemma scan_None:
  "unique_conflict_scan cd rows row skip_idx ds = None \<Longrightarrow> d \<in> set ds \<Longrightarrow>
     live_map rows i = Some other \<Longrightarrow> skip_idx \<noteq> Some i \<Longrightarrow> \<not> rows_clash cd (ci_columns d) row other"
  by (induction ds) (auto dest!: live_map_SomeD split: if_splits)

lemma uniq_ok_write:
  assumes "uniq_ok cd s L" "L = live_map rows"
    and "unique_conflict_scan cd rows row skip_idx (filter ci_unique (mysql_compat_index_defs s)) = None"
    and "skip_idx \<in> {None, Some i}"
  shows "uniq_ok cd s (L(i \<mapsto> row))"
  unfolding uniq_ok_def
proof (intro ballI allI impI)
  fix d j k r t
  assume d: "d \<in> set (filter ci_unique (mysql_compat_index_defs s))"
    and "(L(i \<mapsto> row)) j = Some r \<and> (L(i \<mapsto> row)) k = Some t \<and> j \<noteq> k"
  moreover have clash: "\<not> rows_clash cd (ci_columns d) row other" if "L m = Some other" "m \<noteq> i" for m other
    using scan_None [OF assms(3) d, of m other] that assms(2,4) by auto
  ultimately show "\<not> rows_clash cd (ci_columns d) r t"
    using assms(1) d rows_clash_sym [of cd "ci_columns d" r t] by (auto simp: uniq_ok_def split: if_splits)
qed

lemma uniq_ok_remove: "uniq_ok cd s L \<Longrightarrow> uniq_ok cd s (L(i := None))"
  by (auto simp: uniq_ok_def)

section \<open>Insert keeps the invariant\<close>

lemma pk_ok_live:
  "\<lbrakk>pk_ok cd s td; live_map (td_rows td) i = Some row\<rbrakk>
    \<Longrightarrow> \<exists>k. row_pk_key cd s row = Some k \<and> map_of (td_pk_index td) k = Some i"
  unfolding pk_ok_def by blast

lemma pk_ok_index:
  "\<lbrakk>pk_ok cd s td; map_of (td_pk_index td) k = Some i\<rbrakk>
    \<Longrightarrow> i < length (td_rows td) \<and> row_pk_key cd s (re_row (td_rows td ! i)) = Some k"
  unfolding pk_ok_def by blast

lemma pk_ok_append:
  assumes "pk_ok cd s td" "row_pk_key cd s (re_row e) = Some k" "pk_live_at td k = None" "\<not> re_deleted e"
  shows "pk_ok cd s (td\<lparr>td_rows := td_rows td @ [e], td_pk_index := AList.update k (length (td_rows td)) (td_pk_index td)\<rparr>)"
proof -
  let ?td = "td\<lparr>td_rows := td_rows td @ [e], td_pk_index := AList.update k (length (td_rows td)) (td_pk_index td)\<rparr>"
  have "\<exists>k'. row_pk_key cd s row = Some k' \<and> map_of (td_pk_index ?td) k' = Some i"
    if live: "live_map (td_rows ?td) i = Some row" for i row
  proof (cases "i = length (td_rows td)")
    case True
    with live assms(2,4) show ?thesis by (simp add: live_map_append update_conv')
  next
    case False
    then have old: "live_map (td_rows td) i = Some row" using live by (simp add: live_map_append)
    then obtain k' where k': "row_pk_key cd s row = Some k'" "map_of (td_pk_index td) k' = Some i"
      using pk_ok_live [OF assms(1)] by blast
    then have "k' \<noteq> k" using assms(3) live_map_SomeD [OF old] by (auto simp: pk_live_at_def)
    with k' show ?thesis by (simp add: update_conv')
  qed
  moreover have "i < length (td_rows ?td) \<and> row_pk_key cd s (re_row (td_rows ?td ! i)) = Some k'"
    if "map_of (td_pk_index ?td) k' = Some i" for i k'
    using that assms(2) pk_ok_index [OF assms(1)] by (cases "k' = k") (force simp: update_conv' nth_append)+
  ultimately show ?thesis unfolding pk_ok_def by blast
qed

lemma insert_row_ok:
  assumes ok: "stmt_ok cd st"
  shows "stmt_ok cd (snd (insert_row cd tref sv now row st))"
proof (cases "apply_defaults_and_autoinc cd (dm_schema st) row (dm_last_insert_id st)")
  case (Inl e)
  with ok show ?thesis by (simp add: insert_row_def)
next
  case (Inr res)
  obtain s row' li where res: "res = (s, row', li)" by (cases res)
  let ?st = "st\<lparr>dm_schema := s, dm_last_insert_id := li\<rparr>"
  have ok': "stmt_ok cd ?st"
    using apply_defaults_layout [of cd "dm_schema st" row "dm_last_insert_id st" s row' li] Inr res ok
    by (simp add: stmt_ok_layout)
  obtain r td where u: "mysql_compat_unique_conflict cd s (dm_td st) row' None = (r, td)"
    by (cases "mysql_compat_unique_conflict cd s (dm_td st) row' None")
  note uc = unique_conflict_stmt [OF ok', of row' None r td]
  have u1: "stmt_ok cd (?st\<lparr>dm_td := td\<rparr>)" and u2: "td_rows td = td_rows (dm_td st)"
    and u3: "r = unique_conflict_scan cd (td_rows td) row' None (filter ci_unique (mysql_compat_index_defs s))"
    using uc u by simp_all
  have final: "stmt_ok cd (?st\<lparr>dm_td := secondary_index_add_row cd (length (td_rows td)) row'
      (td\<lparr>td_rows := td_rows td @ [e], td_pk_index := AList.update (pk_key cd pk) (length (td_rows td)) (td_pk_index td)\<rparr>)\<rparr>)"
    if "r = None" "extract_pk s row' = Inr pk" "pk_live_at td (pk_key cd pk) = None" "re_row e = row'" "\<not> re_deleted e" for pk e
  proof -
    have "pk_ok cd s (td\<lparr>td_rows := td_rows td @ [e], td_pk_index := AList.update (pk_key cd pk) (length (td_rows td)) (td_pk_index td)\<rparr>)"
      using u1 that by (intro pk_ok_append) (simp_all add: stmt_ok_def row_pk_key_def)
    then have "pk_ok cd s (secondary_index_add_row cd (length (td_rows td)) row' (td\<lparr>td_rows := td_rows td @ [e], td_pk_index := AList.update (pk_key cd pk) (length (td_rows td)) (td_pk_index td)\<rparr>))"
      by (simp add: pk_ok_def)
    moreover have "uniq_ok cd s ((live_map (td_rows td))(length (td_rows td) \<mapsto> row'))"
      using u1 u3 that by (intro uniq_ok_write [where skip_idx = None and rows = "td_rows td"]) (simp_all add: stmt_ok_def)
    moreover have "secs_exact cd s ((live_map (td_rows td))(length (td_rows td) \<mapsto> row'))
       (secondary_index_add_row cd (length (td_rows td)) row' (td\<lparr>td_rows := td_rows td @ [e], td_pk_index := AList.update (pk_key cd pk) (length (td_rows td)) (td_pk_index td)\<rparr>))"
      using u1 by (intro secs_exact_add) (simp_all add: stmt_ok_def secs_exact_def)
    ultimately show ?thesis
      using u1 that by (simp add: stmt_ok_def live_map_append)
  qed
  show ?thesis
    using Inr res ok' u u1 final
    by (auto simp: insert_row_def Let_def split: option.splits sum.splits)
qed

section \<open>Update and delete keep the invariant\<close>

lemma pk_ok_replace:
  assumes ok: "pk_ok cd s td" and live: "live_map (td_rows td) i = Some cur"
    and ck: "row_pk_key cd s cur = Some ck" and nk: "row_pk_key cd s (re_row e) = Some nk"
    and free: "\<And>j. map_of (td_pk_index td) nk = Some j \<Longrightarrow> j = i \<or> live_map (td_rows td) j = None"
    and e: "\<not> re_deleted e"
    and idx: "idx = (if ck = nk then td_pk_index td else AList.update nk i (AList.delete ck (td_pk_index td)))"
  shows "pk_ok cd s (td\<lparr>td_rows := (td_rows td)[i := e], td_pk_index := idx\<rparr>)"
proof -
  note i = live_map_SomeD [OF live]
  have cki: "map_of (td_pk_index td) ck = Some i" using pk_ok_live [OF ok live] ck by simp
  have mo: "map_of idx k = (if k = nk then Some i else if k = ck then None else map_of (td_pk_index td) k)" for k
    using idx cki by (auto simp: update_conv' delete_conv')
  have "\<exists>k. row_pk_key cd s row = Some k \<and> map_of idx k = Some j"
    if "live_map ((td_rows td)[i := e]) j = Some row" for j row
  proof (cases "j = i")
    case True
    with that i e nk show ?thesis by (simp add: live_map_update mo)
  next
    case False
    then have l: "live_map (td_rows td) j = Some row" using that i by (simp add: live_map_update)
    then obtain k where k: "row_pk_key cd s row = Some k" "map_of (td_pk_index td) k = Some j"
      using pk_ok_live [OF ok] by blast
    then have "k \<noteq> nk" "k \<noteq> ck" using free [of j] cki False l by auto
    with k show ?thesis by (simp add: mo)
  qed
  moreover have "j < length (td_rows td) \<and> row_pk_key cd s (re_row ((td_rows td)[i := e] ! j)) = Some k"
    if "map_of idx k = Some j" for k j
  proof (cases "k = nk")
    case True
    with that nk i show ?thesis by (simp add: mo)
  next
    case False
    then have k: "map_of (td_pk_index td) k = Some j" "k \<noteq> ck" using that by (auto simp: mo split: if_splits)
    then have "j \<noteq> i" using pk_ok_index [OF ok, of k j] ck i by auto
    with pk_ok_index [OF ok k(1)] show ?thesis by simp
  qed
  ultimately show ?thesis unfolding pk_ok_def by simp
qed

lemma pk_ok_delete:
  assumes ok: "pk_ok cd s td" and i: "i < length (td_rows td)" and "re_row e = re_row (td_rows td ! i)" "re_deleted e"
  shows "pk_ok cd s (td\<lparr>td_rows := (td_rows td)[i := e]\<rparr>)"
  unfolding pk_ok_def
proof (intro conjI allI impI)
  fix j row
  assume "live_map (td_rows (td\<lparr>td_rows := (td_rows td)[i := e]\<rparr>)) j = Some row"
  then have "live_map (td_rows td) j = Some row" using assms by (auto simp: live_map_update split: if_splits)
  then show "\<exists>k. row_pk_key cd s row = Some k \<and> map_of (td_pk_index (td\<lparr>td_rows := (td_rows td)[i := e]\<rparr>)) k = Some j"
    using pk_ok_live [OF ok] by simp
next
  fix k j
  assume "map_of (td_pk_index (td\<lparr>td_rows := (td_rows td)[i := e]\<rparr>)) k = Some j"
  then have "j < length (td_rows td) \<and> row_pk_key cd s (re_row (td_rows td ! j)) = Some k"
    using pk_ok_index [OF ok] by simp
  then show "j < length (td_rows (td\<lparr>td_rows := (td_rows td)[i := e]\<rparr>))"
    "row_pk_key cd s (re_row (td_rows (td\<lparr>td_rows := (td_rows td)[i := e]\<rparr>) ! j)) = Some k"
    using assms by (cases "j = i"; simp)+
qed

text \<open>What a passed check guarantees.\<close>

lemma check_update_stmt:
  assumes ok: "stmt_ok cd st"
    and ch: "check_update cd pred sets if_match idx (dm_schema st) (dm_td st) = (r, td)"
  shows "stmt_ok cd (st\<lparr>dm_td := td\<rparr>) \<and> td_rows td = td_rows (dm_td st) \<and> td_pk_index td = td_pk_index (dm_td st)"
proof -
  have "td = dm_td st \<or> (\<exists>row q. mysql_compat_unique_conflict cd (dm_schema st) (dm_td st) row (Some idx) = (q, td))"
    using ch unfolding check_update_def Let_def
    by (auto split: if_splits sum.splits bool.splits option.splits prod.splits)
  then show ?thesis using ok unique_conflict_stmt [OF ok] by fastforce
qed

lemma check_update_Some:
  assumes ok: "stmt_ok cd st"
    and ch: "check_update cd pred sets if_match idx (dm_schema st) (dm_td st) = (Inr (Some (new_row, cpk, npk)), td)"
  shows "\<not> re_deleted (td_rows (dm_td st) ! idx)"
    and "extract_pk (dm_schema st) (re_row (td_rows (dm_td st) ! idx)) = Inr cpk"
    and "extract_pk (dm_schema st) new_row = Inr npk"
    and "map_of (td_pk_index (dm_td st)) (pk_key cd npk) = Some j \<Longrightarrow> j = idx \<or> live_map (td_rows (dm_td st)) j = None"
    and "unique_conflict_scan cd (td_rows (dm_td st)) new_row (Some idx)
           (filter ci_unique (mysql_compat_index_defs (dm_schema st))) = None"
    and "pred (re_row (td_rows (dm_td st) ! idx)) = Inr True"
    and "assign_columns sets (re_row (td_rows (dm_td st) ! idx)) (re_row (td_rows (dm_td st) ! idx)) = Inr new_row"
proof -
  have *: "\<not> re_deleted (td_rows (dm_td st) ! idx) \<and> pred (re_row (td_rows (dm_td st) ! idx)) = Inr True \<and>
      assign_columns sets (re_row (td_rows (dm_td st) ! idx)) (re_row (td_rows (dm_td st) ! idx)) = Inr new_row \<and>
      extract_pk (dm_schema st) (re_row (td_rows (dm_td st) ! idx)) = Inr cpk \<and>
      extract_pk (dm_schema st) new_row = Inr npk \<and>
      primary_key_conflict_key cd (dm_schema st) (dm_td st) new_row (Some idx) = Inr None \<and>
      mysql_compat_unique_conflict cd (dm_schema st) (dm_td st) new_row (Some idx) = (None, td)"
    using ch unfolding check_update_def Let_def
    by (auto split: if_splits sum.splits bool.splits option.splits prod.splits)
  then show "\<not> re_deleted (td_rows (dm_td st) ! idx)"
    "extract_pk (dm_schema st) (re_row (td_rows (dm_td st) ! idx)) = Inr cpk"
    "extract_pk (dm_schema st) new_row = Inr npk" "pred (re_row (td_rows (dm_td st) ! idx)) = Inr True"
    "assign_columns sets (re_row (td_rows (dm_td st) ! idx)) (re_row (td_rows (dm_td st) ! idx)) = Inr new_row"
    by blast+
  show "unique_conflict_scan cd (td_rows (dm_td st)) new_row (Some idx)
           (filter ci_unique (mysql_compat_index_defs (dm_schema st))) = None"
    using * unique_conflict_stmt(4) [OF ok, of new_row "Some idx" None td] by simp
  show "map_of (td_pk_index (dm_td st)) (pk_key cd npk) = Some j \<Longrightarrow> j = idx \<or> live_map (td_rows (dm_td st)) j = None"
    using * by (auto simp: primary_key_conflict_key_def Let_def live_map_def split: if_splits)
qed

text \<open>The write of one updated row in closed form.\<close>

definition updated_entry :: "table_schema \<Rightarrow> u64 \<Rightarrow> u64 \<Rightarrow> row_object \<Rightarrow> row_entry \<Rightarrow> row_entry" where
  "updated_entry schema sv now new_row e =
     e\<lparr>re_row := new_row, re_version := next_row_version schema, re_schema_version := sv, re_commit_ts_ms := now\<rparr>"

definition updated_table :: "codecs \<Rightarrow> nat \<Rightarrow> row_entry \<Rightarrow> string \<Rightarrow> string \<Rightarrow> table_data \<Rightarrow> table_data" where
  "updated_table cd idx e ck nk td =
     (secondary_index_add_row cd idx (re_row e) (secondary_index_remove_row cd idx (re_row (td_rows td ! idx)) td))
       \<lparr>td_rows := (td_rows td)[idx := e],
        td_pk_index := (if ck = nk then td_pk_index td else AList.update nk idx (AList.delete ck (td_pk_index td)))\<rparr>"

definition tombstone_for :: "table_ref \<Rightarrow> lit list \<Rightarrow> row_object \<Rightarrow> row_entry \<Rightarrow> wal_row_record" where
  "tombstone_for tref pk row e =
     from_entry (tr_db tref) (tr_table tref) pk (e\<lparr>re_row := row, re_deleted := True\<rparr>)"

lemma update_row_hit:
  assumes "check_update cd pred sets if_match idx (dm_schema st) (dm_td st) = (Inr (Some (new_row, cpk, npk)), td)"
    and "idx < length (td_rows td)"
  shows "update_row cd tref sv now pred sets if_match idx st =
    (let e = updated_entry (dm_schema st) sv now new_row (td_rows td ! idx) in
     (Inr True,
      st\<lparr>dm_td := updated_table cd idx e (pk_key cd cpk) (pk_key cd npk) td, dm_affected := dm_affected st + 1,
         dm_wal := dm_wal st @ [from_entry (tr_db tref) (tr_table tref) npk e] @
           (if pk_key cd cpk \<noteq> pk_key cd npk then [tombstone_for tref cpk (re_row (td_rows td ! idx)) e] else [])\<rparr>))"
  using assms
  by (simp add: update_row_def Let_def updated_table_def updated_entry_def tombstone_for_def from_entry_def
      secondary_index_add_row_def secondary_index_remove_row_def map_indexes_def)

lemma secs_exact_rows [simp]: "secs_exact cd s L (td\<lparr>td_rows := r, td_pk_index := p\<rparr>) = secs_exact cd s L td"
  "secs_exact cd s L (td\<lparr>td_rows := r\<rparr>) = secs_exact cd s L td"
  by (simp_all add: secs_exact_def)

lemma pk_ok_cong: "\<lbrakk>td_rows td' = td_rows td; td_pk_index td' = td_pk_index td\<rbrakk> \<Longrightarrow> pk_ok cd s td' = pk_ok cd s td"
  by (simp add: pk_ok_def)

lemma stmt_ok_updated_table:
  assumes ok: "stmt_ok cd st" and live: "live_map (td_rows (dm_td st)) idx = Some cur"
    and ck: "row_pk_key cd (dm_schema st) cur = Some ck" and nk: "row_pk_key cd (dm_schema st) (re_row e) = Some nk"
    and free: "\<And>j. map_of (td_pk_index (dm_td st)) nk = Some j \<Longrightarrow> j = idx \<or> live_map (td_rows (dm_td st)) j = None"
    and scan: "unique_conflict_scan cd (td_rows (dm_td st)) (re_row e) (Some idx)
           (filter ci_unique (mysql_compat_index_defs (dm_schema st))) = None"
    and e: "\<not> re_deleted e"
  shows "stmt_ok cd (st\<lparr>dm_td := updated_table cd idx e ck nk (dm_td st)\<rparr>)"
proof -
  let ?td = "dm_td st" and ?s = "dm_schema st"
  let ?L = "live_map (td_rows ?td)"
  note i = live_map_SomeD [OF live]
  have "pk_ok cd ?s (?td\<lparr>td_rows := (td_rows ?td)[idx := e],
      td_pk_index := (if ck = nk then td_pk_index ?td else AList.update nk idx (AList.delete ck (td_pk_index ?td)))\<rparr>)"
    using ok free by (intro pk_ok_replace [OF _ live ck nk _ e refl]) (auto simp: stmt_ok_def)
  then have "pk_ok cd ?s (updated_table cd idx e ck nk ?td)"
    by (subst (asm) pk_ok_cong [symmetric]) (simp_all add: updated_table_def)
  moreover have "secs_exact cd ?s (?L(idx := None)) (secondary_index_remove_row cd idx cur ?td)"
    using ok live by (intro secs_exact_remove) (simp_all add: stmt_ok_def)
  then have "secs_exact cd ?s (?L(idx := None, idx \<mapsto> re_row e))
      (secondary_index_add_row cd idx (re_row e) (secondary_index_remove_row cd idx cur ?td))"
    by (intro secs_exact_add) simp_all
  then have "secs_exact cd ?s (?L(idx \<mapsto> re_row e)) (updated_table cd idx e ck nk ?td)"
    using i by (simp add: updated_table_def)
  moreover have "uniq_ok cd ?s (?L(idx \<mapsto> re_row e))"
    using ok scan by (intro uniq_ok_write [where skip_idx = "Some idx" and rows = "td_rows ?td"]) (simp_all add: stmt_ok_def)
  moreover have "live_map (td_rows (updated_table cd idx e ck nk ?td)) = ?L(idx \<mapsto> re_row e)"
    using i e by (simp add: updated_table_def live_map_update)
  ultimately show ?thesis using ok by (simp add: stmt_ok_def)
qed

lemma update_row_ok:
  assumes ok: "stmt_ok cd st" and idx: "idx < length (td_rows (dm_td st))"
  shows "stmt_ok cd (snd (update_row cd tref sv now pred sets if_match idx st))"
proof (cases "check_update cd pred sets if_match idx (dm_schema st) (dm_td st)")
  case (Pair r td)
  note st = check_update_stmt [OF ok Pair]
  show ?thesis
  proof (cases "\<exists>new_row cpk npk. r = Inr (Some (new_row, cpk, npk))")
    case False
    then show ?thesis using Pair st by (auto simp: update_row_def split: sum.splits option.splits)
  next
    case True
    then obtain new_row cpk npk where r: "r = Inr (Some (new_row, cpk, npk))" by blast
    note hit = check_update_Some [OF ok Pair [unfolded r]]
    let ?e = "updated_entry (dm_schema st) sv now new_row (td_rows td ! idx)"
    have "stmt_ok cd ((st\<lparr>dm_td := td\<rparr>)\<lparr>dm_td := updated_table cd idx ?e (pk_key cd cpk) (pk_key cd npk) (dm_td (st\<lparr>dm_td := td\<rparr>))\<rparr>)"
      using st hit idx
      by (intro stmt_ok_updated_table [where cur = "re_row (td_rows td ! idx)"])
        (simp_all add: live_map_def row_pk_key_def updated_entry_def)
    then show ?thesis using update_row_hit [OF Pair [unfolded r]] idx st by (simp add: Let_def)
  qed
qed

lemma delete_row_ok:
  assumes ok: "stmt_ok cd st" and idx: "idx < length (td_rows (dm_td st))"
  shows "stmt_ok cd (snd (delete_row cd tref sv now pred idx st))"
proof -
  let ?td = "dm_td st" and ?s = "dm_schema st"
  let ?row = "re_row (td_rows ?td ! idx)"
  have "stmt_ok cd (st\<lparr>dm_td := (secondary_index_remove_row cd idx ?row ?td)\<lparr>td_rows := (td_rows ?td)[idx := e]\<rparr>\<rparr>)"
    if live: "\<not> re_deleted (td_rows ?td ! idx)" and e: "re_deleted e" "re_row e = ?row" for e
  proof -
    have "pk_ok cd ?s (?td\<lparr>td_rows := (td_rows ?td)[idx := e]\<rparr>)"
      using ok idx e by (intro pk_ok_delete) (simp_all add: stmt_ok_def)
    then have "pk_ok cd ?s ((secondary_index_remove_row cd idx ?row ?td)\<lparr>td_rows := (td_rows ?td)[idx := e]\<rparr>)"
      by (subst (asm) pk_ok_cong [symmetric]) simp_all
    moreover have "secs_exact cd ?s ((live_map (td_rows ?td))(idx := None)) (secondary_index_remove_row cd idx ?row ?td)"
      using ok live idx by (intro secs_exact_remove) (simp_all add: stmt_ok_def live_map_def)
    ultimately show ?thesis
      using ok idx e by (simp add: stmt_ok_def live_map_update uniq_ok_remove)
  qed
  then show ?thesis
    using ok by (simp add: delete_row_def Let_def split: sum.split bool.split)
qed

section \<open>Statements keep the invariant\<close>

lemma dml_start_ok:
  "table_ok cd schema td \<Longrightarrow> stmt_ok cd (dml_start schema (rebuild_secondary_indexes_if_stale cd schema td))"
  by (simp add: table_ok_def stmt_ok_def dml_start_def rebuild_secs_exact pk_ok_def)

lemma finish_statement_ok: "stmt_ok cd st \<Longrightarrow> stmt_ok cd (finish_statement st)"
  using layout_congs [of "dm_schema st" "bump_table_version (dm_schema st)", OF same_layout_bump]
  by (simp add: stmt_ok_def finish_statement_def Let_def secs_exact_bump pk_ok_def)

lemma insert_rows_ok: "stmt_ok cd st \<Longrightarrow> stmt_ok cd (snd (insert_rows cd tref sv clock rows st))"
proof (induction rows arbitrary: st)
  case (Cons row rows)
  then show ?case
    using insert_row_ok [OF Cons.prems, of tref sv "clock (dm_affected st)" row]
    by (auto split: prod.splits sum.splits)
qed simp

lemma for_rows_inv:
  assumes "\<And>idx st. \<lbrakk>I st; idx \<in> set idxs\<rbrakk> \<Longrightarrow> I (snd (f idx st))" and "I st"
  shows "I (snd (for_rows f lim idxs st))"
  using assms
proof (induction idxs arbitrary: st)
  case (Cons idx idxs)
  obtain r st' where f: "f idx st = (r, st')" by fastforce
  then have "I st'" using Cons.prems(1) [of st idx] Cons.prems(2) by simp
  then show ?case using Cons.IH [of st'] Cons.prems(1) f by (simp split: sum.split)
qed simp

lemma update_row_length [simp]:
  "length (td_rows (dm_td (snd (update_row cd tref sv now pred sets if_match idx st)))) = length (td_rows (dm_td st))"
proof -
  obtain r td where ch: "check_update cd pred sets if_match idx (dm_schema st) (dm_td st) = (r, td)" by fastforce
  then have "td_rows td = td_rows (dm_td st)"
    by (auto simp: check_update_def Let_def mysql_compat_unique_conflict_def
        split: if_splits sum.splits bool.splits option.splits)
  with ch show ?thesis by (auto simp: update_row_def Let_def split: sum.splits option.splits)
qed

lemma delete_row_length [simp]:
  "length (td_rows (dm_td (snd (delete_row cd tref sv now pred idx st)))) = length (td_rows (dm_td st))"
  by (simp add: delete_row_def Let_def split: sum.split bool.split)

lemma for_all_rows_ok:
  assumes "table_ok cd schema td"
    and step: "\<And>idx st. \<lbrakk>stmt_ok cd st; idx < length (td_rows (dm_td st))\<rbrakk> \<Longrightarrow> stmt_ok cd (snd (f idx st))"
    and len: "\<And>idx st. length (td_rows (dm_td (snd (f idx st)))) = length (td_rows (dm_td st))"
  shows "stmt_ok cd (snd (for_all_rows cd f lim schema td))"
proof -
  let ?st = "dml_start schema (rebuild_secondary_indexes_if_stale cd schema td)"
  have "stmt_ok cd (snd (for_rows f lim [0..<length (td_rows td)] ?st)) \<and>
      length (td_rows (dm_td (snd (for_rows f lim [0..<length (td_rows td)] ?st)))) = length (td_rows td)"
    by (rule for_rows_inv) (use step len dml_start_ok [OF assms(1)] in \<open>auto simp: dml_start_def\<close>)
  then show ?thesis
    by (auto simp: for_all_rows_def finish_statement_ok split: prod.splits sum.splits)
qed

lemma data_insert_rows_ok: "table_ok cd schema td \<Longrightarrow> stmt_ok cd (snd (data_insert_rows cd tref sv clock rows schema td))"
  using insert_rows_ok [OF dml_start_ok, of cd schema td tref sv clock rows]
  by (auto simp: data_insert_rows_def finish_statement_ok split: prod.splits sum.splits)

lemma data_update_rows_ok:
  "table_ok cd schema td \<Longrightarrow> stmt_ok cd (snd (data_update_rows cd tref sv clock pred sets lim if_match schema td))"
  unfolding data_update_rows_def by (rule for_all_rows_ok) (simp_all add: update_row_ok)

lemma data_delete_rows_ok:
  "table_ok cd schema td \<Longrightarrow> stmt_ok cd (snd (data_delete_rows cd tref sv clock pred lim schema td))"
  unfolding data_delete_rows_def by (rule for_all_rows_ok) (simp_all add: delete_row_ok)

text \<open>
  (C2) Whatever the outcome of an insert, update or delete, success or an error in the middle of
  its rows, the table it leaves is well formed: every live row is found under its own primary
  key, so no two live rows have the same key; no two live rows clash on a unique index; and
  every secondary index whose version is current lists exactly the live rows.
\<close>

theorem dml_keeps_table_ok:
  assumes "table_ok cd schema td"
  shows "\<forall>st \<in> {snd (data_insert_rows cd tref sv clock rows schema td),
      snd (data_update_rows cd tref sv clock pred sets lim if_match schema td),
      snd (data_delete_rows cd tref sv clock pred lim schema td)}.
    table_ok cd (dm_schema st) (dm_td st)"
  using assms data_insert_rows_ok data_update_rows_ok data_delete_rows_ok by (simp add: stmt_ok_table_ok)

lemma demo_table_ok: "table_ok demo_codecs demo_schema demo_table"
proof -
  have rows: "td_rows demo_table = [demo_entry (demo_row 1 ''ann'') 1, demo_entry (demo_row 2 ''bob'') 2]"
    and pk: "map_of (td_pk_index demo_table) = [''#|;'' \<mapsto> 0, ''#||;'' \<mapsto> 1]"
    by (auto simp: demo_table_def fun_eq_iff)
  have L: "live_map (td_rows demo_table) i = Some row \<longleftrightarrow> i = 0 \<and> row = demo_row 1 ''ann'' \<or> i = 1 \<and> row = demo_row 2 ''bob''" for i row
    by (auto simp: rows live_map_def demo_entry_def less_Suc_eq nth_Cons split: nat.splits)
  have k: "row_pk_key demo_codecs demo_schema (demo_row 1 ''ann'') = Some ''#|;''"
    "row_pk_key demo_codecs demo_schema (demo_row 2 ''bob'') = Some ''#||;''" by code_simp+
  have "pk_ok demo_codecs demo_schema demo_table"
    unfolding pk_ok_def L pk using k by (auto simp: rows demo_entry_def split: if_splits)
  moreover have c: "\<not> rows_clash demo_codecs [''email''] (demo_row 1 ''ann'') (demo_row 2 ''bob'')" by code_simp
  then have "uniq_ok demo_codecs demo_schema (live_map (td_rows demo_table))"
    unfolding uniq_ok_def L using c rows_clash_sym by auto
  moreover have "secs_ok demo_codecs demo_schema demo_table" by (simp add: secs_ok_def demo_table_def)
  ultimately show ?thesis by (simp add: table_ok_def)
qed

theorem dml_keeps_table_ok_witness:
  "table_ok demo_codecs demo_schema demo_table \<and>
   (let st = snd (data_delete_rows demo_codecs \<lparr>tr_db = ''d'', tr_table = ''t''\<rparr> 1 (\<lambda>_. 7)
                    (\<lambda>row. Inr (map_of row ''id'' = Some (LU64 1))) None demo_schema demo_table)
    in table_ok demo_codecs (dm_schema st) (dm_td st))"
  using demo_table_ok
    dml_keeps_table_ok [OF demo_table_ok, of "\<lparr>tr_db = ''d'', tr_table = ''t''\<rparr>" 1 "\<lambda>_. 7" "[]"
      "\<lambda>row. Inr (map_of row ''id'' = Some (LU64 1))" "[]" None None]
  by (simp add: Let_def)

section \<open>How many rows a delete affects\<close>

definition entry_matches :: "row_pred \<Rightarrow> row_entry \<Rightarrow> bool" where
  "entry_matches pred e \<longleftrightarrow> \<not> re_deleted e \<and> pred (re_row e) = Inr True"

text \<open>A delete at one position leaves the entries at the others.\<close>

lemma delete_row_total:
  assumes "\<not> re_deleted (td_rows (dm_td st) ! idx) \<longrightarrow> (\<exists>b. pred (re_row (td_rows (dm_td st) ! idx)) = Inr b)"
  shows "\<exists>st'. delete_row cd tref sv now pred idx st = (Inr (entry_matches pred (td_rows (dm_td st) ! idx)), st') \<and>
    dm_affected st' = dm_affected st + of_bool (entry_matches pred (td_rows (dm_td st) ! idx)) \<and>
    (\<forall>j. j \<noteq> idx \<longrightarrow> td_rows (dm_td st') ! j = td_rows (dm_td st) ! j)"
  using assms by (auto simp: delete_row_def Let_def entry_matches_def split: sum.splits bool.splits)

lemma for_rows_delete:
  assumes "distinct idxs" and "\<forall>i \<in> set idxs. td_rows (dm_td st) ! i = rows ! i"
    and "\<forall>i \<in> set idxs. \<not> re_deleted (rows ! i) \<longrightarrow> (\<exists>b. pred (re_row (rows ! i)) = Inr b)"
    and "\<forall>l. lim = Some l \<longrightarrow> dm_affected st < max 1 (unat l)"
  shows "\<exists>st'. for_rows (\<lambda>idx st. delete_row cd tref sv (clock (dm_affected st)) pred idx st) lim idxs st = (Inr (), st') \<and>
    dm_affected st' =
      (let m = dm_affected st + length (filter (\<lambda>i. entry_matches pred (rows ! i)) idxs) in
       case lim of None \<Rightarrow> m | Some l \<Rightarrow> min (max 1 (unat l)) m)"
  using assms
proof (induction idxs arbitrary: st)
  case Nil
  then show ?case by (cases lim) (auto simp: Let_def)
next
  case (Cons i idxs)
  have i: "td_rows (dm_td st) ! i = rows ! i" using Cons.prems by simp
  obtain st1 where st1: "delete_row cd tref sv (clock (dm_affected st)) pred i st = (Inr (entry_matches pred (rows ! i)), st1)"
    "dm_affected st1 = dm_affected st + of_bool (entry_matches pred (rows ! i))"
    "\<And>j. j \<noteq> i \<Longrightarrow> td_rows (dm_td st1) ! j = td_rows (dm_td st) ! j"
    using delete_row_total [of st i pred cd tref sv "clock (dm_affected st)"] Cons.prems(3) i by auto
  let ?stop = "entry_matches pred (rows ! i) \<and> (case lim of Some l \<Rightarrow> unat l \<le> dm_affected st1 | None \<Rightarrow> False)"
  show ?case
  proof (cases ?stop)
    case True
    then obtain l where "lim = Some l" "unat l \<le> dm_affected st1" by (cases lim) auto
    moreover have "dm_affected st1 \<le> max 1 (unat l)" "1 \<le> dm_affected st1"
      using Cons.prems(4) st1(2) True \<open>lim = Some l\<close> by auto
    ultimately show ?thesis using True st1 by (auto simp: Let_def)
  next
    case False
    then have lim: "\<forall>l. lim = Some l \<longrightarrow> dm_affected st1 < max 1 (unat l)"
      using Cons.prems(4) st1(2) by (cases lim) auto
    have rest: "for_rows (\<lambda>idx st. delete_row cd tref sv (clock (dm_affected st)) pred idx st) lim (i # idxs) st =
        for_rows (\<lambda>idx st. delete_row cd tref sv (clock (dm_affected st)) pred idx st) lim idxs st1"
      using False st1(1) by auto
    have "\<forall>j \<in> set idxs. td_rows (dm_td st1) ! j = rows ! j" using Cons.prems(1,2) st1(3) by (metis distinct.simps(2) list.set_intros(2))
    from Cons.IH [OF _ this _ lim] Cons.prems(1,3) show ?thesis
      unfolding rest by (auto simp: st1(2) Let_def split: option.splits)
  qed
qed

text \<open>
  A delete whose predicate evaluates without error on the live rows succeeds, and the number
  of rows it deletes is the number of matching live rows, cut at the limit; but a limit of zero
  is taken as a limit of one, because the limit is tested only after a row has been deleted.
\<close>

theorem delete_limit_counts:
  assumes "\<forall>e \<in> set (td_rows td). \<not> re_deleted e \<longrightarrow> (\<exists>b. pred (re_row e) = Inr b)"
  shows "\<exists>st. data_delete_rows cd tref sv clock pred lim schema td = (Inr (), st) \<and>
    dm_affected st =
      (let m = length (filter (entry_matches pred) (td_rows td)) in
       case lim of None \<Rightarrow> m | Some l \<Rightarrow> min (max 1 (unat l)) m)"
proof -
  let ?st = "dml_start schema (rebuild_secondary_indexes_if_stale cd schema td)"
  have "length (filter (\<lambda>i. entry_matches pred (td_rows td ! i)) [0..<length (td_rows td)]) =
      length (filter (entry_matches pred) (td_rows td))"
    using filter_map [of "entry_matches pred" "(!) (td_rows td)" "[0..<length (td_rows td)]"]
    by (simp add: map_nth comp_def)
  moreover have "\<exists>st'. for_rows (\<lambda>idx st. delete_row cd tref sv (clock (dm_affected st)) pred idx st) lim
      [0..<length (td_rows td)] ?st = (Inr (), st') \<and>
    dm_affected st' =
      (let m = dm_affected ?st + length (filter (\<lambda>i. entry_matches pred (td_rows td ! i)) [0..<length (td_rows td)]) in
       case lim of None \<Rightarrow> m | Some l \<Rightarrow> min (max 1 (unat l)) m)"
    using assms by (intro for_rows_delete) (auto simp: dml_start_def)
  ultimately show ?thesis
    by (force simp: data_delete_rows_def for_all_rows_def finish_statement_def dml_start_def Let_def)
qed

theorem delete_limit_counts_witness:
  "\<exists>st. data_delete_rows demo_codecs \<lparr>tr_db = ''d'', tr_table = ''t''\<rparr> 1 (\<lambda>_. 7) (\<lambda>_. Inr True) (Some 0)
          demo_schema demo_table = (Inr (), st) \<and> dm_affected st = 1"
proof -
  have "length (filter (entry_matches (\<lambda>_. Inr True)) (td_rows demo_table)) = 2" by code_simp
  then show ?thesis
    using delete_limit_counts [of demo_table "\<lambda>_. Inr True" demo_codecs "\<lparr>tr_db = ''d'', tr_table = ''t''\<rparr>" 1
        "\<lambda>_. 7" "Some 0" demo_schema]
    by auto
qed

end
