(* ===== verification/Engine_Redo.thy ===== *)
theory Engine_Redo
  imports Engine_Dml
begin

text \<open>
  Redo of row writes (\<open>crates/skeindb/src/engine/wal.rs\<close>) on one table: applying a redo record,
  rebuilding the primary-key index, loading a table from its snapshot; and the proof that the
  records a statement logs describe its effect, so that replaying them onto the snapshot gives
  the table the statement left in memory.
\<close>

section \<open>Replay and load\<close>

definition record_entry :: "wal_row_record \<Rightarrow> row_entry" where
  "record_entry rec =
     \<lparr>re_row = wr_row rec, re_version = wr_version rec, re_schema_version = wr_schema_version rec,
      re_deleted = wr_deleted rec, re_commit_ts_ms = wr_commit_ts_ms rec\<rparr>"

text \<open>The table part of \<open>wal_apply_record\<close>; the flag says whether the table was changed.\<close>

definition apply_record :: "codecs \<Rightarrow> wal_row_record \<Rightarrow> table_data \<Rightarrow> bool \<times> table_data" where
  "apply_record cd rec td =
     (let entry = record_entry rec; pk_s = pk_key cd (wr_pk rec) in
      case map_of (td_pk_index td) pk_s of
        Some idx \<Rightarrow>
          if re_version entry \<le> re_version (td_rows td ! idx) then (False, td)
          else (True, td\<lparr>td_rows := (td_rows td)[idx := entry]\<rparr>)
      | None \<Rightarrow>
          (True, td\<lparr>td_rows := td_rows td @ [entry],
                    td_pk_index := AList.update pk_s (length (td_rows td)) (td_pk_index td)\<rparr>))"

fun replay :: "codecs \<Rightarrow> wal_row_record list \<Rightarrow> table_data \<Rightarrow> table_data" where
  "replay cd [] td = td"
| "replay cd (rec # recs) td = replay cd recs (snd (apply_record cd rec td))"

text \<open>The primary-key index of a loaded table: rows without a key are left out.\<close>

fun load_pk_index ::
    "codecs \<Rightarrow> table_schema \<Rightarrow> nat \<Rightarrow> row_entry list \<Rightarrow> (string \<times> nat) list \<Rightarrow> (string \<times> nat) list" where
  "load_pk_index cd schema idx [] pk = pk"
| "load_pk_index cd schema idx (entry # rows) pk =
     load_pk_index cd schema (Suc idx) rows
       (if re_deleted entry then pk
        else case extract_pk schema (re_row entry) of
          Inl _ \<Rightarrow> pk
        | Inr k \<Rightarrow> AList.update (pk_key cd k) idx pk)"

definition load_table ::
    "codecs \<Rightarrow> table_schema \<Rightarrow> row_entry list \<Rightarrow> (string \<times> secondary_index) list \<Rightarrow> table_data" where
  "load_table cd schema rows secondary_indexes =
     ensure_mysql_compat_secondary_indexes cd schema
       \<lparr>td_rows = rows, td_pk_index = load_pk_index cd schema 0 rows [], td_secondary = secondary_indexes\<rparr>"

text \<open>\<open>rebuild_indexes_after_history_gc\<close>: a missing key or a duplicate is an error.\<close>

fun rebuild_pk_index ::
    "codecs \<Rightarrow> table_schema \<Rightarrow> nat \<Rightarrow> row_entry list \<Rightarrow> (string \<times> nat) list
       \<Rightarrow> engine_error option \<times> (string \<times> nat) list" where
  "rebuild_pk_index cd schema idx [] pk = (None, pk)"
| "rebuild_pk_index cd schema idx (entry # rows) pk =
     (if re_deleted entry then rebuild_pk_index cd schema (Suc idx) rows pk
      else case extract_pk schema (re_row entry) of
        Inl e \<Rightarrow> (Some e, pk)
      | Inr k \<Rightarrow>
          let key = pk_key cd k; pk' = AList.update key idx pk in
          if map_of pk key \<noteq> None then (Some DuplicatePkAfterGc, pk')
          else rebuild_pk_index cd schema (Suc idx) rows pk')"

definition rebuild_table_indexes ::
    "codecs \<Rightarrow> table_schema \<Rightarrow> table_data \<Rightarrow> (engine_error + unit) \<times> table_schema \<times> table_data" where
  "rebuild_table_indexes cd schema td =
     (case rebuild_pk_index cd schema 0 (td_rows td) [] of
        (Some e, pk) \<Rightarrow> (Inl e, schema, td\<lparr>td_pk_index := pk\<rparr>)
      | (None, pk) \<Rightarrow> (Inr (), bump_table_version schema, td\<lparr>td_pk_index := pk\<rparr>))"

section \<open>What a table contains\<close>

text \<open>The entry the primary-key index leads to, and the live entries as a map from keys.\<close>

definition pk_entry :: "table_data \<Rightarrow> string \<Rightarrow> row_entry option" where
  "pk_entry td k = map_option (\<lambda>i. td_rows td ! i) (map_of (td_pk_index td) k)"

definition contents :: "table_data \<Rightarrow> string \<Rightarrow> row_entry option" where
  "contents td k = (case pk_entry td k of Some e \<Rightarrow> if re_deleted e then None else Some e | None \<Rightarrow> None)"

text \<open>The effect of redo records on the contents, without any version check.\<close>

definition record_key :: "codecs \<Rightarrow> wal_row_record \<Rightarrow> string" where
  "record_key cd rec = pk_key cd (wr_pk rec)"

definition record_value :: "wal_row_record \<Rightarrow> row_entry option" where
  "record_value rec = (if wr_deleted rec then None else Some (record_entry rec))"

fun effect :: "codecs \<Rightarrow> wal_row_record list \<Rightarrow> (string \<Rightarrow> row_entry option) \<Rightarrow> string \<Rightarrow> row_entry option" where
  "effect cd [] m = m"
| "effect cd (rec # recs) m = effect cd recs (m(record_key cd rec := record_value rec))"

lemma effect_append: "effect cd (xs @ ys) m = effect cd ys (effect cd xs m)"
  by (induction xs arbitrary: m) simp_all

lemma contents_cong: "\<lbrakk>td_rows td' = td_rows td; td_pk_index td' = td_pk_index td\<rbrakk> \<Longrightarrow> contents td' = contents td"
  by (simp add: contents_def pk_entry_def fun_eq_iff)

lemma record_entry_from_entry [simp]: "record_entry (from_entry db t pk e) = e"
  by (simp add: record_entry_def from_entry_def)

lemma from_entry_simps [simp]:
  "wr_pk (from_entry db t pk e) = pk" "wr_deleted (from_entry db t pk e) = re_deleted e"
  "wr_version (from_entry db t pk e) = re_version e" "wr_row (from_entry db t pk e) = re_row e"
  by (simp_all add: from_entry_def)

lemma record_entry_simps [simp]:
  "re_version (record_entry r) = wr_version r" "re_deleted (record_entry r) = wr_deleted r"
  "re_row (record_entry r) = wr_row r"
  by (simp_all add: record_entry_def)

section \<open>The log describes the statement\<close>

lemma pk_index_inj:
  "\<lbrakk>pk_ok cd s td; map_of (td_pk_index td) k = Some i; map_of (td_pk_index td) k' = Some i\<rbrakk> \<Longrightarrow> k = k'"
  using pk_ok_index [of cd s td k i] pk_ok_index [of cd s td k' i] by simp

lemma contents_append:
  assumes "pk_ok cd s td"
  shows "contents (td\<lparr>td_rows := td_rows td @ [e], td_pk_index := AList.update k (length (td_rows td)) (td_pk_index td)\<rparr>) =
    (contents td)(k := (if re_deleted e then None else Some e))"
proof (rule ext)
  fix k'
  show "contents (td\<lparr>td_rows := td_rows td @ [e], td_pk_index := AList.update k (length (td_rows td)) (td_pk_index td)\<rparr>) k' =
    ((contents td)(k := (if re_deleted e then None else Some e))) k'"
    using pk_ok_index [OF assms, of k'] by (cases "map_of (td_pk_index td) k'") (auto simp: contents_def pk_entry_def update_conv' nth_append)
qed

lemma contents_set:
  assumes "pk_ok cd s td" "map_of (td_pk_index td) k = Some i"
  shows "contents (td\<lparr>td_rows := (td_rows td)[i := e]\<rparr>) = (contents td)(k := (if re_deleted e then None else Some e))"
proof (rule ext)
  fix k'
  have i: "i < length (td_rows td)" using pk_ok_index [OF assms] by simp
  have "j \<noteq> i" if "map_of (td_pk_index td) k' = Some j" "k' \<noteq> k" for j
    using that pk_index_inj [OF assms, of k'] by auto
  then show "contents (td\<lparr>td_rows := (td_rows td)[i := e]\<rparr>) k' = ((contents td)(k := (if re_deleted e then None else Some e))) k'"
    using i assms(2)
    by (cases "k' = k"; cases "map_of (td_pk_index td) k'") (simp_all add: contents_def pk_entry_def)
qed

lemma contents_move:
  assumes ok: "pk_ok cd s td" and ck: "map_of (td_pk_index td) ck = Some i" and "ck \<noteq> nk"
  shows "contents (td\<lparr>td_rows := (td_rows td)[i := e], td_pk_index := AList.update nk i (AList.delete ck (td_pk_index td))\<rparr>) =
    (contents td)(nk := (if re_deleted e then None else Some e), ck := None)"
proof (rule ext)
  fix k
  have i: "i < length (td_rows td)" using pk_ok_index [OF ok ck] by simp
  have "j \<noteq> i" if "map_of (td_pk_index td) k = Some j" "k \<noteq> ck" for j
    using that pk_index_inj [OF ok ck, of k] by auto
  then show "contents (td\<lparr>td_rows := (td_rows td)[i := e], td_pk_index := AList.update nk i (AList.delete ck (td_pk_index td))\<rparr>) k =
      ((contents td)(nk := (if re_deleted e then None else Some e), ck := None)) k"
    using i assms
    by (cases "k = nk"; cases "k = ck"; cases "map_of (td_pk_index td) k")
      (simp_all add: contents_def pk_entry_def update_conv' delete_conv')
qed

text \<open>One inserted row: either nothing of the table changed, or the row is appended and logged.\<close>

lemma insert_row_cases:
  assumes ok: "stmt_ok cd st" and ins: "insert_row cd tref sv now row st = (r, st')"
  obtains (kept) e where "r = Inl e" "td_rows (dm_td st') = td_rows (dm_td st)"
      "td_pk_index (dm_td st') = td_pk_index (dm_td st)" "dm_wal st' = dm_wal st"
      "same_layout (dm_schema st) (dm_schema st')" "ts_table_version (dm_schema st') = ts_table_version (dm_schema st)"
  | (added) pk e where "r = Inr ()" "td_rows (dm_td st') = td_rows (dm_td st) @ [e]"
      "td_pk_index (dm_td st') = AList.update (pk_key cd pk) (length (td_rows (dm_td st))) (td_pk_index (dm_td st))"
      "dm_wal st' = dm_wal st @ [from_entry (tr_db tref) (tr_table tref) pk e]"
      "same_layout (dm_schema st) (dm_schema st')" "ts_table_version (dm_schema st') = ts_table_version (dm_schema st)"
      "extract_pk (dm_schema st') (re_row e) = Inr pk" "\<not> re_deleted e"
      "re_version e = next_row_version (dm_schema st)" "pk_live_at (dm_td st) (pk_key cd pk) = None"
proof (cases "apply_defaults_and_autoinc cd (dm_schema st) row (dm_last_insert_id st)")
  case (Inl e)
  with ins show ?thesis by (intro kept) (auto simp: insert_row_def)
next
  case (Inr res)
  obtain s row' li where res: "res = (s, row', li)" by (cases res)
  note lay = apply_defaults_layout [OF Inr [unfolded res]]
  obtain q td where u: "mysql_compat_unique_conflict cd s (dm_td st) row' None = (q, td)"
    by (cases "mysql_compat_unique_conflict cd s (dm_td st) row' None")
  then have td: "td_rows td = td_rows (dm_td st)" "td_pk_index td = td_pk_index (dm_td st)"
    by (auto simp: mysql_compat_unique_conflict_def Let_def)
  have live: "pk_live_at td k = pk_live_at (dm_td st) k" for k unfolding pk_live_at_def td ..
  show ?thesis
  proof (cases r)
    case (Inl e)
    with ins Inr res u td lay show ?thesis
      by (intro kept) (auto simp: insert_row_def Let_def split: option.splits sum.splits if_splits)
  next
    case r: (Inr u')
    then have q: "q = None" using ins Inr res u by (auto simp: insert_row_def Let_def split: option.splits)
    obtain pk where pk: "extract_pk s row' = Inr pk"
      using ins Inr res u r q by (auto simp: insert_row_def Let_def split: option.splits sum.splits)
    have "not_null_violation s row' = None" "pk_live_at td (pk_key cd pk) = None"
      using ins Inr res u r q pk by (auto simp: insert_row_def Let_def split: option.splits if_splits)
    with ins Inr res u td lay r q pk live show ?thesis
      by (intro added [of "\<lparr>re_row = row', re_version = next_row_version s, re_schema_version = sv,
            re_deleted = False, re_commit_ts_ms = now\<rparr>" pk])
        (auto simp: insert_row_def Let_def next_row_version_def)
  qed
qed

text \<open>
  The records of a statement that started on schema \<open>s0\<close>: they name the table, carry the version
  of the statement and the key of their row.
\<close>

definition record_ok :: "codecs \<Rightarrow> table_ref \<Rightarrow> table_schema \<Rightarrow> wal_row_record \<Rightarrow> bool" where
  "record_ok cd tref s0 r \<longleftrightarrow>
     wr_db r = tr_db tref \<and> wr_table r = tr_table tref \<and> wr_version r = next_row_version s0 \<and>
     row_pk_key cd s0 (wr_row r) = Some (record_key cd r)"

text \<open>The state of a running statement whose records so far describe its effect on \<open>m0\<close>.\<close>

definition stmt_logged ::
    "codecs \<Rightarrow> table_ref \<Rightarrow> table_schema \<Rightarrow> (string \<Rightarrow> row_entry option) \<Rightarrow> dml_state \<Rightarrow> bool" where
  "stmt_logged cd tref s0 m0 st \<longleftrightarrow>
     stmt_ok cd st \<and> same_layout s0 (dm_schema st) \<and> ts_table_version (dm_schema st) = ts_table_version s0 \<and>
     contents (dm_td st) = effect cd (dm_wal st) m0 \<and>
     (\<forall>r \<in> set (dm_wal st). record_ok cd tref s0 r) \<and>
     (\<forall>e \<in> set (td_rows (dm_td st)). re_version e \<le> next_row_version s0)"

lemma same_layout_trans: "\<lbrakk>same_layout a b; same_layout b c\<rbrakk> \<Longrightarrow> same_layout a c"
  by (simp add: same_layout_def)

lemma next_row_version_cong: "ts_table_version s' = ts_table_version s \<Longrightarrow> next_row_version s' = next_row_version s"
  by (simp add: next_row_version_def)

lemma ball_list_update: "\<lbrakk>\<forall>x \<in> set xs. P x; P y\<rbrakk> \<Longrightarrow> \<forall>x \<in> set (xs[i := y]). P x"
  using set_update_subset_insert [of xs i y] by blast

text \<open>A step that appends records and writes the table accordingly keeps the statement logged.\<close>

lemma stmt_logged_step:
  assumes "stmt_logged cd tref s0 m0 st" and "stmt_ok cd st'" and "dm_schema st' = dm_schema st"
    and "dm_wal st' = dm_wal st @ recs" and "contents (dm_td st') = effect cd recs (contents (dm_td st))"
    and "\<forall>r \<in> set recs. record_ok cd tref s0 r"
    and "\<forall>e \<in> set (td_rows (dm_td st')). re_version e \<le> next_row_version s0"
  shows "stmt_logged cd tref s0 m0 st'"
  using assms by (auto simp: stmt_logged_def effect_append)

lemma insert_row_logged:
  assumes log: "stmt_logged cd tref s0 m0 st"
  shows "stmt_logged cd tref s0 m0 (snd (insert_row cd tref sv now row st))"
proof -
  have ok: "stmt_ok cd st" and pk_ok: "pk_ok cd (dm_schema st) (dm_td st)"
    using log by (simp_all add: stmt_logged_def stmt_ok_def)
  obtain r st' where ins: "insert_row cd tref sv now row st = (r, st')" by fastforce
  have ok': "stmt_ok cd st'" using insert_row_ok [OF ok, of tref sv now row] ins by simp
  from ok ins show ?thesis
  proof (cases rule: insert_row_cases)
    case (kept e)
    then show ?thesis
      using log ok' contents_cong [OF kept(2,3)] ins same_layout_trans by (auto simp: stmt_logged_def)
  next
    case (added pk e)
    have layout: "same_layout s0 (dm_schema st')" using log added(5) same_layout_trans by (auto simp: stmt_logged_def)
    let ?td = "(dm_td st)\<lparr>td_rows := td_rows (dm_td st) @ [e],
      td_pk_index := AList.update (pk_key cd pk) (length (td_rows (dm_td st))) (td_pk_index (dm_td st))\<rparr>"
    have "contents (dm_td st') = contents ?td" by (rule contents_cong) (simp_all add: added)
    also have "\<dots> = (contents (dm_td st))(pk_key cd pk \<mapsto> e)"
      using contents_append [OF pk_ok] added(8) by simp
    finally have "contents (dm_td st') = effect cd (dm_wal st') m0"
      using log added by (simp add: stmt_logged_def effect_append record_key_def record_value_def)
    moreover have "row_pk_key cd s0 (re_row e) = Some (pk_key cd pk)"
      using added(7) layout_congs(1) [OF layout] by (simp add: row_pk_key_def)
    ultimately show ?thesis
      using log ok' ins added layout next_row_version_cong [of "dm_schema st" s0]
      by (auto simp: stmt_logged_def record_ok_def record_key_def from_entry_def)
  qed
qed

lemma update_row_logged:
  assumes log: "stmt_logged cd tref s0 m0 st" and idx: "idx < length (td_rows (dm_td st))"
  shows "stmt_logged cd tref s0 m0 (snd (update_row cd tref sv now pred sets if_match idx st))"
proof -
  have ok: "stmt_ok cd st" and pk_ok: "pk_ok cd (dm_schema st) (dm_td st)" and layout: "same_layout s0 (dm_schema st)"
    and ver: "next_row_version (dm_schema st) = next_row_version s0"
    using log next_row_version_cong [of "dm_schema st" s0] by (simp_all add: stmt_logged_def stmt_ok_def)
  obtain r td where ch: "check_update cd pred sets if_match idx (dm_schema st) (dm_td st) = (r, td)" by fastforce
  note td = check_update_stmt [OF ok ch]
  let ?st' = "snd (update_row cd tref sv now pred sets if_match idx st)"
  have ok': "stmt_ok cd ?st'" by (rule update_row_ok [OF ok idx])
  show ?thesis
  proof (cases "\<exists>new_row cpk npk. r = Inr (Some (new_row, cpk, npk))")
    case False
    then have "?st' = st\<lparr>dm_td := td\<rparr>" using ch by (auto simp: update_row_def split: sum.splits option.splits)
    then show ?thesis using log td contents_cong [of td "dm_td st"] ok' by (simp add: stmt_logged_def)
  next
    case True
    then obtain new_row cpk npk where r: "r = Inr (Some (new_row, cpk, npk))" by blast
    note hit = check_update_Some [OF ok ch [unfolded r]]
    let ?e = "updated_entry (dm_schema st) sv now new_row (td_rows td ! idx)"
    let ?cur = "re_row (td_rows (dm_td st) ! idx)" and ?ck = "pk_key cd cpk" and ?nk = "pk_key cd npk"
    have st': "?st' = st\<lparr>dm_td := updated_table cd idx ?e ?ck ?nk td, dm_affected := dm_affected st + 1,
         dm_wal := dm_wal st @ [from_entry (tr_db tref) (tr_table tref) npk ?e] @
           (if ?ck \<noteq> ?nk then [tombstone_for tref cpk ?cur ?e] else [])\<rparr>"
      using update_row_hit [OF ch [unfolded r]] idx td by (simp add: Let_def)
    have e: "\<not> re_deleted ?e" "re_row ?e = new_row" "re_version ?e = next_row_version s0"
      using hit(1) td ver by (simp_all add: updated_entry_def)
    have ck: "map_of (td_pk_index (dm_td st)) ?ck = Some idx"
      using pk_ok_live [OF pk_ok, of idx ?cur] hit(1,2) idx by (simp add: live_map_def row_pk_key_def)
    let ?pki = "if ?ck = ?nk then td_pk_index (dm_td st) else AList.update ?nk idx (AList.delete ?ck (td_pk_index (dm_td st)))"
    have "contents (updated_table cd idx ?e ?ck ?nk td) =
        contents ((dm_td st)\<lparr>td_rows := (td_rows (dm_td st))[idx := ?e], td_pk_index := ?pki\<rparr>)"
      using td by (intro contents_cong) (simp_all add: updated_table_def)
    also have "\<dots> = effect cd ([from_entry (tr_db tref) (tr_table tref) npk ?e] @
           (if ?ck \<noteq> ?nk then [tombstone_for tref cpk ?cur ?e] else [])) (contents (dm_td st))"
    proof (cases "?ck = ?nk")
      case True
      then show ?thesis using contents_set [OF pk_ok ck, of ?e] e(1)
        by (simp add: record_key_def record_value_def True)
    next
      case False
      then show ?thesis using contents_move [OF pk_ok ck False, of ?e] e(1)
        by (simp add: record_key_def record_value_def tombstone_for_def)
    qed
    finally have eff: "contents (dm_td ?st') = effect cd ([from_entry (tr_db tref) (tr_table tref) npk ?e] @
           (if ?ck \<noteq> ?nk then [tombstone_for tref cpk ?cur ?e] else [])) (contents (dm_td st))"
      unfolding st' by simp
    have "row_pk_key cd s0 new_row = Some ?nk" "row_pk_key cd s0 ?cur = Some ?ck"
      using hit(2,3) layout_congs(1) [OF layout] by (simp_all add: row_pk_key_def)
    then have recs: "\<forall>r \<in> set ([from_entry (tr_db tref) (tr_table tref) npk ?e] @
           (if ?ck \<noteq> ?nk then [tombstone_for tref cpk ?cur ?e] else [])). record_ok cd tref s0 r"
      using e by (simp add: record_ok_def record_key_def tombstone_for_def from_entry_def)
    have "td_rows (dm_td ?st') = (td_rows (dm_td st))[idx := ?e]" unfolding st' using td by (simp add: updated_table_def)
    then have vers: "\<forall>e \<in> set (td_rows (dm_td ?st')). re_version e \<le> next_row_version s0"
      using log e(3) ball_list_update [of "td_rows (dm_td st)" "\<lambda>e. re_version e \<le> next_row_version s0" ?e idx]
      by (simp add: stmt_logged_def)
    show ?thesis
      by (rule stmt_logged_step [OF log ok' _ _ eff recs vers]) (simp_all add: st')
  qed
qed

lemma delete_row_logged:
  assumes log: "stmt_logged cd tref s0 m0 st" and idx: "idx < length (td_rows (dm_td st))"
  shows "stmt_logged cd tref s0 m0 (snd (delete_row cd tref sv now pred idx st))"
proof -
  have ok: "stmt_ok cd st" and pk_ok: "pk_ok cd (dm_schema st) (dm_td st)" and layout: "same_layout s0 (dm_schema st)"
    and ver: "next_row_version (dm_schema st) = next_row_version s0"
    using log next_row_version_cong [of "dm_schema st" s0] by (simp_all add: stmt_logged_def stmt_ok_def)
  let ?st' = "snd (delete_row cd tref sv now pred idx st)"
  let ?old = "td_rows (dm_td st) ! idx"
  have ok': "stmt_ok cd ?st'" by (rule delete_row_ok [OF ok idx])
  show ?thesis
  proof (cases "\<not> re_deleted ?old \<and> pred (re_row ?old) = Inr True")
    case False
    then have "?st' = st" by (auto simp: delete_row_def Let_def split: sum.splits bool.splits)
    then show ?thesis using log by simp
  next
    case True
    then obtain k where k: "row_pk_key cd (dm_schema st) (re_row ?old) = Some k" "map_of (td_pk_index (dm_td st)) k = Some idx"
      using pk_ok_live [OF pk_ok, of idx "re_row ?old"] idx by (auto simp: live_map_def)
    then obtain pk where pk: "extract_pk (dm_schema st) (re_row ?old) = Inr pk" "k = pk_key cd pk"
      by (auto simp: row_pk_key_def split: sum.splits)
    let ?e = "?old\<lparr>re_deleted := True, re_version := next_row_version (dm_schema st), re_schema_version := sv, re_commit_ts_ms := now\<rparr>"
    let ?td = "(secondary_index_remove_row cd idx (re_row ?old) (dm_td st))\<lparr>td_rows := (td_rows (dm_td st))[idx := ?e]\<rparr>"
    have st': "?st' = st\<lparr>dm_td := ?td, dm_affected := dm_affected st + 1,
        dm_wal := dm_wal st @ [from_entry (tr_db tref) (tr_table tref) pk ?e]\<rparr>"
      using True pk by (simp add: delete_row_def Let_def)
    have "contents ?td = contents ((dm_td st)\<lparr>td_rows := (td_rows (dm_td st))[idx := ?e]\<rparr>)"
      by (rule contents_cong) simp_all
    also have "\<dots> = (contents (dm_td st))(k := None)" using contents_set [OF pk_ok k(2), of ?e] by simp
    finally have eff: "contents (dm_td ?st') = effect cd [from_entry (tr_db tref) (tr_table tref) pk ?e] (contents (dm_td st))"
      using pk(2) unfolding st' by (simp add: record_key_def record_value_def)
    have recs: "\<forall>r \<in> set [from_entry (tr_db tref) (tr_table tref) pk ?e]. record_ok cd tref s0 r"
      using k(1) pk(2) ver layout_congs(2) [OF layout] by (simp add: record_ok_def record_key_def from_entry_def)
    have "td_rows (dm_td ?st') = (td_rows (dm_td st))[idx := ?e]" unfolding st' by simp
    then have vers: "\<forall>e \<in> set (td_rows (dm_td ?st')). re_version e \<le> next_row_version s0"
      using log ver ball_list_update [of "td_rows (dm_td st)" "\<lambda>e. re_version e \<le> next_row_version s0" ?e idx]
      by (simp add: stmt_logged_def)
    show ?thesis
      by (rule stmt_logged_step [OF log ok' _ _ eff recs vers]) (simp_all add: st')
  qed
qed

section \<open>Replay\<close>

lemma pk_ok_add:
  assumes ok: "pk_ok cd s td" and key: "row_pk_key cd s (re_row e) = Some k" and new: "map_of (td_pk_index td) k = None"
  shows "pk_ok cd s (td\<lparr>td_rows := td_rows td @ [e], td_pk_index := AList.update k (length (td_rows td)) (td_pk_index td)\<rparr>)"
    (is "pk_ok cd s ?td")
proof -
  have "\<exists>k'. row_pk_key cd s row = Some k' \<and> map_of (td_pk_index ?td) k' = Some i"
    if live: "live_map (td_rows ?td) i = Some row" for i row
  proof (cases "i = length (td_rows td)")
    case True
    with live key show ?thesis by (auto simp: live_map_append update_conv' split: if_splits)
  next
    case False
    then have "live_map (td_rows td) i = Some row" using live by (simp add: live_map_append)
    then obtain k' where "row_pk_key cd s row = Some k'" "map_of (td_pk_index td) k' = Some i"
      using pk_ok_live [OF ok] by blast
    with new show ?thesis by (auto simp: update_conv')
  qed
  moreover have "i < length (td_rows ?td) \<and> row_pk_key cd s (re_row (td_rows ?td ! i)) = Some k'"
    if "map_of (td_pk_index ?td) k' = Some i" for i k'
    using that key pk_ok_index [OF ok] by (cases "k' = k") (force simp: update_conv' nth_append)+
  ultimately show ?thesis unfolding pk_ok_def by blast
qed

lemma pk_ok_set:
  assumes ok: "pk_ok cd s td" and key: "row_pk_key cd s (re_row e) = Some k" and i: "map_of (td_pk_index td) k = Some i"
  shows "pk_ok cd s (td\<lparr>td_rows := (td_rows td)[i := e]\<rparr>)" (is "pk_ok cd s ?td")
proof -
  have len: "i < length (td_rows td)" using pk_ok_index [OF ok i] by simp
  have "\<exists>k'. row_pk_key cd s row = Some k' \<and> map_of (td_pk_index ?td) k' = Some j"
    if "live_map (td_rows ?td) j = Some row" for j row
    using that len key i pk_ok_live [OF ok, of j row]
    by (cases "j = i") (auto simp: live_map_update split: if_splits)
  moreover have "j < length (td_rows ?td) \<and> row_pk_key cd s (re_row (td_rows ?td ! j)) = Some k'"
    if "map_of (td_pk_index ?td) k' = Some j" for j k'
    using that len key i pk_ok_index [OF ok, of k' j] pk_index_inj [OF ok i, of k'] by (cases "j = i") auto
  ultimately show ?thesis unfolding pk_ok_def by blast
qed

text \<open>A record newer than what the table holds under its key takes effect.\<close>

lemma apply_record_newer:
  assumes ok: "pk_ok cd s td" and key: "row_pk_key cd s (wr_row r) = Some (record_key cd r)"
    and newer: "\<forall>e. pk_entry td (record_key cd r) = Some e \<longrightarrow> re_version e < wr_version r"
  shows "pk_ok cd s (snd (apply_record cd r td))"
    and "contents (snd (apply_record cd r td)) = (contents td)(record_key cd r := record_value r)"
    and "pk_entry (snd (apply_record cd r td)) = (pk_entry td)(record_key cd r \<mapsto> record_entry r)"
proof -
  let ?k = "record_key cd r" and ?e = "record_entry r"
  have "pk_ok cd s (snd (apply_record cd r td)) \<and>
    contents (snd (apply_record cd r td)) = (contents td)(?k := record_value r) \<and>
    pk_entry (snd (apply_record cd r td)) = (pk_entry td)(?k \<mapsto> ?e)"
  proof (cases "map_of (td_pk_index td) ?k")
    case None
    then have "snd (apply_record cd r td) =
        td\<lparr>td_rows := td_rows td @ [?e], td_pk_index := AList.update ?k (length (td_rows td)) (td_pk_index td)\<rparr>"
      by (simp add: apply_record_def record_key_def Let_def)
    moreover have "pk_entry (td\<lparr>td_rows := td_rows td @ [?e], td_pk_index := AList.update ?k (length (td_rows td)) (td_pk_index td)\<rparr>) k =
        ((pk_entry td)(?k \<mapsto> ?e)) k" for k
      using pk_ok_index [OF ok, of k] by (cases "map_of (td_pk_index td) k") (auto simp: pk_entry_def update_conv' nth_append)
    then have "pk_entry (td\<lparr>td_rows := td_rows td @ [?e], td_pk_index := AList.update ?k (length (td_rows td)) (td_pk_index td)\<rparr>) =
        (pk_entry td)(?k \<mapsto> ?e)" ..
    ultimately show ?thesis
      using pk_ok_add [OF ok _ None, of ?e] key contents_append [OF ok, of ?k ?e] by (simp add: record_value_def)
  next
    case (Some i)
    have "re_version (td_rows td ! i) < wr_version r" using newer Some by (simp add: pk_entry_def)
    then have "snd (apply_record cd r td) = td\<lparr>td_rows := (td_rows td)[i := ?e]\<rparr>"
      using Some by (simp add: apply_record_def record_key_def Let_def)
    moreover have "pk_entry (td\<lparr>td_rows := (td_rows td)[i := ?e]\<rparr>) = (pk_entry td)(?k \<mapsto> ?e)"
    proof (rule ext)
      fix k
      have "j \<noteq> i" if "map_of (td_pk_index td) k = Some j" "k \<noteq> ?k" for j
        using that pk_index_inj [OF ok Some, of k] by auto
      then show "pk_entry (td\<lparr>td_rows := (td_rows td)[i := ?e]\<rparr>) k = ((pk_entry td)(?k \<mapsto> ?e)) k"
        using pk_ok_index [OF ok Some] Some
        by (cases "k = ?k"; cases "map_of (td_pk_index td) k") (simp_all add: pk_entry_def)
    qed
    ultimately show ?thesis
      using pk_ok_set [OF ok _ Some, of ?e] key contents_set [OF ok Some, of ?e] by (simp add: record_value_def)
  qed
  then show "pk_ok cd s (snd (apply_record cd r td))"
    "contents (snd (apply_record cd r td)) = (contents td)(?k := record_value r)"
    "pk_entry (snd (apply_record cd r td)) = (pk_entry td)(?k \<mapsto> ?e)" by blast+
qed

lemma replay_append: "replay cd (xs @ ys) td = replay cd ys (replay cd xs td)"
  by (induction xs arbitrary: td) simp_all

text \<open>A batch that names every key once and is newer than the table is replayed in full.\<close>

lemma replay_batch:
  assumes "pk_ok cd s td" and "distinct (map (record_key cd) recs)"
    and "\<forall>r \<in> set recs. row_pk_key cd s (wr_row r) = Some (record_key cd r)"
    and "\<forall>r \<in> set recs. \<forall>e. pk_entry td (record_key cd r) = Some e \<longrightarrow> re_version e < wr_version r"
  shows "pk_ok cd s (replay cd recs td) \<and> contents (replay cd recs td) = effect cd recs (contents td) \<and>
    (\<forall>k e. pk_entry (replay cd recs td) k = Some e \<longrightarrow> pk_entry td k = Some e \<or> (\<exists>r \<in> set recs. e = record_entry r))"
  using assms
proof (induction recs arbitrary: td)
  case (Cons r recs)
  have newer: "\<forall>e. pk_entry td (record_key cd r) = Some e \<longrightarrow> re_version e < wr_version r" using Cons.prems(4) by simp
  have key: "row_pk_key cd s (wr_row r) = Some (record_key cd r)" using Cons.prems(3) by simp
  note step = apply_record_newer [OF Cons.prems(1) key newer]
  have "record_key cd r' \<noteq> record_key cd r" if "r' \<in> set recs" for r'
    using that Cons.prems(2) unfolding list.map distinct.simps set_map by (metis imageI)
  then have later: "\<forall>r' \<in> set recs. \<forall>e. pk_entry (snd (apply_record cd r td)) (record_key cd r') = Some e \<longrightarrow> re_version e < wr_version r'"
    using Cons.prems(4) step(3) by simp
  have d: "distinct (map (record_key cd) recs)" and keys: "\<forall>r \<in> set recs. row_pk_key cd s (wr_row r) = Some (record_key cd r)"
    using Cons.prems(2,3) by simp_all
  note IH = Cons.IH [OF step(1) d keys later]
  have "pk_ok cd s (replay cd (r # recs) td) \<and> contents (replay cd (r # recs) td) = effect cd (r # recs) (contents td)"
    using IH unfolding replay.simps effect.simps step(2) by blast
  moreover have "pk_entry td k = Some e \<or> (\<exists>r \<in> set (r # recs). e = record_entry r)"
    if "pk_entry (replay cd (r # recs) td) k = Some e" for k e
  proof -
    have "pk_entry (snd (apply_record cd r td)) k = Some e \<or> (\<exists>r \<in> set recs. e = record_entry r)"
      using IH that by simp
    then show ?thesis by (auto simp: step(3) split: if_splits)
  qed
  ultimately show ?case by blast
qed simp

section \<open>Loading and rebuilding the primary-key index\<close>

text \<open>Every live row has a key and no two live rows share one.\<close>

definition live_keys :: "codecs \<Rightarrow> table_schema \<Rightarrow> row_entry list \<Rightarrow> nat \<Rightarrow> string option" where
  "live_keys cd s rows i = Option.bind (live_map rows i) (row_pk_key cd s)"

definition keyed_rows :: "codecs \<Rightarrow> table_schema \<Rightarrow> row_entry list \<Rightarrow> bool" where
  "keyed_rows cd s rows \<longleftrightarrow>
     (\<forall>i row. live_map rows i = Some row \<longrightarrow> row_pk_key cd s row \<noteq> None) \<and>
     (\<forall>i j k. live_keys cd s rows i = Some k \<and> live_keys cd s rows j = Some k \<longrightarrow> i = j)"

definition indexes_live :: "codecs \<Rightarrow> table_schema \<Rightarrow> row_entry list \<Rightarrow> (string \<times> nat) list \<Rightarrow> bool" where
  "indexes_live cd s rows pk \<longleftrightarrow> (\<forall>k i. map_of pk k = Some i \<longleftrightarrow> live_keys cd s rows i = Some k)"

lemma live_keys_append:
  "live_keys cd s (rows @ [e]) =
     (live_keys cd s rows)(length rows := (if re_deleted e then None else row_pk_key cd s (re_row e)))"
  by (auto simp: live_keys_def live_map_append fun_eq_iff)

lemma live_keys_prefix: "i < length rows \<Longrightarrow> live_keys cd s (rows @ rest) i = live_keys cd s rows i"
  by (simp add: live_keys_def live_map_def nth_append)

lemma live_keys_length: "live_keys cd s rows i = Some k \<Longrightarrow> i < length rows"
  by (auto simp: live_keys_def live_map_def split: if_splits)

lemma indexes_live_step:
  assumes "indexes_live cd s pre pk" and "keyed_rows cd s (pre @ e # rows)"
  shows "re_deleted e \<Longrightarrow> indexes_live cd s (pre @ [e]) pk"
    and "\<lbrakk>\<not> re_deleted e; row_pk_key cd s (re_row e) = Some k\<rbrakk>
      \<Longrightarrow> map_of pk k = None \<and> indexes_live cd s (pre @ [e]) (AList.update k (length pre) pk)"
proof -
  have at: "live_keys cd s pre (length pre) = None" by (simp add: live_keys_def)
  then show "re_deleted e \<Longrightarrow> indexes_live cd s (pre @ [e]) pk"
    using assms(1) by (auto simp: indexes_live_def live_keys_append)
  assume e: "\<not> re_deleted e" "row_pk_key cd s (re_row e) = Some k"
  have here: "live_keys cd s (pre @ e # rows) (length pre) = Some k"
    using e by (simp add: live_keys_def live_map_def nth_append)
  have none: "live_keys cd s pre i \<noteq> Some k" for i
  proof
    assume i: "live_keys cd s pre i = Some k"
    note len = live_keys_length [OF i]
    have "live_keys cd s (pre @ e # rows) i = Some k" using live_keys_prefix [OF len] i by simp
    with here len assms(2) show False unfolding keyed_rows_def by blast
  qed
  then have "map_of pk k = None" using assms(1) by (cases "map_of pk k") (auto simp: indexes_live_def)
  moreover have "indexes_live cd s (pre @ [e]) (AList.update k (length pre) pk)"
    using assms(1) none e at by (auto simp: indexes_live_def live_keys_append update_conv')
  ultimately show "map_of pk k = None \<and> indexes_live cd s (pre @ [e]) (AList.update k (length pre) pk)" ..
qed

lemma keyed_rows_at: "keyed_rows cd s (pre @ e # rows) \<Longrightarrow> \<not> re_deleted e \<Longrightarrow>
    \<exists>pk. extract_pk s (re_row e) = Inr pk \<and> row_pk_key cd s (re_row e) = Some (pk_key cd pk)"
proof -
  assume "keyed_rows cd s (pre @ e # rows)" "\<not> re_deleted e"
  moreover from this(2) have "live_map (pre @ e # rows) (length pre) = Some (re_row e)" by (simp add: live_map_def nth_append)
  ultimately show ?thesis unfolding keyed_rows_def row_pk_key_def by (auto split: sum.splits)
qed

lemma load_pk_index_live:
  "\<lbrakk>keyed_rows cd s (pre @ rows); indexes_live cd s pre pk\<rbrakk> \<Longrightarrow>
     indexes_live cd s (pre @ rows) (load_pk_index cd s (length pre) rows pk)"
proof (induction rows arbitrary: pre pk)
  case (Cons e rows)
  let ?pk = "if re_deleted e then pk
      else case extract_pk s (re_row e) of Inl _ \<Rightarrow> pk | Inr k \<Rightarrow> AList.update (pk_key cd k) (length pre) pk"
  have "indexes_live cd s (pre @ [e]) ?pk"
    using indexes_live_step [OF Cons.prems(2,1)] keyed_rows_at [OF Cons.prems(1)] by auto
  from Cons.IH [OF _ this] Cons.prems(1) show ?case by simp
qed simp

lemma rebuild_pk_index_live:
  "\<lbrakk>keyed_rows cd s (pre @ rows); indexes_live cd s pre pk\<rbrakk> \<Longrightarrow>
     \<exists>pk'. rebuild_pk_index cd s (length pre) rows pk = (None, pk') \<and> indexes_live cd s (pre @ rows) pk'"
proof (induction rows arbitrary: pre pk)
  case (Cons e rows)
  show ?case
  proof (cases "re_deleted e")
    case True
    from Cons.IH [OF _ indexes_live_step(1) [OF Cons.prems(2,1) True]] Cons.prems(1) True show ?thesis by simp
  next
    case False
    then obtain k where k: "extract_pk s (re_row e) = Inr k" "row_pk_key cd s (re_row e) = Some (pk_key cd k)"
      using keyed_rows_at [OF Cons.prems(1)] by blast
    note step = indexes_live_step(2) [OF Cons.prems(2,1) False k(2)]
    from Cons.IH [OF _ conjunct2 [OF step]] Cons.prems(1) False k step show ?thesis by (simp add: Let_def)
  qed
qed simp

lemma pk_ok_keyed_rows:
  assumes ok: "pk_ok cd s td"
  shows "keyed_rows cd s (td_rows td)"
proof -
  have "map_of (td_pk_index td) k = Some i" if key: "live_keys cd s (td_rows td) i = Some k" for i k
  proof -
    obtain row where "live_map (td_rows td) i = Some row" "row_pk_key cd s row = Some k"
      using key by (auto simp: live_keys_def bind_eq_Some_conv)
    with pk_ok_live [OF ok, of i row] show ?thesis by simp
  qed
  then have "i = j" if "live_keys cd s (td_rows td) i = Some k" "live_keys cd s (td_rows td) j = Some k" for i j k
    using that by (metis option.inject)
  moreover have "row_pk_key cd s row \<noteq> None" if "live_map (td_rows td) i = Some row" for i row
    using pk_ok_live [OF ok that] by auto
  ultimately show ?thesis unfolding keyed_rows_def by blast
qed

lemma indexes_live_pk_ok: "\<lbrakk>keyed_rows cd s (td_rows td); indexes_live cd s (td_rows td) (td_pk_index td)\<rbrakk> \<Longrightarrow> pk_ok cd s td"
  unfolding pk_ok_def indexes_live_def keyed_rows_def live_keys_def
  by (fastforce simp: bind_eq_Some_conv dest: live_map_SomeD)

text \<open>Under the invariant the contents are the live rows by key, however the index was built.\<close>

lemma contents_live:
  assumes ok: "pk_ok cd s td"
  shows "contents td k = Some e \<longleftrightarrow>
     (\<exists>i < length (td_rows td). e = td_rows td ! i \<and> live_keys cd s (td_rows td) i = Some k)"
proof
  assume "contents td k = Some e"
  then obtain i where i: "map_of (td_pk_index td) k = Some i" "e = td_rows td ! i" "\<not> re_deleted e"
    by (auto simp: contents_def pk_entry_def split: option.splits if_splits)
  with pk_ok_index [OF ok i(1)] show "\<exists>i < length (td_rows td). e = td_rows td ! i \<and> live_keys cd s (td_rows td) i = Some k"
    by (auto simp: live_keys_def live_map_def)
next
  assume "\<exists>i < length (td_rows td). e = td_rows td ! i \<and> live_keys cd s (td_rows td) i = Some k"
  then obtain i where "i < length (td_rows td)" "e = td_rows td ! i" "\<not> re_deleted e" "row_pk_key cd s (re_row e) = Some k"
    by (auto simp: live_keys_def live_map_def split: if_splits)
  with pk_ok_live [OF ok, of i "re_row e"] show "contents td k = Some e"
    by (simp add: contents_def pk_entry_def live_map_def)
qed

lemma contents_same_rows:
  assumes "pk_ok cd s td" "pk_ok cd s td'" "td_rows td' = td_rows td"
  shows "contents td' = contents td"
proof (rule ext)
  fix k
  have "contents td' k = Some e \<longleftrightarrow> contents td k = Some e" for e
    by (simp add: contents_live [OF assms(1)] contents_live [OF assms(2)] assms(3))
  then show "contents td' k = contents td k" by (metis option.exhaust)
qed

section \<open>Statements and their log\<close>

datatype dml_stmt =
    SInsert "row_object list"
  | SUpdate row_pred "(string \<times> row_expr) list" "u64 option" "string option"
  | SDelete row_pred "u64 option"

fun run_stmt ::
    "codecs \<Rightarrow> table_ref \<Rightarrow> u64 \<Rightarrow> (nat \<Rightarrow> u64) \<Rightarrow> dml_stmt \<Rightarrow> table_schema \<Rightarrow> table_data \<Rightarrow> unit dml_result" where
  "run_stmt cd tref sv clock (SInsert rows) s td = apfst (map_sum id (\<lambda>_. ())) (data_insert_rows cd tref sv clock rows s td)"
| "run_stmt cd tref sv clock (SUpdate pred sets lim if_match) s td =
     data_update_rows cd tref sv clock pred sets lim if_match s td"
| "run_stmt cd tref sv clock (SDelete pred lim) s td = data_delete_rows cd tref sv clock pred lim s td"

text \<open>The row step of a statement that goes over the rows: it logs what it does.\<close>

locale logged_step =
  fixes cd :: codecs and tref :: table_ref and f :: "nat \<Rightarrow> dml_state \<Rightarrow> bool dml_result"
  assumes step_logged: "\<lbrakk>stmt_logged cd tref s0 m0 st; idx < length (td_rows (dm_td st))\<rbrakk>
      \<Longrightarrow> stmt_logged cd tref s0 m0 (snd (f idx st))"
    and step_length: "length (td_rows (dm_td (snd (f idx st)))) = length (td_rows (dm_td st))"
    and step_quiet: "dm_affected (snd (f idx st)) = 0 \<Longrightarrow>
      dm_affected st = 0 \<and> td_rows (dm_td (snd (f idx st))) = td_rows (dm_td st) \<and> dm_wal (snd (f idx st)) = dm_wal st"
begin

definition run_inv :: "table_schema \<Rightarrow> (string \<Rightarrow> row_entry option) \<Rightarrow> row_entry list \<Rightarrow> dml_state \<Rightarrow> bool" where
  "run_inv s0 m0 rows st \<longleftrightarrow> stmt_logged cd tref s0 m0 st \<and> length (td_rows (dm_td st)) = length rows \<and>
     (dm_affected st = 0 \<longrightarrow> td_rows (dm_td st) = rows \<and> dm_wal st = [])"

lemma run_inv_for_rows:
  assumes "run_inv s0 m0 rows st"
  shows "run_inv s0 m0 rows (snd (for_rows f lim [0..<length rows] st))"
  by (rule for_rows_inv [where I = "run_inv s0 m0 rows", OF _ assms])
    (auto simp: run_inv_def step_logged step_length dest: step_quiet)

end

interpretation upd: logged_step cd tref "\<lambda>idx st. update_row cd tref sv (clock (dm_affected st)) pred sets if_match idx st"
  for cd tref sv clock pred sets if_match
proof
  fix idx st
  let ?st' = "snd (update_row cd tref sv (clock (dm_affected st)) pred sets if_match idx st)"
  assume zero: "dm_affected ?st' = 0"
  obtain r td where ch: "check_update cd pred sets if_match idx (dm_schema st) (dm_td st) = (r, td)" by fastforce
  then have "td_rows td = td_rows (dm_td st)"
    by (auto simp: check_update_def Let_def mysql_compat_unique_conflict_def
        split: if_splits sum.splits bool.splits option.splits)
  with ch zero show "dm_affected st = 0 \<and> td_rows (dm_td ?st') = td_rows (dm_td st) \<and> dm_wal ?st' = dm_wal st"
    by (auto simp: update_row_def Let_def split: sum.splits option.splits)
qed (simp_all add: update_row_logged)

interpretation del: logged_step cd tref "\<lambda>idx st. delete_row cd tref sv (clock (dm_affected st)) pred idx st"
  for cd tref sv clock pred
proof
  fix idx st
  let ?st' = "snd (delete_row cd tref sv (clock (dm_affected st)) pred idx st)"
  assume "dm_affected ?st' = 0"
  then show "dm_affected st = 0 \<and> td_rows (dm_td ?st') = td_rows (dm_td st) \<and> dm_wal ?st' = dm_wal st"
    by (auto simp: delete_row_def Let_def split: sum.splits bool.splits if_splits)
qed (simp_all add: delete_row_logged)

text \<open>No row is newer than the table's version.\<close>

definition rows_upto :: "u64 \<Rightarrow> table_data \<Rightarrow> bool" where
  "rows_upto v td \<longleftrightarrow> (\<forall>e \<in> set (td_rows td). re_version e \<le> v)"

lemma le_saturating_succ: "v \<le> saturating_succ v"
  using unat_lt_u64 [of v] unat_saturating_succ [of v] by (simp add: word_le_nat_alt)

lemma less_saturating_succ: "v \<noteq> - 1 \<Longrightarrow> v < saturating_succ v"
  using le_saturating_succ [of v] by (auto simp: saturating_succ_def order_less_le)

lemma dml_start_logged:
  assumes "table_ok cd s td" "rows_upto (ts_table_version s) td"
  shows "stmt_logged cd tref s (contents td) (dml_start s (rebuild_secondary_indexes_if_stale cd s td))"
proof -
  have "contents (rebuild_secondary_indexes_if_stale cd s td) = contents td" by (rule contents_cong) simp_all
  then show ?thesis
    using assms dml_start_ok [OF assms(1)] order_trans [OF _ le_saturating_succ]
    by (simp add: stmt_logged_def rows_upto_def next_row_version_def dml_start_def)
qed

text \<open>What a statement that succeeds leaves: its log is its effect, and versions stay below the table's.\<close>

definition stmt_done :: "codecs \<Rightarrow> table_ref \<Rightarrow> table_schema \<Rightarrow> table_data \<Rightarrow> dml_state \<Rightarrow> bool" where
  "stmt_done cd tref s td st \<longleftrightarrow>
     table_ok cd (dm_schema st) (dm_td st) \<and> same_layout s (dm_schema st) \<and>
     contents (dm_td st) = effect cd (dm_wal st) (contents td) \<and>
     (\<forall>r \<in> set (dm_wal st). record_ok cd tref s r) \<and>
     rows_upto (ts_table_version (dm_schema st)) (dm_td st) \<and>
     (if dm_wal st = [] then ts_table_version (dm_schema st) \<in> {ts_table_version s, next_row_version s}
      else ts_table_version (dm_schema st) = next_row_version s)"

lemma stmt_logged_finish:
  assumes "stmt_logged cd tref s (contents td) st"
  shows "stmt_done cd tref s td (finish_statement st)"
proof -
  have "stmt_ok cd (finish_statement st)" using assms finish_statement_ok by (simp add: stmt_logged_def)
  note ok = stmt_ok_table_ok [OF this]
  have "contents (dm_td (finish_statement st)) = contents (dm_td st)"
    by (rule contents_cong) (simp_all add: finish_statement_def Let_def)
  moreover have "same_layout s (dm_schema (finish_statement st))"
    using assms same_layout_trans [of s "dm_schema st"] by (simp add: stmt_logged_def finish_statement_def Let_def)
  moreover have "ts_table_version (dm_schema (finish_statement st)) = next_row_version s"
    using assms by (simp add: stmt_logged_def finish_statement_def Let_def bump_table_version_def next_row_version_def)
  ultimately show ?thesis
    using assms ok by (simp add: stmt_done_def stmt_logged_def rows_upto_def finish_statement_def Let_def)
qed

lemma insert_rows_logged:
  "stmt_logged cd tref s0 m0 st \<Longrightarrow> stmt_logged cd tref s0 m0 (snd (insert_rows cd tref sv clock rows st))"
proof (induction rows arbitrary: st)
  case (Cons row rows)
  then show ?case
    using insert_row_logged [OF Cons.prems, of sv "clock (dm_affected st)" row]
    by (auto split: prod.splits sum.splits)
qed simp

context logged_step
begin

lemma for_all_rows_done:
  assumes tab: "table_ok cd s td" "rows_upto (ts_table_version s) td"
    and run: "for_all_rows cd f lim s td = (Inr (), st)"
  shows "stmt_done cd tref s td st"
proof -
  let ?st0 = "dml_start s (rebuild_secondary_indexes_if_stale cd s td)"
  have "run_inv s (contents td) (td_rows td) ?st0"
    using dml_start_logged [OF tab] by (simp add: run_inv_def dml_start_def)
  note inv = run_inv_for_rows [OF this, of lim]
  obtain r st1 where st1: "for_rows f lim [0..<length (td_rows td)] ?st0 = (r, st1)" by fastforce
  then have log: "stmt_logged cd tref s (contents td) st1"
    and quiet: "dm_affected st1 = 0 \<Longrightarrow> td_rows (dm_td st1) = td_rows td \<and> dm_wal st1 = []"
    using inv by (simp_all add: run_inv_def)
  show ?thesis
  proof (cases "dm_affected st1 = 0")
    case True
    then have "st = st1" using run st1 by (auto simp: for_all_rows_def split: sum.splits)
    then show ?thesis
      using log quiet [OF True] tab(2) stmt_ok_table_ok [of cd st1]
      by (simp add: stmt_done_def stmt_logged_def rows_upto_def)
  next
    case False
    then have "st = finish_statement st1" using run st1 by (auto simp: for_all_rows_def split: sum.splits)
    then show ?thesis using stmt_logged_finish [OF log] by simp
  qed
qed

end

lemma run_stmt_done:
  assumes tab: "table_ok cd s td" "rows_upto (ts_table_version s) td"
    and run: "run_stmt cd tref sv clock stmt s td = (Inr (), st)"
  shows "stmt_done cd tref s td st"
proof (cases stmt)
  case (SInsert rows)
  obtain r st1 where st1: "insert_rows cd tref sv clock rows (dml_start s (rebuild_secondary_indexes_if_stale cd s td)) = (r, st1)"
    by fastforce
  then have "stmt_logged cd tref s (contents td) st1"
    using insert_rows_logged [OF dml_start_logged [OF tab], of tref sv clock rows] by simp
  moreover have "st = finish_statement st1"
    using run SInsert st1 by (auto simp: data_insert_rows_def split: sum.splits)
  ultimately show ?thesis using stmt_logged_finish by simp
next
  case (SUpdate pred sets lim if_match)
  then show ?thesis using run upd.for_all_rows_done [OF tab] by (simp add: data_update_rows_def)
next
  case (SDelete pred lim)
  then show ?thesis using run del.for_all_rows_done [OF tab] by (simp add: data_delete_rows_def)
qed

section \<open>A statement names every key once\<close>

text \<open>
  Replay needs that a batch does not name a key twice, because all its records carry the same
  version. This holds for inserts, for deletes, and for updates that assign no key column.
\<close>

abbreviation wal_keys :: "codecs \<Rightarrow> dml_state \<Rightarrow> string list" where
  "wal_keys cd st \<equiv> map (record_key cd) (dm_wal st)"

fun keeps_keys :: "table_schema \<Rightarrow> dml_stmt \<Rightarrow> bool" where
  "keeps_keys s (SUpdate pred sets lim if_match) \<longleftrightarrow> fst ` set sets \<inter> set (ts_primary_key s) = {}"
| "keeps_keys s _ \<longleftrightarrow> True"

lemma pk_live_at_contents: "pk_live_at td k = None \<Longrightarrow> pk_ok cd s td \<Longrightarrow> contents td k = None"
  using pk_ok_index [of cd s td k]
  by (auto simp: pk_live_at_def contents_def pk_entry_def split: option.splits if_splits)

lemma record_key_from_entry [simp]: "record_key cd (from_entry db t pk e) = pk_key cd pk"
  by (simp add: record_key_def)

lemma insert_rows_distinct:
  assumes "stmt_logged cd tref s0 m0 st"
    and "distinct (wal_keys cd st) \<and> (\<forall>k \<in> set (wal_keys cd st). contents (dm_td st) k \<noteq> None)"
  shows "distinct (wal_keys cd (snd (insert_rows cd tref sv clock rows st)))"
  using assms
proof (induction rows arbitrary: st)
  case (Cons row rows)
  obtain r st' where ins: "insert_row cd tref sv (clock (dm_affected st)) row st = (r, st')" by fastforce
  have log': "stmt_logged cd tref s0 m0 st'"
    using insert_row_logged [OF Cons.prems(1), of sv "clock (dm_affected st)" row] ins by simp
  have ok: "stmt_ok cd st" and pk: "pk_ok cd (dm_schema st) (dm_td st)"
    using Cons.prems(1) by (simp_all add: stmt_logged_def stmt_ok_def)
  have "distinct (wal_keys cd st') \<and> (\<forall>k \<in> set (wal_keys cd st'). contents (dm_td st') k \<noteq> None)"
    using ok ins
  proof (cases rule: insert_row_cases)
    case (kept e)
    then show ?thesis using Cons.prems(2) contents_cong [of "dm_td st'" "dm_td st"] by simp
  next
    case (added pkv e)
    have "contents (dm_td st') = effect cd (dm_wal st') m0" using log' by (simp add: stmt_logged_def)
    also have "\<dots> = (contents (dm_td st))(pk_key cd pkv \<mapsto> e)"
      using Cons.prems(1) added by (simp add: stmt_logged_def effect_append record_key_def record_value_def)
    finally show ?thesis
      using Cons.prems(2) added(4) pk_live_at_contents [OF added(10) pk] by auto
  qed
  with Cons.IH [OF log'] show ?case using ins by (cases r) auto
qed simp

lemma for_rows_inv_rest:
  assumes "\<And>idx rest st. J (idx # rest) st \<Longrightarrow> J rest (snd (f idx st))" and "J idxs st"
  shows "\<exists>rest. J rest (snd (for_rows f lim idxs st))"
  using assms(2)
proof (induction idxs arbitrary: st)
  case (Cons idx idxs)
  obtain r st' where f: "f idx st = (r, st')" by fastforce
  then have "J idxs st'" using assms(1) [OF Cons.prems] by simp
  then show ?case using Cons.IH [of st'] f by (auto split: sum.split)
qed auto

text \<open>
  A step that logs at most one record, under a key the row already has: then the keys logged so
  far belong to rows passed before.
\<close>

definition passed_keys :: "codecs \<Rightarrow> table_ref \<Rightarrow> table_schema \<Rightarrow> (string \<Rightarrow> row_entry option) \<Rightarrow> row_entry list \<Rightarrow> nat list \<Rightarrow> dml_state \<Rightarrow> bool" where
  "passed_keys cd tref s0 m0 rows rest st \<longleftrightarrow>
     stmt_logged cd tref s0 m0 st \<and> length (td_rows (dm_td st)) = length rows \<and>
     distinct rest \<and> set rest \<subseteq> {..<length rows} \<and> distinct (wal_keys cd st) \<and>
     (\<forall>i \<in> set rest. td_rows (dm_td st) ! i = rows ! i) \<and>
     (\<forall>k \<in> set (wal_keys cd st). \<exists>j. j \<notin> set rest \<and> live_keys cd s0 rows j = Some k)"

lemma passed_keys_step:
  assumes pass: "passed_keys cd tref s0 m0 rows (idx # rest) st"
    and keyed: "keyed_rows cd s0 rows"
    and log: "stmt_logged cd tref s0 m0 st'" and len: "length (td_rows (dm_td st')) = length rows"
    and others: "\<And>i. i \<noteq> idx \<Longrightarrow> td_rows (dm_td st') ! i = td_rows (dm_td st) ! i"
    and wal: "dm_wal st' = dm_wal st \<or> (\<exists>r. dm_wal st' = dm_wal st @ [r] \<and> live_keys cd s0 rows idx = Some (record_key cd r))"
  shows "passed_keys cd tref s0 m0 rows rest st'"
proof -
  have idx: "idx \<notin> set rest" using pass by (simp add: passed_keys_def)
  have rows: "\<forall>i \<in> set rest. td_rows (dm_td st') ! i = rows ! i"
    using pass others idx unfolding passed_keys_def by (metis list.set_intros(2))
  have old: "\<exists>j. j \<notin> set rest \<and> j \<noteq> idx \<and> live_keys cd s0 rows j = Some k" if "k \<in> set (wal_keys cd st)" for k
    using pass that unfolding passed_keys_def by (metis list.set_intros)
  have "distinct (wal_keys cd st') \<and> (\<forall>k \<in> set (wal_keys cd st'). \<exists>j. j \<notin> set rest \<and> live_keys cd s0 rows j = Some k)"
    using wal
  proof
    assume "dm_wal st' = dm_wal st"
    with pass old show ?thesis unfolding passed_keys_def by metis
  next
    assume "\<exists>r. dm_wal st' = dm_wal st @ [r] \<and> live_keys cd s0 rows idx = Some (record_key cd r)"
    then obtain r where r: "dm_wal st' = dm_wal st @ [r]" "live_keys cd s0 rows idx = Some (record_key cd r)" by blast
    have "record_key cd r \<notin> set (wal_keys cd st)"
      using old [of "record_key cd r"] r(2) keyed unfolding keyed_rows_def by metis
    with pass r idx old show ?thesis unfolding passed_keys_def by auto
  qed
  with pass log len rows show ?thesis by (simp add: passed_keys_def)
qed

lemma passed_keys_row:
  assumes "passed_keys cd tref s0 m0 rows (idx # rest) st"
  shows "idx < length (td_rows (dm_td st))" "td_rows (dm_td st) ! idx = rows ! idx" "idx < length rows"
    "stmt_logged cd tref s0 m0 st" "same_layout s0 (dm_schema st)"
  using assms by (simp_all add: passed_keys_def stmt_logged_def)

lemma delete_row_passed:
  assumes pass: "passed_keys cd tref s0 m0 rows (idx # rest) st" and keyed: "keyed_rows cd s0 rows"
  shows "passed_keys cd tref s0 m0 rows rest (snd (delete_row cd tref sv now pred idx st))"
proof (rule passed_keys_step [OF pass keyed])
  let ?st' = "snd (delete_row cd tref sv now pred idx st)"
  note row = passed_keys_row [OF pass]
  show "stmt_logged cd tref s0 m0 ?st'" by (rule delete_row_logged [OF row(4,1)])
  show "length (td_rows (dm_td ?st')) = length rows" using pass by (simp add: passed_keys_def)
  show "td_rows (dm_td ?st') ! i = td_rows (dm_td st) ! i" if "i \<noteq> idx" for i
    using that by (simp add: delete_row_def Let_def split: sum.split bool.split)
  show "dm_wal ?st' = dm_wal st \<or> (\<exists>r. dm_wal ?st' = dm_wal st @ [r] \<and> live_keys cd s0 rows idx = Some (record_key cd r))"
    using row(2,3) layout_congs(1) [OF row(5)]
    by (auto simp: delete_row_def Let_def live_keys_def live_map_def row_pk_key_def split: sum.split bool.split)
qed

lemma assign_columns_pk:
  "\<lbrakk>assign_columns sets cur row = Inr new; fst ` set sets \<inter> set ks = {}\<rbrakk> \<Longrightarrow> pk_values ks new = pk_values ks row"
proof (induction sets arbitrary: row)
  case (Cons a sets)
  obtain k expr where a: "a = (k, expr)" by fastforce
  with Cons.prems obtain l where l: "assign_columns sets cur (bt_insert k l row) = Inr new"
    by (auto simp: bindE_eq_Inr)
  have "pk_values ks (bt_insert k l row) = pk_values ks row" using Cons.prems(2) a by (induction ks) (auto split: option.split)
  with Cons.IH [OF l] Cons.prems(2) show ?case by auto
qed simp

lemma update_row_passed:
  assumes pass: "passed_keys cd tref s0 m0 rows (idx # rest) st" and keyed: "keyed_rows cd s0 rows"
    and sets: "fst ` set sets \<inter> set (ts_primary_key s0) = {}"
  shows "passed_keys cd tref s0 m0 rows rest (snd (update_row cd tref sv now pred sets if_match idx st))"
proof (rule passed_keys_step [OF pass keyed])
  let ?st' = "snd (update_row cd tref sv now pred sets if_match idx st)"
  note row = passed_keys_row [OF pass]
  have ok: "stmt_ok cd st" using row(4) by (simp add: stmt_logged_def)
  obtain r td where ch: "check_update cd pred sets if_match idx (dm_schema st) (dm_td st) = (r, td)" by fastforce
  note td = check_update_stmt [OF ok ch]
  show "stmt_logged cd tref s0 m0 ?st'" by (rule update_row_logged [OF row(4,1)])
  show "length (td_rows (dm_td ?st')) = length rows" using pass by (simp add: passed_keys_def)
  have *: "(\<forall>i. i \<noteq> idx \<longrightarrow> td_rows (dm_td ?st') ! i = td_rows (dm_td st) ! i) \<and>
    (dm_wal ?st' = dm_wal st \<or> (\<exists>r. dm_wal ?st' = dm_wal st @ [r] \<and> live_keys cd s0 rows idx = Some (record_key cd r)))"
  proof (cases "\<exists>new_row cpk npk. r = Inr (Some (new_row, cpk, npk))")
    case False
    then have "?st' = st\<lparr>dm_td := td\<rparr>" using ch by (auto simp: update_row_def split: sum.splits option.splits)
    then show ?thesis using td by simp
  next
    case True
    then obtain new_row cpk npk where r: "r = Inr (Some (new_row, cpk, npk))" by blast
    note hit = check_update_Some [OF ok ch [unfolded r]]
    have "extract_pk (dm_schema st) new_row = extract_pk (dm_schema st) (re_row (td_rows (dm_td st) ! idx))"
      using assign_columns_pk [OF hit(7)] sets row(5) by (simp add: extract_pk_def same_layout_def)
    then have same: "npk = cpk" using hit(2,3) by simp
    have "live_keys cd s0 rows idx = Some (pk_key cd npk)"
      using hit(1,2) row(2,3) layout_congs(1) [OF row(5)] same by (simp add: live_keys_def live_map_def row_pk_key_def)
    then show ?thesis
      using update_row_hit [OF ch [unfolded r]] row(1) td same by (simp add: Let_def updated_table_def)
  qed
  show "td_rows (dm_td ?st') ! i = td_rows (dm_td st) ! i" if "i \<noteq> idx" for i using * that by blast
  show "dm_wal ?st' = dm_wal st \<or> (\<exists>r. dm_wal ?st' = dm_wal st @ [r] \<and> live_keys cd s0 rows idx = Some (record_key cd r))"
    using * by blast
qed

lemma for_all_rows_distinct:
  assumes tab: "table_ok cd s td" "rows_upto (ts_table_version s) td"
    and step: "\<And>idx rest st. passed_keys cd tref s (contents td) (td_rows td) (idx # rest) st
      \<Longrightarrow> passed_keys cd tref s (contents td) (td_rows td) rest (snd (f idx st))"
    and run: "for_all_rows cd f lim s td = (Inr (), st)"
  shows "distinct (wal_keys cd st)"
proof -
  let ?st0 = "dml_start s (rebuild_secondary_indexes_if_stale cd s td)"
  have start: "passed_keys cd tref s (contents td) (td_rows td) [0..<length (td_rows td)] ?st0"
    using dml_start_logged [OF tab] by (auto simp: passed_keys_def dml_start_def)
  have "\<exists>rest. passed_keys cd tref s (contents td) (td_rows td) rest (snd (for_rows f lim [0..<length (td_rows td)] ?st0))"
    by (rule for_rows_inv_rest [where J = "passed_keys cd tref s (contents td) (td_rows td)", OF _ start]) (rule step)
  then have "distinct (wal_keys cd (snd (for_rows f lim [0..<length (td_rows td)] ?st0)))" by (auto simp: passed_keys_def)
  then show ?thesis
    using run by (auto simp: for_all_rows_def finish_statement_def Let_def split: prod.splits sum.splits if_splits)
qed

lemma run_stmt_distinct:
  assumes tab: "table_ok cd s td" "rows_upto (ts_table_version s) td"
    and run: "run_stmt cd tref sv clock stmt s td = (Inr (), st)" and keys: "keeps_keys s stmt"
  shows "distinct (wal_keys cd st)"
proof -
  have keyed: "keyed_rows cd s (td_rows td)" using tab(1) by (auto simp: table_ok_def intro: pk_ok_keyed_rows)
  show ?thesis
  proof (cases stmt)
    case (SInsert rows)
    let ?st0 = "dml_start s (rebuild_secondary_indexes_if_stale cd s td)"
    have "distinct (wal_keys cd (snd (insert_rows cd tref sv clock rows ?st0)))"
      by (rule insert_rows_distinct [OF dml_start_logged [OF tab]]) (simp add: dml_start_def)
    then show ?thesis
      using run SInsert by (auto simp: data_insert_rows_def finish_statement_def Let_def split: prod.splits sum.splits)
  next
    case (SUpdate pred sets lim if_match)
    then show ?thesis using run keys
      by (intro for_all_rows_distinct [OF tab update_row_passed [OF _ keyed]]) (simp_all add: data_update_rows_def)
  next
    case (SDelete pred lim)
    then show ?thesis using run
      by (intro for_all_rows_distinct [OF tab delete_row_passed [OF _ keyed]]) (simp_all add: data_delete_rows_def)
  qed
qed

section \<open>Replaying a sequence of statements\<close>

text \<open>Each statement has its own clock; the first failure ends the sequence.\<close>

fun run_stmts ::
    "codecs \<Rightarrow> table_ref \<Rightarrow> u64 \<Rightarrow> ((nat \<Rightarrow> u64) \<times> dml_stmt) list \<Rightarrow> table_schema \<Rightarrow> table_data
       \<Rightarrow> engine_error + dml_state list" where
  "run_stmts cd tref sv [] s td = Inr []"
| "run_stmts cd tref sv ((clock, x) # xs) s td =
     (case run_stmt cd tref sv clock x s td of
        (Inl e, st) \<Rightarrow> Inl e
      | (Inr _, st) \<Rightarrow> bindE (run_stmts cd tref sv xs (dm_schema st) (dm_td st)) (\<lambda>sts. Inr (st # sts)))"

definition table_after :: "table_data \<Rightarrow> dml_state list \<Rightarrow> nat \<Rightarrow> table_data" where
  "table_after td sts j = (if j = 0 then td else dm_td (sts ! (j - 1)))"

definition log_of :: "dml_state list \<Rightarrow> wal_row_record list" where
  "log_of sts = concat (map dm_wal sts)"

text \<open>A reloaded table that stands for the one in memory at version \<open>v\<close>.\<close>

definition stands_for :: "codecs \<Rightarrow> table_schema \<Rightarrow> u64 \<Rightarrow> table_data \<Rightarrow> table_data \<Rightarrow> bool" where
  "stands_for cd s v rt td \<longleftrightarrow>
     pk_ok cd s rt \<and> contents rt = contents td \<and> (\<forall>k e. pk_entry rt k = Some e \<longrightarrow> re_version e \<le> v)"

lemma record_ok_layout: "same_layout s s' \<Longrightarrow> ts_table_version s' = ts_table_version s \<Longrightarrow> record_ok cd tref s' = record_ok cd tref s"
  using layout_congs(2) [of s s' cd] by (simp add: record_ok_def fun_eq_iff next_row_version_def)

lemma replay_statement:
  assumes "stmt_done cd tref s td st" and "distinct (wal_keys cd st)" and "ts_table_version s \<noteq> - 1"
    and rt: "stands_for cd s (ts_table_version s) rt td"
  shows "stands_for cd (dm_schema st) (ts_table_version (dm_schema st)) (replay cd (dm_wal st) rt) (dm_td st)"
proof -
  have lay: "same_layout s (dm_schema st)" and eff: "contents (dm_td st) = effect cd (dm_wal st) (contents td)"
    and recs: "\<forall>r \<in> set (dm_wal st). record_ok cd tref s r"
    and ver: "if dm_wal st = [] then ts_table_version (dm_schema st) \<in> {ts_table_version s, next_row_version s}
      else ts_table_version (dm_schema st) = next_row_version s"
    using assms(1) unfolding stmt_done_def by blast+
  have less: "ts_table_version s < next_row_version s" using assms(3) by (simp add: next_row_version_def less_saturating_succ)
  have upto: "re_version e \<le> ts_table_version s" if "pk_entry rt k = Some e" for k e
    using rt that by (simp add: stands_for_def)
  have "\<forall>r \<in> set (dm_wal st). \<forall>e. pk_entry rt (record_key cd r) = Some e \<longrightarrow> re_version e < wr_version r"
    using upto recs less by (auto simp: record_ok_def intro: le_less_trans)
  from replay_batch [OF _ assms(2) _ this] rt recs have
    "pk_ok cd s (replay cd (dm_wal st) rt)" "contents (replay cd (dm_wal st) rt) = effect cd (dm_wal st) (contents rt)"
    and from_where: "\<And>k e. pk_entry (replay cd (dm_wal st) rt) k = Some e \<Longrightarrow>
      pk_entry rt k = Some e \<or> (\<exists>r \<in> set (dm_wal st). e = record_entry r)"
    by (auto simp: stands_for_def record_ok_def)
  moreover have "re_version e \<le> ts_table_version (dm_schema st)" if "pk_entry (replay cd (dm_wal st) rt) k = Some e" for k e
    using from_where [OF that] upto [of k e] recs ver less by (auto simp: record_ok_def split: if_splits)
  ultimately show ?thesis
    using rt eff layout_congs(3) [OF lay] by (simp add: stands_for_def)
qed

lemma keeps_keys_layout: "same_layout s s' \<Longrightarrow> keeps_keys s' x = keeps_keys s x"
  by (cases x) (simp_all add: same_layout_def)

lemma unat_version_step:
  assumes "v' \<in> {v, saturating_succ v}" "unat v + Suc n < 2 ^ 64 - 1"
  shows "unat v' + n < 2 ^ 64 - 1" "v \<noteq> - 1"
proof -
  show "v \<noteq> - 1" using assms(2) by (auto simp: unsigned_minus_1_eq_mask mask_eq_exp_minus_1)
  have "unat v' \<le> unat v + 1" using assms(1) unat_saturating_succ [of v] by auto
  then show "unat v' + n < 2 ^ 64 - 1" using assms(2) by linarith
qed

lemma replay_statements:
  assumes "run_stmts cd tref sv xs s td = Inr sts"
    and "table_ok cd s td" "rows_upto (ts_table_version s) td"
    and "\<forall>x \<in> set xs. keeps_keys s (snd x)" and "unat (ts_table_version s) + length xs < 2 ^ 64 - 1"
    and "stands_for cd s (ts_table_version s) rt td" and "j \<le> length sts"
  shows "pk_ok cd s (replay cd (log_of (take j sts)) rt) \<and>
    contents (replay cd (log_of (take j sts)) rt) = contents (table_after td sts j)"
  using assms
proof (induction xs arbitrary: s td rt sts j)
  case Nil
  then show ?case by (simp add: log_of_def table_after_def stands_for_def)
next
  case (Cons cx xs)
  obtain clock x where cx: "cx = (clock, x)" by fastforce
  from Cons.prems(1) obtain st sts' where x: "run_stmt cd tref sv clock x s td = (Inr (), st)"
    and rest: "run_stmts cd tref sv xs (dm_schema st) (dm_td st) = Inr sts'" and sts: "sts = st # sts'"
    by (auto simp: cx bindE_eq_Inr split: prod.splits sum.splits)
  have fin: "stmt_done cd tref s td st" by (rule run_stmt_done [OF Cons.prems(2,3) x])
  then have lay: "same_layout s (dm_schema st)" and ver: "ts_table_version (dm_schema st) \<in> {ts_table_version s, next_row_version s}"
    by (auto simp: stmt_done_def split: if_splits)
  have dist: "distinct (wal_keys cd st)"
    using Cons.prems(4) cx by (intro run_stmt_distinct [OF Cons.prems(2,3) x]) simp
  show ?case
  proof (cases j)
    case 0
    then show ?thesis using Cons.prems(6) by (simp add: log_of_def table_after_def stands_for_def)
  next
    case (Suc i)
    note v = unat_version_step [OF ver [unfolded next_row_version_def], of "length xs"]
    have "stands_for cd (dm_schema st) (ts_table_version (dm_schema st)) (replay cd (dm_wal st) rt) (dm_td st)"
      using Cons.prems(5) v(2) by (intro replay_statement [OF fin dist _ Cons.prems(6)]) simp
    from Cons.IH [OF rest _ _ _ _ this, of i]
    have "pk_ok cd (dm_schema st) (replay cd (log_of (take i sts')) (replay cd (dm_wal st) rt)) \<and>
        contents (replay cd (log_of (take i sts')) (replay cd (dm_wal st) rt)) = contents (table_after (dm_td st) sts' i)"
      using fin Cons.prems(4,5,7) v(1) Suc sts keeps_keys_layout [OF lay] by (simp add: stmt_done_def)
    moreover have "table_after (dm_td st) sts' i = table_after td sts j"
      using Suc sts by (cases i) (simp_all add: table_after_def)
    ultimately show ?thesis
      using Suc sts layout_congs(3) [OF lay] by (simp add: log_of_def replay_append)
  qed
qed

text \<open>The table as it is loaded from its own rows stands for it.\<close>

lemma load_table_stands_for:
  assumes "pk_ok cd s td" "rows_upto v td"
  shows "stands_for cd s v (load_table cd s (td_rows td) secs) td"
proof -
  let ?rt = "load_table cd s (td_rows td) secs"
  have rows: "td_rows ?rt = td_rows td" "td_pk_index ?rt = load_pk_index cd s 0 (td_rows td) []"
    by (simp_all add: load_table_def ensure_mysql_compat_secondary_indexes_def)
  have keyed: "keyed_rows cd s (td_rows td)" by (rule pk_ok_keyed_rows [OF assms(1)])
  have live: "indexes_live cd s (td_rows td) (td_pk_index ?rt)"
    using load_pk_index_live [of cd s "[]" "td_rows td" "[]"] keyed
    by (simp add: rows indexes_live_def live_keys_def)
  have ok: "pk_ok cd s ?rt" using indexes_live_pk_ok [of cd s ?rt] keyed live by (simp add: rows)
  moreover have "contents ?rt = contents td" by (rule contents_same_rows [OF assms(1) ok rows(1)])
  moreover have "re_version e \<le> v" if "pk_entry ?rt k = Some e" for k e
    using that assms(2) pk_ok_index [OF ok, of k] by (auto simp: pk_entry_def rows_upto_def rows(1))
  ultimately show ?thesis by (simp add: stands_for_def)
qed

lemma rebuild_table_indexes_ok:
  assumes "pk_ok cd s td"
  shows "\<exists>td'. rebuild_table_indexes cd s td = (Inr (), bump_table_version s, td') \<and> td_rows td' = td_rows td \<and>
    pk_ok cd s td' \<and> contents td' = contents td"
proof -
  have keyed: "keyed_rows cd s (td_rows td)" by (rule pk_ok_keyed_rows [OF assms])
  then obtain pk where pk: "rebuild_pk_index cd s 0 (td_rows td) [] = (None, pk)" "indexes_live cd s (td_rows td) pk"
    using rebuild_pk_index_live [of cd s "[]" "td_rows td" "[]"] by (auto simp: indexes_live_def live_keys_def)
  have ok: "pk_ok cd s (td\<lparr>td_pk_index := pk\<rparr>)" using indexes_live_pk_ok [of cd s "td\<lparr>td_pk_index := pk\<rparr>"] keyed pk(2) by simp
  show ?thesis
    using pk(1) ok contents_same_rows [OF assms ok] by (simp add: rebuild_table_indexes_def)
qed

section \<open>An update that shifts keys is not replayed\<close>

text \<open>The rows 2 and 1, in this order, and the statement \<open>SET id = id + 1\<close>.\<close>

definition shift_table :: table_data where
  "shift_table = \<lparr>td_rows = [demo_entry (demo_row 2 ''bob'') 1, demo_entry (demo_row 1 ''ann'') 1],
     td_pk_index = [(''#||;'', 0), (''#|;'', 1)], td_secondary = []\<rparr>"

definition shift_stmt :: dml_stmt where
  "shift_stmt = SUpdate (\<lambda>_. Inr True)
     [(''id'', \<lambda>row. case map_of row ''id'' of Some (LU64 v) \<Rightarrow> Inr (LU64 (v + 1)) | _ \<Rightarrow> Inl (EvalError []))] None None"

definition demo_ref :: table_ref where
  "demo_ref = \<lparr>tr_db = ''d'', tr_table = ''t''\<rparr>"

text \<open>
  An update that moves several rows to keys of other rows is logged so that replay loses a
  row. All records of a statement carry one version, and replay ignores a record whose version is
  not newer than that of the entry under its key: here the tombstone of the old key 2 hides the
  row that was moved from 1 to 2. The statement succeeds and keeps both rows in memory, but after
  a restart from the snapshot and the log only the row with key 3 is left.
\<close>

theorem shift_update_not_replayed:
  "\<exists>st. run_stmt demo_codecs demo_ref 1 (\<lambda>_. 7) shift_stmt demo_schema shift_table = (Inr (), st) \<and>
     contents (dm_td st) ''#||;'' \<noteq> None \<and> contents (dm_td st) ''#|||;'' \<noteq> None \<and>
     (let rt = replay demo_codecs (dm_wal st) (load_table demo_codecs demo_schema (td_rows shift_table) [])
      in contents rt ''#||;'' = None \<and> contents rt ''#|||;'' \<noteq> None)"
proof -
  define st where "st = snd (run_stmt demo_codecs demo_ref 1 (\<lambda>_. 7) shift_stmt demo_schema shift_table)"
  have "fst (run_stmt demo_codecs demo_ref 1 (\<lambda>_. 7) shift_stmt demo_schema shift_table) = Inr ()" by code_simp
  moreover have "contents (dm_td st) ''#||;'' \<noteq> None \<and> contents (dm_td st) ''#|||;'' \<noteq> None" unfolding st_def by code_simp
  moreover have "let rt = replay demo_codecs (dm_wal st) (load_table demo_codecs demo_schema (td_rows shift_table) [])
      in contents rt ''#||;'' = None \<and> contents rt ''#|||;'' \<noteq> None"
    unfolding st_def by code_simp
  ultimately show ?thesis by (intro exI [of _ st]) (simp add: st_def prod_eq_iff)
qed

text \<open>
  An insert of several rows that fails on a later row keeps the earlier rows in the table,
  although the statement reports an error and nothing of it is logged: here the first row stays
  visible after the duplicate e-mail address of the second was refused.
\<close>

theorem failed_insert_keeps_rows:
  "let (r, st) = data_insert_rows demo_codecs demo_ref 1 (\<lambda>_. 7) [demo_row 3 ''cat'', demo_row 4 ''bob''] demo_schema demo_table
   in r = Inl (DuplicateKey ''u_email'') \<and> map_option re_row (contents (dm_td st) ''#|||;'') = Some (demo_row 3 ''cat'')"
  by code_simp

end
