(* ===== verification/Engine_Wal.thy ===== *)
theory Engine_Wal
  imports Engine_Redo Wal "HOL-Library.Product_Lexorder"
begin

text \<open>
  The engine's use of the write-ahead log (\<open>engine/wal.rs\<close>): logging the records of a statement
  as one transaction of its database's log, deferred snapshots, flush, truncation, loading and
  recovery; and the end-to-end theorem that cutting the log anywhere loses whole statements
  only. The state is the part of \<open>Engine\<close> these operations use, together with the files they
  write. Rows on disk are kept as rows: their JSON and segment encodings and the encryption of
  cells are not modelled here, nor are streaming tables.
\<close>

section \<open>Transactions of statements\<close>

definition batch_records :: "u64 \<Rightarrow> bytes list \<Rightarrow> wal_record list" where
  "batch_records t ps = begin_v1 t # map (mutation_v1 t) ps @ [commit_v1 t]"

fun log_batches :: "u64 \<Rightarrow> bytes list list \<Rightarrow> wal_record list" where
  "log_batches t [] = []"
| "log_batches t (ps # bs) = batch_records t ps @ log_batches (t + 1) bs"

text \<open>The payloads of the transactions that recovery returns.\<close>

definition payloads :: "recovered_txn list \<Rightarrow> bytes list list" where
  "payloads txns = map (\<lambda>t. map wm_payload (rt_mutations t)) txns"

definition no_open_txn :: "wal_record list \<Rightarrow> bool" where
  "no_open_txn rs \<longleftrightarrow> (\<forall>t. open_window t rs = [])"

lemma open_window_extend:
  "\<forall>r \<in> set xs. wal_txn_id r = t \<and> \<not> txn_ends r \<Longrightarrow>
     open_window t' (rs @ xs) = (if t' = t then open_window t' rs @ xs else open_window t' rs)"
proof (induction xs rule: rev_induct)
  case (snoc x xs)
  then show ?case using open_window_snoc [of t' "rs @ xs" x] by (cases "t' = t") simp_all
qed simp

lemma committed_txns_extend:
  "\<forall>r \<in> set xs. \<not> txn_ends r \<Longrightarrow> committed_txns (rs @ xs) = committed_txns rs"
proof (induction xs rule: rev_induct)
  case (snoc x xs)
  then show ?case
    using committed_txns_snoc [of "rs @ xs" x] commit_at_last [of "rs @ xs" x] by (simp add: txn_ends_def)
qed simp

lemma v1_records [simp]:
  "wal_txn_id (begin_v1 t) = t" "wr_body (begin_v1 t) = BeginTxn"
  "wal_txn_id (mutation_v1 t p) = t" "wr_body (mutation_v1 t p) = Mutation p"
  "wal_txn_id (commit_v1 t) = t" "wr_body (commit_v1 t) = CommitTxn"
  by (simp_all add: begin_v1_def mutation_v1_def commit_v1_def wal_new_v1_def wal_txn_id_def)

lemma stamped_append: "stamped l (xs @ ys) = stamped l xs @ stamped (l + word_of_nat (length xs)) ys"
proof (induction xs arbitrary: l)
  case (Cons x xs)
  have "l + 1 + word_of_nat (length xs) = l + word_of_nat (Suc (length xs))" by (simp add: add.assoc)
  with Cons.IH [of "l + 1"] show ?case by simp
qed simp

lemma set_stamped: "r \<in> set (stamped l xs) \<Longrightarrow> \<exists>q \<in> set xs. \<exists>l'. r = with_lsn q l'"
  by (induction xs arbitrary: l) auto

lemma stamped_open:
  assumes "\<forall>r \<in> set xs. wal_txn_id r = t \<and> \<not> txn_ends r"
  shows "\<forall>r \<in> set (stamped l xs). wal_txn_id r = t \<and> \<not> txn_ends r"
proof
  fix r
  assume "r \<in> set (stamped l xs)"
  then obtain q l' where "q \<in> set xs" "r = with_lsn q l'" using set_stamped by blast
  with assms show "wal_txn_id r = t \<and> \<not> txn_ends r" by (simp add: txn_ends_def)
qed

lemma window_payloads_mutations:
  "map wm_payload (window_mutations (stamped l (map (mutation_v1 t) ps))) = ps"
  by (induction ps arbitrary: l) (simp_all add: window_mutations_def)

text \<open>Part of a transaction commits nothing; the whole of it commits its payloads in order.\<close>

lemma batch_part:
  assumes "no_open_txn rs" and "k < length (batch_records t ps)"
  shows "committed_txns (rs @ stamped l (take k (batch_records t ps))) = committed_txns rs"
proof -
  have "take k (batch_records t ps) = take k (begin_v1 t # map (mutation_v1 t) ps)"
    using assms(2) by (simp add: batch_records_def take_Cons')
  moreover have "\<forall>r \<in> set (begin_v1 t # map (mutation_v1 t) ps). wal_txn_id r = t \<and> \<not> txn_ends r"
    by (auto simp: txn_ends_def)
  then have "\<forall>r \<in> set (take k (begin_v1 t # map (mutation_v1 t) ps)). wal_txn_id r = t \<and> \<not> txn_ends r"
    by (meson in_set_takeD)
  ultimately show ?thesis using committed_txns_extend stamped_open by metis
qed

lemma batch_whole:
  assumes "no_open_txn rs"
  shows "no_open_txn (rs @ stamped l (batch_records t ps))"
    and "payloads (committed_txns (rs @ stamped l (batch_records t ps))) = payloads (committed_txns rs) @ [ps]"
proof -
  let ?xs = "begin_v1 t # map (mutation_v1 t) ps"
  have all: "\<forall>r \<in> set ?xs. wal_txn_id r = t \<and> \<not> txn_ends r" by (auto simp: txn_ends_def)
  note st = stamped_open [OF all, of l]
  let ?c = "with_lsn (commit_v1 t) (l + word_of_nat (length ?xs))"
  have split: "rs @ stamped l (batch_records t ps) = (rs @ stamped l ?xs) @ [?c]"
    using stamped_append [of l ?xs "[commit_v1 t]"] by (simp add: batch_records_def)
  show "no_open_txn (rs @ stamped l (batch_records t ps))"
    unfolding split no_open_txn_def open_window_snoc using assms open_window_extend [OF st]
    by (simp add: no_open_txn_def txn_ends_def)
  have "window_mutations (open_window t (rs @ stamped l ?xs)) = window_mutations (stamped l ?xs)"
    using assms open_window_extend [OF st] by (simp add: no_open_txn_def)
  then have "map wm_payload (window_mutations (open_window t (rs @ stamped l ?xs))) = ps"
    using window_payloads_mutations [of "l + 1" t ps] by (simp add: window_mutations_def)
  then show "payloads (committed_txns (rs @ stamped l (batch_records t ps))) = payloads (committed_txns rs) @ [ps]"
    unfolding split committed_txns_snoc commit_at_last
    using committed_txns_extend [of "stamped l ?xs" rs] st by (simp add: payloads_def)
qed

text \<open>Any prefix of the log commits a prefix of the batches: those that fit into it whole.\<close>

lemma batches_prefix:
  assumes "no_open_txn rs"
  shows "\<exists>j \<le> length bs. payloads (committed_txns (rs @ stamped l (take k (log_batches t bs)))) =
      payloads (committed_txns rs) @ take j bs \<and>
    (\<forall>i \<le> length bs. length (log_batches t (take i bs)) \<le> k \<longrightarrow> i \<le> j)"
  using assms
proof (induction bs arbitrary: rs l k t)
  case (Cons ps bs)
  let ?n = "length (batch_records t ps)"
  have pos: "0 < ?n" by (simp add: batch_records_def)
  show ?case
  proof (cases "k < ?n")
    case True
    have "length (log_batches t (take i (ps # bs))) \<le> k \<longrightarrow> i \<le> 0" for i
      using True by (cases i) auto
    then show ?thesis
      using batch_part [OF Cons.prems True, of l] True by (intro exI [of _ 0]) (simp add: take_append)
  next
    case False
    let ?rs = "rs @ stamped l (batch_records t ps)" and ?l = "l + word_of_nat ?n"
    note whole = batch_whole [OF Cons.prems, of l t ps]
    obtain j where j: "j \<le> length bs"
      "payloads (committed_txns (?rs @ stamped ?l (take (k - ?n) (log_batches (t + 1) bs)))) = payloads (committed_txns ?rs) @ take j bs"
      "\<And>i. i \<le> length bs \<Longrightarrow> length (log_batches (t + 1) (take i bs)) \<le> k - ?n \<Longrightarrow> i \<le> j"
      using Cons.IH [OF whole(1), of ?l "k - ?n" "t + 1"] by blast
    have "take k (log_batches t (ps # bs)) = batch_records t ps @ take (k - ?n) (log_batches (t + 1) bs)"
      using False by simp
    then have "payloads (committed_txns (rs @ stamped l (take k (log_batches t (ps # bs))))) =
        payloads (committed_txns rs) @ take (Suc j) (ps # bs)"
      using j(2) whole(2) by (simp add: stamped_append)
    moreover have "i \<le> Suc j" if "i \<le> length (ps # bs)" "length (log_batches t (take i (ps # bs))) \<le> k" for i
      using that j(3) [of "i - 1"] by (cases i) auto
    ultimately show ?thesis using j(1) by (intro exI [of _ "Suc j"]) auto
  qed
qed auto

section \<open>Engine state and files\<close>

text \<open>
  \<open>serde_json\<close> on redo records, the checksum of the log and the clock of its file header are
  parameters.
\<close>

record wal_env =
  we_crc :: "bytes \<Rightarrow> u32"
  we_now :: u64
  we_to_vec :: "wal_row_record \<Rightarrow> engine_error + bytes"
  we_from_slice :: "bytes \<Rightarrow> wal_row_record option"

type_synonym catalog = "(string \<times> (string \<times> table_schema) list) list"

record db_wal =
  dw_writer :: wal_writer
  dw_unsynced_commits :: u64

record index_cache =
  ic_format_version :: u32
  ic_row_count :: u64
  ic_indexes :: "secondary_index list"

text \<open>What reading a table's row file gives; a missing file is a missing entry.\<close>

datatype table_file = TfRows "row_entry list" | TfLocked | TfCorrupt

record disk =
  dk_catalog :: catalog
  dk_tables :: "(table_ref \<times> table_file) list"
  dk_indexes :: "(table_ref \<times> index_cache) list"
  dk_schema_versions :: "(table_ref \<times> u64) list"
  dk_wals :: "(string \<times> bytes) list"
  dk_legacy_wal :: "bytes option"

record engine =
  eg_catalog :: catalog
  eg_tables :: "(table_ref \<times> table_data) list"
  eg_schema_versions :: "(table_ref \<times> u64) list"
  eg_encrypted_locked :: "table_ref list"
  eg_corrupt :: "table_ref list"
  eg_wals :: "(string \<times> db_wal) list"
  eg_wal_next_txn :: u64
  eg_wal_sync_batch :: u64
  eg_dirty :: "table_ref list"
  eg_mutations_since_flush :: u64
  eg_disk :: disk

type_synonym 'a eng_result = "(engine_error + 'a) \<times> engine"

definition get_schema :: "catalog \<Rightarrow> string \<Rightarrow> string \<Rightarrow> engine_error + table_schema" where
  "get_schema cat db table =
     (case map_of cat db of
        None \<Rightarrow> Inl DatabaseNotFound
      | Some tables \<Rightarrow> (case map_of tables table of None \<Rightarrow> Inl TableNotFound | Some s \<Rightarrow> Inr s))"

definition put_schema :: "string \<Rightarrow> string \<Rightarrow> table_schema \<Rightarrow> catalog \<Rightarrow> catalog" where
  "put_schema db table s cat =
     (case map_of cat db of None \<Rightarrow> cat | Some tables \<Rightarrow> AList.update db (AList.update table s tables) cat)"

definition get_table_mut :: "engine \<Rightarrow> table_ref \<Rightarrow> engine_error + table_schema \<times> table_data" where
  "get_table_mut eng tref =
     bindE (get_schema (eg_catalog eng) (tr_db tref) (tr_table tref)) (\<lambda>schema.
       case map_of (eg_tables eng) tref of
         None \<Rightarrow> Inl TableDataNotLoaded
       | Some td \<Rightarrow> Inr (schema, td))"

definition put_table :: "table_ref \<Rightarrow> table_schema \<Rightarrow> table_data \<Rightarrow> engine \<Rightarrow> engine" where
  "put_table tref schema td eng =
     eng\<lparr>eg_catalog := put_schema (tr_db tref) (tr_table tref) schema (eg_catalog eng),
         eg_tables := AList.update tref td (eg_tables eng)\<rparr>"

definition schema_version_for :: "engine \<Rightarrow> table_ref \<Rightarrow> u64" where
  "schema_version_for eng key = (case map_of (eg_schema_versions eng) key of Some v \<Rightarrow> v | None \<Rightarrow> 1)"

section \<open>Logging\<close>

fun append_mutations ::
    "wal_env \<Rightarrow> u64 \<Rightarrow> wal_row_record list \<Rightarrow> wal_writer \<Rightarrow> (engine_error + unit) \<times> wal_writer" where
  "append_mutations env txn [] w = (Inr (), w)"
| "append_mutations env txn (rec # recs) w =
     (case we_to_vec env rec of
        Inl e \<Rightarrow> (Inl e, w)
      | Inr payload \<Rightarrow>
          (case append_mutation (we_crc env) w txn payload of
             Inl _ \<Rightarrow> (Inl WalError, w)
           | Inr (_, w) \<Rightarrow> append_mutations env txn recs w))"

definition append_txn ::
    "wal_env \<Rightarrow> u64 \<Rightarrow> wal_row_record list \<Rightarrow> wal_writer \<Rightarrow> (engine_error + unit) \<times> wal_writer" where
  "append_txn env txn recs w =
     (case begin_txn (we_crc env) w txn of
        Inl _ \<Rightarrow> (Inl WalError, w)
      | Inr (_, w) \<Rightarrow>
          (case append_mutations env txn recs w of
             (Inl e, w) \<Rightarrow> (Inl e, w)
           | (Inr _, w) \<Rightarrow>
               (case commit_txn (we_crc env) w txn of
                  Inl _ \<Rightarrow> (Inl WalError, w)
                | Inr (_, w) \<Rightarrow> (Inr (), w))))"

definition open_db_wal :: "wal_env \<Rightarrow> string \<Rightarrow> engine \<Rightarrow> engine_error + db_wal" where
  "open_db_wal env db eng =
     (case map_of (eg_wals eng) db of
        Some dw \<Rightarrow> Inr dw
      | None \<Rightarrow>
          (case wal_writer_open (we_crc env) (we_now env) (map_of (dk_wals (eg_disk eng)) db) of
             Inl _ \<Rightarrow> Inl WalError
           | Inr w \<Rightarrow> Inr \<lparr>dw_writer = w, dw_unsynced_commits = 0\<rparr>))"

text \<open>The writer and the file it has written.\<close>

definition put_db_wal :: "string \<Rightarrow> db_wal \<Rightarrow> engine \<Rightarrow> engine" where
  "put_db_wal db dw eng =
     eng\<lparr>eg_wals := AList.update db dw (eg_wals eng),
         eg_disk := (eg_disk eng)\<lparr>dk_wals := AList.update db (ww_file (dw_writer dw)) (dk_wals (eg_disk eng))\<rparr>\<rparr>"

definition wal_log_rows_for_db :: "wal_env \<Rightarrow> string \<Rightarrow> wal_row_record list \<Rightarrow> engine \<Rightarrow> unit eng_result" where
  "wal_log_rows_for_db env db recs eng =
     (let txn = eg_wal_next_txn eng; eng = eng\<lparr>eg_wal_next_txn := txn + 1\<rparr> in
      case open_db_wal env db eng of
        Inl e \<Rightarrow> (Inl e, eng)
      | Inr dw \<Rightarrow>
          (case append_txn env txn recs (dw_writer dw) of
             (Inl e, w) \<Rightarrow> (Inl e, put_db_wal db (dw\<lparr>dw_writer := w\<rparr>) eng)
           | (Inr _, w) \<Rightarrow>
               let unsynced = saturating_succ (dw_unsynced_commits dw);
                   unsynced = (if eg_wal_sync_batch eng \<le> unsynced then 0 else unsynced)
               in (Inr (), put_db_wal db \<lparr>dw_writer = w, dw_unsynced_commits = unsynced\<rparr> eng)))"

fun group_by_db :: "wal_row_record list \<Rightarrow> (string \<times> wal_row_record list) list \<Rightarrow> (string \<times> wal_row_record list) list" where
  "group_by_db [] m = m"
| "group_by_db (rec # recs) m =
     group_by_db recs (bt_insert (wr_db rec) ((case map_of m (wr_db rec) of Some rs \<Rightarrow> rs | None \<Rightarrow> []) @ [rec]) m)"

fun log_groups :: "wal_env \<Rightarrow> (string \<times> wal_row_record list) list \<Rightarrow> engine \<Rightarrow> unit eng_result" where
  "log_groups env [] eng = (Inr (), eng)"
| "log_groups env ((db, recs) # groups) eng =
     (case wal_log_rows_for_db env db recs eng of
        (Inl e, eng) \<Rightarrow> (Inl e, eng)
      | (Inr _, eng) \<Rightarrow> log_groups env groups eng)"

definition wal_log_rows :: "wal_env \<Rightarrow> wal_row_record list \<Rightarrow> engine \<Rightarrow> unit eng_result" where
  "wal_log_rows env records eng = (if records = [] then (Inr (), eng) else log_groups env (group_by_db records []) eng)"

definition wal_truncate :: "engine \<Rightarrow> engine" where
  "wal_truncate eng =
     eng\<lparr>eg_wals := [], eg_disk := (eg_disk eng)\<lparr>dk_wals := [], dk_legacy_wal := None\<rparr>\<rparr>"

section \<open>Snapshots\<close>

definition SECONDARY_INDEX_CACHE_FORMAT_VERSION :: u32 where
  "SECONDARY_INDEX_CACHE_FORMAT_VERSION = 1"

definition persist_table_secondary_indexes :: "codecs \<Rightarrow> table_ref \<Rightarrow> table_schema \<Rightarrow> table_data \<Rightarrow> engine \<Rightarrow> engine" where
  "persist_table_secondary_indexes cd tref schema td eng =
     (let td = rebuild_secondary_indexes_if_stale cd schema td;
          eng = eng\<lparr>eg_tables := AList.update tref td (eg_tables eng)\<rparr>;
          dk = eg_disk eng
      in if td_secondary td = [] then eng\<lparr>eg_disk := dk\<lparr>dk_indexes := AList.delete tref (dk_indexes dk)\<rparr>\<rparr>
         else eng\<lparr>eg_disk := dk\<lparr>dk_indexes := AList.update tref
                \<lparr>ic_format_version = SECONDARY_INDEX_CACHE_FORMAT_VERSION,
                 ic_row_count = word_of_nat (length (td_rows td)),
                 ic_indexes = map snd (td_secondary td)\<rparr> (dk_indexes dk)\<rparr>\<rparr>)"

definition persist_table :: "codecs \<Rightarrow> string \<Rightarrow> string \<Rightarrow> engine \<Rightarrow> unit eng_result" where
  "persist_table cd db table eng =
     (let key = \<lparr>tr_db = db, tr_table = table\<rparr> in
      if key \<in> set (eg_encrypted_locked eng) then (Inl EncryptionKeyRequired, eng)
      else if key \<in> set (eg_corrupt eng) then (Inl StorageCorrupt, eng)
      else case map_of (eg_tables eng) key of
        None \<Rightarrow> (Inr (), eng)
      | Some td \<Rightarrow>
          let dk = eg_disk eng;
              eng = eng\<lparr>eg_disk := dk\<lparr>dk_tables := AList.update key (TfRows (td_rows td)) (dk_tables dk)\<rparr>\<rparr>
          in case get_schema (eg_catalog eng) db table of
               Inl e \<Rightarrow> (Inl e, eng)
             | Inr schema \<Rightarrow> (Inr (), persist_table_secondary_indexes cd key schema td eng))"

definition persist_catalog :: "engine \<Rightarrow> engine" where
  "persist_catalog eng = eng\<lparr>eg_disk := (eg_disk eng)\<lparr>dk_catalog := eg_catalog eng\<rparr>\<rparr>"

definition WAL_FLUSH_THRESHOLD :: u64 where
  "WAL_FLUSH_THRESHOLD = 128"

fun flush_targets :: "codecs \<Rightarrow> table_ref list \<Rightarrow> engine \<Rightarrow> unit eng_result" where
  "flush_targets cd [] eng = (Inr (), eng)"
| "flush_targets cd (key # keys) eng =
     (case persist_table cd (tr_db key) (tr_table key) eng of
        (Inl e, eng) \<Rightarrow> (Inl e, eng)
      | (Inr _, eng) \<Rightarrow> flush_targets cd keys (eng\<lparr>eg_dirty := removeAll key (eg_dirty eng)\<rparr>))"

definition flush_dirty_tables :: "codecs \<Rightarrow> engine \<Rightarrow> unit eng_result" where
  "flush_dirty_tables cd eng =
     (if eg_dirty eng = [] then (Inr (), eng\<lparr>eg_mutations_since_flush := 0\<rparr>)
      else case flush_targets cd (eg_dirty eng) eng of
        (Inl e, eng) \<Rightarrow> (Inl e, eng)
      | (Inr _, eng) \<Rightarrow> (Inr (), wal_truncate (eng\<lparr>eg_mutations_since_flush := 0\<rparr>)))"

definition persist_table_deferred :: "codecs \<Rightarrow> string \<Rightarrow> string \<Rightarrow> engine \<Rightarrow> unit eng_result" where
  "persist_table_deferred cd db table eng =
     (let key = \<lparr>tr_db = db, tr_table = table\<rparr> in
      if key \<in> set (eg_encrypted_locked eng) \<or> key \<in> set (eg_corrupt eng) then persist_table cd db table eng
      else
        let eng = eng\<lparr>eg_dirty := List.insert key (eg_dirty eng),
                      eg_mutations_since_flush := saturating_succ (eg_mutations_since_flush eng)\<rparr>
        in if WAL_FLUSH_THRESHOLD \<le> eg_mutations_since_flush eng then flush_dirty_tables cd eng
           else (Inr (), eng))"

section \<open>Statements on the engine\<close>

text \<open>The common end of the three statements: log the records, then schedule the snapshot.\<close>

definition log_and_defer :: "codecs \<Rightarrow> wal_env \<Rightarrow> table_ref \<Rightarrow> wal_row_record list \<Rightarrow> engine \<Rightarrow> unit eng_result" where
  "log_and_defer cd env tref recs eng =
     (case wal_log_rows env recs eng of
        (Inl e, eng) \<Rightarrow> (Inl e, eng)
      | (Inr _, eng) \<Rightarrow> persist_table_deferred cd (tr_db tref) (tr_table tref) eng)"

definition data_insert ::
    "codecs \<Rightarrow> wal_env \<Rightarrow> (nat \<Rightarrow> u64) \<Rightarrow> table_ref \<Rightarrow> row_object list \<Rightarrow> engine \<Rightarrow> (nat \<times> u64) eng_result" where
  "data_insert cd env clock tref rows eng =
     (case get_table_mut eng tref of
        Inl e \<Rightarrow> (Inl e, eng)
      | Inr (schema, td) \<Rightarrow>
          (case data_insert_rows cd tref (schema_version_for eng tref) clock rows schema td of
             (Inl e, st) \<Rightarrow> (Inl e, put_table tref (dm_schema st) (dm_td st) eng)
           | (Inr catalog_persist_needed, st) \<Rightarrow>
               let eng = put_table tref (dm_schema st) (dm_td st) eng;
                   eng = (if catalog_persist_needed then persist_catalog eng else eng)
               in apfst (map_sum id (\<lambda>_. (dm_affected st, dm_last_insert_id st)))
                    (log_and_defer cd env tref (dm_wal st) eng)))"

definition write_back :: "codecs \<Rightarrow> wal_env \<Rightarrow> table_ref \<Rightarrow> unit dml_result \<Rightarrow> engine \<Rightarrow> nat eng_result" where
  "write_back cd env tref res eng =
     (case res of
        (Inl e, st) \<Rightarrow> (Inl e, put_table tref (dm_schema st) (dm_td st) eng)
      | (Inr _, st) \<Rightarrow>
          let eng = put_table tref (dm_schema st) (dm_td st) eng in
          apfst (map_sum id (\<lambda>_. dm_affected st))
            (if dm_affected st > 0 then log_and_defer cd env tref (dm_wal st) (persist_catalog eng) else (Inr (), eng)))"

definition data_update_exprs ::
    "codecs \<Rightarrow> wal_env \<Rightarrow> (nat \<Rightarrow> u64) \<Rightarrow> table_ref \<Rightarrow> row_pred \<Rightarrow> (string \<times> row_expr) list \<Rightarrow> u64 option \<Rightarrow> string option
       \<Rightarrow> engine \<Rightarrow> nat eng_result" where
  "data_update_exprs cd env clock tref pred sets lim if_match eng =
     (case get_table_mut eng tref of
        Inl e \<Rightarrow> (Inl e, eng)
      | Inr (schema, td) \<Rightarrow>
          write_back cd env tref
            (data_update_rows cd tref (schema_version_for eng tref) clock pred sets lim if_match schema td) eng)"

definition data_delete ::
    "codecs \<Rightarrow> wal_env \<Rightarrow> (nat \<Rightarrow> u64) \<Rightarrow> table_ref \<Rightarrow> row_pred \<Rightarrow> u64 option \<Rightarrow> engine \<Rightarrow> nat eng_result" where
  "data_delete cd env clock tref pred lim eng =
     (case get_table_mut eng tref of
        Inl e \<Rightarrow> (Inl e, eng)
      | Inr (schema, td) \<Rightarrow>
          write_back cd env tref (data_delete_rows cd tref (schema_version_for eng tref) clock pred lim schema td) eng)"

section \<open>Opening the engine\<close>

fun dedup_from :: "string list \<Rightarrow> string list \<Rightarrow> string list" where
  "dedup_from seen [] = []"
| "dedup_from seen (c # cs) = (if c \<in> set seen then dedup_from seen cs else c # dedup_from (c # seen) cs)"

definition dedup_in_order :: "string list \<Rightarrow> string list" where
  "dedup_in_order cols = dedup_from [] cols"

fun load_cached_indexes ::
    "nat \<Rightarrow> secondary_index list \<Rightarrow> (string \<times> secondary_index) list \<Rightarrow> (string \<times> secondary_index) list" where
  "load_cached_indexes row_count [] m = m"
| "load_cached_indexes row_count (ix # ixs) m =
     (let columns = dedup_in_order (si_columns ix);
          include = filter (\<lambda>c. c \<notin> set columns) (dedup_in_order (si_include ix))
      in load_cached_indexes row_count ixs
           (if columns = [] then m
            else if \<exists>idx \<in> set (concat (map snd (si_keys ix))). row_count \<le> idx then m
            else AList.update (secondary_index_key columns include)
                   (ix\<lparr>si_columns := columns, si_include := include\<rparr>) m))"

definition load_table_secondary_indexes :: "disk \<Rightarrow> table_ref \<Rightarrow> nat \<Rightarrow> (string \<times> secondary_index) list" where
  "load_table_secondary_indexes dk tref row_count =
     (case map_of (dk_indexes dk) tref of
        None \<Rightarrow> []
      | Some cache \<Rightarrow>
          if ic_format_version cache \<noteq> SECONDARY_INDEX_CACHE_FORMAT_VERSION
             \<or> ic_row_count cache \<noteq> word_of_nat row_count then []
          else load_cached_indexes row_count (ic_indexes cache) [])"

definition load_rows :: "disk \<Rightarrow> table_ref \<Rightarrow> row_entry list \<times> bool \<times> bool" where
  "load_rows dk tref =
     (case map_of (dk_tables dk) tref of
        None \<Rightarrow> ([], False, False)
      | Some (TfRows rows) \<Rightarrow> (rows, False, False)
      | Some TfLocked \<Rightarrow> ([], True, False)
      | Some TfCorrupt \<Rightarrow> ([], False, True))"

definition load_one :: "codecs \<Rightarrow> string \<Rightarrow> string \<times> table_schema \<Rightarrow> engine \<Rightarrow> engine" where
  "load_one cd db ts eng =
     (let (table, schema) = ts;
          key = \<lparr>tr_db = db, tr_table = table\<rparr>;
          (rows, locked, corrupt) = load_rows (eg_disk eng) key;
          secs = load_table_secondary_indexes (eg_disk eng) key (length rows)
      in eng\<lparr>eg_encrypted_locked := (if locked then List.insert key else removeAll key) (eg_encrypted_locked eng),
             eg_corrupt := (if corrupt then List.insert key else removeAll key) (eg_corrupt eng),
             eg_tables := AList.update key (load_table cd schema rows secs) (eg_tables eng)\<rparr>)"

definition load_tables_best_effort :: "codecs \<Rightarrow> engine \<Rightarrow> engine" where
  "load_tables_best_effort cd eng =
     fold (\<lambda>(db, tables). fold (load_one cd db) tables) (eg_catalog eng) eng"

definition wal_apply_record :: "codecs \<Rightarrow> wal_row_record \<Rightarrow> engine \<Rightarrow> bool \<times> engine" where
  "wal_apply_record cd rec eng =
     (let key = \<lparr>tr_db = wr_db rec, tr_table = wr_table rec\<rparr> in
      if key \<in> set (eg_encrypted_locked eng) then (False, eng)
      else case map_of (eg_tables eng) key of
        None \<Rightarrow> (False, eng)
      | Some td \<Rightarrow>
          let (changed, td) = apply_record cd rec td
          in (changed, eng\<lparr>eg_tables := AList.update key td (eg_tables eng)\<rparr>))"

type_synonym touched = "((string \<times> string) \<times> unit) list"

definition recover_payload :: "codecs \<Rightarrow> wal_env \<Rightarrow> bytes \<Rightarrow> engine \<times> touched \<Rightarrow> engine \<times> touched" where
  "recover_payload cd env payload es =
     (case we_from_slice env payload of
        None \<Rightarrow> es
      | Some rec \<Rightarrow>
          let (eng, t) = es; (changed, eng) = wal_apply_record cd rec eng
          in (eng, if changed then bt_insert (wr_db rec, wr_table rec) () t else t))"

definition recover_source :: "codecs \<Rightarrow> wal_env \<Rightarrow> bytes \<Rightarrow> engine \<times> touched \<Rightarrow> engine \<times> touched" where
  "recover_source cd env content es =
     (case wal_reader_open (we_crc env) content of
        Inl _ \<Rightarrow> es
      | Inr _ \<Rightarrow>
          (case wal_recover (we_crc env) content of
             Inl _ \<Rightarrow> es
           | Inr recovery \<Rightarrow>
               fold (recover_payload cd env) (map wm_payload (concat (map rt_mutations (wrv_txns recovery)))) es))"

definition rebuild_indexes_after_history_gc :: "codecs \<Rightarrow> string \<Rightarrow> string \<Rightarrow> engine \<Rightarrow> unit eng_result" where
  "rebuild_indexes_after_history_gc cd db table eng =
     (let tref = \<lparr>tr_db = db, tr_table = table\<rparr> in
      case get_table_mut eng tref of
        Inl e \<Rightarrow> (Inl e, eng)
      | Inr (schema, td) \<Rightarrow>
          let (r, schema, td) = rebuild_table_indexes cd schema td in (r, put_table tref schema td eng))"

fun persist_touched :: "codecs \<Rightarrow> touched \<Rightarrow> bool \<times> engine \<Rightarrow> bool \<times> engine" where
  "persist_touched cd [] be = be"
| "persist_touched cd (((db, table), _) # ts) (all_persisted, eng) =
     (let eng = snd (rebuild_indexes_after_history_gc cd db table eng) in
      case persist_table cd db table eng of
        (Inl _, eng) \<Rightarrow> persist_touched cd ts (False, eng)
      | (Inr _, eng) \<Rightarrow> persist_touched cd ts (all_persisted, eng))"

definition engine_wal_recover :: "codecs \<Rightarrow> wal_env \<Rightarrow> engine \<Rightarrow> engine" where
  "engine_wal_recover cd env eng =
     (let sources = (case dk_legacy_wal (eg_disk eng) of None \<Rightarrow> [] | Some c \<Rightarrow> [c]) @ map snd (dk_wals (eg_disk eng)) in
      if sources = [] then eng
      else let (eng, t) = fold (recover_source cd env) sources (eng, []);
               (all_persisted, eng) = persist_touched cd t (True, eng)
           in if all_persisted then wal_truncate eng else eng)"

text \<open>
  Two steps of \<open>Engine::open\<close> between loading and recovery: rows without a schema version get that
  of their table, and the indexes that the index advisor created are built again from its history
  (an argument: the entries that \<open>load_advisor_best_effort\<close> read, empty without advisor
  persistence). An entry holds the fields that this step reads.
\<close>

definition stamp_rows_schema_version_if_missing :: "row_entry list \<Rightarrow> u64 \<Rightarrow> row_entry list" where
  "stamp_rows_schema_version_if_missing rows schema_version =
     map (\<lambda>e. if re_schema_version e = 0 then e\<lparr>re_schema_version := max schema_version 1\<rparr> else e) rows"

definition normalize_loaded_row_schema_versions_best_effort :: "engine \<Rightarrow> engine" where
  "normalize_loaded_row_schema_versions_best_effort eng =
     eng\<lparr>eg_tables := map (\<lambda>(key, td).
       (key, td\<lparr>td_rows := stamp_rows_schema_version_if_missing (td_rows td)
                  (max (case map_of (eg_schema_versions eng) key of Some v \<Rightarrow> v | None \<Rightarrow> 1) 1)\<rparr>)) (eg_tables eng)\<rparr>"

record advisor_history_entry =
  ah_suggestion_id :: string
  ah_table :: table_ref
  ah_columns :: "string list"
  ah_include :: "string list"
  ah_action :: string
  ah_status :: "string option"

definition validate_columns :: "table_schema \<Rightarrow> string list \<Rightarrow> bool" where
  "validate_columns schema columns \<longleftrightarrow> list_all (\<lambda>col. list_ex (\<lambda>c. cs_name c = col) (ts_columns schema)) columns"

definition restore_advisor_index :: "codecs \<Rightarrow> advisor_history_entry \<Rightarrow> engine \<Rightarrow> engine" where
  "restore_advisor_index cd entry eng =
     (let columns = dedup_in_order (ah_columns entry);
          include = filter (\<lambda>col. col \<notin> set columns) (dedup_in_order (ah_include entry)) in
      if ah_action entry \<noteq> ''apply'' \<or> ah_status entry \<notin> {None, Some ''completed'', Some ''exists''} \<or> ah_columns entry = [] then eng
      else case (get_schema (eg_catalog eng) (tr_db (ah_table entry)) (tr_table (ah_table entry)), map_of (eg_tables eng) (ah_table entry)) of
        (Inr schema, Some td) \<Rightarrow>
          if validate_columns schema columns \<and> validate_columns schema include
          then eng\<lparr>eg_tables := AList.update (ah_table entry) (snd (register_secondary_index cd schema td columns include)) (eg_tables eng)\<rparr>
          else eng
      | _ \<Rightarrow> eng)"

definition restore_advisor_indexes :: "codecs \<Rightarrow> advisor_history_entry list \<Rightarrow> engine \<Rightarrow> engine" where
  "restore_advisor_indexes cd history eng =
     fold (restore_advisor_index cd) (map snd (fold (\<lambda>entry. AList.update (ah_suggestion_id entry) entry) history [])) eng"

definition engine_open :: "codecs \<Rightarrow> wal_env \<Rightarrow> u64 \<Rightarrow> advisor_history_entry list \<Rightarrow> disk \<Rightarrow> engine" where
  "engine_open cd env sync_batch history dk =
     engine_wal_recover cd env (restore_advisor_indexes cd history (normalize_loaded_row_schema_versions_best_effort
       (load_tables_best_effort cd
          \<lparr>eg_catalog = dk_catalog dk, eg_tables = [], eg_schema_versions = dk_schema_versions dk,
           eg_encrypted_locked = [], eg_corrupt = [], eg_wals = [], eg_wal_next_txn = 0,
           eg_wal_sync_batch = sync_batch, eg_dirty = [], eg_mutations_since_flush = 0, eg_disk = dk\<rparr>)))"

section \<open>The log of a sequence of statements\<close>

lemma append_mutations_Inr:
  assumes "append_mutations env txn recs w = (Inr (), w')"
  shows "\<exists>ps. list_all2 (\<lambda>r p. we_to_vec env r = Inr p) recs ps \<and>
    wal_append_all (we_crc env) w (map (mutation_v1 txn) ps) = Inr w'"
  using assms
proof (induction recs arbitrary: w)
  case (Cons r recs)
  from Cons.prems obtain p lsn w1 where "we_to_vec env r = Inr p" "wal_append (we_crc env) w (mutation_v1 txn p) = Inr (lsn, w1)"
    "append_mutations env txn recs w1 = (Inr (), w')"
    by (auto simp: append_mutation_def split: sum.splits)
  moreover from this Cons.IH obtain ps where "list_all2 (\<lambda>r p. we_to_vec env r = Inr p) recs ps"
    "wal_append_all (we_crc env) w1 (map (mutation_v1 txn) ps) = Inr w'" by blast
  ultimately show ?case by (intro exI [of _ "p # ps"]) simp
qed simp

lemma wal_append_all_append:
  "wal_append_all crc w (xs @ ys) = bindE (wal_append_all crc w xs) (\<lambda>w'. wal_append_all crc w' ys)"
proof (induction xs arbitrary: w)
  case (Cons x xs)
  then show ?case by (cases "wal_append crc w x") (auto split: prod.splits)
qed simp

text \<open>A logged transaction is its batch of log records.\<close>

lemma append_txn_Inr:
  assumes "append_txn env txn recs w = (Inr (), w')"
  shows "\<exists>ps. list_all2 (\<lambda>r p. we_to_vec env r = Inr p) recs ps \<and>
    wal_append_all (we_crc env) w (batch_records txn ps) = Inr w'"
proof -
  from assms obtain l1 w1 w2 l2 where w1: "wal_append (we_crc env) w (begin_v1 txn) = Inr (l1, w1)"
    and w2: "append_mutations env txn recs w1 = (Inr (), w2)"
    and w3: "wal_append (we_crc env) w2 (commit_v1 txn) = Inr (l2, w')"
    by (auto simp: append_txn_def begin_txn_def commit_txn_def split: sum.splits prod.splits)
  from append_mutations_Inr [OF w2] obtain ps where "list_all2 (\<lambda>r p. we_to_vec env r = Inr p) recs ps"
    "wal_append_all (we_crc env) w1 (map (mutation_v1 txn) ps) = Inr w2" by blast
  with w1 w3 show ?thesis
    by (intro exI [of _ ps]) (simp add: batch_records_def wal_append_all_append)
qed

text \<open>The transactions of a list of batches, with consecutive ids.\<close>

fun append_txns :: "wal_env \<Rightarrow> u64 \<Rightarrow> wal_row_record list list \<Rightarrow> wal_writer \<Rightarrow> (engine_error + unit) \<times> wal_writer" where
  "append_txns env txn [] w = (Inr (), w)"
| "append_txns env txn (recs # bs) w =
     (case append_txn env txn recs w of
        (Inl e, w) \<Rightarrow> (Inl e, w)
      | (Inr _, w) \<Rightarrow> append_txns env (txn + 1) bs w)"

lemma append_txns_Inr:
  assumes "append_txns env txn bs w = (Inr (), w')"
  shows "\<exists>pss. list_all2 (list_all2 (\<lambda>r p. we_to_vec env r = Inr p)) bs pss \<and>
    wal_append_all (we_crc env) w (log_batches txn pss) = Inr w'"
  using assms
proof (induction bs arbitrary: txn w)
  case (Cons recs bs)
  from Cons.prems obtain w1 where w1: "append_txn env txn recs w = (Inr (), w1)"
    and rest: "append_txns env (txn + 1) bs w1 = (Inr (), w')" by (auto split: prod.splits sum.splits)
  from append_txn_Inr [OF w1] Cons.IH [OF rest] obtain ps pss where
    "list_all2 (\<lambda>r p. we_to_vec env r = Inr p) recs ps" "wal_append_all (we_crc env) w (batch_records txn ps) = Inr w1"
    "list_all2 (list_all2 (\<lambda>r p. we_to_vec env r = Inr p)) bs pss"
    "wal_append_all (we_crc env) w1 (log_batches (txn + 1) pss) = Inr w'" by blast
  then show ?case by (intro exI [of _ "ps # pss"]) (simp add: wal_append_all_append)
qed simp

text \<open>The engine's logging of one database's records is such a transaction.\<close>

lemma wal_log_rows_for_db_file:
  assumes "wal_log_rows_for_db env db recs eng = (Inr (), eng')" and "map_of (eg_wals eng) db = Some dw"
  shows "\<exists>w'. append_txn env (eg_wal_next_txn eng) recs (dw_writer dw) = (Inr (), w') \<and>
    map_of (dk_wals (eg_disk eng')) db = Some (ww_file w') \<and>
    map_option dw_writer (map_of (eg_wals eng') db) = Some w' \<and> eg_wal_next_txn eng' = eg_wal_next_txn eng + 1"
  using assms
  by (auto simp: wal_log_rows_for_db_def open_db_wal_def put_db_wal_def Let_def update_conv' split: prod.splits sum.splits)

section \<open>Recovery of one table from the log\<close>

text \<open>When all records of a source belong to one table, the source is replayed onto that table.\<close>

lemma recover_payload_table:
  assumes "we_from_slice env p = Some r" and "\<lparr>tr_db = wr_db r, tr_table = wr_table r\<rparr> = tref"
    and "tref \<notin> set (eg_encrypted_locked eng)" and "map_of (eg_tables eng) tref = Some td"
  shows "\<exists>eng' t'. recover_payload cd env p (eng, t) = (eng', t') \<and>
    map_of (eg_tables eng') tref = Some (snd (apply_record cd r td)) \<and>
    eg_encrypted_locked eng' = eg_encrypted_locked eng"
  using assms by (auto simp: recover_payload_def wal_apply_record_def Let_def update_conv' split: prod.splits)

lemma recover_payloads_table:
  assumes "list_all2 (\<lambda>p r. we_from_slice env p = Some r \<and> \<lparr>tr_db = wr_db r, tr_table = wr_table r\<rparr> = tref) ps recs"
    and "tref \<notin> set (eg_encrypted_locked eng)" and "map_of (eg_tables eng) tref = Some td"
  shows "map_of (eg_tables (fst (fold (recover_payload cd env) ps (eng, t)))) tref = Some (replay cd recs td)"
  using assms
proof (induction ps recs arbitrary: eng td t rule: list_all2_induct)
  case (Cons p ps r recs)
  obtain eng' t' where "recover_payload cd env p (eng, t) = (eng', t')"
    "map_of (eg_tables eng') tref = Some (snd (apply_record cd r td))" "eg_encrypted_locked eng' = eg_encrypted_locked eng"
    using recover_payload_table [of env p r tref eng td cd t] Cons.hyps(1) Cons.prems by blast
  then show ?case using Cons.IH [of eng' "snd (apply_record cd r td)" t'] Cons.prems by simp
qed simp

text \<open>A number of non-empty batches is reached by a longest run of statements.\<close>

lemma filter_take_exists:
  "a \<le> length (filter P xs) \<Longrightarrow>
     \<exists>j \<le> length xs. filter P (take j xs) = take a (filter P xs) \<and>
       (\<forall>i \<le> length xs. length (filter P (take i xs)) \<le> a \<longrightarrow> i \<le> j)"
proof (induction xs arbitrary: a)
  case (Cons x xs)
  show ?case
  proof (cases "P x \<and> a = 0")
    case True
    have "i = 0" if "length (filter P (take i (x # xs))) \<le> 0" for i
      using that True by (cases i) auto
    then show ?thesis using True by (intro exI [of _ 0]) auto
  next
    case False
    let ?a = "if P x then a - 1 else a"
    have "?a \<le> length (filter P xs)" using Cons.prems by auto
    from Cons.IH [OF this] obtain j where j: "j \<le> length xs" "filter P (take j xs) = take ?a (filter P xs)"
      "\<And>i. i \<le> length xs \<Longrightarrow> length (filter P (take i xs)) \<le> ?a \<Longrightarrow> i \<le> j" by blast
    have "filter P (take (Suc j) (x # xs)) = take a (filter P (x # xs))"
      using j(2) False by (cases a) auto
    moreover have "i \<le> Suc j" if "i \<le> length (x # xs)" "length (filter P (take i (x # xs))) \<le> a" for i
      using that j(3) [of "i - 1"] by (cases i) (auto split: if_splits)
    ultimately show ?thesis using j(1) by (intro exI [of _ "Suc j"]) auto
  qed
qed simp

lemma batch_records_ok: "\<forall>p \<in> set ps. length p < 2 ^ 64 \<Longrightarrow> \<forall>r \<in> set (batch_records t ps). wal_record_ok r"
  by (auto simp: batch_records_def begin_v1_def mutation_v1_def commit_v1_def wal_v1_control_length(1))

lemma log_batches_ok:
  "\<forall>ps \<in> set bs. \<forall>p \<in> set ps. length p < 2 ^ 64 \<Longrightarrow> \<forall>r \<in> set (log_batches t bs). wal_record_ok r"
proof (induction bs arbitrary: t)
  case (Cons ps bs)
  then show ?case using batch_records_ok [of ps t] by (auto simp: ball_Un)
qed simp

lemma log_batches_take: "log_batches t (take i bs) = take (length (log_batches t (take i bs))) (log_batches t bs)"
proof (induction bs arbitrary: t i)
  case (Cons ps bs)
  then show ?case by (cases i) auto
qed simp

lemma wal_append_all_longer:
  assumes "wal_append_all crc w (take a xs) = Inr wa" "wal_append_all crc w (take b xs) = Inr wb" "a \<le> b"
  shows "length (ww_file wa) \<le> length (ww_file wb)"
proof -
  have "take b xs = take a xs @ drop a (take b xs)"
    using assms(3) append_take_drop_id [of a "take b xs"] by (simp add: min_def)
  then have "wal_append_all crc wa (drop a (take b xs)) = Inr wb"
    using assms(1,2) wal_append_all_append [of crc w "take a xs" "drop a (take b xs)"] by simp
  from wal_append_all_Inr [OF this] show ?thesis by simp
qed

text \<open>The cut file of a fresh log gives back a prefix of the logged batches.\<close>

lemma cut_log_payloads:
  assumes opened: "wal_writer_open crc now None = Inr w"
    and app: "wal_append_all crc w (log_batches t bs) = Inr w'"
    and sizes: "\<forall>ps \<in> set bs. \<forall>p \<in> set ps. length p < 2 ^ 64"
    and n: "length (ww_file w) \<le> n" "n \<le> length (ww_file w')"
  shows "\<exists>a rv. a \<le> length bs \<and> wal_reader_open crc (take n (ww_file w')) = Inr (take n (ww_file w')) \<and>
    wal_recover crc (take n (ww_file w')) = Inr rv \<and> payloads (wrv_txns rv) = take a bs \<and>
    (\<forall>i wi. i \<le> length bs \<longrightarrow> wal_append_all crc w (log_batches t (take i bs)) = Inr wi \<longrightarrow>
       length (ww_file wi) \<le> n \<longrightarrow> i \<le> a)"
proof -
  have inv: "wal_writer_inv crc w []" using opened wal_open_new_inv by blast
  have ok: "\<forall>r \<in> set (log_batches t bs). wal_record_ok r" by (rule log_batches_ok [OF sizes])
  from wal_crash_split [OF app n] obtain k wk torn where k: "k \<le> length (log_batches t bs)"
    and wk: "wal_append_all crc w (take k (log_batches t bs)) = Inr wk" and cut: "take n (ww_file w') = ww_file wk @ torn"
    and torn: "torn \<noteq> [] \<Longrightarrow> decode_record_frame crc torn = Inl UnexpectedEof"
    and longest: "\<And>w2. k < length (log_batches t bs) \<Longrightarrow> wal_append_all crc w (take (Suc k) (log_batches t bs)) = Inr w2 \<Longrightarrow> n < length (ww_file w2)"
    by blast
  have "\<forall>r \<in> set (take k (log_batches t bs)). wal_record_ok r" using ok by (auto dest: in_set_takeD)
  note invk = wal_append_all_inv [OF inv this wk]
  from wal_reopen_torn(2) [OF invk torn] obtain rv where rv: "wal_recover crc (take n (ww_file w')) = Inr rv"
    "wrv_txns rv = committed_txns ([] @ stamped (ww_next_lsn w) (take k (log_batches t bs)))"
    unfolding cut by auto
  have no: "no_open_txn []" by (simp add: no_open_txn_def open_window_def)
  obtain a where a: "a \<le> length bs"
    "payloads (committed_txns ([] @ stamped (ww_next_lsn w) (take k (log_batches t bs)))) = payloads (committed_txns []) @ take a bs"
    "\<And>i. i \<le> length bs \<Longrightarrow> length (log_batches t (take i bs)) \<le> k \<Longrightarrow> i \<le> a"
    using batches_prefix [OF no, of bs "ww_next_lsn w" k t] by blast
  have pay: "payloads (wrv_txns rv) = take a bs"
    using a(2) rv(2) by (simp add: payloads_def committed_txns_def)
  obtain ps where log: "wal_log crc (ww_file wk) ps ([] @ stamped (ww_next_lsn w) (take k (log_batches t bs)))"
    using invk by (auto simp: wal_writer_inv_log)
  have "i \<le> a" if i: "i \<le> length bs" and wi: "wal_append_all crc w (log_batches t (take i bs)) = Inr wi"
    and len: "length (ww_file wi) \<le> n" for i wi
  proof -
    let ?m = "length (log_batches t (take i bs))"
    have wm: "wal_append_all crc w (take ?m (log_batches t bs)) = Inr wi" using wi log_batches_take [of t i bs] by simp
    have "?m \<le> k"
    proof (rule ccontr)
      assume "\<not> ?m \<le> k"
      moreover have "?m \<le> length (log_batches t bs)" using arg_cong [OF log_batches_take [of t i bs], of length] by simp
      moreover obtain w2 where w2: "wal_append_all crc w (take (Suc k) (log_batches t bs)) = Inr w2"
        using wal_append_all_take [OF app] by blast
      ultimately show False using longest [OF _ w2] wal_append_all_longer [OF w2 wm] len by simp
    qed
    then show ?thesis using a(3) [OF i] by simp
  qed
  then show ?thesis using a(1) rv(1) pay wal_log_open [OF log, of torn] unfolding cut by blast
qed

section \<open>End to end\<close>

lemma run_stmts_records:
  assumes "run_stmts cd tref sv xs s td = Inr sts" and "table_ok cd s td" "rows_upto (ts_table_version s) td"
    and "r \<in> set (log_of sts)"
  shows "\<lparr>tr_db = wr_db r, tr_table = wr_table r\<rparr> = tref"
  using assms
proof (induction xs arbitrary: s td sts)
  case (Cons cx xs)
  obtain clock x where cx: "cx = (clock, x)" by fastforce
  from Cons.prems(1) obtain st sts' where x: "run_stmt cd tref sv clock x s td = (Inr (), st)"
    and rest: "run_stmts cd tref sv xs (dm_schema st) (dm_td st) = Inr sts'" and sts: "sts = st # sts'"
    by (auto simp: cx bindE_eq_Inr split: prod.splits sum.splits)
  have fin: "stmt_done cd tref s td st" by (rule run_stmt_done [OF Cons.prems(2,3) x])
  then have tab': "table_ok cd (dm_schema st) (dm_td st)" "rows_upto (ts_table_version (dm_schema st)) (dm_td st)"
    and recs: "\<forall>r \<in> set (dm_wal st). record_ok cd tref s r" unfolding stmt_done_def by blast+
  show ?case
  proof (cases "r \<in> set (dm_wal st)")
    case True
    with recs show ?thesis by (simp add: record_ok_def)
  next
    case False
    with Cons.IH [OF rest tab'] Cons.prems(4) sts show ?thesis by (simp add: log_of_def)
  qed
qed (simp add: log_of_def)

definition record_bytes :: "wal_env \<Rightarrow> wal_row_record \<Rightarrow> bytes" where
  "record_bytes env r = (case we_to_vec env r of Inr p \<Rightarrow> p | Inl _ \<Rightarrow> [])"

lemma encoded_batch: "list_all2 (\<lambda>r p. we_to_vec env r = Inr p) recs ps \<Longrightarrow>
    ps = map (record_bytes env) recs \<and> (\<forall>r \<in> set recs. we_to_vec env r = Inr (record_bytes env r))"
  by (induction recs ps rule: list_all2_induct) (auto simp: record_bytes_def)

lemma encoded_batches: "list_all2 (list_all2 (\<lambda>r p. we_to_vec env r = Inr p)) bs pss \<Longrightarrow>
    pss = map (map (record_bytes env)) bs \<and> (\<forall>recs \<in> set bs. \<forall>r \<in> set recs. we_to_vec env r = Inr (record_bytes env r))"
  by (induction bs pss rule: list_all2_induct) (auto dest: encoded_batch)

lemma concat_filter_batches: "concat (filter (\<lambda>b. b \<noteq> []) bs) = concat bs"
  by (induction bs) auto

lemma append_txns_bytes:
  assumes "append_txns env txn bs w = (Inr (), w')"
  shows "wal_append_all (we_crc env) w (log_batches txn (map (map (record_bytes env)) bs)) = Inr w'"
    and "\<forall>recs \<in> set bs. \<forall>r \<in> set recs. we_to_vec env r = Inr (record_bytes env r)"
  using append_txns_Inr [OF assms] encoded_batches [of env bs] by auto

text \<open>The cut log of a run of statements holds the records of a prefix of the statements.\<close>

lemma cut_log_statements:
  assumes codec: "\<forall>r \<in> set (log_of sts). \<forall>p. we_to_vec env r = Inr p \<longrightarrow> we_from_slice env p = Some r \<and> length p < 2 ^ 64"
    and opened: "wal_writer_open (we_crc env) now None = Inr w"
    and logged: "append_txns env txn (filter (\<lambda>b. b \<noteq> []) (map dm_wal sts)) w = (Inr (), w')"
    and cut: "length (ww_file w) \<le> n" "n \<le> length (ww_file w')"
  obtains j rv where "j \<le> length sts" "wal_reader_open (we_crc env) (take n (ww_file w')) = Inr (take n (ww_file w'))"
    "wal_recover (we_crc env) (take n (ww_file w')) = Inr rv"
    "map wm_payload (concat (map rt_mutations (wrv_txns rv))) = map (record_bytes env) (log_of (take j sts))"
    "\<forall>r \<in> set (log_of (take j sts)). we_from_slice env (record_bytes env r) = Some r"
    "\<forall>i wi. i \<le> length sts \<longrightarrow>
        append_txns env txn (filter (\<lambda>b. b \<noteq> []) (map dm_wal (take i sts))) w = (Inr (), wi) \<longrightarrow>
        length (ww_file wi) \<le> n \<longrightarrow> i \<le> j"
proof -
  let ?P = "\<lambda>b :: wal_row_record list. b \<noteq> []"
  let ?bs = "filter ?P (map dm_wal sts)"
  let ?enc = "map (map (record_bytes env))"
  have log: "log_of sts = concat ?bs" by (simp add: log_of_def concat_filter_batches)
  note bytes = append_txns_bytes [OF logged]
  have dec: "we_from_slice env (record_bytes env r) = Some r \<and> length (record_bytes env r) < 2 ^ 64" if "r \<in> set (concat ?bs)" for r
    using that codec bytes(2) unfolding log by (auto simp del: filter_concat)
  have sizes: "\<forall>ps \<in> set (?enc ?bs). \<forall>p \<in> set ps. length p < 2 ^ 64"
    using dec by (auto simp del: filter_concat)
  obtain a rv where a: "a \<le> length (?enc ?bs)" and opn: "wal_reader_open (we_crc env) (take n (ww_file w')) = Inr (take n (ww_file w'))"
    and rv: "wal_recover (we_crc env) (take n (ww_file w')) = Inr rv" and pay: "payloads (wrv_txns rv) = take a (?enc ?bs)"
    and durable: "\<forall>i wi. i \<le> length (?enc ?bs) \<longrightarrow>
       wal_append_all (we_crc env) w (log_batches txn (take i (?enc ?bs))) = Inr wi \<longrightarrow> length (ww_file wi) \<le> n \<longrightarrow> i \<le> a"
    using cut_log_payloads [OF opened bytes(1) sizes cut] by (elim exE conjE) (rule that)
  obtain j where j: "j \<le> length (map dm_wal sts)" "filter ?P (take j (map dm_wal sts)) = take a ?bs"
    "\<And>i. i \<le> length (map dm_wal sts) \<Longrightarrow> length (filter ?P (take i (map dm_wal sts))) \<le> a \<Longrightarrow> i \<le> j"
    using filter_take_exists [of a ?P "map dm_wal sts"] a by auto
  have part: "log_of (take j sts) = concat (take a ?bs)"
    using concat_filter_batches [of "take j (map dm_wal sts)"] unfolding j(2) by (simp add: log_of_def take_map)
  have mem: "set (concat (take a ?bs)) \<subseteq> set (concat ?bs)" using set_take_subset [of a ?bs] unfolding set_concat by blast
  have "map wm_payload (concat (map rt_mutations (wrv_txns rv))) = concat (take a (?enc ?bs))"
    unfolding pay [symmetric] payloads_def by (simp add: map_concat comp_def)
  also have "\<dots> = map (record_bytes env) (concat (take a ?bs))" by (simp add: take_map map_concat)
  finally have pays: "map wm_payload (concat (map rt_mutations (wrv_txns rv))) = map (record_bytes env) (log_of (take j sts))"
    using part by simp
  have each: "\<forall>r \<in> set (log_of (take j sts)). we_from_slice env (record_bytes env r) = Some r"
  proof
    fix r
    assume "r \<in> set (log_of (take j sts))"
    then have "r \<in> set (concat ?bs)" unfolding part by (rule subsetD [OF mem])
    then show "we_from_slice env (record_bytes env r) = Some r" using dec by blast
  qed
  have dur: "i \<le> j" if i: "i \<le> length sts" and wi: "append_txns env txn (filter ?P (map dm_wal (take i sts))) w = (Inr (), wi)"
    and len: "length (ww_file wi) \<le> n" for i wi
  proof -
    let ?m = "length (filter ?P (take i (map dm_wal sts)))"
    have pre: "filter ?P (map dm_wal (take i sts)) = take ?m ?bs"
      using append_take_drop_id [of i "map dm_wal sts"] filter_append [of ?P "take i (map dm_wal sts)" "drop i (map dm_wal sts)"]
      by (simp add: take_map)
    have "?m \<le> length ?bs" using arg_cong [OF pre, of length] by (simp add: take_map)
    moreover have "wal_append_all (we_crc env) w (log_batches txn (take ?m (?enc ?bs))) = Inr wi"
      using append_txns_bytes(1) [OF wi] unfolding pre by (simp add: take_map)
    ultimately have "?m \<le> a" using durable [rule_format, of ?m wi] len by simp
    then show ?thesis using j(3) [of i] i by simp
  qed
  have j': "j \<le> length sts" using j(1) by simp
  show ?thesis by (rule that [OF j' opn rv pays each]) (intro allI impI dur)
qed

text \<open>
  (C1) Crash recovery, end to end. A table is snapshotted; then statements run (inserts, deletes,
  updates that assign no key column), all successfully, and the engine logs the records of each as
  one transaction of a fresh log. The log file is then cut at any byte. Loading the snapshot and
  replaying the cut file gives exactly the live rows, with their versions and timestamps, that
  the table had in memory after the first \<open>j\<close> statements, for some \<open>j\<close> that includes every statement
  whose transaction lies within the cut; and the following rebuild of the indexes succeeds and
  keeps these rows. Named hypotheses: the table is consistent (\<open>table_ok\<close>) and none of its rows has a
  version above the table version, what \<open>serde_json\<close> writes for a record it reads back, and the
  table version does not saturate.
\<close>

theorem crash_recovers_statements:
  assumes tab: "table_ok cd s td" "rows_upto (ts_table_version s) td"
    and run: "run_stmts cd tref sv xs s td = Inr sts"
    and keys: "\<forall>x \<in> set xs. keeps_keys s (snd x)"
    and versions: "unat (ts_table_version s) + length xs < 2 ^ 64 - 1"
    and codec: "\<forall>r \<in> set (log_of sts). \<forall>p. we_to_vec env r = Inr p \<longrightarrow> we_from_slice env p = Some r \<and> length p < 2 ^ 64"
    and opened: "wal_writer_open (we_crc env) now None = Inr w"
    and logged: "append_txns env txn (filter (\<lambda>b. b \<noteq> []) (map dm_wal sts)) w = (Inr (), w')"
    and cut: "length (ww_file w) \<le> n" "n \<le> length (ww_file w')"
    and snapshot: "map_of (eg_tables eng) tref = Some (load_table cd s (td_rows td) secs)"
      "tref \<notin> set (eg_encrypted_locked eng)"
  shows "\<exists>j td'. j \<le> length sts \<and>
     map_of (eg_tables (fst (recover_source cd env (take n (ww_file w')) (eng, [])))) tref = Some td' \<and>
     contents td' = contents (table_after td sts j) \<and>
     (\<exists>td''. rebuild_table_indexes cd s td' = (Inr (), bump_table_version s, td'') \<and> contents td'' = contents td') \<and>
     (\<forall>i wi. i \<le> length sts \<longrightarrow>
        append_txns env txn (filter (\<lambda>b. b \<noteq> []) (map dm_wal (take i sts))) w = (Inr (), wi) \<longrightarrow>
        length (ww_file wi) \<le> n \<longrightarrow> i \<le> j)"
proof -
  obtain j rv where j: "j \<le> length sts" and opn: "wal_reader_open (we_crc env) (take n (ww_file w')) = Inr (take n (ww_file w'))"
    and rv: "wal_recover (we_crc env) (take n (ww_file w')) = Inr rv"
    and pays: "map wm_payload (concat (map rt_mutations (wrv_txns rv))) = map (record_bytes env) (log_of (take j sts))"
    and dec: "\<forall>r \<in> set (log_of (take j sts)). we_from_slice env (record_bytes env r) = Some r"
    and dur: "\<forall>i wi. i \<le> length sts \<longrightarrow>
        append_txns env txn (filter (\<lambda>b. b \<noteq> []) (map dm_wal (take i sts))) w = (Inr (), wi) \<longrightarrow>
        length (ww_file wi) \<le> n \<longrightarrow> i \<le> j"
    using cut_log_statements [OF codec opened logged cut] by metis
  let ?td' = "replay cd (log_of (take j sts)) (load_table cd s (td_rows td) secs)"
  have "set (log_of (take j sts)) \<subseteq> set (log_of sts)" unfolding log_of_def by (auto dest: in_set_takeD)
  then have "list_all2 (\<lambda>p r. we_from_slice env p = Some r \<and> \<lparr>tr_db = wr_db r, tr_table = wr_table r\<rparr> = tref)
      (map (record_bytes env) (log_of (take j sts))) (log_of (take j sts))"
    using dec run_stmts_records [OF run tab] by (auto simp: list_all2_map1 list_all2_same)
  from recover_payloads_table [OF this snapshot(2,1), of cd "[]"]
  have got: "map_of (eg_tables (fst (recover_source cd env (take n (ww_file w')) (eng, [])))) tref = Some ?td'"
    using opn rv pays by (simp add: recover_source_def)
  have stands: "stands_for cd s (ts_table_version s) (load_table cd s (td_rows td) secs) td"
    using tab by (intro load_table_stands_for) (simp_all add: table_ok_def)
  note red = replay_statements [OF run tab keys versions stands j]
  then obtain td'' where reb: "rebuild_table_indexes cd s ?td' = (Inr (), bump_table_version s, td'')" "contents td'' = contents ?td'"
    using rebuild_table_indexes_ok [of cd s ?td'] by blast
  show ?thesis
    by (intro exI [of _ j] exI [of _ ?td'] exI [of _ td''] conjI j got reb conjunct2 [OF red] dur)
qed

text \<open>An empty table, one inserted row, and the record it logs.\<close>

definition empty_table :: table_data where
  "empty_table = \<lparr>td_rows = [], td_pk_index = [], td_secondary = []\<rparr>"

definition demo_insert :: "(nat \<Rightarrow> u64) \<times> dml_stmt" where
  "demo_insert = (\<lambda>_. 9, SInsert [demo_row 1 ''ann''])"

definition demo_record :: wal_row_record where
  "demo_record = from_entry ''d'' ''t'' [LU64 1] (demo_entry (demo_row 1 ''ann'') 2)"

definition demo_env :: wal_env where
  "demo_env = \<lparr>we_crc = (\<lambda>_. 7), we_now = 3, we_to_vec = (\<lambda>_. Inr [1]), we_from_slice = (\<lambda>_. Some demo_record)\<rparr>"

definition demo_engine :: engine where
  "demo_engine =
     \<lparr>eg_catalog = [(''d'', [(''t'', demo_schema)])],
      eg_tables = [(demo_ref, load_table demo_codecs demo_schema (td_rows empty_table) [])], eg_schema_versions = [],
      eg_encrypted_locked = [], eg_corrupt = [], eg_wals = [], eg_wal_next_txn = 0, eg_wal_sync_batch = 1,
      eg_dirty = [], eg_mutations_since_flush = 0,
      eg_disk = \<lparr>dk_catalog = [], dk_tables = [], dk_indexes = [], dk_schema_versions = [], dk_wals = [], dk_legacy_wal = None\<rparr>\<rparr>"

lemma empty_table_ok: "table_ok demo_codecs demo_schema empty_table" "rows_upto v empty_table"
  by (simp_all add: table_ok_def pk_ok_def uniq_ok_def secs_ok_def empty_table_def rows_upto_def)

lemma demo_run:
  "\<exists>st. run_stmts demo_codecs demo_ref 1 [demo_insert] demo_schema empty_table = Inr [st] \<and> dm_wal st = [demo_record] \<and>
     map_option re_row (contents (dm_td st) ''#|;'') = Some (demo_row 1 ''ann'')"
proof -
  let ?r = "run_stmt demo_codecs demo_ref 1 (\<lambda>_. 9) (SInsert [demo_row 1 ''ann'']) demo_schema empty_table"
  have "fst ?r = Inr ()" "dm_wal (snd ?r) = [demo_record]"
    "map_option re_row (contents (dm_td (snd ?r)) ''#|;'') = Some (demo_row 1 ''ann'')" by code_simp+
  moreover from this(1) have "?r = (Inr (), snd ?r)" by (simp only: prod_eq_iff fst_conv snd_conv)
  then have "run_stmts demo_codecs demo_ref 1 [demo_insert] demo_schema empty_table = Inr [snd ?r]"
    unfolding demo_insert_def run_stmts.simps by (metis case_prod_conv bindE_simps(2) sum.case(2))
  ultimately show ?thesis by blast
qed

lemma demo_log: "\<exists>w'. append_txns demo_env 0 [[demo_record]] wal_empty = (Inr (), w')"
proof -
  let ?p = "\<lambda>r l. wal_record_encode (with_lsn r l)"
  have len: "length (?p (begin_v1 0) 1) = 20" "length (?p (commit_v1 0) 3) = 20"
    unfolding begin_v1_def commit_v1_def by (simp_all add: wal_v1_control_length)
  have "length (?p (mutation_v1 0 [1]) 2) \<le> 40"
    using length_encode_varu_le [of "word_of_nat (length [1 :: u8])"]
    by (simp add: wal_record_encode_def with_lsn_def mutation_v1_def wal_new_v1_def)
  then have fits: "fits_frame (?p (begin_v1 0) 1)" "fits_frame (?p (mutation_v1 0 [1]) 2)" "fits_frame (?p (commit_v1 0) 3)"
    using len by (simp_all add: fits_frame_def)
  have step: "wal_append (\<lambda>_. 7) w r = Inr (ww_next_lsn w, w\<lparr>ww_file := ww_file w @ frame (\<lambda>_. 7) (?p r (ww_next_lsn w)), ww_next_lsn := ww_next_lsn w + 1\<rparr>)"
    if "ww_next_lsn w \<noteq> - 1" "fits_frame (?p r (ww_next_lsn w))" for w r
    using that unfolding wal_append_Inr_iff by simp
  show ?thesis
    by (simp add: append_txn_def begin_txn_def append_mutation_def commit_txn_def demo_env_def step fits wal_empty_def)
qed

theorem crash_recovers_statements_witness:
  "\<exists>w' td'. append_txns demo_env 0 [[demo_record]] wal_empty = (Inr (), w') \<and>
     map_of (eg_tables (fst (recover_source demo_codecs demo_env (ww_file w') (demo_engine, [])))) demo_ref = Some td' \<and>
     map_option re_row (contents td' ''#|;'') = Some (demo_row 1 ''ann'')"
proof -
  obtain st where run: "run_stmts demo_codecs demo_ref 1 [demo_insert] demo_schema empty_table = Inr [st]"
    and wal: "dm_wal st = [demo_record]" and got: "map_option re_row (contents (dm_td st) ''#|;'') = Some (demo_row 1 ''ann'')"
    using demo_run by blast
  obtain w' where app: "append_txns demo_env 0 [[demo_record]] wal_empty = (Inr (), w')" using demo_log by blast
  have log: "append_txns demo_env 0 (filter (\<lambda>b. b \<noteq> []) (map dm_wal [st])) wal_empty = (Inr (), w')" using app wal by simp
  have codec: "\<forall>r \<in> set (log_of [st]). \<forall>p. we_to_vec demo_env r = Inr p \<longrightarrow> we_from_slice demo_env p = Some r \<and> length p < 2 ^ 64"
    using wal by (auto simp: log_of_def demo_env_def)
  have opened: "wal_writer_open (we_crc demo_env) 3 None = Inr wal_empty" using wal_empty_open by (simp add: demo_env_def)
  have keys: "\<forall>x \<in> set [demo_insert]. keeps_keys demo_schema (snd x)" by (simp add: demo_insert_def)
  have vers: "unat (ts_table_version demo_schema) + length [demo_insert] < 2 ^ 64 - 1" by (simp add: demo_schema_def)
  have snap: "map_of (eg_tables demo_engine) demo_ref = Some (load_table demo_codecs demo_schema (td_rows empty_table) [])"
    "demo_ref \<notin> set (eg_encrypted_locked demo_engine)" by (simp_all add: demo_engine_def)
  have "length (ww_file wal_empty) \<le> length (ww_file w')"
    using append_txns_Inr [OF app] wal_append_all_Inr by fastforce
  from crash_recovers_statements [OF empty_table_ok run keys vers codec opened log this order_refl snap]
  obtain j td' where j: "j \<le> 1" "1 \<le> j"
    and td': "map_of (eg_tables (fst (recover_source demo_codecs demo_env (ww_file w') (demo_engine, [])))) demo_ref = Some td'"
    "contents td' = contents (table_after empty_table [st] j)"
    using log by (auto dest!: spec [of _ 1])
  have "j = 1" using j by simp
  with td'(2) got have "map_option re_row (contents td' ''#|;'') = Some (demo_row 1 ''ann'')"
    by (simp add: table_after_def)
  with app td'(1) show ?thesis by blast
qed

section \<open>Row versions after a restart\<close>

text \<open>An insert into a table without auto-increment columns never writes the catalog.\<close>

lemma dk_catalog_put_db_wal [simp]: "dk_catalog (eg_disk (put_db_wal db dw eng)) = dk_catalog (eg_disk eng)"
  by (simp add: put_db_wal_def)

lemma dk_catalog_wal_log_rows_for_db:
  "dk_catalog (eg_disk (snd (wal_log_rows_for_db env db recs eng))) = dk_catalog (eg_disk eng)"
  by (auto simp: wal_log_rows_for_db_def Let_def split: sum.split prod.split)

lemma dk_catalog_log_groups: "dk_catalog (eg_disk (snd (log_groups env groups eng))) = dk_catalog (eg_disk eng)"
proof (induction env groups eng rule: log_groups.induct)
  case (2 env db recs groups eng)
  then show ?case
    using dk_catalog_wal_log_rows_for_db [of env db recs eng] by (auto split: sum.split prod.split)
qed simp

lemma dk_catalog_persist_table:
  "dk_catalog (eg_disk (snd (persist_table cd db table eng))) = dk_catalog (eg_disk eng)"
  by (simp add: persist_table_def persist_table_secondary_indexes_def Let_def split: option.split sum.split)

lemma dk_catalog_flush_targets: "dk_catalog (eg_disk (snd (flush_targets cd keys eng))) = dk_catalog (eg_disk eng)"
proof (induction cd keys eng rule: flush_targets.induct)
  case (2 cd key keys eng)
  then show ?case
    using dk_catalog_persist_table [of cd "tr_db key" "tr_table key" eng] by (auto split: sum.split prod.split)
qed simp

lemma dk_catalog_deferred:
  "dk_catalog (eg_disk (snd (persist_table_deferred cd db table eng))) = dk_catalog (eg_disk eng)"
proof -
  have "dk_catalog (eg_disk (snd (flush_dirty_tables cd eng))) = dk_catalog (eg_disk eng)" for eng
    using dk_catalog_flush_targets [of cd "eg_dirty eng" eng]
    by (auto simp: flush_dirty_tables_def wal_truncate_def split: sum.split prod.split)
  then show ?thesis by (simp add: persist_table_deferred_def Let_def dk_catalog_persist_table)
qed

lemma dk_catalog_log_and_defer: "dk_catalog (eg_disk (snd (log_and_defer cd env tref recs eng))) = dk_catalog (eg_disk eng)"
proof -
  obtain r eng' where w: "wal_log_rows env recs eng = (r, eng')" by fastforce
  then have "dk_catalog (eg_disk eng') = dk_catalog (eg_disk eng)"
    using dk_catalog_log_groups [of env "group_by_db recs []" eng] by (auto simp: wal_log_rows_def split: if_splits)
  with w show ?thesis by (simp add: log_and_defer_def dk_catalog_deferred split: sum.split)
qed

lemma insert_rows_columns:
  "ts_columns (dm_schema (snd (insert_rows cd tref sv clock rows st))) = ts_columns (dm_schema st)"
proof (induction rows arbitrary: st)
  case (Cons row rows)
  have "ts_columns (dm_schema (snd (insert_row cd tref sv (clock (dm_affected st)) row st))) = ts_columns (dm_schema st)"
  proof (cases "apply_defaults_and_autoinc cd (dm_schema st) row (dm_last_insert_id st)")
    case (Inr res)
    obtain s row' li where res: "res = (s, row', li)" by (cases res)
    have "ts_columns s = ts_columns (dm_schema st)"
      using apply_defaults_layout [OF Inr [unfolded res]] by (simp add: same_layout_def)
    then show ?thesis using Inr res by (auto simp: insert_row_def Let_def split: option.split sum.split prod.split)
  qed (simp add: insert_row_def)
  with Cons show ?case by (auto split: prod.splits sum.splits)
qed simp

lemma data_insert_catalog:
  assumes "get_table_mut eng tref = Inr (schema, td)" and "\<not> list_ex cs_auto_increment (ts_columns schema)"
  shows "dk_catalog (eg_disk (snd (data_insert cd env clock tref rows eng))) = dk_catalog (eg_disk eng)"
proof -
  let ?r = "data_insert_rows cd tref (schema_version_for eng tref) clock rows schema td"
  have "fst ?r \<noteq> Inr True"
    using assms(2) insert_rows_columns [of cd tref "schema_version_for eng tref" clock rows "dml_start schema (rebuild_secondary_indexes_if_stale cd schema td)"]
    by (auto simp: data_insert_rows_def dml_start_def split: prod.splits sum.splits)
  then show ?thesis
    using assms(1)
    by (auto simp: data_insert_def Let_def put_table_def dk_catalog_log_and_defer split: prod.splits sum.splits)
qed

text \<open>
  A committed update can be lost after two restarts. Inserts raise the table version, the
  seed of the row versions, in memory only; the snapshot of the rows is written by a flush, the
  catalog is not. After a restart the version starts again from the catalog (here 1) below the
  versions of the loaded rows (here 4), so the next update of a row gets a lower version (2) than
  the row has in its snapshot. The update succeeds and is logged, but replaying the log onto the
  snapshot skips it as old: the row has its former value again.
\<close>

theorem regressed_version_update_lost:
  "let rows = [demo_entry (demo_row 1 ''ann'') 4];
       td = load_table demo_codecs demo_schema rows [];
       (r, st) = run_stmt demo_codecs demo_ref 1 (\<lambda>_. 20)
                   (SUpdate (\<lambda>_. Inr True) [(''email'', \<lambda>_. Inr (LStr ''new''))] None None) demo_schema td
   in ts_table_version demo_schema = 1 \<and> r = Inr () \<and>
      map_option re_row (contents (dm_td st) ''#|;'') = Some (demo_row 1 ''new'') \<and>
      map_option re_version (contents (dm_td st) ''#|;'') = Some 2 \<and>
      map_option re_row (contents (replay demo_codecs (dm_wal st) td) ''#|;'') = Some (demo_row 1 ''ann'')"
  by code_simp

text \<open>
  Transaction ids start again from 0 in every session, and a begin record does not reset
  what its id has staged. So when a log that ends in a torn transaction is kept (recovery could
  not persist a table) and appended to, the first transaction of the new session with that id
  commits the mutations of the torn one, which was never committed, along with its own.
\<close>

theorem reused_txn_id_commits_torn:
  "payloads (committed_txns (stamped l ([begin_v1 t, mutation_v1 t p] @ batch_records t [q]))) = [[p, q]]"
  by (simp add: payloads_def committed_txns_def commit_at_def batch_records_def open_window_def txn_ends_def
      window_mutations_def Let_def upt_rec)

end
