(* ===== verification/Query_Types.thy ===== *)
theory Query_Types
  imports Engine_Types
begin

text \<open>
  The query language of \<open>skeinql/src/types.rs\<close>: expressions, queries and table references. Structs
  that contain expressions are constructors with their fields in order; an alias \<open>as\<close> is an
  optional string.
\<close>

datatype order_dir = Asc | Desc

datatype lock_mode = LockNone | ForUpdate | ForShare

datatype set_op_kind = SetUnion | SetIntersect | SetExcept

datatype join_type = JoinInner | JoinLeft | JoinRight | JoinFull | JoinCross

record limit_clause =
  lc_limit :: "u64 option"
  lc_offset :: "u64 option"

record base_table_ref =
  bt_db :: string
  bt_table :: string
  bt_as :: "string option"

text \<open>
  An operator has operands \<open>a\<close> and \<open>b\<close>, a variadic list \<open>args\<close>, a list for IN, and the bounds of
  BETWEEN; a case expression has its conditions with their results and the else branch.
\<close>

datatype expr =
    ECol string "string option"
  | ELit lit
  | EParam u32
  | EOp string "expr option" "expr option" "expr list option" "expr list option" "expr option" "expr option"
  | EFunc string "expr list" "bool option"
  | ECast expr type_desc
  | ECase "(expr \<times> expr) list" "expr option"
  | ESubquery query
  | EExists query "bool option"
and query =
    Query "(string \<times> query) list" query_body "(expr \<times> order_dir option) list" "limit_clause option" "lock_mode option"
and query_body =
    QSelect select_body
  | QSetop set_op_kind bool query_body query_body
and select_body =
    SelectBody "bool option" "(expr \<times> string option) list" "table_ref list option" "expr option"
      "expr list option" "expr option"
and table_ref =
    TBase base_table_ref
  | TJoin join_type table_ref table_ref "expr option"
  | TSubquery query string

type_synonym order_by = "expr \<times> order_dir option"

type_synonym select_item = "expr \<times> string option"

fun q_with :: "query \<Rightarrow> (string \<times> query) list" where
  "q_with (Query w body order limit lock) = w"

fun q_body :: "query \<Rightarrow> query_body" where
  "q_body (Query w body order limit lock) = body"

fun q_order_by :: "query \<Rightarrow> order_by list" where
  "q_order_by (Query w body order limit lock) = order"

fun q_limit :: "query \<Rightarrow> limit_clause option" where
  "q_limit (Query w body order limit lock) = limit"

end
