(* ===== verification/Rust_F64.thy ===== *)
theory Rust_F64
  imports Prelude "HOL-Library.Char_ord"
begin

text \<open>
  The \<open>f64\<close> of Rust on bit patterns, as far as the expression evaluator uses it: comparison,
  conversion from integers, parsing, arithmetic with rounding to nearest even, and the
  conversions to integers. A finite double is a multiple of \<open>2 ^ - 1074\<close>; \<open>f64_scaled\<close> is that
  multiple, so comparison and exact arithmetic are integer operations. The payload of a NaN that
  an operation makes is not fixed by Rust; the model takes the usual quiet NaN.
\<close>

section \<open>Parts of a bit pattern\<close>

datatype cmp_ordering = OLess | OEqual | OGreater

fun reverse_ord :: "cmp_ordering \<Rightarrow> cmp_ordering" where
  "reverse_ord OLess = OGreater"
| "reverse_ord OEqual = OEqual"
| "reverse_ord OGreater = OLess"

definition int_cmp :: "int \<Rightarrow> int \<Rightarrow> cmp_ordering" where
  "int_cmp x y = (if x < y then OLess else if x = y then OEqual else OGreater)"

definition f64_neg :: "u64 \<Rightarrow> bool" where
  "f64_neg x \<longleftrightarrow> 2 ^ 63 \<le> uint x"

text \<open>Exponent and mantissa fields together.\<close>

definition f64_mag :: "u64 \<Rightarrow> int" where
  "f64_mag x = uint x mod 2 ^ 63"

definition f64_inf_mag :: int where
  "f64_inf_mag = 2047 * 2 ^ 52"

definition f64_is_nan :: "u64 \<Rightarrow> bool" where
  "f64_is_nan x \<longleftrightarrow> f64_inf_mag < f64_mag x"

definition f64_is_inf :: "u64 \<Rightarrow> bool" where
  "f64_is_inf x \<longleftrightarrow> f64_mag x = f64_inf_mag"

definition f64_finite :: "u64 \<Rightarrow> bool" where
  "f64_finite x \<longleftrightarrow> f64_mag x < f64_inf_mag"

text \<open>
  The magnitude as a multiple of the smallest subnormal. Infinity gets \<open>2 ^ 2098\<close>, above every
  finite value.
\<close>

definition mag_scaled :: "int \<Rightarrow> int" where
  "mag_scaled m =
     (let e = m div 2 ^ 52; f = m mod 2 ^ 52 in
      if e = 0 then f else (2 ^ 52 + f) * 2 ^ nat (e - 1))"

definition f64_scaled :: "u64 \<Rightarrow> int" where
  "f64_scaled x = (if f64_neg x then - mag_scaled (f64_mag x) else mag_scaled (f64_mag x))"

text \<open>\<open>partial_cmp\<close>: nothing compares with a NaN, the two zeros are equal.\<close>

definition f64_partial_cmp :: "u64 \<Rightarrow> u64 \<Rightarrow> cmp_ordering option" where
  "f64_partial_cmp x y =
     (if f64_is_nan x \<or> f64_is_nan y then None
      else Some (int_cmp (f64_scaled x) (f64_scaled y)))"

section \<open>Rounding\<close>

fun bit_len :: "int \<Rightarrow> nat" where
  "bit_len n = (if n \<le> 0 then 0 else Suc (bit_len (n div 2)))"

declare bit_len.simps [simp del]

text \<open>\<open>n / d\<close> to the nearest integer, ties to even.\<close>

definition round_div :: "int \<Rightarrow> int \<Rightarrow> int" where
  "round_div n d =
     (let q = n div d; r = n mod d in
      if 2 * r < d then q else if d < 2 * r then q + 1 else if even q then q else q + 1)"

text \<open>
  The magnitude nearest to \<open>n / d\<close>, counted in smallest subnormals: 53 significant bits are kept,
  a carry out of the mantissa goes into the exponent, and what is too large is infinity.
\<close>

definition round_mag :: "int \<Rightarrow> int \<Rightarrow> int" where
  "round_mag n d =
     (let s = bit_len (n div d) - 53 in
      min f64_inf_mag (int s * 2 ^ 52 + round_div n (d * 2 ^ s)))"

definition f64_make :: "bool \<Rightarrow> int \<Rightarrow> u64" where
  "f64_make neg m = word_of_int ((if neg then 2 ^ 63 else 0) + m)"

definition f64_nan :: u64 where "f64_nan = 0x7FF8000000000000"

definition f64_zero :: u64 where "f64_zero = 0"

text \<open>An integer \<open>as f64\<close>.\<close>

definition f64_of_int :: "int \<Rightarrow> u64" where
  "f64_of_int i = f64_make (i < 0) (round_mag (\<bar>i\<bar> * 2 ^ 1074) 1)"

section \<open>Arithmetic\<close>

text \<open>The double nearest to an exact sum of doubles; an exact zero is negative only if both are.\<close>

definition f64_of_scaled :: "bool \<Rightarrow> int \<Rightarrow> u64" where
  "f64_of_scaled zero_neg i =
     (if i = 0 then f64_make zero_neg 0 else f64_make (i < 0) (round_mag \<bar>i\<bar> 1))"

definition f64_negate :: "u64 \<Rightarrow> u64" where
  "f64_negate x = f64_make (\<not> f64_neg x) (f64_mag x)"

definition f64_add :: "u64 \<Rightarrow> u64 \<Rightarrow> u64" where
  "f64_add x y =
     (if f64_is_nan x \<or> f64_is_nan y then f64_nan
      else if f64_is_inf x then (if f64_is_inf y \<and> f64_neg x \<noteq> f64_neg y then f64_nan else x)
      else if f64_is_inf y then y
      else f64_of_scaled (f64_neg x \<and> f64_neg y) (f64_scaled x + f64_scaled y))"

definition f64_sub :: "u64 \<Rightarrow> u64 \<Rightarrow> u64" where
  "f64_sub x y = (if f64_is_nan x \<or> f64_is_nan y then f64_nan else f64_add x (f64_negate y))"

definition f64_mul :: "u64 \<Rightarrow> u64 \<Rightarrow> u64" where
  "f64_mul x y =
     (let neg = (f64_neg x \<noteq> f64_neg y); mx = mag_scaled (f64_mag x); my = mag_scaled (f64_mag y) in
      if f64_is_nan x \<or> f64_is_nan y then f64_nan
      else if f64_is_inf x \<or> f64_is_inf y
      then (if mx = 0 \<or> my = 0 then f64_nan else f64_make neg f64_inf_mag)
      else f64_make neg (round_mag (mx * my) (2 ^ 1074)))"

definition f64_div :: "u64 \<Rightarrow> u64 \<Rightarrow> u64" where
  "f64_div x y =
     (let neg = (f64_neg x \<noteq> f64_neg y); mx = mag_scaled (f64_mag x); my = mag_scaled (f64_mag y) in
      if f64_is_nan x \<or> f64_is_nan y then f64_nan
      else if f64_is_inf x then (if f64_is_inf y then f64_nan else f64_make neg f64_inf_mag)
      else if f64_is_inf y then f64_make neg 0
      else if my = 0 then (if mx = 0 then f64_nan else f64_make neg f64_inf_mag)
      else f64_make neg (round_mag (mx * 2 ^ 1074) my))"

text \<open>\<open>%\<close>: the remainder has the sign of the dividend and is exact.\<close>

definition f64_rem :: "u64 \<Rightarrow> u64 \<Rightarrow> u64" where
  "f64_rem x y =
     (let mx = mag_scaled (f64_mag x); my = mag_scaled (f64_mag y) in
      if f64_is_nan x \<or> f64_is_nan y \<or> f64_is_inf x \<or> my = 0 then f64_nan
      else if f64_is_inf y then x
      else f64_make (f64_neg x) (round_mag (mx mod my) 1))"

text \<open>\<open>v.fract() == 0.0\<close>; false for infinities and NaN.\<close>

definition f64_integral :: "u64 \<Rightarrow> bool" where
  "f64_integral x \<longleftrightarrow> f64_finite x \<and> mag_scaled (f64_mag x) mod 2 ^ 1074 = 0"

text \<open>Truncation toward zero, saturating at the bounds of the target type; NaN gives 0.\<close>

definition f64_to_int :: "int \<Rightarrow> int \<Rightarrow> u64 \<Rightarrow> int" where
  "f64_to_int lo hi x =
     (if f64_is_nan x then 0
      else let t = mag_scaled (f64_mag x) div 2 ^ 1074 in
        max lo (min hi (if f64_neg x then - t else t)))"

section \<open>Parsing\<close>

definition ascii_digit :: "char \<Rightarrow> bool" where
  "ascii_digit c \<longleftrightarrow> CHR ''0'' \<le> c \<and> c \<le> CHR ''9''"

definition ascii_digit_value :: "char \<Rightarrow> int" where
  "ascii_digit_value c = of_char c - 48"

definition digits_value :: "string \<Rightarrow> int" where
  "digits_value ds = foldl (\<lambda>n c. 10 * n + ascii_digit_value c) 0 ds"

definition ascii_lower :: "char \<Rightarrow> char" where
  "ascii_lower c = (if CHR ''A'' \<le> c \<and> c \<le> CHR ''Z'' then char_of (of_char c + 32 :: nat) else c)"

definition to_ascii_lowercase :: "string \<Rightarrow> string" where
  "to_ascii_lowercase s = map ascii_lower s"

definition split_sign :: "string \<Rightarrow> bool \<times> string" where
  "split_sign s =
     (case s of
        [] \<Rightarrow> (False, [])
      | c # r \<Rightarrow> if c = CHR ''-'' then (True, r) else if c = CHR ''+'' then (False, r) else (False, s))"

text \<open>\<open>str::parse\<close> of an integer type with the given bounds.\<close>

definition parse_int :: "int \<Rightarrow> int \<Rightarrow> string \<Rightarrow> int option" where
  "parse_int lo hi s =
     (case split_sign s of
        (neg, ds) \<Rightarrow>
          if neg \<and> lo = 0 \<or> ds = [] \<or> \<not> list_all ascii_digit ds then None
          else let v = (if neg then - digits_value ds else digits_value ds) in
            if lo \<le> v \<and> v \<le> hi then Some v else None)"

text \<open>The exponent part: nothing, or \<open>e\<close> with a signed number.\<close>

definition parse_exponent :: "string \<Rightarrow> int option" where
  "parse_exponent s =
     (case s of
        [] \<Rightarrow> Some 0
      | c # r \<Rightarrow>
          if ascii_lower c \<noteq> CHR ''e'' then None
          else case split_sign r of
            (neg, ds) \<Rightarrow>
              if ds = [] \<or> \<not> list_all ascii_digit ds then None
              else Some (if neg then - digits_value ds else digits_value ds))"

text \<open>The double nearest to \<open>m * 10 ^ e\<close>.\<close>

definition f64_of_decimal :: "bool \<Rightarrow> int \<Rightarrow> int \<Rightarrow> u64" where
  "f64_of_decimal neg m e =
     f64_make neg (if 0 \<le> e then round_mag (m * 10 ^ nat e * 2 ^ 1074) 1
                   else round_mag (m * 2 ^ 1074) (10 ^ nat (- e)))"

text \<open>\<open>str::parse::<f64>\<close>: an optional sign, then inf, infinity or nan in any case, or a decimal.\<close>

definition f64_parse :: "string \<Rightarrow> u64 option" where
  "f64_parse s =
     (case split_sign s of
        (neg, r) \<Rightarrow>
          if to_ascii_lowercase r \<in> {''inf'', ''infinity''} then Some (f64_make neg f64_inf_mag)
          else if to_ascii_lowercase r = ''nan'' then Some f64_nan
          else
            let whole = takeWhile ascii_digit r; rest = dropWhile ascii_digit r;
                dot = (rest \<noteq> [] \<and> hd rest = CHR ''.'');
                frac = (if dot then takeWhile ascii_digit (tl rest) else []);
                rest = (if dot then dropWhile ascii_digit (tl rest) else rest)
            in if whole = [] \<and> frac = [] then None
               else map_option (\<lambda>e. f64_of_decimal neg (digits_value (whole @ frac)) (e - int (length frac)))
                      (parse_exponent rest))"

section \<open>The model of rounding is exact on doubles\<close>

lemma bit_len_bounds: "0 < n \<Longrightarrow> 2 ^ (bit_len n - 1) \<le> n \<and> n < 2 ^ bit_len n \<and> 0 < bit_len n"
proof (induction n rule: bit_len.induct)
  case (1 n)
  show ?case
  proof (cases "n div 2 = 0")
    case True
    then have "n = 1" using "1.prems" by linarith
    then show ?thesis by (simp add: bit_len.simps)
  next
    case False
    then have pos: "0 < n div 2" using "1.prems" by linarith
    then have ih: "2 ^ (bit_len (n div 2) - 1) \<le> n div 2" "n div 2 < 2 ^ bit_len (n div 2)" "0 < bit_len (n div 2)"
      using 1 by simp_all
    obtain k where k: "bit_len (n div 2) = Suc k" using ih(3) by (cases "bit_len (n div 2)") auto
    have "bit_len n = Suc (Suc k)" using "1.prems" k by (subst bit_len.simps) simp
    moreover have "2 ^ k \<le> n div 2" "n div 2 < 2 * 2 ^ k" using ih(1,2) k by simp_all
    moreover have "2 * 2 ^ k \<le> n" "n < 2 * (2 * 2 ^ k)" using calculation by linarith+
    ultimately show ?thesis by simp
  qed
qed

lemma bit_len_unique: "2 ^ k \<le> n \<Longrightarrow> n < 2 ^ Suc k \<Longrightarrow> bit_len n = Suc k"
proof -
  assume a: "2 ^ k \<le> n" "n < 2 ^ Suc k"
  have pos: "0 < n" using a(1) by (meson less_le_trans zero_less_numeral zero_less_power)
  note b = bit_len_bounds [OF pos]
  have "(2::int) ^ k < 2 ^ bit_len n" "(2::int) ^ (bit_len n - 1) < 2 ^ Suc k" using a b by linarith+
  then have "k < bit_len n" "bit_len n - 1 < Suc k" by (simp_all add: power_strict_increasing_iff del: power_Suc)
  then show ?thesis by simp
qed

lemma bit_len_small: "n < 2 ^ k \<Longrightarrow> bit_len n \<le> k"
proof (rule ccontr)
  assume a: "n < 2 ^ k" "\<not> bit_len n \<le> k"
  then have "0 < n" by (metis bit_len.simps not_le zero_le)
  note b = bit_len_bounds [OF this]
  have "(2::int) ^ (bit_len n - 1) < 2 ^ k" using a b by linarith
  then show False using a(2) b by simp
qed

lemma round_div_exact: "0 < d \<Longrightarrow> round_div (q * d) d = q"
  by (simp add: round_div_def)

lemma round_mag_scaled: "0 \<le> m \<Longrightarrow> m \<le> f64_inf_mag \<Longrightarrow> round_mag (mag_scaled m) 1 = m"
proof -
  assume m: "0 \<le> m" "m \<le> f64_inf_mag"
  define e f where "e = m div 2 ^ 52" and "f = m mod 2 ^ 52"
  have mef: "m = e * 2 ^ 52 + f" "0 \<le> f" "f < 2 ^ 52" "0 \<le> e" using m(1) by (simp_all add: e_def f_def)
  show ?thesis
  proof (cases "e = 0")
    case True
    have "bit_len f \<le> 52" using mef(3) by (rule bit_len_small)
    then have "bit_len f - 53 = 0" by simp
    then show ?thesis using True mef m round_div_exact [of 1 f]
      by (simp add: round_mag_def mag_scaled_def Let_def flip: e_def f_def)
  next
    case False
    define k where "k = nat (e - 1)"
    have k: "e = int k + 1" using False mef(4) by (simp add: k_def)
    have "2 ^ (52 + k) \<le> (2 ^ 52 + f) * 2 ^ k" "(2 ^ 52 + f) * 2 ^ k < 2 ^ Suc (52 + k)"
      using mef(2,3) by (simp_all add: power_add)
    then have "bit_len ((2 ^ 52 + f) * 2 ^ k) = Suc (52 + k)" by (rule bit_len_unique)
    moreover have "mag_scaled m = (2 ^ 52 + f) * 2 ^ k"
      using False unfolding mag_scaled_def Let_def k_def e_def f_def by simp
    ultimately have "round_mag (mag_scaled m) 1 = min f64_inf_mag (int k * 2 ^ 52 + (2 ^ 52 + f))"
      using round_div_exact [of "2 ^ k" "2 ^ 52 + f"] by (simp add: round_mag_def Let_def)
    then show ?thesis using m(2) mef(1) k by (simp add: algebra_simps)
  qed
qed

lemma f64_mag_bounds: "0 \<le> f64_mag x" "f64_mag x < 2 ^ 63"
  by (simp_all add: f64_mag_def)

lemma f64_make_parts: "f64_make (f64_neg x) (f64_mag x) = x"
proof -
  have "uint x < 2 ^ 64" using uint_lt2p [of x] by simp
  then have "uint x div 2 ^ 63 = (if f64_neg x then 1 else 0)"
    by (auto simp: f64_neg_def div_pos_geq)
  then have "(if f64_neg x then 2 ^ 63 else 0) + f64_mag x = uint x"
    using div_mult_mod_eq [of "uint x" "2 ^ 63"] by (auto simp: f64_mag_def)
  then show ?thesis by (simp add: f64_make_def)
qed

text \<open>Rounding the value of a double gives the double back, so the order of the values is the order of the doubles.\<close>

lemma f64_round_value: "\<not> f64_is_nan x \<Longrightarrow> f64_make (f64_neg x) (round_mag \<bar>f64_scaled x\<bar> 1) = x"
proof -
  assume "\<not> f64_is_nan x"
  then have m: "f64_mag x \<le> f64_inf_mag" by (simp add: f64_is_nan_def)
  have "0 \<le> mag_scaled (f64_mag x)" using f64_mag_bounds [of x] by (simp add: mag_scaled_def Let_def)
  then have "\<bar>f64_scaled x\<bar> = mag_scaled (f64_mag x)" by (simp add: f64_scaled_def)
  then show ?thesis using round_mag_scaled [OF f64_mag_bounds(1) m] f64_make_parts by simp
qed

lemma int_cmp_simps [simp]:
  "int_cmp x x = OEqual" "reverse_ord (int_cmp x y) = int_cmp y x"
  "int_cmp x y = OEqual \<longleftrightarrow> x = y" "int_cmp x y = OLess \<longleftrightarrow> x < y" "int_cmp x y = OGreater \<longleftrightarrow> y < x"
  by (auto simp: int_cmp_def)

end
