(* ===== verification/Query_Like.thy ===== *)
theory Query_Like
  imports Rust_F64 "HOL-Library.While_Combinator"
begin

text \<open>
  The matcher behind \<open>LIKE\<close> and \<open>ILIKE\<close> (\<open>like_pattern_matches\<close> of \<open>engine.rs\<close>): a loop over
  positions in subject and pattern that remembers the last percent sign and comes back to it on
  a mismatch. It is compared with the usual recursive meaning of a pattern.
\<close>

section \<open>The loop\<close>

record like_state =
  lk_si :: nat
  lk_pi :: nat
  lk_star_pi :: "nat option"
  lk_star_si :: nat
  lk_failed :: bool

text \<open>The early \<open>return false\<close> is the flag \<open>lk_failed\<close>.\<close>

definition like_continue :: "string \<Rightarrow> like_state \<Rightarrow> bool" where
  "like_continue subject st \<longleftrightarrow> lk_si st < length subject \<and> \<not> lk_failed st"

definition like_step :: "string \<Rightarrow> string \<Rightarrow> like_state \<Rightarrow> like_state" where
  "like_step subject pattern st =
     (let si = lk_si st; pi = lk_pi st in
      if pi < length pattern \<and> (pattern ! pi = CHR ''_'' \<or> pattern ! pi = subject ! si)
      then st\<lparr>lk_si := si + 1, lk_pi := pi + 1\<rparr>
      else if pi < length pattern \<and> pattern ! pi = CHR ''%''
      then st\<lparr>lk_star_pi := Some pi, lk_pi := pi + 1, lk_star_si := si\<rparr>
      else case lk_star_pi st of
        Some saved_pi \<Rightarrow>
          st\<lparr>lk_pi := saved_pi + 1, lk_star_si := lk_star_si st + 1, lk_si := lk_star_si st + 1\<rparr>
      | None \<Rightarrow> st\<lparr>lk_failed := True\<rparr>)"

definition like_init :: like_state where
  "like_init = \<lparr>lk_si = 0, lk_pi = 0, lk_star_pi = None, lk_star_si = 0, lk_failed = False\<rparr>"

definition like_matches :: "string \<Rightarrow> string \<Rightarrow> bool" where
  "like_matches subject pattern =
     (let st = while (like_continue subject) (like_step subject pattern) like_init in
      \<not> lk_failed st \<and> dropWhile (\<lambda>c. c = CHR ''%'') (drop (lk_pi st) pattern) = [])"

definition like_pattern_matches :: "string \<Rightarrow> string \<Rightarrow> bool \<Rightarrow> bool" where
  "like_pattern_matches subject pattern case_insensitive =
     (if case_insensitive
      then like_matches (to_ascii_lowercase subject) (to_ascii_lowercase pattern)
      else like_matches subject pattern)"

section \<open>The meaning of a pattern\<close>

fun like_spec :: "string \<Rightarrow> string \<Rightarrow> bool" where
  "like_spec [] [] = True"
| "like_spec (c # s) [] = False"
| "like_spec [] (p # ps) = (p = CHR ''%'' \<and> like_spec [] ps)"
| "like_spec (c # s) (p # ps) =
     (if p = CHR ''%'' then like_spec (c # s) ps \<or> like_spec s (p # ps)
      else (p = CHR ''_'' \<or> p = c) \<and> like_spec s ps)"

lemma like_spec_Nil: "like_spec [] ps \<longleftrightarrow> dropWhile (\<lambda>c. c = CHR ''%'') ps = []"
  by (induction ps) auto

lemma like_spec_percent: "like_spec s (CHR ''%'' # ps) \<longleftrightarrow> (\<exists>k \<le> length s. like_spec (drop k s) ps)"
proof (induction s)
  case (Cons c s)
  have "(\<exists>k \<le> length (c # s). like_spec (drop k (c # s)) ps) \<longleftrightarrow>
      like_spec (c # s) ps \<or> (\<exists>k \<le> length s. like_spec (drop k s) ps)"
    by (metis Suc_le_mono drop0 drop_Suc_Cons le0 length_Cons not0_implies_Suc)
  then show ?case using Cons by simp
qed simp

section \<open>Invariant of the loop\<close>

definition like_at :: "string \<Rightarrow> string \<Rightarrow> nat \<Rightarrow> nat \<Rightarrow> bool" where
  "like_at subject pattern i j = like_spec (drop i subject) (drop j pattern)"

text \<open>A piece of the pattern without percent signs is matched at a fixed length.\<close>

definition star_free :: "string \<Rightarrow> nat \<Rightarrow> nat \<Rightarrow> bool" where
  "star_free pattern a b \<longleftrightarrow> (\<forall>j. a \<le> j \<and> j < b \<longrightarrow> pattern ! j \<noteq> CHR ''%'')"

definition like_bounds :: "string \<Rightarrow> string \<Rightarrow> like_state \<Rightarrow> bool" where
  "like_bounds subject pattern st \<longleftrightarrow>
     lk_si st \<le> length subject \<and> lk_pi st \<le> length pattern \<and> lk_star_si st \<le> lk_si st \<and>
     (case lk_star_pi st of None \<Rightarrow> lk_star_si st = 0 | Some sp \<Rightarrow> sp < lk_pi st)"

definition like_inv :: "string \<Rightarrow> string \<Rightarrow> like_state \<Rightarrow> bool" where
  "like_inv subject pattern st \<longleftrightarrow>
     like_bounds subject pattern st \<and>
     (lk_failed st \<longrightarrow> \<not> like_spec subject pattern) \<and>
     (case lk_star_pi st of
        None \<Rightarrow> like_spec subject pattern = like_at subject pattern (lk_si st) (lk_pi st)
      | Some sp \<Rightarrow>
          like_spec subject pattern =
            (\<exists>k. lk_star_si st \<le> k \<and> k \<le> length subject \<and> like_at subject pattern k (sp + 1)) \<and>
          like_at subject pattern (lk_star_si st) (sp + 1) = like_at subject pattern (lk_si st) (lk_pi st) \<and>
          star_free pattern (sp + 1) (lk_pi st) \<and>
          lk_pi st - (sp + 1) = lk_si st - lk_star_si st)"

lemma like_at_char:
  assumes "i < length subject" "j < length pattern" "pattern ! j \<noteq> CHR ''%''"
  shows "like_at subject pattern i j \<longleftrightarrow>
    (pattern ! j = CHR ''_'' \<or> pattern ! j = subject ! i) \<and> like_at subject pattern (i + 1) (j + 1)"
  using assms by (simp add: like_at_def flip: Cons_nth_drop_Suc)

lemma like_at_percent:
  assumes "j < length pattern" "pattern ! j = CHR ''%''" "i \<le> length subject"
  shows "like_at subject pattern i j \<longleftrightarrow> (\<exists>k. i \<le> k \<and> k \<le> length subject \<and> like_at subject pattern k (j + 1))"
proof -
  have "like_at subject pattern i j \<longleftrightarrow> (\<exists>k \<le> length subject - i. like_at subject pattern (k + i) (j + 1))"
    using assms(1,2) by (simp add: like_at_def like_spec_percent flip: Cons_nth_drop_Suc)
  also have "\<dots> \<longleftrightarrow> (\<exists>k. i \<le> k \<and> k \<le> length subject \<and> like_at subject pattern k (j + 1))" (is "?L \<longleftrightarrow> ?R")
  proof
    assume ?L
    then obtain k where "k \<le> length subject - i" "like_at subject pattern (k + i) (j + 1)" by blast
    then show ?R using assms(3) by (intro exI [of _ "k + i"]) simp
  next
    assume ?R
    then obtain k where "i \<le> k" "k \<le> length subject" "like_at subject pattern k (j + 1)" by blast
    then show ?L by (intro exI [of _ "k - i"]) simp
  qed
  finally show ?thesis .
qed

lemma like_at_segment:
  assumes "like_at subject pattern k a" "k \<le> length subject" "star_free pattern a (a + d)" "a + d \<le> length pattern"
  shows "k + d \<le> length subject \<and> like_at subject pattern (k + d) (a + d)"
  using assms
proof (induction d)
  case (Suc d)
  then have ih: "k + d \<le> length subject" "like_at subject pattern (k + d) (a + d)"
    by (auto simp: star_free_def)
  have p: "a + d < length pattern" "pattern ! (a + d) \<noteq> CHR ''%''" using Suc.prems by (auto simp: star_free_def)
  have "k + d \<noteq> length subject"
    using ih(2) p by (auto simp: like_at_def simp flip: Cons_nth_drop_Suc)
  then have "k + d < length subject" using ih(1) by simp
  then show ?case using ih(2) p like_at_char [of "k + d" subject "a + d" pattern] by simp
qed simp

lemma like_at_mismatch:
  assumes "i < length subject"
    and "\<not> (j < length pattern \<and> (pattern ! j = CHR ''_'' \<or> pattern ! j = subject ! i))"
    and "\<not> (j < length pattern \<and> pattern ! j = CHR ''%'')"
  shows "\<not> like_at subject pattern i j"
proof (cases "j < length pattern")
  case True
  then show ?thesis using assms like_at_char by blast
next
  case False
  then show ?thesis using assms(1) by (simp add: like_at_def flip: Cons_nth_drop_Suc)
qed

section \<open>The loop ends\<close>

lemma like_bounds_step:
  "like_bounds subject pattern st \<Longrightarrow> like_continue subject st \<Longrightarrow> like_bounds subject pattern (like_step subject pattern st)"
  by (auto simp: like_bounds_def like_continue_def like_step_def Let_def split: option.splits)

definition like_measure :: "string \<Rightarrow> string \<Rightarrow> (like_state \<times> like_state) set" where
  "like_measure subject pattern =
     measures [\<lambda>st. if lk_failed st then 0 else 1,
               \<lambda>st. length subject - lk_star_si st,
               \<lambda>st. length pattern - (case lk_star_pi st of None \<Rightarrow> 0 | Some sp \<Rightarrow> sp + 1),
               \<lambda>st. length subject - lk_si st]"

lemma like_step_decreases:
  "like_bounds subject pattern st \<Longrightarrow> like_continue subject st
   \<Longrightarrow> (like_step subject pattern st, st) \<in> like_measure subject pattern"
  by (auto simp: like_bounds_def like_continue_def like_step_def like_measure_def Let_def split: option.splits)

lemma wf_like_measure: "wf (like_measure subject pattern)"
  by (simp add: like_measure_def)

lemma like_bounds_init: "like_bounds subject pattern like_init"
  by (simp add: like_bounds_def like_init_def)

section \<open>The loop decides the pattern\<close>

lemma like_inv_init: "like_inv subject pattern like_init"
  using like_bounds_init by (simp add: like_inv_def like_at_def like_init_def)

lemma like_inv_step_char:
  assumes inv: "like_inv subject pattern st" and b: "like_continue subject st"
    and p: "lk_pi st < length pattern" "pattern ! lk_pi st = CHR ''_'' \<or> pattern ! lk_pi st = subject ! lk_si st"
      "pattern ! lk_pi st \<noteq> CHR ''%''"
  shows "like_inv subject pattern (st\<lparr>lk_si := lk_si st + 1, lk_pi := lk_pi st + 1\<rparr>)"
proof -
  have "like_at subject pattern (lk_si st) (lk_pi st) = like_at subject pattern (lk_si st + 1) (lk_pi st + 1)"
    using b p like_at_char by (auto simp: like_continue_def)
  then show ?thesis using inv b p
    by (auto simp: like_inv_def like_bounds_def like_continue_def star_free_def less_Suc_eq split: option.splits)
qed

lemma like_inv_step_percent:
  assumes inv: "like_inv subject pattern st" and b: "like_continue subject st"
    and p: "lk_pi st < length pattern" "pattern ! lk_pi st = CHR ''%''"
  shows "like_inv subject pattern (st\<lparr>lk_star_pi := Some (lk_pi st), lk_pi := lk_pi st + 1, lk_star_si := lk_si st\<rparr>)"
proof -
  let ?si = "lk_si st" and ?pi = "lk_pi st"
  have si: "?si \<le> length subject" using inv by (simp add: like_inv_def like_bounds_def)
  note here = like_at_percent [OF p si]
  have "like_spec subject pattern \<longleftrightarrow> like_at subject pattern ?si ?pi"
  proof (cases "lk_star_pi st")
    case None
    then show ?thesis using inv by (simp add: like_inv_def)
  next
    case (Some sp)
    let ?d = "?si - lk_star_si st"
    have i: "like_spec subject pattern = (\<exists>k. lk_star_si st \<le> k \<and> k \<le> length subject \<and> like_at subject pattern k (sp + 1))"
        "like_at subject pattern (lk_star_si st) (sp + 1) = like_at subject pattern ?si ?pi"
        "star_free pattern (sp + 1) ?pi" "?pi = sp + 1 + ?d" "lk_star_si st \<le> ?si"
      using inv Some by (auto simp: like_inv_def like_bounds_def)
    have "like_at subject pattern ?si ?pi" if "lk_star_si st \<le> k" "k \<le> length subject" "like_at subject pattern k (sp + 1)" for k
    proof -
      have "k + ?d \<le> length subject \<and> like_at subject pattern (k + ?d) ?pi"
        using like_at_segment [of subject pattern k "sp + 1" ?d] that i(3,4) p(1) by simp
      moreover have "?si \<le> k + ?d" using that(1) i(5) by simp
      ultimately show ?thesis
        using here like_at_percent [OF p, of "k + ?d" subject] by (meson order_trans)
    qed
    then show ?thesis using i(1,2,5) si by auto
  qed
  then show ?thesis using inv b p si here
    by (auto simp: like_inv_def like_bounds_def like_continue_def star_free_def split: option.splits)
qed

lemma like_inv_step_back:
  assumes inv: "like_inv subject pattern st" and b: "like_continue subject st"
    and no: "\<not> like_at subject pattern (lk_si st) (lk_pi st)" and sp: "lk_star_pi st = Some sp"
  shows "like_inv subject pattern (st\<lparr>lk_pi := sp + 1, lk_star_si := lk_star_si st + 1, lk_si := lk_star_si st + 1\<rparr>)"
proof -
  have i: "like_spec subject pattern = (\<exists>k. lk_star_si st \<le> k \<and> k \<le> length subject \<and> like_at subject pattern k (sp + 1))"
      "\<not> like_at subject pattern (lk_star_si st) (sp + 1)" "lk_star_si st \<le> lk_si st"
    using inv sp no by (auto simp: like_inv_def like_bounds_def)
  then have "like_spec subject pattern = (\<exists>k. lk_star_si st + 1 \<le> k \<and> k \<le> length subject \<and> like_at subject pattern k (sp + 1))"
    by (metis Suc_eq_plus1 Suc_le_eq le_neq_implies_less less_or_eq_imp_le)
  then show ?thesis using inv b sp i(3)
    by (auto simp: like_inv_def like_bounds_def like_continue_def star_free_def)
qed

lemma like_inv_step:
  assumes inv: "like_inv subject pattern st" and b: "like_continue subject st" and free: "CHR ''%'' \<notin> set subject"
  shows "like_inv subject pattern (like_step subject pattern st)"
proof (cases "lk_pi st < length pattern \<and> (pattern ! lk_pi st = CHR ''_'' \<or> pattern ! lk_pi st = subject ! lk_si st)")
  case True
  moreover have "subject ! lk_si st \<noteq> CHR ''%''" using free b by (metis like_continue_def nth_mem)
  ultimately show ?thesis using like_inv_step_char [OF inv b] by (auto simp: like_step_def Let_def)
next
  case noc: False
  show ?thesis
  proof (cases "lk_pi st < length pattern \<and> pattern ! lk_pi st = CHR ''%''")
    case True
    then have "like_step subject pattern st = st\<lparr>lk_star_pi := Some (lk_pi st), lk_pi := lk_pi st + 1, lk_star_si := lk_si st\<rparr>"
      using noc unfolding like_step_def Let_def by (simp only: if_False if_True simp_thms)
    then show ?thesis using like_inv_step_percent [OF inv b] True by simp
  next
    case False
    have no: "\<not> like_at subject pattern (lk_si st) (lk_pi st)"
      using like_at_mismatch [OF _ noc False] b by (simp add: like_continue_def)
    have "like_step subject pattern st = (case lk_star_pi st of
        Some saved_pi \<Rightarrow> st\<lparr>lk_pi := saved_pi + 1, lk_star_si := lk_star_si st + 1, lk_si := lk_star_si st + 1\<rparr>
      | None \<Rightarrow> st\<lparr>lk_failed := True\<rparr>)"
      using noc False unfolding like_step_def Let_def by (simp only: if_False)
    then show ?thesis using like_inv_step_back [OF inv b no] inv no
      by (cases "lk_star_pi st") (auto simp: like_inv_def like_bounds_def)
  qed
qed

lemma like_inv_end:
  assumes inv: "like_inv subject pattern st" and b: "\<not> like_continue subject st"
  shows "(\<not> lk_failed st \<and> dropWhile (\<lambda>c. c = CHR ''%'') (drop (lk_pi st) pattern) = []) = like_spec subject pattern"
proof (cases "lk_failed st")
  case True
  then show ?thesis using inv by (simp add: like_inv_def)
next
  case False
  then have n: "lk_si st = length subject" using inv b by (auto simp: like_inv_def like_bounds_def like_continue_def)
  have "like_spec subject pattern = like_at subject pattern (lk_si st) (lk_pi st)"
  proof (cases "lk_star_pi st")
    case None
    then show ?thesis using inv by (simp add: like_inv_def)
  next
    case (Some sp)
    let ?d = "lk_si st - lk_star_si st"
    have i: "like_spec subject pattern = (\<exists>k. lk_star_si st \<le> k \<and> k \<le> length subject \<and> like_at subject pattern k (sp + 1))"
        "like_at subject pattern (lk_star_si st) (sp + 1) = like_at subject pattern (lk_si st) (lk_pi st)"
        "star_free pattern (sp + 1) (lk_pi st)" "lk_pi st = sp + 1 + ?d" "lk_star_si st \<le> lk_si st" "lk_pi st \<le> length pattern"
      using inv Some by (auto simp: like_inv_def like_bounds_def)
    have "k = lk_star_si st" if "lk_star_si st \<le> k" "k \<le> length subject" "like_at subject pattern k (sp + 1)" for k
    proof -
      have "k + ?d \<le> length subject" using like_at_segment [of subject pattern k "sp + 1" ?d] that i(3,4,6) by simp
      then show ?thesis using that(1) i(5) n by linarith
    qed
    then show ?thesis using i(1,2,5) n by auto
  qed
  then show ?thesis using False n by (simp add: like_at_def like_spec_Nil)
qed

lemma like_loop_ends: "\<exists>st. while_option (like_continue subject) (like_step subject pattern) like_init = Some st"
  by (rule wf_rel_while_option_Some [where P = "like_bounds subject pattern", OF wf_like_measure])
     (auto intro: like_step_decreases like_bounds_step like_bounds_init)

lemma like_matches_spec: "CHR ''%'' \<notin> set subject \<Longrightarrow> like_matches subject pattern = like_spec subject pattern"
  unfolding like_matches_def Let_def
proof (rule while_rule [where P = "like_inv subject pattern" and r = "like_measure subject pattern"])
  fix st assume "like_inv subject pattern st" "like_continue subject st"
  then show "(like_step subject pattern st, st) \<in> like_measure subject pattern"
    by (intro like_step_decreases) (simp_all add: like_inv_def)
next
  fix st assume "CHR ''%'' \<notin> set subject" "like_inv subject pattern st" "like_continue subject st"
  then show "like_inv subject pattern (like_step subject pattern st)" by (rule_tac like_inv_step)
qed (rule like_inv_init like_inv_end wf_like_measure | assumption)+

lemma percent_ascii_lower: "ascii_lower c = CHR ''%'' \<longleftrightarrow> c = CHR ''%''"
proof (cases "CHR ''A'' \<le> c \<and> c \<le> CHR ''Z''")
  case True
  then have n: "65 \<le> (of_char c :: nat)" "(of_char c :: nat) \<le> 90" by (simp_all add: less_eq_char_def)
  have "of_char (char_of (of_char c + 32 :: nat) :: char) = (of_char c + 32 :: nat)"
    using n by (simp add: of_char_of)
  then have "char_of (of_char c + 32 :: nat) \<noteq> CHR ''%''" 
  proof (rule_tac notI)
    assume "of_char (char_of (of_char c + 32 :: nat) :: char) = (of_char c + 32 :: nat)" "char_of (of_char c + 32 :: nat) = CHR ''%''"
    then have "of_char (CHR ''%'') = (of_char c + 32 :: nat)" by simp
    then show False using n(1) by simp
  qed
  moreover have "c \<noteq> CHR ''%''" using n by auto
  ultimately show ?thesis using True by (simp add: ascii_lower_def)
qed (auto simp: ascii_lower_def)

text \<open>
  (C19) The matcher of LIKE always ends, and on a subject without percent signs it decides the
  meaning of the pattern, for ILIKE on the lower-cased strings. A percent sign in the subject can
  be taken for a literal match of the pattern's wildcard: \<open>'%a' LIKE '%'\<close> is false.
\<close>

theorem like_decides_pattern:
  "(\<exists>st. while_option (like_continue subject) (like_step subject pattern) like_init = Some st) \<and>
   (CHR ''%'' \<notin> set subject \<longrightarrow>
      like_pattern_matches subject pattern False = like_spec subject pattern \<and>
      like_pattern_matches subject pattern True =
        like_spec (to_ascii_lowercase subject) (to_ascii_lowercase pattern)) \<and>
   \<not> like_pattern_matches ''%a'' ''%'' False \<and> like_spec ''%a'' ''%''"
proof (intro conjI impI)
  assume free: "CHR ''%'' \<notin> set subject"
  then show "like_pattern_matches subject pattern False = like_spec subject pattern"
    by (simp add: like_pattern_matches_def like_matches_spec)
  have "CHR ''%'' \<notin> set (to_ascii_lowercase subject)"
    using free by (auto simp: to_ascii_lowercase_def percent_ascii_lower image_iff eq_commute [of "CHR ''%''"])
  then show "like_pattern_matches subject pattern True =
      like_spec (to_ascii_lowercase subject) (to_ascii_lowercase pattern)"
    by (simp add: like_pattern_matches_def like_matches_spec)
next
  show "\<not> like_pattern_matches ''%a'' ''%'' False" by code_simp
qed (simp_all add: like_loop_ends)

theorem like_decides_pattern_witness:
  "CHR ''%'' \<notin> set ''banana'' \<and> like_pattern_matches ''banana'' ''%an_'' False \<and>
   \<not> like_pattern_matches ''BANANA'' ''%an_b'' True"
  using like_decides_pattern [of "''banana''" "''%an_''"] like_decides_pattern [of "''BANANA''" "''%an_b''"]
  by (simp add: to_ascii_lowercase_def ascii_lower_def less_eq_char_def char_of_def)

end
