(* ===== verification/Query_Expr.thy ===== *)
theory Query_Expr
  imports Query_Types Query_Like Rust_Str
begin

text \<open>
  Evaluation of expressions (\<open>eval_expr\<close> of \<open>engine.rs\<close>): comparison of literals, arithmetic,
  three-valued logic, column references in a row or in a row context. The operands of an operator
  are evaluated to results first; since evaluation has no effect, passing the results on is the
  same as evaluating them where the code does. The record \<open>eval_env\<close> holds what is not modelled:
  \<open>serde_json\<close>, the regular expressions of the \<open>regex\<close> crate, the decimal printing of floats, the
  casts and the built-in functions.
\<close>

section \<open>Environment\<close>

record eval_env =
  ev_codecs :: codecs
  ev_f64_display :: "u64 \<Rightarrow> string"
  ev_json_display :: "json \<Rightarrow> string"
  ev_json_parse :: "string \<Rightarrow> json option"
  ev_regex :: "string \<Rightarrow> (string \<Rightarrow> bool) option"
  ev_cast :: "lit \<Rightarrow> type_desc \<Rightarrow> engine_error + lit"
  ev_func :: "string \<Rightarrow> (engine_error + lit) list \<Rightarrow> engine_error + lit"

type_synonym lit_result = "engine_error + lit"

section \<open>Conversions of literals\<close>

fun nat_digits :: "int \<Rightarrow> string" where
  "nat_digits n = (if n < 10 then [char_of (48 + nat n)] else nat_digits (n div 10) @ [char_of (48 + nat (n mod 10))])"

declare nat_digits.simps [simp del]

definition int_to_string :: "int \<Rightarrow> string" where
  "int_to_string i = (if i < 0 then ''-'' @ nat_digits (- i) else nat_digits i)"

fun lit_to_string_for_like :: "eval_env \<Rightarrow> lit \<Rightarrow> string option" where
  "lit_to_string_for_like env LNull = None"
| "lit_to_string_for_like env (LBool v) = Some (if v then ''1'' else ''0'')"
| "lit_to_string_for_like env (LI64 v) = Some (int_to_string (sint v))"
| "lit_to_string_for_like env (LU64 v) = Some (int_to_string (uint v))"
| "lit_to_string_for_like env (LF64 v) = Some (ev_f64_display env v)"
| "lit_to_string_for_like env (LDec v) = Some v"
| "lit_to_string_for_like env (LStr v) = Some v"
| "lit_to_string_for_like env (LBytes b64) = Some b64"
| "lit_to_string_for_like env (LJson v) = Some (ev_json_display env v)"
| "lit_to_string_for_like env (LDate v) = Some v"
| "lit_to_string_for_like env (LTime v) = Some v"
| "lit_to_string_for_like env (LDatetime v) = Some v"
| "lit_to_string_for_like env (LUuid v) = Some v"
| "lit_to_string_for_like env (LEmbedding dims v model) = None"

fun lit_to_f64 :: "lit \<Rightarrow> u64 option" where
  "lit_to_f64 (LBool v) = Some (f64_of_int (if v then 1 else 0))"
| "lit_to_f64 (LI64 v) = Some (f64_of_int (sint v))"
| "lit_to_f64 (LU64 v) = Some (f64_of_int (uint v))"
| "lit_to_f64 (LF64 v) = Some v"
| "lit_to_f64 (LDec v) = f64_parse v"
| "lit_to_f64 (LStr v) = f64_parse v"
| "lit_to_f64 _ = None"

text \<open>\<open>str::trim\<close> on the bytes of a string.\<close>

definition trim_string :: "string \<Rightarrow> string" where
  "trim_string s = map (\<lambda>b. char_of (unat b)) (str_trim (map (\<lambda>c. word_of_nat (of_char c)) s))"

abbreviation i128_min :: int where "i128_min \<equiv> - (2 ^ 127)"

abbreviation i128_max :: int where "i128_max \<equiv> 2 ^ 127 - 1"

fun mysql_lit_is_integral_like :: "lit \<Rightarrow> bool" where
  "mysql_lit_is_integral_like (LBool _) = True"
| "mysql_lit_is_integral_like (LI64 _) = True"
| "mysql_lit_is_integral_like (LU64 _) = True"
| "mysql_lit_is_integral_like (LF64 v) = f64_integral v"
| "mysql_lit_is_integral_like (LDec v) =
     (let t = trim_string v in
      t \<noteq> [] \<and> \<not> list_ex (\<lambda>c. c \<in> set ''.eE'') t \<and> parse_int i128_min i128_max t \<noteq> None)"
| "mysql_lit_is_integral_like (LStr v) =
     (let t = trim_string v in
      t \<noteq> [] \<and> \<not> list_ex (\<lambda>c. c \<in> set ''.eE'') t \<and> parse_int i128_min i128_max t \<noteq> None)"
| "mysql_lit_is_integral_like _ = False"

fun mysql_integral_numeric_value :: "lit \<Rightarrow> int option" where
  "mysql_integral_numeric_value (LBool v) = Some (if v then 1 else 0)"
| "mysql_integral_numeric_value (LI64 v) = Some (sint v)"
| "mysql_integral_numeric_value (LU64 v) = Some (uint v)"
| "mysql_integral_numeric_value (LF64 v) =
     (if f64_integral v then Some (f64_to_int i128_min i128_max v) else None)"
| "mysql_integral_numeric_value (LDec v) = parse_int i128_min i128_max (trim_string v)"
| "mysql_integral_numeric_value (LStr v) = parse_int i128_min i128_max (trim_string v)"
| "mysql_integral_numeric_value _ = None"

definition mysql_numeric_binary_integral_result :: "int \<Rightarrow> lit" where
  "mysql_numeric_binary_integral_result value =
     (if - (2 ^ 63) \<le> value \<and> value \<le> 2 ^ 63 - 1 then LI64 (word_of_int value) else LF64 (f64_of_int value))"

definition saturate_i128 :: "int \<Rightarrow> int" where
  "saturate_i128 v = max i128_min (min i128_max v)"

text \<open>Rust's remainder, with the sign of the dividend; the least \<open>i128\<close> by \<open>-1\<close> panics.\<close>

definition i128_rem :: "int \<Rightarrow> int \<Rightarrow> int" where
  "i128_rem l r = sgn l * (\<bar>l\<bar> mod \<bar>r\<bar>)"

definition f64_is_zero :: "u64 \<Rightarrow> bool" where
  "f64_is_zero x \<longleftrightarrow> f64_mag x = 0"

definition f64_binary_op :: "string \<Rightarrow> u64 \<Rightarrow> u64 \<Rightarrow> lit" where
  "f64_binary_op op l r =
     (if op = ''mod'' then (if f64_is_zero r then LNull else LF64 (f64_rem l r))
      else if op = ''add'' then LF64 (f64_add l r)
      else if op = ''sub'' then LF64 (f64_sub l r)
      else if op = ''mul'' then LF64 (f64_mul l r)
      else LNull)"

definition integral_binary_op :: "string \<Rightarrow> int \<Rightarrow> int \<Rightarrow> lit_result" where
  "integral_binary_op op l r =
     (if op = ''mod'' then
        (if r = 0 then Inr LNull
         else if l = i128_min \<and> r = - 1 then Inl EngPanic
         else Inr (mysql_numeric_binary_integral_result (i128_rem l r)))
      else if op = ''add'' then Inr (mysql_numeric_binary_integral_result (saturate_i128 (l + r)))
      else if op = ''sub'' then Inr (mysql_numeric_binary_integral_result (saturate_i128 (l - r)))
      else if op = ''mul'' then Inr (mysql_numeric_binary_integral_result (saturate_i128 (l * r)))
      else Inr LNull)"

definition mysql_eval_numeric_binary_op :: "string \<Rightarrow> lit \<Rightarrow> lit \<Rightarrow> lit_result" where
  "mysql_eval_numeric_binary_op op left right =
     (if left = LNull \<or> right = LNull then Inr LNull
      else if op = ''div'' then
        (case (lit_to_f64 left, lit_to_f64 right) of
           (Some l, Some r) \<Rightarrow> Inr (if f64_is_zero r then LNull else LF64 (f64_div l r))
         | _ \<Rightarrow> Inr LNull)
      else if mysql_lit_is_integral_like left \<and> mysql_lit_is_integral_like right then
        (case (mysql_integral_numeric_value left, mysql_integral_numeric_value right) of
           (Some l, Some r) \<Rightarrow> integral_binary_op op l r
         | _ \<Rightarrow> Inr LNull)
      else
        (case (lit_to_f64 left, lit_to_f64 right) of
           (Some l, Some r) \<Rightarrow> Inr (f64_binary_op op l r)
         | _ \<Rightarrow> Inr LNull))"

fun mysql_if_condition_truth :: "lit \<Rightarrow> bool option" where
  "mysql_if_condition_truth LNull = None"
| "mysql_if_condition_truth (LBool v) = Some v"
| "mysql_if_condition_truth (LI64 v) = Some (v \<noteq> 0)"
| "mysql_if_condition_truth (LU64 v) = Some (v \<noteq> 0)"
| "mysql_if_condition_truth (LF64 v) = Some (\<not> f64_is_zero v)"
| "mysql_if_condition_truth (LDec v) = map_option (\<lambda>f. \<not> f64_is_zero f) (f64_parse v)"
| "mysql_if_condition_truth (LStr v) = map_option (\<lambda>f. \<not> f64_is_zero f) (f64_parse v)"
| "mysql_if_condition_truth _ = None"

section \<open>Comparison\<close>

fun str_cmp :: "string \<Rightarrow> string \<Rightarrow> cmp_ordering" where
  "str_cmp [] [] = OEqual"
| "str_cmp [] (y # ys) = OLess"
| "str_cmp (x # xs) [] = OGreater"
| "str_cmp (x # xs) (y # ys) = (if x < y then OLess else if y < x then OGreater else str_cmp xs ys)"

definition bool_cmp :: "bool \<Rightarrow> bool \<Rightarrow> cmp_ordering" where
  "bool_cmp x y = (if x = y then OEqual else if y then OLess else OGreater)"

definition f64_cmp :: "u64 \<Rightarrow> u64 \<Rightarrow> cmp_ordering" where
  "f64_cmp x y = (case f64_partial_cmp x y of Some r \<Rightarrow> r | None \<Rightarrow> OEqual)"

text \<open>The last two arms of \<open>cmp_lit\<close>: as floats if both are numbers, else as strings, else equal.\<close>

definition cmp_lit_mixed :: "eval_env \<Rightarrow> lit \<Rightarrow> lit \<Rightarrow> cmp_ordering" where
  "cmp_lit_mixed env a b =
     (case (lit_to_f64 a, lit_to_f64 b) of
        (Some x, Some y) \<Rightarrow> f64_cmp x y
      | _ \<Rightarrow>
          (case (lit_to_string_for_like env a, lit_to_string_for_like env b) of
             (Some x, Some y) \<Rightarrow> str_cmp x y
           | _ \<Rightarrow> OEqual))"

text \<open>\<open>cmp_lit\<close> returns a \<open>Result\<close> that is always \<open>Ok\<close>.\<close>

definition cmp_lit :: "eval_env \<Rightarrow> lit \<Rightarrow> lit \<Rightarrow> cmp_ordering" where
  "cmp_lit env a b =
     (case (a, b) of
        (LI64 x, LI64 y) \<Rightarrow> int_cmp (sint x) (sint y)
      | (LU64 x, LU64 y) \<Rightarrow> int_cmp (uint x) (uint y)
      | (LF64 x, LF64 y) \<Rightarrow> f64_cmp x y
      | (LStr x, LStr y) \<Rightarrow> str_cmp x y
      | (LBool x, LBool y) \<Rightarrow> bool_cmp x y
      | (LI64 x, LU64 y) \<Rightarrow> int_cmp (sint x) (uint y)
      | (LU64 x, LI64 y) \<Rightarrow> int_cmp (uint x) (sint y)
      | _ \<Rightarrow> cmp_lit_mixed env a b)"

lemma cmp_lit_simps [simp]:
  "cmp_lit env (LI64 v) (LI64 w) = int_cmp (sint v) (sint w)"
  "cmp_lit env (LU64 v) (LU64 w) = int_cmp (uint v) (uint w)"
  "cmp_lit env (LF64 v) (LF64 w) = f64_cmp v w"
  "cmp_lit env (LStr s) (LStr t) = str_cmp s t"
  "cmp_lit env (LBool p) (LBool q) = bool_cmp p q"
  "cmp_lit env (LI64 v) (LU64 w) = int_cmp (sint v) (uint w)"
  "cmp_lit env (LU64 v) (LI64 w) = int_cmp (uint v) (sint w)"
  by (simp_all add: cmp_lit_def)

section \<open>Operators\<close>

definition evalE :: "string \<Rightarrow> engine_error + 'a" where
  "evalE msg = Inl (EvalError msg)"

text \<open>\<open>eval_predicate_truth\<close> on the value of the expression.\<close>

fun lit_truth :: "lit \<Rightarrow> bool option" where
  "lit_truth (LBool v) = Some v"
| "lit_truth LNull = None"
| "lit_truth _ = Some False"

text \<open>The loops of \<open>eval_and_list\<close> and \<open>eval_or_list\<close>; the flag is \<open>saw_null\<close>.\<close>

fun eval_and_list :: "lit_result list \<Rightarrow> bool \<Rightarrow> lit_result" where
  "eval_and_list [] saw_null = Inr (if saw_null then LNull else LBool True)"
| "eval_and_list (x # xs) saw_null =
     bindE x (\<lambda>v. case lit_truth v of
        Some True \<Rightarrow> eval_and_list xs saw_null
      | Some False \<Rightarrow> Inr (LBool False)
      | None \<Rightarrow> eval_and_list xs True)"

fun eval_or_list :: "lit_result list \<Rightarrow> bool \<Rightarrow> lit_result" where
  "eval_or_list [] saw_null = Inr (if saw_null then LNull else LBool False)"
| "eval_or_list (x # xs) saw_null =
     bindE x (\<lambda>v. case lit_truth v of
        Some True \<Rightarrow> Inr (LBool True)
      | Some False \<Rightarrow> eval_or_list xs saw_null
      | None \<Rightarrow> eval_or_list xs True)"

fun eval_in_list :: "eval_env \<Rightarrow> lit \<Rightarrow> lit_result list \<Rightarrow> bool \<Rightarrow> lit_result" where
  "eval_in_list env va [] saw_null = Inr (if saw_null then LNull else LBool False)"
| "eval_in_list env va (x # xs) saw_null =
     bindE x (\<lambda>vx.
       if vx = LNull then eval_in_list env va xs True
       else if cmp_lit env va vx = OEqual then Inr (LBool True)
       else eval_in_list env va xs saw_null)"

definition required :: "string \<Rightarrow> lit_result option \<Rightarrow> engine_error + lit_result" where
  "required msg x = (case x of None \<Rightarrow> evalE msg | Some r \<Rightarrow> Inr r)"

text \<open>Both operands, \<open>a\<close> before \<open>b\<close>; a missing operand is reported before anything is evaluated.\<close>

definition with_operands ::
    "string \<Rightarrow> lit_result option \<Rightarrow> lit_result option \<Rightarrow> (lit \<Rightarrow> lit \<Rightarrow> lit_result) \<Rightarrow> lit_result" where
  "with_operands op a b f =
     bindE (required (op @ '' requires a'') a) (\<lambda>ra.
     bindE (required (op @ '' requires b'') b) (\<lambda>rb.
     bindE ra (\<lambda>va. bindE rb (\<lambda>vb. f va vb))))"

definition null_or :: "lit \<Rightarrow> lit \<Rightarrow> lit_result \<Rightarrow> lit_result" where
  "null_or va vb r = (if va = LNull \<or> vb = LNull then Inr LNull else r)"

definition string_operand :: "eval_env \<Rightarrow> string \<Rightarrow> lit \<Rightarrow> engine_error + string" where
  "string_operand env msg v = (case lit_to_string_for_like env v of None \<Rightarrow> evalE msg | Some s \<Rightarrow> Inr s)"

definition string_or_empty :: "eval_env \<Rightarrow> lit \<Rightarrow> string" where
  "string_or_empty env v = (case lit_to_string_for_like env v of None \<Rightarrow> [] | Some s \<Rightarrow> s)"

definition comparison :: "string \<Rightarrow> cmp_ordering \<Rightarrow> bool" where
  "comparison op ord =
     (if op = ''eq'' then ord = OEqual else if op = ''ne'' then ord \<noteq> OEqual
      else if op = ''lt'' then ord = OLess else if op = ''le'' then ord \<noteq> OGreater
      else if op = ''gt'' then ord = OGreater else if op = ''ge'' then ord \<noteq> OLess
      else False)"

definition regex_match :: "eval_env \<Rightarrow> string \<Rightarrow> string \<Rightarrow> string \<Rightarrow> lit \<Rightarrow> lit \<Rightarrow> lit_result" where
  "regex_match env name msg pre va vb =
     null_or va vb
       (bindE (string_operand env (name @ '' requires string-like lhs'') va) (\<lambda>subject.
        bindE (string_operand env (name @ '' requires string-like rhs'') vb) (\<lambda>pattern.
          case ev_regex env (pre @ pattern) of
            None \<Rightarrow> evalE msg
          | Some re \<Rightarrow> Inr (LBool (re subject)))))"

text \<open>\<open>Value::get\<close> with the index that the right operand of an arrow gives.\<close>

definition json_index :: "nat \<Rightarrow> json \<Rightarrow> json option" where
  "json_index i v = (case v of JArr xs \<Rightarrow> if i < length xs then Some (xs ! i) else None | _ \<Rightarrow> None)"

definition arrow_get :: "eval_env \<Rightarrow> lit \<Rightarrow> json \<Rightarrow> json option" where
  "arrow_get env vb parsed =
     (case vb of
        LI64 v \<Rightarrow> json_index (unat v) parsed
      | LU64 v \<Rightarrow> json_index (unat v) parsed
      | _ \<Rightarrow> json_get (string_or_empty env vb) parsed)"

definition json_arrow :: "eval_env \<Rightarrow> (json \<Rightarrow> lit) \<Rightarrow> lit \<Rightarrow> lit \<Rightarrow> lit_result" where
  "json_arrow env out va vb =
     (if va = LNull then Inr LNull
      else case ev_json_parse env (string_or_empty env va) of
        None \<Rightarrow> Inr LNull
      | Some parsed \<Rightarrow> Inr (case arrow_get env vb parsed of None \<Rightarrow> LNull | Some v \<Rightarrow> out v))"

definition json_text :: "eval_env \<Rightarrow> json \<Rightarrow> lit" where
  "json_text env v =
     (case v of JNull \<Rightarrow> LNull | JStr s \<Rightarrow> LStr s | _ \<Rightarrow> LStr (ev_json_display env v))"

definition variadic :: "'a option \<Rightarrow> 'a option \<Rightarrow> 'a list option \<Rightarrow> 'a list" where
  "variadic a b vargs =
     (case vargs of Some xs \<Rightarrow> xs | None \<Rightarrow> (case a of None \<Rightarrow> [] | Some x \<Rightarrow> [x]) @ (case b of None \<Rightarrow> [] | Some x \<Rightarrow> [x]))"

definition eval_between :: "eval_env \<Rightarrow> lit \<Rightarrow> lit \<Rightarrow> lit \<Rightarrow> lit" where
  "eval_between env va vlo vhi =
     (if va = LNull \<or> vlo = LNull \<or> vhi = LNull then LNull
      else LBool (cmp_lit env va vlo \<noteq> OLess \<and> cmp_lit env va vhi \<noteq> OGreater))"

definition eval_null_safe_eq :: "eval_env \<Rightarrow> lit \<Rightarrow> lit \<Rightarrow> bool" where
  "eval_null_safe_eq env va vb =
     (if va = LNull \<and> vb = LNull then True
      else if va = LNull \<or> vb = LNull then False
      else cmp_lit env va vb = OEqual)"

definition eval_like :: "eval_env \<Rightarrow> string \<Rightarrow> lit \<Rightarrow> lit \<Rightarrow> lit_result" where
  "eval_like env op va vb =
     null_or va vb
       (bindE (string_operand env (op @ '' requires string-like lhs'') va) (\<lambda>subject.
        bindE (string_operand env (op @ '' requires string-like rhs'') vb) (\<lambda>pattern.
          Inr (LBool (like_pattern_matches subject pattern (op = ''ilike''))))))"

definition eval_op ::
    "eval_env \<Rightarrow> string \<Rightarrow> lit_result option \<Rightarrow> lit_result option \<Rightarrow> lit_result list option \<Rightarrow>
     lit_result list option \<Rightarrow> lit_result option \<Rightarrow> lit_result option \<Rightarrow> lit_result" where
  "eval_op env op a b vargs lst lo hi =
     (if op = ''and'' then eval_and_list (variadic a b vargs) False
      else if op = ''or'' then eval_or_list (variadic a b vargs) False
      else if op = ''not'' then
        bindE (required ''not requires a'' a) (\<lambda>r. bindE r (\<lambda>v.
          Inr (case lit_truth v of Some t \<Rightarrow> LBool (\<not> t) | None \<Rightarrow> LNull)))
      else if op \<in> {''eq'', ''ne'', ''lt'', ''le'', ''gt'', ''ge''} then
        with_operands op a b (\<lambda>va vb. null_or va vb (Inr (LBool (comparison op (cmp_lit env va vb)))))
      else if op \<in> {''add'', ''sub'', ''mul'', ''div'', ''mod''} then
        with_operands op a b (mysql_eval_numeric_binary_op op)
      else if op = ''in'' then
        bindE (required ''in requires a'' a) (\<lambda>ra. bindE ra (\<lambda>va.
          if va = LNull then Inr LNull
          else case lst of None \<Rightarrow> evalE ''in requires list'' | Some xs \<Rightarrow> eval_in_list env va xs False))
      else if op = ''between'' then
        bindE (required ''between requires a'' a) (\<lambda>ra.
        bindE (required ''between requires lo'' lo) (\<lambda>rlo.
        bindE (required ''between requires hi'' hi) (\<lambda>rhi.
        bindE ra (\<lambda>va. bindE rlo (\<lambda>vlo. bindE rhi (\<lambda>vhi. Inr (eval_between env va vlo vhi)))))))
      else if op \<in> {''like'', ''ilike''} then with_operands op a b (eval_like env op)
      else if op = ''regexp'' then
        with_operands op a b (regex_match env ''regexp'' ''invalid regexp pattern'' [])
      else if op = ''null_safe_eq'' then
        with_operands op a b (\<lambda>va vb. Inr (LBool (eval_null_safe_eq env va vb)))
      else if op = ''is_null'' then
        bindE (required ''is_null requires a'' a) (\<lambda>r. bindE r (\<lambda>v. Inr (LBool (v = LNull))))
      else if op = ''concat_op'' then
        with_operands ''||'' a b (\<lambda>va vb.
          null_or va vb (Inr (LStr (string_or_empty env va @ string_or_empty env vb))))
      else if op = ''pg_regex'' then with_operands ''~'' a b (regex_match env ''~'' ''invalid ~ pattern'' [])
      else if op = ''pg_regex_i'' then
        with_operands ''~*'' a b (regex_match env ''~*'' ''invalid ~* pattern'' ''(?i)'')
      else if op = ''json_arrow'' then
        with_operands ''->'' a b (json_arrow env (\<lambda>v. LStr (ev_json_display env v)))
      else if op = ''json_arrow_text'' then with_operands ''->>'' a b (json_arrow env (json_text env))
      else evalE (''unsupported op: '' @ op))"

section \<open>Expressions\<close>

text \<open>A row context maps \<open>alias.column\<close> to a value, in key order.\<close>

type_synonym row_ctx = "(string \<times> lit) list"

definition ends_with :: "string \<Rightarrow> string \<Rightarrow> bool" where
  "ends_with suf s \<longleftrightarrow> suffix suf s"

definition eval_col :: "row_object \<Rightarrow> row_ctx option \<Rightarrow> string \<Rightarrow> string option \<Rightarrow> lit_result" where
  "eval_col row ctx col table =
     (case ctx of
        None \<Rightarrow> (case map_of row col of Some v \<Rightarrow> Inr v | None \<Rightarrow> evalE (''unknown column '' @ col))
      | Some c \<Rightarrow>
          (case table of
             Some t \<Rightarrow>
               (case map_of c (t @ ''.'' @ col) of
                  Some v \<Rightarrow> Inr v
                | None \<Rightarrow> evalE (''unknown column '' @ t @ ''.'' @ col))
           | None \<Rightarrow>
               (case filter (\<lambda>(k, v). ends_with (''.'' @ col) k) c of
                  [] \<Rightarrow> evalE (''unknown column '' @ col)
                | [(k, v)] \<Rightarrow> Inr v
                | _ \<Rightarrow> evalE (''ambiguous column '' @ col))))"

text \<open>The branches of CASE, already evaluated, and its default.\<close>

fun eval_case :: "(lit_result \<times> lit_result) list \<Rightarrow> lit_result option \<Rightarrow> lit_result" where
  "eval_case [] other = (case other of Some r \<Rightarrow> r | None \<Rightarrow> Inr LNull)"
| "eval_case ((c, t) # whens) other =
     bindE c (\<lambda>v. if mysql_if_condition_truth v = Some True then t else eval_case whens other)"

fun eval_expr :: "eval_env \<Rightarrow> row_object \<Rightarrow> row_ctx option \<Rightarrow> lit list \<Rightarrow> expr \<Rightarrow> lit_result" where
  "eval_expr env row ctx args (ELit l) = Inr l"
| "eval_expr env row ctx args (EParam p) =
     (if unat p < length args then Inr (args ! unat p) else evalE ''missing param'')"
| "eval_expr env row ctx args (ECol col table) = eval_col row ctx col table"
| "eval_expr env row ctx args (EOp op a b vargs lst lo hi) =
     eval_op env op (map_option (eval_expr env row ctx args) a) (map_option (eval_expr env row ctx args) b)
       (map_option (map (eval_expr env row ctx args)) vargs) (map_option (map (eval_expr env row ctx args)) lst)
       (map_option (eval_expr env row ctx args) lo) (map_option (eval_expr env row ctx args) hi)"
| "eval_expr env row ctx args (ECast e ty) =
     bindE (eval_expr env row ctx args e) (\<lambda>v. ev_cast env v ty)"
| "eval_expr env row ctx args (ECase whens other) =
     eval_case (map (\<lambda>(c, t). (eval_expr env row ctx args c, eval_expr env row ctx args t)) whens)
       (map_option (eval_expr env row ctx args) other)"
| "eval_expr env row ctx args (EFunc name fargs dist) =
     ev_func env name (map (eval_expr env row ctx args) fargs)"
| "eval_expr env row ctx args (ESubquery q) = evalE ''expression form not implemented''"
| "eval_expr env row ctx args (EExists q neg) = evalE ''expression form not implemented''"

definition eval_predicate_truth ::
    "eval_env \<Rightarrow> expr \<Rightarrow> row_object \<Rightarrow> row_ctx option \<Rightarrow> lit list \<Rightarrow> engine_error + bool option" where
  "eval_predicate_truth env e row ctx args = bindE (eval_expr env row ctx args e) (\<lambda>v. Inr (lit_truth v))"

definition eval_predicate ::
    "eval_env \<Rightarrow> expr \<Rightarrow> row_object \<Rightarrow> row_ctx option \<Rightarrow> lit list \<Rightarrow> engine_error + bool" where
  "eval_predicate env e row ctx args =
     bindE (eval_predicate_truth env e row ctx args) (\<lambda>t. Inr (t = Some True))"

definition eval_const_expr :: "eval_env \<Rightarrow> expr \<Rightarrow> lit_result" where
  "eval_const_expr env e = eval_expr env [] None [] e"

end
