(* ===== verification/Query_Rows.thy ===== *)
theory Query_Rows
  imports Query_Expr Engine_Index "HOL-Library.Multiset"
begin

text \<open>
  The pieces of the SELECT executor (\<open>engine.rs\<close>) below the scan loops: visibility of a row, row
  contexts, ORDER BY, DISTINCT, LIMIT, the columns a query needs, and the rewriting of a GROUP BY
  without aggregates into DISTINCT with a filter.
\<close>

section \<open>Rows in a query\<close>

definition row_visible_at :: "row_entry \<Rightarrow> u64 option \<Rightarrow> bool" where
  "row_visible_at entry as_of_ms =
     (case as_of_ms of
        None \<Rightarrow> \<not> re_deleted entry
      | Some ts \<Rightarrow>
          if re_commit_ts_ms entry = 0 then \<not> re_deleted entry
          else if re_deleted entry then ts < re_commit_ts_ms entry
          else re_commit_ts_ms entry \<le> ts)"

definition eq_ignore_ascii_case :: "string \<Rightarrow> string \<Rightarrow> bool" where
  "eq_ignore_ascii_case s t \<longleftrightarrow> to_ascii_lowercase s = to_ascii_lowercase t"

definition schema_row_value :: "codecs \<Rightarrow> table_schema \<Rightarrow> row_object \<Rightarrow> string \<Rightarrow> lit option" where
  "schema_row_value cd schema row column =
     (case find (\<lambda>c. eq_ignore_ascii_case (cs_name c) column) (ts_columns schema) of
        None \<Rightarrow> None
      | Some c \<Rightarrow>
          Some (case map_of row (cs_name c) of
                  Some v \<Rightarrow> v
                | None \<Rightarrow> (case mysql_compat_column_default cd schema (cs_name c) of Some d \<Rightarrow> d | None \<Rightarrow> LNull)))"

definition canonical_schema_column_name :: "table_schema \<Rightarrow> string \<Rightarrow> string option" where
  "canonical_schema_column_name schema column =
     map_option cs_name (find (\<lambda>c. eq_ignore_ascii_case (cs_name c) column) (ts_columns schema))"

definition ctx_key :: "string \<Rightarrow> string \<Rightarrow> string" where
  "ctx_key alias column = alias @ ''.'' @ column"

fun table_row_ctx_from_row :: "codecs \<Rightarrow> string \<Rightarrow> table_schema \<Rightarrow> row_object \<Rightarrow> column_schema list \<Rightarrow> row_ctx \<Rightarrow> row_ctx" where
  "table_row_ctx_from_row cd alias schema row [] ctx = ctx"
| "table_row_ctx_from_row cd alias schema row (c # cs) ctx =
     table_row_ctx_from_row cd alias schema row cs
       (bt_insert (ctx_key alias (cs_name c))
          (case schema_row_value cd schema row (cs_name c) of Some v \<Rightarrow> v | None \<Rightarrow> LNull) ctx)"

text \<open>A column that the schema does not have is left out of the context.\<close>

fun table_row_ctx_from_row_columns :: "codecs \<Rightarrow> string \<Rightarrow> table_schema \<Rightarrow> row_object \<Rightarrow> string list \<Rightarrow> row_ctx \<Rightarrow> row_ctx" where
  "table_row_ctx_from_row_columns cd alias schema row [] ctx = ctx"
| "table_row_ctx_from_row_columns cd alias schema row (column # columns) ctx =
     table_row_ctx_from_row_columns cd alias schema row columns
       (case schema_row_value cd schema row column of
          None \<Rightarrow> ctx
        | Some v \<Rightarrow> bt_insert (ctx_key alias column) v ctx)"

definition build_table_row_ctx :: "codecs \<Rightarrow> string \<Rightarrow> table_schema \<Rightarrow> row_object \<Rightarrow> string list option \<Rightarrow> row_ctx" where
  "build_table_row_ctx cd alias schema row columns =
     (case columns of
        Some cols \<Rightarrow> table_row_ctx_from_row_columns cd alias schema row cols []
      | None \<Rightarrow> table_row_ctx_from_row cd alias schema row (ts_columns schema) [])"

section \<open>ORDER BY\<close>

text \<open>Evaluation of a list of expressions, in order, stopping at the first error.\<close>

fun eval_exprs :: "eval_env \<Rightarrow> row_ctx \<Rightarrow> lit list \<Rightarrow> expr list \<Rightarrow> engine_error + lit list" where
  "eval_exprs env ctx args [] = Inr []"
| "eval_exprs env ctx args (e # es) =
     bindE (eval_expr env [] (Some ctx) args e) (\<lambda>v. bindE (eval_exprs env ctx args es) (\<lambda>vs. Inr (v # vs)))"

definition eval_order_keys :: "eval_env \<Rightarrow> order_by list \<Rightarrow> row_ctx \<Rightarrow> lit list \<Rightarrow> engine_error + lit list" where
  "eval_order_keys env order ctx args = eval_exprs env ctx args (map fst order)"

definition lit_at :: "lit list \<Rightarrow> nat \<Rightarrow> lit" where
  "lit_at xs i = (if i < length xs then xs ! i else LNull)"

fun compare_order_from :: "eval_env \<Rightarrow> nat \<Rightarrow> order_by list \<Rightarrow> lit list \<Rightarrow> lit list \<Rightarrow> cmp_ordering" where
  "compare_order_from env i [] a b = OEqual"
| "compare_order_from env i ((e, dir) # order) a b =
     (let ord = cmp_lit env (lit_at a i) (lit_at b i);
          ord = (case dir of Some Desc \<Rightarrow> reverse_ord ord | _ \<Rightarrow> ord)
      in if ord \<noteq> OEqual then ord else compare_order_from env (Suc i) order a b)"

definition compare_order :: "eval_env \<Rightarrow> order_by list \<Rightarrow> lit list \<Rightarrow> lit list \<Rightarrow> cmp_ordering" where
  "compare_order env order a b = compare_order_from env 0 order a b"

text \<open>
  \<open>slice::sort_by\<close>: a stable sort, if the comparison is a total order on the elements. If it is
  not, the order of the result is unspecified and the sort may panic; this outcome is
  \<open>EngPanic\<close>.
\<close>

definition total_on :: "('a \<Rightarrow> 'a \<Rightarrow> cmp_ordering) \<Rightarrow> 'a list \<Rightarrow> bool" where
  "total_on cmp xs \<longleftrightarrow>
     (\<forall>a \<in> set xs. \<forall>b \<in> set xs. cmp b a = reverse_ord (cmp a b)) \<and>
     (\<forall>a \<in> set xs. \<forall>b \<in> set xs. \<forall>c \<in> set xs.
        cmp a b \<noteq> OGreater \<longrightarrow> cmp b c \<noteq> OGreater \<longrightarrow> cmp a c \<noteq> OGreater)"

fun insert_by :: "('a \<Rightarrow> 'a \<Rightarrow> cmp_ordering) \<Rightarrow> 'a \<Rightarrow> 'a list \<Rightarrow> 'a list" where
  "insert_by cmp x [] = [x]"
| "insert_by cmp x (y # ys) = (if cmp x y = OGreater then y # insert_by cmp x ys else x # y # ys)"

definition stable_sort_by :: "('a \<Rightarrow> 'a \<Rightarrow> cmp_ordering) \<Rightarrow> 'a list \<Rightarrow> 'a list" where
  "stable_sort_by cmp xs = foldr (insert_by cmp) xs []"

definition sort_by :: "('a \<Rightarrow> 'a \<Rightarrow> cmp_ordering) \<Rightarrow> 'a list \<Rightarrow> engine_error + 'a list" where
  "sort_by cmp xs = (if total_on cmp xs then Inr (stable_sort_by cmp xs) else Inl EngPanic)"

section \<open>DISTINCT and LIMIT\<close>

fun dedup_select_rows :: "codecs \<Rightarrow> string list \<Rightarrow> lit list list \<Rightarrow> lit list list" where
  "dedup_select_rows cd seen [] = []"
| "dedup_select_rows cd seen (row # rows) =
     (let key = cd_lits_json cd row in
      if key \<in> set seen then dedup_select_rows cd seen rows
      else row # dedup_select_rows cd (key # seen) rows)"

text \<open>
  The addition of offset and limit is on \<open>usize\<close> and wraps in the release build; a slice whose end
  lies before its start panics.
\<close>

definition apply_limit :: "limit_clause option \<Rightarrow> 'a list \<Rightarrow> engine_error + 'a list" where
  "apply_limit limit rows =
     (case limit of
        None \<Rightarrow> Inr rows
      | Some lc \<Rightarrow>
          let off = (case lc_offset lc of Some n \<Rightarrow> unat n | None \<Rightarrow> 0);
              lim = (case lc_limit lc of Some n \<Rightarrow> unat n | None \<Rightarrow> length rows);
              end_pos = min ((off + lim) mod 2 ^ 64) (length rows)
          in if length rows \<le> off then Inr []
             else if end_pos < off then Inl EngPanic
             else Inr (drop off (take end_pos rows)))"

section \<open>The columns of a query\<close>

type_synonym col_ref = "string option \<times> string"

text \<open>\<open>collect_expr_cols\<close>: the column references, and whether there is a subquery.\<close>

fun collect_expr_cols :: "expr \<Rightarrow> col_ref list \<times> bool" where
  "collect_expr_cols (ECol col table) = ([(table, col)], False)"
| "collect_expr_cols (ELit l) = ([], False)"
| "collect_expr_cols (EParam p) = ([], False)"
| "collect_expr_cols (EOp op a b vargs lst lo hi) =
     (let opt = (\<lambda>x. case x of None \<Rightarrow> [] | Some r \<Rightarrow> [r]); many = (\<lambda>x. case x of None \<Rightarrow> [] | Some rs \<Rightarrow> rs);
          rs = opt (map_option collect_expr_cols a) @ opt (map_option collect_expr_cols b) @
               many (map_option (map collect_expr_cols) vargs) @ many (map_option (map collect_expr_cols) lst) @
               opt (map_option collect_expr_cols lo) @ opt (map_option collect_expr_cols hi)
      in (concat (map fst rs), list_ex snd rs))"
| "collect_expr_cols (EFunc name fargs dist) =
     (let rs = map collect_expr_cols fargs in (concat (map fst rs), list_ex snd rs))"
| "collect_expr_cols (ECast e ty) = collect_expr_cols e"
| "collect_expr_cols (ECase whens other) =
     (let rs = concat (map (\<lambda>(c, t). [collect_expr_cols c, collect_expr_cols t]) whens) @
               (case map_option collect_expr_cols other of None \<Rightarrow> [] | Some r \<Rightarrow> [r])
      in (concat (map fst rs), list_ex snd rs))"
| "collect_expr_cols (ESubquery q) = ([], True)"
| "collect_expr_cols (EExists q neg) = ([], True)"

text \<open>The loop over the references, with the \<open>seen\<close> set; the result is sorted.\<close>

fun gather_cols :: "string \<Rightarrow> col_ref list \<Rightarrow> string list \<Rightarrow> string list option" where
  "gather_cols alias [] cols = Some (sort cols)"
| "gather_cols alias ((table, col) # refs) cols =
     (if table \<noteq> None \<and> table \<noteq> Some alias then None
      else gather_cols alias refs (if col \<in> set cols then cols else cols @ [col]))"

definition collect_single_table_expr_columns :: "string \<Rightarrow> expr list \<Rightarrow> string list option" where
  "collect_single_table_expr_columns alias exprs =
     (let rs = map collect_expr_cols exprs in
      if list_ex snd rs then None else gather_cols alias (concat (map fst rs)) [])"

definition collect_single_table_query_columns ::
    "string \<Rightarrow> select_item list \<Rightarrow> expr option \<Rightarrow> order_by list \<Rightarrow> string list option" where
  "collect_single_table_query_columns alias projection predicate order =
     collect_single_table_expr_columns alias
       (map fst projection @ (case predicate of None \<Rightarrow> [] | Some p \<Rightarrow> [p]) @ map fst order)"

definition collect_single_table_projection_order_columns ::
    "string \<Rightarrow> select_item list \<Rightarrow> order_by list \<Rightarrow> string list option" where
  "collect_single_table_projection_order_columns alias projection order =
     collect_single_table_expr_columns alias (map fst projection @ map fst order)"

section \<open>Sorting by a comparison\<close>

locale comparator_on =
  fixes cmp :: "'a \<Rightarrow> 'a \<Rightarrow> cmp_ordering" and A :: "'a set"
  assumes rev: "a \<in> A \<Longrightarrow> b \<in> A \<Longrightarrow> cmp b a = reverse_ord (cmp a b)"
    and le_trans: "a \<in> A \<Longrightarrow> b \<in> A \<Longrightarrow> c \<in> A \<Longrightarrow> cmp a b \<noteq> OGreater \<Longrightarrow> cmp b c \<noteq> OGreater \<Longrightarrow> cmp a c \<noteq> OGreater"
begin

lemma refl: "a \<in> A \<Longrightarrow> cmp a a = OEqual"
  using rev [of a a] by (cases "cmp a a") auto

lemma greaterD: "a \<in> A \<Longrightarrow> b \<in> A \<Longrightarrow> cmp a b = OGreater \<Longrightarrow> cmp b a = OLess"
  using rev [of a b] by simp

lemma total_on: "set xs \<subseteq> A \<Longrightarrow> total_on cmp xs"
proof -
  assume A: "set xs \<subseteq> A"
  have "cmp b a = reverse_ord (cmp a b)" if "a \<in> set xs" "b \<in> set xs" for a b
    using rev [of a b] A that by blast
  moreover have "cmp a c \<noteq> OGreater"
    if "a \<in> set xs" "b \<in> set xs" "c \<in> set xs" "cmp a b \<noteq> OGreater" "cmp b c \<noteq> OGreater" for a b c
    using le_trans [of a b c] A that by blast
  ultimately show ?thesis unfolding total_on_def by blast
qed

lemma mset_insert: "mset (insert_by cmp x ys) = add_mset x (mset ys)"
  by (induction ys) auto

lemma set_insert: "set (insert_by cmp x ys) = insert x (set ys)"
  by (metis mset_insert set_mset_add_mset_insert set_mset_mset)

lemma mset_sort: "mset (stable_sort_by cmp xs) = mset xs"
  by (induction xs) (auto simp: stable_sort_by_def mset_insert)

lemma set_sort [simp]: "set (stable_sort_by cmp xs) = set xs"
  by (metis mset_sort set_mset_mset)

lemma sorted_insert:
  "x \<in> A \<Longrightarrow> set ys \<subseteq> A \<Longrightarrow> sorted_wrt (\<lambda>a b. cmp a b \<noteq> OGreater) ys
   \<Longrightarrow> sorted_wrt (\<lambda>a b. cmp a b \<noteq> OGreater) (insert_by cmp x ys)"
proof (induction ys)
  case (Cons y ys)
  show ?case
  proof (cases "cmp x y = OGreater")
    case True
    then have "cmp y x \<noteq> OGreater" using greaterD [of x y] Cons.prems by simp
    then show ?thesis using True Cons by (auto simp: set_insert)
  next
    case False
    then have "\<forall>z \<in> set ys. cmp x z \<noteq> OGreater"
      using Cons.prems le_trans [of x y] by auto
    then show ?thesis using False Cons.prems by auto
  qed
qed simp

lemma sorted_sort: "set xs \<subseteq> A \<Longrightarrow> sorted_wrt (\<lambda>a b. cmp a b \<noteq> OGreater) (stable_sort_by cmp xs)"
proof (induction xs)
  case (Cons x xs)
  then show ?case using sorted_insert [of x "stable_sort_by cmp xs"] by (simp add: stable_sort_by_def [of _ "_ # _"] flip: stable_sort_by_def)
qed (simp add: stable_sort_by_def)

text \<open>Elements that compare equal to a given one keep their order.\<close>

lemma filter_insert_other: "\<not> P x \<Longrightarrow> filter P (insert_by cmp x ys) = filter P ys"
  by (induction ys) auto

lemma filter_insert_equal:
  "x \<in> A \<Longrightarrow> z \<in> A \<Longrightarrow> set ys \<subseteq> A \<Longrightarrow> cmp z x = OEqual
   \<Longrightarrow> filter (\<lambda>y. cmp z y = OEqual) (insert_by cmp x ys) = x # filter (\<lambda>y. cmp z y = OEqual) ys"
proof (induction ys)
  case (Cons y ys)
  have "cmp z y \<noteq> OEqual" if "cmp x y = OGreater"
  proof
    assume "cmp z y = OEqual"
    moreover have "cmp x z = OEqual" using rev [of z x] Cons.prems by simp
    ultimately show False using le_trans [of x z y] that Cons.prems by simp
  qed
  then show ?case using Cons by auto
qed simp

lemma stable: "set xs \<subseteq> A \<Longrightarrow> z \<in> A \<Longrightarrow>
    filter (\<lambda>y. cmp z y = OEqual) (stable_sort_by cmp xs) = filter (\<lambda>y. cmp z y = OEqual) xs"
proof (induction xs)
  case (Cons x xs)
  then show ?case
    using filter_insert_equal [of x z "stable_sort_by cmp xs"] filter_insert_other [of "\<lambda>y. cmp z y = OEqual" x "stable_sort_by cmp xs"]
    by (simp add: stable_sort_by_def [of _ "_ # _"] flip: stable_sort_by_def)
qed (simp add: stable_sort_by_def)

lemma sort_by_ok: "set xs \<subseteq> A \<Longrightarrow> sort_by cmp xs = Inr (stable_sort_by cmp xs)"
  by (simp add: sort_by_def total_on)

end

section \<open>Comparisons of literals of one kind\<close>

text \<open>
  Integers of either sign, doubles that are numbers, strings, booleans, and the literals that are
  compared by their text. Nulls, decimals (which may or may not parse) and embeddings have no
  class of their own.
\<close>

fun lit_class :: "lit \<Rightarrow> nat option" where
  "lit_class (LI64 v) = Some 0"
| "lit_class (LU64 v) = Some 0"
| "lit_class (LF64 v) = (if f64_is_nan v then None else Some 1)"
| "lit_class (LStr s) = Some 2"
| "lit_class (LBool b) = Some 3"
| "lit_class (LBytes s) = Some 4"
| "lit_class (LJson j) = Some 4"
| "lit_class (LDate s) = Some 4"
| "lit_class (LTime s) = Some 4"
| "lit_class (LDatetime s) = Some 4"
| "lit_class (LUuid s) = Some 4"
| "lit_class _ = None"

lemma str_cmp_rev: "str_cmp ys xs = reverse_ord (str_cmp xs ys)"
  by (induction xs ys rule: str_cmp.induct) auto

lemma str_cmp_trans: "str_cmp xs ys \<noteq> OGreater \<Longrightarrow> str_cmp ys zs \<noteq> OGreater \<Longrightarrow> str_cmp xs zs \<noteq> OGreater"
proof (induction xs ys arbitrary: zs rule: str_cmp.induct)
  case (2 y ys)
  then show ?case by (cases zs) auto
next
  case (4 x xs y ys)
  then show ?case by (cases zs) (auto split: if_splits)
next
  case 1
  then show ?case by (cases zs) auto
qed simp

lemma str_cmp_eq: "str_cmp xs ys = OEqual \<longleftrightarrow> xs = ys"
  by (induction xs ys rule: str_cmp.induct) auto

definition int_key :: "lit \<Rightarrow> int" where
  "int_key l = (case l of LI64 v \<Rightarrow> sint v | LU64 v \<Rightarrow> uint v | LF64 v \<Rightarrow> f64_scaled v | LBool b \<Rightarrow> (if b then 1 else 0) | _ \<Rightarrow> 0)"

lemma cmp_lit_numeric:
  assumes "lit_class a = Some k" "lit_class b = Some k" "k \<in> {0, 1, 3}"
  shows "cmp_lit env a b = int_cmp (int_key a) (int_key b)"
  using assms
  by (cases a; cases b)
    (auto simp: int_key_def f64_cmp_def f64_partial_cmp_def bool_cmp_def int_cmp_def split: if_splits)

definition text_key :: "eval_env \<Rightarrow> lit \<Rightarrow> string" where
  "text_key env l = (case lit_to_string_for_like env l of Some s \<Rightarrow> s | None \<Rightarrow> [])"

lemma cmp_lit_text:
  assumes "lit_class a = Some k" "lit_class b = Some k" "k \<in> {2, 4}"
  shows "cmp_lit env a b = str_cmp (text_key env a) (text_key env b)"
  using assms
  by (cases a; cases b) (auto simp: text_key_def cmp_lit_def cmp_lit_mixed_def split: if_splits)

lemma lit_class_le: "lit_class a = Some k \<Longrightarrow> k \<in> {0, 1, 3} \<or> k \<in> {2, 4}"
  by (cases a) (auto split: if_splits)

interpretation class_cmp: comparator_on "cmp_lit env" "{l. lit_class l = Some k}" for env k
proof
  fix a b assume ab: "a \<in> {l. lit_class l = Some k}" "b \<in> {l. lit_class l = Some k}"
  show "cmp_lit env b a = reverse_ord (cmp_lit env a b)"
    using lit_class_le [of a k] ab by (auto simp: cmp_lit_numeric [of _ k] cmp_lit_text [of _ k] str_cmp_rev [of "text_key env b"])
  fix c assume c: "c \<in> {l. lit_class l = Some k}" and le: "cmp_lit env a b \<noteq> OGreater" "cmp_lit env b c \<noteq> OGreater"
  show "cmp_lit env a c \<noteq> OGreater"
    using lit_class_le [of a k] ab c le str_cmp_trans [of "text_key env a" "text_key env b" "text_key env c"]
    by (auto simp: cmp_lit_numeric [of _ k] cmp_lit_text [of _ k])
qed

section \<open>ORDER BY on typed columns\<close>

lemma comparator_on_reverse: "comparator_on cmp A \<Longrightarrow> comparator_on (\<lambda>a b. reverse_ord (cmp a b)) A"
proof -
  assume c: "comparator_on cmp A"
  have inv: "reverse_ord (reverse_ord o') = o'" for o' by (cases o') auto
  have ng: "reverse_ord o' \<noteq> OGreater \<longleftrightarrow> o' \<noteq> OLess" for o' by (cases o') auto
  show ?thesis
  proof
    fix a b assume ab: "a \<in> A" "b \<in> A"
    show "reverse_ord (cmp b a) = reverse_ord (reverse_ord (cmp a b))"
      using comparator_on.rev [OF c ab] by simp
    fix d assume d: "d \<in> A" "reverse_ord (cmp a b) \<noteq> OGreater" "reverse_ord (cmp b d) \<noteq> OGreater"
    have "cmp d b \<noteq> OGreater" "cmp b a \<noteq> OGreater"
      using d(2,3) unfolding comparator_on.rev [OF c ab] comparator_on.rev [OF c ab(2) d(1)] by simp_all
    then have "cmp d a \<noteq> OGreater" using comparator_on.le_trans [OF c d(1) ab(2,1)] by blast
    then show "reverse_ord (cmp a d) \<noteq> OGreater" using comparator_on.rev [OF c ab(1) d(1)] by simp
  qed
qed

lemma comparator_on_lex:
  assumes c: "comparator_on c1 A" and d: "comparator_on c2 A"
  shows "comparator_on (\<lambda>a b. if c1 a b \<noteq> OEqual then c1 a b else c2 a b) A"
proof
  fix x y assume xy: "x \<in> A" "y \<in> A"
  show "(if c1 y x \<noteq> OEqual then c1 y x else c2 y x) = reverse_ord (if c1 x y \<noteq> OEqual then c1 x y else c2 x y)"
    using comparator_on.rev [OF c xy] comparator_on.rev [OF d xy] by (cases "c1 x y") auto
  fix z assume z: "z \<in> A" "(if c1 x y \<noteq> OEqual then c1 x y else c2 x y) \<noteq> OGreater"
    "(if c1 y z \<noteq> OEqual then c1 y z else c2 y z) \<noteq> OGreater"
  have le: "c1 x y \<noteq> OGreater" "c1 y z \<noteq> OGreater" using z by (auto split: if_splits)
  then have xz: "c1 x z \<noteq> OGreater" using comparator_on.le_trans [OF c xy z(1)] by blast
  show "(if c1 x z \<noteq> OEqual then c1 x z else c2 x z) \<noteq> OGreater"
  proof (cases "c1 x z = OEqual")
    case True
    have zx: "c1 z x = OEqual" using comparator_on.rev [OF c xy(1) z(1)] True by simp
    have "c1 z y \<noteq> OGreater" using comparator_on.le_trans [OF c z(1) xy] zx le by simp
    then have "c1 y z = OEqual" using comparator_on.rev [OF c xy(2) z(1)] le by (cases "c1 y z") auto
    moreover have "c1 y x \<noteq> OGreater" using comparator_on.le_trans [OF c xy(2) z(1) xy(1)] zx le by simp
    then have "c1 x y = OEqual" using comparator_on.rev [OF c xy] le by (cases "c1 x y") auto
    ultimately show ?thesis using True z comparator_on.le_trans [OF d xy z(1)] by simp
  qed (simp add: xz)
qed

lemma comparator_on_vimage: "comparator_on cmp A \<Longrightarrow> (\<And>x. x \<in> B \<Longrightarrow> f x \<in> A) \<Longrightarrow> comparator_on (\<lambda>a b. cmp (f a) (f b)) B"
  unfolding comparator_on_def by meson

text \<open>The key at every position of the ORDER BY is of one class for all rows.\<close>

definition keys_typed :: "nat option list \<Rightarrow> lit list \<Rightarrow> bool" where
  "keys_typed classes keys \<longleftrightarrow> None \<notin> set classes \<and> map lit_class keys = classes"

lemma compare_order_from_comparator:
  "i + length order \<le> length classes \<Longrightarrow>
   comparator_on (compare_order_from env i order) {keys. keys_typed classes keys}"
proof (induction order arbitrary: i)
  case Nil
  show ?case by unfold_locales auto
next
  case (Cons ob order)
  obtain e dir where ob: "ob = (e, dir)" by (cases ob)
  obtain k where k: "i < length classes" "keys_typed classes keys \<Longrightarrow> lit_class (lit_at keys i) = Some k" for keys
  proof -
    have i: "i < length classes" using Cons.prems by simp
    have "lit_class (lit_at keys i) = classes ! i \<and> classes ! i \<noteq> None" if "keys_typed classes keys" for keys
    proof -
      have cl: "classes = map lit_class keys" "None \<notin> set classes" using that by (auto simp: keys_typed_def)
      have "lit_at keys i = keys ! i" using i cl(1) by (simp add: lit_at_def)
      moreover have "classes ! i = lit_class (keys ! i)" using i cl(1) by simp
      moreover have "classes ! i \<noteq> None" using cl(2) nth_mem [OF i] by metis
      ultimately show ?thesis by simp
    qed
    then show ?thesis using i that by (metis option.exhaust)
  qed
  have c: "comparator_on (\<lambda>a b. cmp_lit env (lit_at a i) (lit_at b i)) {keys. keys_typed classes keys}"
    by (rule comparator_on_vimage [OF class_cmp.comparator_on_axioms [of env k]]) (simp add: k)
  have d: "comparator_on (\<lambda>a b. case dir of Some Desc \<Rightarrow> reverse_ord (cmp_lit env (lit_at a i) (lit_at b i))
      | _ \<Rightarrow> cmp_lit env (lit_at a i) (lit_at b i)) {keys. keys_typed classes keys}"
  proof (cases "dir = Some Desc")
    case True
    then show ?thesis using comparator_on_reverse [OF c] by simp
  next
    case False
    then have "dir = None \<or> dir = Some Asc" by (metis option.exhaust order_dir.exhaust)
    then show ?thesis using c by auto
  qed
  have "comparator_on (compare_order_from env (Suc i) order) {keys. keys_typed classes keys}"
    using Cons.prems by (intro Cons.IH) simp
  from comparator_on_lex [OF d this] show ?case
    by (simp add: ob Let_def)
qed

lemma order_by_comparator:
  "length order \<le> length classes \<Longrightarrow>
   comparator_on (\<lambda>a b. compare_order env order (fst a) (fst b)) {x. keys_typed classes (fst x)}"
  by (rule comparator_on_vimage [OF compare_order_from_comparator [of 0 order classes env], folded compare_order_def]) auto

lemma null_key_not_total:
  "\<not> total_on (\<lambda>a b. compare_order env [(ECol ''n'' None, None)] (fst a) (fst b))
       [([LI64 2], r1), ([LNull], r2), ([LI64 1], r3)]" (is "\<not> total_on ?cmp ?xs")
proof
  assume t: "total_on ?cmp ?xs"
  have null: "cmp_lit env (LI64 2) LNull = OEqual" "cmp_lit env LNull (LI64 1) = OEqual"
    by (simp_all add: cmp_lit_def cmp_lit_mixed_def)
  have "?cmp a b \<noteq> OGreater \<longrightarrow> ?cmp b c \<noteq> OGreater \<longrightarrow> ?cmp a c \<noteq> OGreater"
    if "a \<in> set ?xs" "b \<in> set ?xs" "c \<in> set ?xs" for a b c
    using t that unfolding total_on_def by blast
  from this [of "([LI64 2], r1)" "([LNull], r2)" "([LI64 1], r3)"] show False
    by (simp add: compare_order_def lit_at_def null)
qed

text \<open>
  The order of two key values by what they mean: numbers and booleans by their value, all other
  keys by the bytes of their text.
\<close>

definition lit_less :: "eval_env \<Rightarrow> lit \<Rightarrow> lit \<Rightarrow> bool" where
  "lit_less env a b =
     (if lit_class a \<in> {Some 0, Some 1, Some 3} then int_key a < int_key b
      else ord_class.lexordp (text_key env a) (text_key env b))"

text \<open>A row belongs strictly before another: at the first key that differs it is less, or greater if that key descends.\<close>

fun row_before :: "eval_env \<Rightarrow> order_dir option list \<Rightarrow> lit list \<Rightarrow> lit list \<Rightarrow> bool" where
  "row_before env (d # ds) (x # xs) (y # ys) =
     ((if d = Some Desc then lit_less env y x else lit_less env x y) \<or>
      (\<not> lit_less env x y \<and> \<not> lit_less env y x \<and> row_before env ds xs ys))"
| "row_before env _ _ _ = False"

definition row_tied :: "eval_env \<Rightarrow> lit list \<Rightarrow> lit list \<Rightarrow> bool" where
  "row_tied env xs ys \<longleftrightarrow> list_all2 (\<lambda>x y. \<not> lit_less env x y \<and> \<not> lit_less env y x) xs ys"

lemma str_cmp_less: "str_cmp x y = OLess \<longleftrightarrow> ord_class.lexordp x y"
  by (induction x y rule: str_cmp.induct) auto

lemma cmp_lit_less:
  assumes "lit_class a = Some k" "lit_class b = Some k"
  shows "cmp_lit env a b = OLess \<longleftrightarrow> lit_less env a b" "cmp_lit env a b = OGreater \<longleftrightarrow> lit_less env b a"
proof -
  have less: "cmp_lit env a b = OLess \<longleftrightarrow> lit_less env a b" if "lit_class a = Some k" "lit_class b = Some k" for a b
    using lit_class_le [OF that(1)] cmp_lit_numeric [OF that] cmp_lit_text [OF that] that
    by (auto simp: lit_less_def str_cmp_less int_cmp_def)
  then show "cmp_lit env a b = OLess \<longleftrightarrow> lit_less env a b" using assms by blast
  have "cmp_lit env b a = reverse_ord (cmp_lit env a b)" using class_cmp.rev [of a k b env] assms by simp
  then show "cmp_lit env a b = OGreater \<longleftrightarrow> lit_less env b a" using less [OF assms(2,1)] by (cases "cmp_lit env a b") auto
qed


lemma lit_less_asym:
  assumes "lit_class a = Some k" "lit_class b = Some k" "lit_less env a b"
  shows "\<not> lit_less env b a"
  using cmp_lit_less [OF assms(1,2), of env] assms(3) by simp

lemma typed_at: "keys_typed classes keys \<Longrightarrow> i < length keys \<Longrightarrow> \<exists>k. classes ! i = Some k \<and> lit_class (keys ! i) = Some k"
  unfolding keys_typed_def by (metis length_map nth_map nth_mem option.exhaust)

lemma typed_length: "keys_typed classes keys \<Longrightarrow> length keys = length classes"
  by (auto simp: keys_typed_def)

text \<open>The comparison of the code is this order, from every position on.\<close>

lemma compare_order_from_spec:
  assumes "keys_typed classes a" "keys_typed classes b" "i + length order = length classes"
  shows "(compare_order_from env i order a b = OGreater \<longleftrightarrow> row_before env (map snd order) (drop i b) (drop i a)) \<and>
     (compare_order_from env i order a b = OEqual \<longleftrightarrow> row_tied env (drop i a) (drop i b))"
  using assms(3)
proof (induction order arbitrary: i)
  case Nil
  then show ?case using typed_length [OF assms(1)] typed_length [OF assms(2)] by (simp add: row_tied_def)
next
  case (Cons ob order)
  obtain e dir where ob: "ob = (e, dir)" by (cases ob)
  have len: "i < length a" "i < length b" using Cons.prems typed_length [OF assms(1)] typed_length [OF assms(2)] by simp_all
  then have at: "lit_at a i = a ! i" "lit_at b i = b ! i" by (simp_all add: lit_at_def)
  have dropped: "drop i a = a ! i # drop (Suc i) a" "drop i b = b ! i # drop (Suc i) b" using len by (simp_all add: Cons_nth_drop_Suc)
  obtain k where k: "lit_class (a ! i) = Some k" "lit_class (b ! i) = Some k"
    using typed_at [OF assms(1) len(1)] typed_at [OF assms(2) len(2)] by auto
  note less = cmp_lit_less [OF k, of env] and asym = lit_less_asym [OF k, of env]
  have eq: "cmp_lit env (a ! i) (b ! i) = OEqual \<longleftrightarrow> \<not> lit_less env (a ! i) (b ! i) \<and> \<not> lit_less env (b ! i) (a ! i)"
    using less by (cases "cmp_lit env (a ! i) (b ! i)") auto
  have IH: "compare_order_from env (Suc i) order a b = OGreater \<longleftrightarrow> row_before env (map snd order) (drop (Suc i) b) (drop (Suc i) a)"
    "compare_order_from env (Suc i) order a b = OEqual \<longleftrightarrow> row_tied env (drop (Suc i) a) (drop (Suc i) b)"
    using Cons.IH [of "Suc i"] Cons.prems by simp_all
  show ?case
    using less eq IH asym
    by (cases "cmp_lit env (a ! i) (b ! i)"; cases "dir = Some Desc")
      (auto simp: ob Let_def at dropped row_tied_def split: option.splits order_dir.splits)
qed

lemma compare_order_spec:
  assumes "keys_typed classes a" "keys_typed classes b" "length order = length classes"
  shows "compare_order env order a b = OGreater \<longleftrightarrow> row_before env (map snd order) b a"
    and "compare_order env order a b = OEqual \<longleftrightarrow> row_tied env a b"
  using compare_order_from_spec [OF assms(1,2), of 0 order env] assms(3) by (simp_all add: compare_order_def)

text \<open>
  (C20) ORDER BY sorts: if at every position all rows have keys of one kind (integers of either
  signedness, floats other than NaN, strings, booleans, or values compared by their text: bytes,
  JSON, dates, times, UUIDs), the result is a permutation of the rows in which no row belongs
  strictly before an earlier one, the keys ascending or descending as asked, and rows whose keys
  all tie keep their order. (Nulls, decimals and embeddings are of no kind.)
\<close>

theorem order_by_sorts:
  assumes "\<forall>x \<in> set items. keys_typed classes (fst x)" and "length order = length classes"
  shows "\<exists>out. sort_by (\<lambda>a b. compare_order env order (fst a) (fst b)) items = Inr out \<and>
     mset out = mset items \<and>
     sorted_wrt (\<lambda>a b. \<not> row_before env (map snd order) (fst b) (fst a)) out \<and>
     (\<forall>z \<in> set items. filter (\<lambda>y. row_tied env (fst z) (fst y)) out = filter (\<lambda>y. row_tied env (fst z) (fst y)) items)"
proof -
  let ?cmp = "\<lambda>a b. compare_order env order (fst a) (fst b)"
  let ?out = "stable_sort_by ?cmp items"
  have c: "comparator_on ?cmp {x. keys_typed classes (fst x)}" using assms(2) by (intro order_by_comparator) simp
  have A: "set items \<subseteq> {x. keys_typed classes (fst x)}" using assms(1) by blast
  have "sort_by ?cmp items = Inr ?out" by (rule comparator_on.sort_by_ok [OF c A])
  moreover have perm: "mset ?out = mset items" by (rule comparator_on.mset_sort [OF c])
  moreover have set: "set ?out = set items" using perm by (metis set_mset_mset)
  moreover have "sorted_wrt (\<lambda>a b. ?cmp a b \<noteq> OGreater) ?out" by (rule comparator_on.sorted_sort [OF c A])
  then have "sorted_wrt (\<lambda>a b. \<not> row_before env (map snd order) (fst b) (fst a)) ?out"
    by (rule sorted_wrt_mono_rel [rotated]) (use A set compare_order_spec(1) [OF _ _ assms(2)] in blast)
  moreover have "filter (\<lambda>y. row_tied env (fst z) (fst y)) ?out = filter (\<lambda>y. row_tied env (fst z) (fst y)) items"
    if z: "z \<in> set items" for z
  proof -
    have tied: "?cmp z y = OEqual \<longleftrightarrow> row_tied env (fst z) (fst y)" if "y \<in> set items" for y
      using A z that by (intro compare_order_spec(2) [OF _ _ assms(2)]) auto
    have "filter (\<lambda>y. ?cmp z y = OEqual) ?out = filter (\<lambda>y. ?cmp z y = OEqual) items"
      using A z by (intro comparator_on.stable [OF c A]) blast
    moreover have "filter (\<lambda>y. ?cmp z y = OEqual) ys = filter (\<lambda>y. row_tied env (fst z) (fst y)) ys" if "set ys = set items" for ys
      using tied that by (intro filter_cong) auto
    ultimately show ?thesis using set by metis
  qed
  ultimately show ?thesis by blast
qed

theorem order_by_sorts_witness:
  "\<forall>env. \<exists>out. sort_by (\<lambda>a b. compare_order env [(ECol ''n'' None, Some Desc)] (fst a) (fst b))
      [([LI64 1], ''x''), ([LU64 3], ''y''), ([LI64 2], ''z'')] = Inr out \<and>
    mset out = {#([LI64 1], ''x''), ([LU64 3], ''y''), ([LI64 2], ''z'')#} \<and>
    sorted_wrt (\<lambda>a b. \<not> row_before env [Some Desc] (fst b) (fst a)) out"
proof
  fix env :: eval_env
  let ?items = "[([LI64 1], ''x''), ([LU64 3], ''y''), ([LI64 2], ''z'')]"
  have "\<forall>x \<in> set ?items. keys_typed [Some 0] (fst x)" by (simp add: keys_typed_def)
  from order_by_sorts [OF this, of "[(ECol ''n'' None, Some Desc)]" env]
  show "\<exists>out. sort_by (\<lambda>a b. compare_order env [(ECol ''n'' None, Some Desc)] (fst a) (fst b)) ?items = Inr out \<and>
      mset out = {#([LI64 1], ''x''), ([LU64 3], ''y''), ([LI64 2], ''z'')#} \<and>
      sorted_wrt (\<lambda>a b. \<not> row_before env [Some Desc] (fst b) (fst a)) out"
    by auto
qed

section \<open>LIMIT\<close>

text \<open>
  (C34) LIMIT and OFFSET cut the window they say out of the rows, except when offset and limit add
  up to more than a machine word and the offset lies inside the rows: then the wrapped end lies
  before the start and the statement panics. So \<open>LIMIT 18446744073709551615 OFFSET 1\<close>, the usual
  way to ask for all rows behind the first, panics as soon as there are two rows.
\<close>

theorem limit_window:
  assumes "length rows < 2 ^ 64"
  shows "apply_limit (Some lc) rows =
     (let off = (case lc_offset lc of Some n \<Rightarrow> unat n | None \<Rightarrow> 0);
          lim = (case lc_limit lc of Some n \<Rightarrow> unat n | None \<Rightarrow> length rows)
      in if 2 ^ 64 \<le> off + lim \<and> off < length rows then Inl EngPanic else Inr (take lim (drop off rows)))"
proof -
  define off where "off = (case lc_offset lc of Some n \<Rightarrow> unat n | None \<Rightarrow> 0)"
  define lim where "lim = (case lc_limit lc of Some n \<Rightarrow> unat n | None \<Rightarrow> length rows)"
  have "off < 2 ^ 64" "lim < 2 ^ 64"
    using assms unat_lt_u64 by (auto simp: off_def lim_def split: option.splits)
  then have wrap: "(off + lim) mod 2 ^ 64 = (if off + lim < 2 ^ 64 then off + lim else off + lim - 2 ^ 64)"
    by (simp add: mod_if)
  have "(if length rows \<le> off then Inr [] else if min ((off + lim) mod 2 ^ 64) (length rows) < off then Inl EngPanic
      else Inr (drop off (take (min ((off + lim) mod 2 ^ 64) (length rows)) rows))) =
     (if 2 ^ 64 \<le> off + lim \<and> off < length rows then Inl EngPanic else Inr (take lim (drop off rows)))"
    using \<open>lim < 2 ^ 64\<close> unfolding wrap by (auto simp: drop_take min_def not_less)
  then show ?thesis by (simp only: apply_limit_def Let_def off_def lim_def option.case)
qed

theorem limit_window_witness:
  "apply_limit (Some \<lparr>lc_limit = Some (- 1), lc_offset = Some 1\<rparr>) [7, 8 :: nat] = Inl EngPanic \<and>
   apply_limit (Some \<lparr>lc_limit = Some (- 1), lc_offset = Some 1\<rparr>) [7 :: nat] = Inr []"
proof -
  have "unat (- 1 :: u64) = 2 ^ 64 - 1" by (simp add: unsigned_minus_1_eq_mask mask_eq_exp_minus_1)
  then show ?thesis
    using limit_window [of "[7, 8 :: nat]" "\<lparr>lc_limit = Some (- 1), lc_offset = Some 1\<rparr>"]
      limit_window [of "[7 :: nat]" "\<lparr>lc_limit = Some (- 1), lc_offset = Some 1\<rparr>"] by (simp add: Let_def)
qed

end
