(* ===== verification/Query_Plan.thy ===== *)
theory Query_Plan
  imports Query_Rows
begin

text \<open>
  Access paths of the SELECT executor: predicates on interned columns compiled to comparisons of
  value ids, and candidate rows from a secondary index for the equality conditions of a
  predicate.
\<close>

section \<open>Interned predicates\<close>

type_synonym value_id = bytes

text \<open>
  The ids of interned values: a BLAKE3 hash of the JSON of a literal, and of the encoding of an
  embedding with its bucket.
\<close>

record intern_env =
  ie_value_id :: "lit \<Rightarrow> value_id"
  ie_embedding_id :: "u32 \<Rightarrow> u32 list \<Rightarrow> string option \<Rightarrow> value_id option"

definition interned_value_id :: "intern_env \<Rightarrow> lit \<Rightarrow> value_id option" where
  "interned_value_id ie l =
     (case l of
        LStr _ \<Rightarrow> Some (ie_value_id ie l)
      | LJson _ \<Rightarrow> Some (ie_value_id ie l)
      | LBytes _ \<Rightarrow> Some (ie_value_id ie l)
      | LUuid _ \<Rightarrow> Some (ie_value_id ie l)
      | LEmbedding dims v model \<Rightarrow> ie_embedding_id ie dims v model
      | _ \<Rightarrow> None)"

datatype interned_predicate_plan =
    PConstant "bool option"
  | PEq string value_id bool
  | PIn string "value_id list" bool
  | PAnd "interned_predicate_plan list"
  | POr "interned_predicate_plan list"
  | PNot interned_predicate_plan

definition expr_const_value :: "expr \<Rightarrow> lit list \<Rightarrow> lit option" where
  "expr_const_value e args =
     (case e of
        ELit l \<Rightarrow> Some l
      | EParam p \<Rightarrow> if unat p < length args then Some (args ! unat p) else None
      | _ \<Rightarrow> None)"

definition predicate_constant_truth :: "expr \<Rightarrow> lit list \<Rightarrow> bool option option" where
  "predicate_constant_truth e args =
     (case expr_const_value e args of
        Some (LBool v) \<Rightarrow> Some (Some v)
      | Some LNull \<Rightarrow> Some None
      | _ \<Rightarrow> None)"

definition resolve_interned_column_ref ::
    "table_schema \<Rightarrow> string list \<Rightarrow> string list \<Rightarrow> expr \<Rightarrow> string option" where
  "resolve_interned_column_ref schema interned accepted_aliases e =
     (case e of
        ECol col table \<Rightarrow>
          (if (case table of
                 None \<Rightarrow> False
               | Some t \<Rightarrow> accepted_aliases = [] \<or> \<not> list_ex (\<lambda>a. eq_ignore_ascii_case t a) accepted_aliases)
           then None
           else case canonical_schema_column_name schema col of
             None \<Rightarrow> None
           | Some canonical \<Rightarrow> if canonical \<in> set interned then Some canonical else None)
      | _ \<Rightarrow> None)"

text \<open>The value ids of an IN list; the flag is \<open>saw_null\<close>.\<close>

fun in_value_ids :: "intern_env \<Rightarrow> lit list \<Rightarrow> expr list \<Rightarrow> (value_id list \<times> bool) option" where
  "in_value_ids ie args [] = Some ([], False)"
| "in_value_ids ie args (item # items) =
     (case expr_const_value item args of
        None \<Rightarrow> None
      | Some LNull \<Rightarrow> map_option (\<lambda>(ids, n). (ids, True)) (in_value_ids ie args items)
      | Some v \<Rightarrow>
          (case interned_value_id ie v of
             None \<Rightarrow> None
           | Some vid \<Rightarrow> map_option (\<lambda>(ids, n). (vid # ids, n)) (in_value_ids ie args items)))"

fun all_some :: "'a option list \<Rightarrow> 'a list option" where
  "all_some [] = Some []"
| "all_some (x # xs) = (case x of None \<Rightarrow> None | Some y \<Rightarrow> map_option ((#) y) (all_some xs))"

definition compile_eq ::
    "intern_env \<Rightarrow> table_schema \<Rightarrow> string list \<Rightarrow> string list \<Rightarrow> lit list \<Rightarrow> bool \<Rightarrow> expr option \<Rightarrow> expr option
       \<Rightarrow> interned_predicate_plan option" where
  "compile_eq ie schema interned aliases args negated a b =
     (let col = (\<lambda>e. Option.bind e (resolve_interned_column_ref schema interned aliases));
          plan = (\<lambda>column value_expr.
            case Option.bind value_expr (\<lambda>e. expr_const_value e args) of
              None \<Rightarrow> None
            | Some LNull \<Rightarrow> Some (PConstant None)
            | Some v \<Rightarrow> map_option (\<lambda>vid. PEq column vid negated) (interned_value_id ie v))
      in case (col a, col b) of
           (Some column, None) \<Rightarrow> plan column b
         | (None, Some column) \<Rightarrow> plan column a
         | _ \<Rightarrow> None)"

definition compile_in ::
    "intern_env \<Rightarrow> table_schema \<Rightarrow> string list \<Rightarrow> string list \<Rightarrow> lit list \<Rightarrow> expr option \<Rightarrow> expr list option
       \<Rightarrow> interned_predicate_plan option" where
  "compile_in ie schema interned aliases args a lst =
     (case (Option.bind a (resolve_interned_column_ref schema interned aliases), lst) of
        (Some column, Some items) \<Rightarrow> map_option (\<lambda>(ids, n). PIn column ids n) (in_value_ids ie args items)
      | _ \<Rightarrow> None)"

text \<open>
  \<open>interned\<close> lists the interned columns of the table, \<open>engine.schema_flags\<close> at its key.
\<close>

fun compile_interned_predicate_expr ::
    "intern_env \<Rightarrow> table_schema \<Rightarrow> string list \<Rightarrow> string list \<Rightarrow> lit list \<Rightarrow> expr \<Rightarrow> interned_predicate_plan option" where
  "compile_interned_predicate_expr ie schema interned aliases args (EOp op a b vargs lst lo hi) =
     (let items = variadic (map_option (compile_interned_predicate_expr ie schema interned aliases args) a)
                    (map_option (compile_interned_predicate_expr ie schema interned aliases args) b)
                    (map_option (map (compile_interned_predicate_expr ie schema interned aliases args)) vargs)
      in if op = ''and'' then (if items = [] then None else map_option PAnd (all_some items))
         else if op = ''or'' then (if items = [] then None else map_option POr (all_some items))
         else if op = ''not'' then
           Option.bind (map_option (compile_interned_predicate_expr ie schema interned aliases args) a) (map_option PNot)
         else if op \<in> {''eq'', ''ne''} then compile_eq ie schema interned aliases args (op = ''ne'') a b
         else if op = ''in'' then compile_in ie schema interned aliases args a lst
         else None)"
| "compile_interned_predicate_expr ie schema interned aliases args e =
     map_option PConstant (predicate_constant_truth e args)"

definition compile_interned_predicate_for_table ::
    "intern_env \<Rightarrow> table_schema \<Rightarrow> string list option \<Rightarrow> expr \<Rightarrow> lit list \<Rightarrow> interned_predicate_plan option" where
  "compile_interned_predicate_for_table ie schema flags predicate args =
     (case flags of
        None \<Rightarrow> None
      | Some interned \<Rightarrow> compile_interned_predicate_expr ie schema interned [] args predicate)"

definition base_alias :: "base_table_ref \<Rightarrow> string" where
  "base_alias base = (case bt_as base of Some a \<Rightarrow> a | None \<Rightarrow> bt_table base)"

definition compile_interned_predicate_for_base ::
    "intern_env \<Rightarrow> table_schema \<Rightarrow> string list option \<Rightarrow> base_table_ref \<Rightarrow> expr option \<Rightarrow> lit list
       \<Rightarrow> interned_predicate_plan option" where
  "compile_interned_predicate_for_base ie schema flags base predicate args =
     (case (predicate, flags) of
        (Some p, Some interned) \<Rightarrow>
          compile_interned_predicate_expr ie schema interned
            (base_alias base # (if eq_ignore_ascii_case (bt_table base) (base_alias base) then [] else [bt_table base]))
            args p
      | _ \<Rightarrow> None)"

text \<open>The result \<open>None\<close> stands for \<open>Err(())\<close>, the fallback to evaluation.\<close>

fun plan_and :: "bool option option list \<Rightarrow> bool \<Rightarrow> bool \<Rightarrow> bool option option" where
  "plan_and [] saw_null needs_fallback =
     (if needs_fallback then None else if saw_null then Some None else Some (Some True))"
| "plan_and (x # xs) saw_null needs_fallback =
     (case x of
        Some (Some True) \<Rightarrow> plan_and xs saw_null needs_fallback
      | Some (Some False) \<Rightarrow> Some (Some False)
      | Some None \<Rightarrow> plan_and xs True needs_fallback
      | None \<Rightarrow> plan_and xs saw_null True)"

fun plan_or :: "bool option option list \<Rightarrow> bool \<Rightarrow> bool \<Rightarrow> bool option option" where
  "plan_or [] saw_null needs_fallback =
     (if needs_fallback then None else if saw_null then Some None else Some (Some False))"
| "plan_or (x # xs) saw_null needs_fallback =
     (case x of
        Some (Some True) \<Rightarrow> Some (Some True)
      | Some (Some False) \<Rightarrow> plan_or xs saw_null needs_fallback
      | Some None \<Rightarrow> plan_or xs True needs_fallback
      | None \<Rightarrow> plan_or xs saw_null True)"

fun eval_compiled_interned_predicate ::
    "intern_env \<Rightarrow> (string \<Rightarrow> lit option) \<Rightarrow> interned_predicate_plan \<Rightarrow> bool option option" where
  "eval_compiled_interned_predicate ie lookup (PConstant v) = Some v"
| "eval_compiled_interned_predicate ie lookup (PEq column vid negated) =
     (case lookup column of
        None \<Rightarrow> None
      | Some value \<Rightarrow>
          if value = LNull then Some None
          else map_option (\<lambda>row_id. Some ((row_id = vid) \<noteq> negated)) (interned_value_id ie value))"
| "eval_compiled_interned_predicate ie lookup (PIn column vids saw_null) =
     (case lookup column of
        None \<Rightarrow> None
      | Some value \<Rightarrow>
          if value = LNull then Some None
          else map_option (\<lambda>row_id. if row_id \<in> set vids then Some True else if saw_null then None else Some False)
                 (interned_value_id ie value))"
| "eval_compiled_interned_predicate ie lookup (PAnd items) =
     plan_and (map (eval_compiled_interned_predicate ie lookup) items) False False"
| "eval_compiled_interned_predicate ie lookup (POr items) =
     plan_or (map (eval_compiled_interned_predicate ie lookup) items) False False"
| "eval_compiled_interned_predicate ie lookup (PNot item) =
     map_option (map_option Not) (eval_compiled_interned_predicate ie lookup item)"

definition compiled_interned_predicate_matches_lookup ::
    "intern_env \<Rightarrow> interned_predicate_plan \<Rightarrow> (string \<Rightarrow> lit option) \<Rightarrow> bool option" where
  "compiled_interned_predicate_matches_lookup ie plan lookup =
     map_option (\<lambda>t. t = Some True) (eval_compiled_interned_predicate ie lookup plan)"

definition compiled_interned_predicate_matches_row ::
    "intern_env \<Rightarrow> interned_predicate_plan \<Rightarrow> row_object \<Rightarrow> bool option" where
  "compiled_interned_predicate_matches_row ie plan row =
     compiled_interned_predicate_matches_lookup ie plan (map_of row)"

definition compiled_interned_predicate_matches_table_row ::
    "codecs \<Rightarrow> intern_env \<Rightarrow> interned_predicate_plan \<Rightarrow> table_schema \<Rightarrow> row_object \<Rightarrow> bool option" where
  "compiled_interned_predicate_matches_table_row cd ie plan schema row =
     compiled_interned_predicate_matches_lookup ie plan (schema_row_value cd schema row)"

text \<open>
  The test of a row in UPDATE and DELETE: the plan's answer where it has one, but the predicate
  is evaluated in any case, as the argument of \<open>unwrap_or\<close>, and its error is returned.
\<close>

definition write_predicate ::
    "eval_env \<Rightarrow> intern_env \<Rightarrow> interned_predicate_plan option \<Rightarrow> expr \<Rightarrow> lit list \<Rightarrow> row_object \<Rightarrow> engine_error + bool" where
  "write_predicate env ie plan predicate args row =
     bindE (eval_predicate env predicate row None args) (\<lambda>evaluated.
       Inr (case plan of
              None \<Rightarrow> evaluated
            | Some p \<Rightarrow> (case compiled_interned_predicate_matches_row ie p row of Some m \<Rightarrow> m | None \<Rightarrow> evaluated)))"

section \<open>Candidates from a secondary index\<close>

text \<open>
  \<open>collect_index_eq_filters\<close> with the alias map of a single table; \<open>None\<close> is the result \<open>false\<close>.
\<close>

definition eq_filter :: "string \<Rightarrow> lit list \<Rightarrow> expr option \<Rightarrow> expr option \<Rightarrow> (string \<times> lit) list" where
  "eq_filter alias args a b =
     (let col = (\<lambda>e. case e of
                   Some (ECol c t) \<Rightarrow> if t = None \<or> t = Some alias then Some c else None
                 | _ \<Rightarrow> None);
          val = (\<lambda>e. Option.bind e (\<lambda>e. expr_const_value e args))
      in case (col a, val b) of
           (Some c, Some v) \<Rightarrow> [(c, v)]
         | _ \<Rightarrow> (case (col b, val a) of (Some c, Some v) \<Rightarrow> [(c, v)] | _ \<Rightarrow> []))"

fun collect_index_eq_filters :: "string \<Rightarrow> lit list \<Rightarrow> expr \<Rightarrow> (string \<times> lit) list option" where
  "collect_index_eq_filters alias args (EOp op a b vargs lst lo hi) =
     (if op = ''and'' then
        map_option concat (all_some
          (variadic (map_option (collect_index_eq_filters alias args) a) (map_option (collect_index_eq_filters alias args) b)
             (map_option (map (collect_index_eq_filters alias args)) vargs)))
      else if op \<in> {''or'', ''not''} then None
      else if op = ''eq'' then Some (eq_filter alias args a b)
      else Some [])"
| "collect_index_eq_filters alias args e = Some []"

text \<open>\<open>filters.entry(col).or_insert(value)\<close>.\<close>

fun first_filters :: "(string \<times> lit) list \<Rightarrow> (string \<times> lit) list \<Rightarrow> (string \<times> lit) list" where
  "first_filters [] filters = filters"
| "first_filters ((c, v) # pairs) filters =
     first_filters pairs (if map_of filters c = None then filters @ [(c, v)] else filters)"

text \<open>The choice among the indexes: more columns first, then fewer candidates.\<close>

fun best_candidates ::
    "codecs \<Rightarrow> (string \<times> lit) list \<Rightarrow> secondary_index list \<Rightarrow> (nat \<times> nat list) option \<Rightarrow> nat list option" where
  "best_candidates cd filters [] best = map_option snd best"
| "best_candidates cd filters (ix # ixs) best =
     (case (if si_columns ix = [] then None else column_values (si_columns ix) filters) of
        None \<Rightarrow> best_candidates cd filters ixs best
      | Some values \<Rightarrow>
          let candidates = bucket (si_keys ix) (secondary_index_value_key cd values);
              cols_len = length (si_columns ix)
          in best_candidates cd filters ixs
               (case best of
                  None \<Rightarrow> Some (cols_len, candidates)
                | Some (best_cols, best_cands) \<Rightarrow>
                    if best_cols < cols_len \<or> cols_len = best_cols \<and> length candidates < length best_cands
                    then Some (cols_len, candidates) else best))"

definition secondary_index_candidates ::
    "codecs \<Rightarrow> table_schema \<Rightarrow> table_data \<Rightarrow> (string \<times> lit) list \<Rightarrow> nat list option \<times> table_data" where
  "secondary_index_candidates cd schema td filters =
     (let td = ensure_mysql_compat_secondary_indexes cd schema td in
      if td_secondary td = [] then (None, td)
      else let td = map_indexes (rebuild_if_stale cd schema (td_rows td)) td
           in (best_candidates cd filters (map snd (td_secondary td)) None, td))"

text \<open>The table is not a view and has no access policy; those cases give \<open>None\<close> before.\<close>

definition index_prefilter_candidates ::
    "codecs \<Rightarrow> table_schema \<Rightarrow> table_data \<Rightarrow> base_table_ref \<Rightarrow> expr option \<Rightarrow> lit list \<Rightarrow> nat list option \<times> table_data" where
  "index_prefilter_candidates cd schema td base predicate args =
     (case Option.bind predicate (collect_index_eq_filters (base_alias base) args) of
        None \<Rightarrow> (None, td)
      | Some pairs \<Rightarrow>
          if pairs = [] then (None, td)
          else secondary_index_candidates cd schema td (first_filters pairs []))"

section \<open>Compiled predicates agree with evaluation\<close>

text \<open>All literals of an expression.\<close>

fun expr_lits :: "expr \<Rightarrow> lit list" where
  "expr_lits (ECol col table) = []"
| "expr_lits (ELit l) = [l]"
| "expr_lits (EParam p) = []"
| "expr_lits (EOp op a b vargs lst lo hi) =
     concat (variadic (map_option expr_lits a) (map_option expr_lits b) None) @
     (case map_option (map expr_lits) vargs of None \<Rightarrow> [] | Some ls \<Rightarrow> concat ls) @
     (case map_option (map expr_lits) lst of None \<Rightarrow> [] | Some ls \<Rightarrow> concat ls) @
     concat (variadic (map_option expr_lits lo) (map_option expr_lits hi) None)"
| "expr_lits (EFunc name fargs dist) = concat (map expr_lits fargs)"
| "expr_lits (ECast e ty) = expr_lits e"
| "expr_lits (ECase whens other) =
     concat (map (\<lambda>(c, t). expr_lits c @ expr_lits t) whens) @
     (case map_option expr_lits other of None \<Rightarrow> [] | Some ls \<Rightarrow> ls)"
| "expr_lits (ESubquery q) = []"
| "expr_lits (EExists q neg) = []"

text \<open>A literal that is a string, or that the interning leaves alone.\<close>

definition str_or_plain :: "lit \<Rightarrow> bool" where
  "str_or_plain l \<longleftrightarrow> (case l of LJson _ \<Rightarrow> False | LBytes _ \<Rightarrow> False | LUuid _ \<Rightarrow> False | LEmbedding _ _ _ \<Rightarrow> False | _ \<Rightarrow> True)"

text \<open>
  What the agreement needs of a row and of the constants \<open>C\<close> of the predicate: the value id tells
  the strings of the row from the string constants, the columns of the row have the spelling of the
  schema, and neither a value nor a constant is an interned literal other than a string.
\<close>

definition plan_ok :: "intern_env \<Rightarrow> table_schema \<Rightarrow> lit set \<Rightarrow> row_object \<Rightarrow> bool" where
  "plan_ok ie schema C row \<longleftrightarrow>
     (\<forall>(col, v) \<in> set row. \<forall>w \<in> C. \<forall>s t. v = LStr s \<longrightarrow> w = LStr t \<longrightarrow> ie_value_id ie v = ie_value_id ie w \<longrightarrow> s = t) \<and>
     (\<forall>(col, v) \<in> set row. canonical_schema_column_name schema col = Some col \<and> str_or_plain v) \<and>
     (\<forall>w \<in> C. str_or_plain w)"

lemma plan_okD:
  assumes "plan_ok ie schema C row"
  shows "map_of row col = Some (LStr s) \<Longrightarrow> LStr t \<in> C \<Longrightarrow> ie_value_id ie (LStr s) = ie_value_id ie (LStr t) \<Longrightarrow> s = t"
    and "map_of row col = Some v \<Longrightarrow> canonical_schema_column_name schema col = Some col"
    and "map_of row col = Some v \<Longrightarrow> str_or_plain v"
    and "w \<in> C \<Longrightarrow> str_or_plain w"
  using assms by (auto simp: plan_ok_def dest!: map_of_SomeD)

lemma interned_str:
  "str_or_plain v \<Longrightarrow> interned_value_id ie v = Some vid \<Longrightarrow> \<exists>s. v = LStr s \<and> vid = ie_value_id ie (LStr s)"
  by (cases v) (auto simp: str_or_plain_def interned_value_id_def)

lemma const_value_eval:
  "expr_const_value e args = Some w \<Longrightarrow> eval_expr env row ctx args e = Inr w"
  by (cases e) (auto simp: expr_const_value_def split: if_splits)

lemma const_value_lits:
  "expr_const_value e args = Some w \<Longrightarrow> w \<in> set (expr_lits e) \<union> set args"
  by (cases e) (auto simp: expr_const_value_def split: if_splits)

lemma resolved_column:
  assumes "resolve_interned_column_ref schema interned [] e = Some c" "eval_expr env row None args e = Inr v" "plan_ok ie schema C row"
  shows "map_of row c = Some v"
  using assms(1,2) plan_okD(2) [OF assms(3)]
  by (cases e) (auto simp: resolve_interned_column_ref_def eval_col_def evalE_def split: if_splits option.splits)

lemma null_cmp_eq:
  "cmp_lit env (LStr s) (LStr t) = OEqual \<longleftrightarrow> s = t"
  by (simp add: str_cmp_eq)

lemma plan_eq_sound:
  assumes "compile_eq ie schema interned [] args (op = ''ne'') a b = Some plan" and op: "op = ''eq'' \<or> op = ''ne''"
    and t: "eval_compiled_interned_predicate ie (map_of row) plan = Some t"
    and v: "with_operands op (map_option (eval_expr env row None args) a) (map_option (eval_expr env row None args) b)
          (\<lambda>va vb. null_or va vb (Inr (LBool (comparison op (cmp_lit env va vb))))) = Inr v"
    and ok: "plan_ok ie schema C row" and strs: "\<forall>e w. (a = Some e \<or> b = Some e) \<and> expr_const_value e args = Some w \<longrightarrow> w \<in> C"
  shows "lit_truth v = t"
proof -
  obtain ea eb va vb where ab: "a = Some ea" "b = Some eb"
    and ev: "eval_expr env row None args ea = Inr va" "eval_expr env row None args eb = Inr vb"
    and v': "null_or va vb (Inr (LBool (comparison op (cmp_lit env va vb)))) = Inr v"
    using v by (cases a; cases b) (auto simp: with_operands_def required_def evalE_def bindE_eq_Inr)
  have main: "lit_truth v = t"
    if c: "resolve_interned_column_ref schema interned [] ec = Some c" and w: "expr_const_value ew args = Some w"
      and p: "plan = (if w = LNull then PConstant None else PEq c wid (op = ''ne''))"
      and wid: "w \<noteq> LNull \<Longrightarrow> interned_value_id ie w = Some wid"
      and xy: "(ec, ew, vc) = (ea, eb, va) \<and> w = vb \<or> (ec, ew, vc) = (eb, ea, vb) \<and> w = va" for c ec ew w wid vc
  proof (cases "w = LNull")
    case True
    then show ?thesis using p t v' xy by (auto simp: null_or_def)
  next
    case False
    have vc: "map_of row c = Some vc" using resolved_column [OF c _ ok] ev xy by auto
    have const: "w \<in> C" using strs ab w xy by blast
    then have "str_or_plain w" by (rule plan_okD(4) [OF ok])
    then obtain s where s: "w = LStr s" "wid = ie_value_id ie (LStr s)" using interned_str [OF _ wid [OF False]] by blast
    show ?thesis
    proof (cases "vc = LNull")
      case True
      then show ?thesis using p t v' xy vc False by (auto simp: null_or_def)
    next
      case nn: False
      obtain vid where vid: "interned_value_id ie vc = Some vid" using t p False vc nn by auto
      have "str_or_plain vc" by (rule plan_okD(3) [OF ok vc])
      then obtain r where r: "vc = LStr r" "vid = ie_value_id ie (LStr r)" using interned_str [OF _ vid] by blast
      have "vid = wid \<longleftrightarrow> r = s" using plan_okD(1) [OF ok, of c r s] vc const r s by auto
      then have "t = Some ((r = s) \<noteq> (op = ''ne''))" using t p False vc nn vid by auto
      moreover have "v = LBool (comparison op (cmp_lit env va vb))" using v' xy r s by (auto simp: null_or_def)
      moreover have "cmp_lit env va vb = OEqual \<longleftrightarrow> r = s" using xy r s null_cmp_eq by auto
      ultimately show ?thesis using op by (auto simp: comparison_def)
    qed
  qed
  have key: "\<exists>c w wid. resolve_interned_column_ref schema interned [] ec = Some c \<and> expr_const_value ew args = Some w \<and>
      plan = (if w = LNull then PConstant None else PEq c wid (op = ''ne'')) \<and>
      (w \<noteq> LNull \<longrightarrow> interned_value_id ie w = Some wid)"
    if "resolve_interned_column_ref schema interned [] ec = Some c"
      "(case expr_const_value ew args of None \<Rightarrow> None | Some LNull \<Rightarrow> Some (PConstant None)
        | Some v \<Rightarrow> map_option (\<lambda>vid. PEq c vid (op = ''ne'')) (interned_value_id ie v)) = Some plan" for ec ew c
    using that by (cases "expr_const_value ew args") (auto split: lit.splits)
  show ?thesis
  proof (cases "resolve_interned_column_ref schema interned [] ea")
    case None
    then obtain c where "resolve_interned_column_ref schema interned [] eb = Some c"
      using assms(1) ab by (auto simp: compile_eq_def Let_def split: option.splits)
    then show ?thesis using assms(1) ab None key [of eb c ea] main [of eb _ ea] const_value_eval ev
      by (force simp: compile_eq_def Let_def)
  next
    case (Some c)
    then have "resolve_interned_column_ref schema interned [] eb = None"
      using assms(1) ab by (auto simp: compile_eq_def Let_def split: option.splits)
    then show ?thesis using assms(1) ab Some key [of ea c eb] main [of ea _ eb] const_value_eval ev
      by (force simp: compile_eq_def Let_def)
  qed
qed

lemma in_list_sound:
  assumes inj: "\<And>s. LStr s \<in> C \<Longrightarrow> ie_value_id ie (LStr r) = ie_value_id ie (LStr s) \<Longrightarrow> r = s"
    and plain: "\<And>w. w \<in> C \<Longrightarrow> str_or_plain w"
  shows "in_value_ids ie args items = Some (ids, n) \<Longrightarrow>
    \<forall>e \<in> set items. \<forall>w. expr_const_value e args = Some w \<longrightarrow> w \<in> C \<Longrightarrow>
    eval_in_list env (LStr r) (map (eval_expr env row ctx args) items) saw =
      Inr (if ie_value_id ie (LStr r) \<in> set ids then LBool True else if n \<or> saw then LNull else LBool False)"
proof (induction items arbitrary: ids n saw)
  case (Cons e items)
  obtain w where w: "expr_const_value e args = Some w" using Cons.prems(1) by (auto split: option.splits)
  note ev = const_value_eval [OF w, of env row ctx]
  show ?case
  proof (cases "w = LNull")
    case True
    then obtain ids' n' where "in_value_ids ie args items = Some (ids', n')" "ids = ids'" "n"
      using Cons.prems(1) w by auto
    then show ?thesis using Cons.IH [of ids' n' True] Cons.prems(2) ev True by simp
  next
    case False
    have r: "in_value_ids ie args (e # items) =
        (case interned_value_id ie w of None \<Rightarrow> None
         | Some vid \<Rightarrow> map_option (\<lambda>(ids, n). (vid # ids, n)) (in_value_ids ie args items))"
      using w False by (cases w) auto
    then obtain vid ids' where vid: "interned_value_id ie w = Some vid" and rest: "in_value_ids ie args items = Some (ids', n)" "ids = vid # ids'"
      using Cons.prems(1) by (auto split: option.splits)
    have const: "w \<in> C" using Cons.prems(2) w by simp
    then have "str_or_plain w" by (rule plain)
    then obtain s where s: "w = LStr s" "vid = ie_value_id ie (LStr s)" using interned_str [OF _ vid] by blast
    have "ie_value_id ie (LStr r) = vid \<longleftrightarrow> r = s" using inj [of s] const s by auto
    then show ?thesis using Cons.IH [OF rest(1), of saw] Cons.prems(2) ev s rest(2) by (simp add: str_cmp_eq)
  qed
qed simp

lemma plan_in_sound:
  assumes c: "compile_in ie schema interned [] args (Some ea) (Some items) = Some plan"
    and t: "eval_compiled_interned_predicate ie (map_of row) plan = Some t"
    and ea: "eval_expr env row None args ea = Inr va"
    and v: "(if va = LNull then Inr LNull else eval_in_list env va (map (eval_expr env row None args) items) False) = Inr v"
    and ok: "plan_ok ie schema C row"
    and strs: "\<forall>e \<in> set items. \<forall>w. expr_const_value e args = Some w \<longrightarrow> w \<in> C"
  shows "lit_truth v = t"
proof -
  obtain col ids n where col: "resolve_interned_column_ref schema interned [] ea = Some col"
    and ids: "in_value_ids ie args items = Some (ids, n)" and plan: "plan = PIn col ids n"
    using c by (auto simp: compile_in_def split: option.splits)
  have m: "map_of row col = Some va" by (rule resolved_column [OF col ea ok])
  show ?thesis
  proof (cases "va = LNull")
    case True
    then show ?thesis using t v plan m by simp
  next
    case False
    then obtain vid where vid: "interned_value_id ie va = Some vid" using t plan m by auto
    have "str_or_plain va" by (rule plan_okD(3) [OF ok m])
    then obtain r where r: "va = LStr r" "vid = ie_value_id ie (LStr r)" using interned_str [OF _ vid] by blast
    have "v = (if ie_value_id ie (LStr r) \<in> set ids then LBool True else if n then LNull else LBool False)"
      using in_list_sound [OF plan_okD(1) [OF ok m [unfolded r(1)]] plan_okD(4) [OF ok] ids strs, of env row None False] v r by auto
    then show ?thesis using t plan m vid r by auto
  qed
qed

text \<open>The lists of a conjunction: items of the plan, and results of the evaluation.\<close>

definition item_sound :: "bool option option \<Rightarrow> lit_result \<Rightarrow> bool" where
  "item_sound p r \<longleftrightarrow> (\<forall>t v. p = Some t \<and> r = Inr v \<longrightarrow> lit_truth v = t)"

lemma plan_and_fallback: "plan_and ps sn True = Some t \<Longrightarrow> t = Some False \<and> Some (Some False) \<in> set ps"
  by (induction ps arbitrary: sn) (auto split: option.splits bool.splits if_splits)

lemma and_no_false:
  "list_all2 item_sound ps rs \<Longrightarrow> eval_and_list rs sn = Inr v \<Longrightarrow> Some (Some False) \<in> set ps \<Longrightarrow> v = LBool False"
proof (induction ps rs arbitrary: sn rule: list_all2_induct)
  case (Cons p ps r rs)
  obtain w where w: "r = Inr w" using Cons.prems(1) by (auto simp: bindE_eq_Inr)
  show ?case
  proof (cases "lit_truth w")
    case None
    then have "p \<noteq> Some (Some False)" using Cons.hyps w by (auto simp: item_sound_def)
    then show ?thesis using Cons.IH [of True] Cons.prems None w by simp
  next
    case (Some q)
    then have "p \<noteq> Some (Some False)" if "q \<noteq> False" using Cons.hyps w that by (auto simp: item_sound_def)
    then show ?thesis using Cons.IH [of sn] Cons.prems Some w by (cases q) simp_all
  qed
qed simp

lemma plan_and_sound:
  "list_all2 item_sound ps rs \<Longrightarrow> plan_and ps sn False = Some t \<Longrightarrow> eval_and_list rs sn = Inr v \<Longrightarrow> lit_truth v = t"
proof (induction ps rs arbitrary: sn rule: list_all2_induct)
  case Nil
  then show ?case by (auto split: if_splits)
next
  case (Cons p ps r rs)
  obtain w where w: "r = Inr w" using Cons.prems by (auto simp: bindE_eq_Inr)
  show ?case
  proof (cases p)
    case None
    then have "t = Some False" "Some (Some False) \<in> set ps" using Cons.prems(1) plan_and_fallback by auto
    moreover have "list_all2 item_sound (p # ps) (r # rs)" using Cons.hyps by simp
    ultimately show ?thesis using and_no_false [of "p # ps" "r # rs"] Cons.prems(2) by fastforce
  next
    case (Some q)
    then have "lit_truth w = q" using Cons.hyps w by (simp add: item_sound_def)
    then show ?thesis using Cons.prems Cons.IH Some w by (auto split: option.splits bool.splits)
  qed
qed

lemma plan_or_fallback: "plan_or ps sn True = Some t \<Longrightarrow> t = Some True \<and> Some (Some True) \<in> set ps"
  by (induction ps arbitrary: sn) (auto split: option.splits bool.splits if_splits)

lemma or_has_true:
  "list_all2 item_sound ps rs \<Longrightarrow> eval_or_list rs sn = Inr v \<Longrightarrow> Some (Some True) \<in> set ps \<Longrightarrow> v = LBool True"
proof (induction ps rs arbitrary: sn rule: list_all2_induct)
  case (Cons p ps r rs)
  obtain w where w: "r = Inr w" using Cons.prems(1) by (auto simp: bindE_eq_Inr)
  show ?case
  proof (cases "lit_truth w")
    case None
    then have "p \<noteq> Some (Some True)" using Cons.hyps w by (auto simp: item_sound_def)
    then show ?thesis using Cons.IH [of True] Cons.prems None w by simp
  next
    case (Some q)
    then have "p \<noteq> Some (Some True)" if "q \<noteq> True" using Cons.hyps w that by (auto simp: item_sound_def)
    then show ?thesis using Cons.IH [of sn] Cons.prems Some w by (cases q) simp_all
  qed
qed simp

lemma plan_or_sound:
  "list_all2 item_sound ps rs \<Longrightarrow> plan_or ps sn False = Some t \<Longrightarrow> eval_or_list rs sn = Inr v \<Longrightarrow> lit_truth v = t"
proof (induction ps rs arbitrary: sn rule: list_all2_induct)
  case Nil
  then show ?case by (auto split: if_splits)
next
  case (Cons p ps r rs)
  obtain w where w: "r = Inr w" using Cons.prems by (auto simp: bindE_eq_Inr)
  show ?case
  proof (cases p)
    case None
    then have "t = Some True" "Some (Some True) \<in> set ps" using Cons.prems(1) plan_or_fallback by auto
    moreover have "list_all2 item_sound (p # ps) (r # rs)" using Cons.hyps by simp
    ultimately show ?thesis using or_has_true [of "p # ps" "r # rs"] Cons.prems(2) by fastforce
  next
    case (Some q)
    then have "lit_truth w = q" using Cons.hyps w by (simp add: item_sound_def)
    then show ?thesis using Cons.prems Cons.IH Some w by (auto split: option.splits bool.splits)
  qed
qed

lemma variadic_map: "variadic (map_option f a) (map_option f b) (map_option (map f) vargs) = map f (variadic a b vargs)"
  by (auto simp: variadic_def split: option.splits)

lemma variadic_members:
  "e \<in> set (variadic a b vargs) \<Longrightarrow> a = Some e \<or> b = Some e \<or> (\<exists>xs. vargs = Some xs \<and> e \<in> set xs)"
  by (auto simp: variadic_def split: option.splits)

lemma variadic_lits:
  "e \<in> set (variadic a b vargs) \<Longrightarrow> set (expr_lits e) \<subseteq> set (expr_lits (EOp op a b vargs lst lo hi))"
  by (auto simp: variadic_def split: option.splits)

lemma operand_lits:
  "a = Some e \<or> b = Some e \<Longrightarrow> set (expr_lits e) \<subseteq> set (expr_lits (EOp op a b vargs lst lo hi))"
  by (auto simp: variadic_def)

lemma all_some_map:
  "all_some (map f es) = Some ps \<Longrightarrow> list_all2 (\<lambda>p e. f e = Some p) ps es"
  by (induction es arbitrary: ps) (auto split: option.splits)

definition plan_sound_at ::
    "eval_env \<Rightarrow> intern_env \<Rightarrow> table_schema \<Rightarrow> string list \<Rightarrow> lit list \<Rightarrow> row_object \<Rightarrow> expr \<Rightarrow> bool" where
  "plan_sound_at env ie schema interned args row e \<longleftrightarrow>
     (\<forall>plan. compile_interned_predicate_expr ie schema interned [] args e = Some plan \<longrightarrow>
        item_sound (eval_compiled_interned_predicate ie (map_of row) plan) (eval_expr env row None args e))"

lemma plan_items_sound:
  assumes "\<forall>e \<in> set es. plan_sound_at env ie schema interned args row e"
    and "all_some (map (compile_interned_predicate_expr ie schema interned [] args) es) = Some ps"
  shows "list_all2 item_sound (map (eval_compiled_interned_predicate ie (map_of row)) ps) (map (eval_expr env row None args) es)"
  using assms(1) all_some_map [OF assms(2)]
  by (auto simp: list_all2_conv_all_nth plan_sound_at_def)

lemma const_plan_sound:
  assumes "map_option PConstant (predicate_constant_truth e args) = Some plan"
  shows "item_sound (eval_compiled_interned_predicate ie (map_of row) plan) (eval_expr env row None args e)"
proof -
  obtain t where t: "predicate_constant_truth e args = Some t" "plan = PConstant t" using assms by auto
  obtain w where w: "expr_const_value e args = Some w" "lit_truth w = t"
    using t(1) by (auto simp: predicate_constant_truth_def split: option.splits lit.splits)
  show ?thesis using const_value_eval [OF w(1)] w(2) t(2) by (simp add: item_sound_def)
qed

lemma plan_op_sound:
  assumes ih: "\<forall>e \<in> set (variadic a b vargs) \<union> set_option a. plan_sound_at env ie schema interned args row e"
    and ok: "plan_ok ie schema C row"
    and strs: "set (expr_lits (EOp op a b vargs lst lo hi)) \<union> set args \<subseteq> C"
  shows "plan_sound_at env ie schema interned args row (EOp op a b vargs lst lo hi)"
  unfolding plan_sound_at_def item_sound_def
proof (intro allI impI, elim conjE)
  fix plan t v
  assume c: "compile_interned_predicate_expr ie schema interned [] args (EOp op a b vargs lst lo hi) = Some plan"
    and t: "eval_compiled_interned_predicate ie (map_of row) plan = Some t"
    and v: "eval_expr env row None args (EOp op a b vargs lst lo hi) = Inr v"
  let ?C = "compile_interned_predicate_expr ie schema interned [] args" and ?E = "eval_expr env row None args"
  have items: "list_all2 item_sound (map (eval_compiled_interned_predicate ie (map_of row)) ps) (map ?E (variadic a b vargs))"
    if "all_some (map ?C (variadic a b vargs)) = Some ps" for ps
    using plan_items_sound [OF _ that] ih by blast
  have clits: "w \<in> C" if "expr_const_value e args = Some w" "set (expr_lits e) \<subseteq> set (expr_lits (EOp op a b vargs lst lo hi))" for e w
    using const_value_lits [OF that(1)] that(2) strs by blast
  consider (conj) "op = ''and''" | (disj) "op = ''or''" | (neg) "op = ''not''" | (eq) "op = ''eq'' \<or> op = ''ne''" | (isin) "op = ''in''"
    using c by (auto simp: Let_def split: if_splits)
  then show "lit_truth v = t"
  proof cases
    case conj
    then obtain ps where "all_some (map ?C (variadic a b vargs)) = Some ps" "plan = PAnd ps"
      using c by (auto simp: Let_def variadic_map split: if_splits)
    then show ?thesis using plan_and_sound [OF items] t v conj by (simp add: eval_op_def variadic_map)
  next
    case disj
    then obtain ps where "all_some (map ?C (variadic a b vargs)) = Some ps" "plan = POr ps"
      using c by (auto simp: Let_def variadic_map split: if_splits)
    then show ?thesis using plan_or_sound [OF items] t v disj by (simp add: eval_op_def variadic_map)
  next
    case neg
    then obtain e p where e: "a = Some e" "?C e = Some p" "plan = PNot p"
      using c by (cases a) (auto simp: Let_def)
    then have s: "item_sound (eval_compiled_interned_predicate ie (map_of row) p) (?E e)"
      using ih by (simp add: plan_sound_at_def)
    show ?thesis using s e t v neg
      by (auto simp: eval_op_def required_def bindE_eq_Inr item_sound_def split: option.splits)
  next
    case eq
    have "\<forall>e w. (a = Some e \<or> b = Some e) \<and> expr_const_value e args = Some w \<longrightarrow> w \<in> C"
      using clits operand_lits by blast
    moreover have "compile_eq ie schema interned [] args (op = ''ne'') a b = Some plan" using c eq by (auto simp: Let_def)
    moreover have "with_operands op (map_option ?E a) (map_option ?E b)
        (\<lambda>va vb. null_or va vb (Inr (LBool (comparison op (cmp_lit env va vb))))) = Inr v"
      using v eq by (auto simp: eval_op_def)
    ultimately show ?thesis using plan_eq_sound [OF _ eq t _ ok] by blast
  next
    case isin
    then have ci: "compile_in ie schema interned [] args a lst = Some plan" using c by (auto simp: Let_def)
    obtain ea its where s: "a = Some ea" "lst = Some its" using ci by (cases a; cases lst) (auto simp: compile_in_def split: option.splits)
    have "\<forall>e \<in> set its. \<forall>w. expr_const_value e args = Some w \<longrightarrow> w \<in> C"
      using clits s by auto
    moreover obtain va where "?E ea = Inr va"
        "(if va = LNull then Inr LNull else eval_in_list env va (map ?E its) False) = Inr v"
      using v isin s by (auto simp: eval_op_def required_def bindE_eq_Inr split: if_splits)
    ultimately show ?thesis using plan_in_sound [OF _ t _ _ ok] ci s by blast
  qed
qed

lemma compiled_predicate_sound:
  "plan_ok ie schema C row \<Longrightarrow> aliases = ([] :: string list) \<Longrightarrow> set (expr_lits e) \<union> set args \<subseteq> C \<Longrightarrow>
   plan_sound_at env ie schema interned args row e"
proof (induction ie schema interned aliases args e rule: compile_interned_predicate_expr.induct)
  case (1 ie schema interned aliases args op a b vargs lst lo hi)
  have "plan_sound_at env ie schema interned args row e" if e: "e \<in> set (variadic a b vargs) \<union> set_option a" for e
  proof -
    have "set (expr_lits e) \<subseteq> set (expr_lits (EOp op a b vargs lst lo hi))"
      using e variadic_lits operand_lits by (metis UnE elem_set)
    then have "set (expr_lits e) \<union> set args \<subseteq> C" using "1.prems"(3) by blast
    moreover have "a = Some e \<or> b = Some e \<or> (\<exists>xs. vargs = Some xs \<and> e \<in> set xs)" using e variadic_members by fastforce
    ultimately show ?thesis using "1.IH" "1.prems"(1,2) by auto
  qed
  then show ?case using plan_op_sound [OF _ "1.prems"(1,3)] by blast
qed (auto simp only: plan_sound_at_def compile_interned_predicate_expr.simps intro: const_plan_sound)

text \<open>
  (C9) The row test of UPDATE and DELETE is the predicate: whatever plan was compiled for the
  interned columns, the test gives what evaluating the predicate gives, errors included, for a row
  whose columns are spelled as in the schema, if no value of the row and no constant of the
  predicate is JSON, bytes, a UUID or an embedding, and no string of the row has the value id of a
  different string constant of the predicate.
\<close>

theorem write_predicate_is_eval:
  assumes "plan_ok ie schema (set (expr_lits e) \<union> set args) row"
  shows "write_predicate env ie (compile_interned_predicate_for_table ie schema flags e args) e args row =
         eval_predicate env e row None args"
proof (cases "eval_expr env row None args e")
  case (Inr v)
  have "b = (lit_truth v = Some True)"
    if c: "compile_interned_predicate_for_table ie schema flags e args = Some p"
      and m: "compiled_interned_predicate_matches_row ie p row = Some b" for p b
  proof -
    have "\<exists>interned. compile_interned_predicate_expr ie schema interned [] args e = Some p"
      using c by (cases flags) (auto simp: compile_interned_predicate_for_table_def)
    then obtain interned where "compile_interned_predicate_expr ie schema interned [] args e = Some p" ..
    moreover obtain t where "eval_compiled_interned_predicate ie (map_of row) p = Some t" "b = (t = Some True)"
      using m by (auto simp: compiled_interned_predicate_matches_row_def compiled_interned_predicate_matches_lookup_def)
    ultimately show ?thesis
      using compiled_predicate_sound [OF assms refl order_refl, of env interned] Inr
      by (auto simp: plan_sound_at_def item_sound_def)
  qed
  then show ?thesis using Inr
    by (auto simp: write_predicate_def eval_predicate_def eval_predicate_truth_def split: option.splits)
qed (simp add: write_predicate_def eval_predicate_def eval_predicate_truth_def)

section \<open>Concrete environments\<close>

definition demo_eval :: eval_env where
  "demo_eval =
     \<lparr>ev_codecs = demo_codecs, ev_f64_display = (\<lambda>_. []), ev_json_display = (\<lambda>_. []),
      ev_json_parse = (\<lambda>_. None), ev_regex = (\<lambda>_. None), ev_cast = (\<lambda>v _. Inr v),
      ev_func = (\<lambda>name _. evalE (''unsupported function: '' @ name))\<rparr>"

definition demo_intern :: intern_env where
  "demo_intern =
     \<lparr>ie_value_id = (\<lambda>l. case l of LStr s \<Rightarrow> 0 # string_bytes s | LUuid s \<Rightarrow> 1 # string_bytes s | _ \<Rightarrow> []),
      ie_embedding_id = (\<lambda>_ _ _. None)\<rparr>"

definition demo_column :: "string \<Rightarrow> column_schema" where
  "demo_column name =
     \<lparr>cs_name = name, cs_type = \<lparr>ty_kind = ''any'', ty_max = None, ty_precision = None, ty_scale = None,
        ty_charset = None, ty_collation = None, ty_unsigned = None\<rparr>,
      cs_nullable = True, cs_auto_increment = False\<rparr>"

definition query_schema :: table_schema where
  "query_schema = demo_schema\<lparr>ts_columns := [demo_column ''id'', demo_column ''email'']\<rparr>"

definition binary_op :: "string \<Rightarrow> expr \<Rightarrow> expr \<Rightarrow> expr" where
  "binary_op op a b = EOp op (Some a) (Some b) None None None None"

text \<open>An identifier and a string with the same text: equal for the evaluator, different for the plan.\<close>

theorem interned_plan_ignores_text:
  "eval_predicate demo_eval (binary_op ''eq'' (ECol ''email'' None) (ELit (LStr ''x''))) [(''email'', LUuid ''x'')] None [] = Inr True \<and>
   write_predicate demo_eval demo_intern
     (compile_interned_predicate_for_table demo_intern query_schema (Some [''email''])
        (binary_op ''eq'' (ECol ''email'' None) (ELit (LStr ''x''))) [])
     (binary_op ''eq'' (ECol ''email'' None) (ELit (LStr ''x''))) [] [(''email'', LUuid ''x'')] = Inr False"
  by code_simp

theorem write_predicate_is_eval_witness:
  "plan_ok demo_intern query_schema {LStr ''ann''} (demo_row 2 ''bob'') \<and>
   compile_interned_predicate_for_table demo_intern query_schema (Some [''email''])
     (binary_op ''ne'' (ELit (LStr ''ann'')) (ECol ''email'' None)) [] \<noteq> None \<and>
   write_predicate demo_eval demo_intern
     (compile_interned_predicate_for_table demo_intern query_schema (Some [''email''])
        (binary_op ''ne'' (ELit (LStr ''ann'')) (ECol ''email'' None)) [])
     (binary_op ''ne'' (ELit (LStr ''ann'')) (ECol ''email'' None)) [] (demo_row 2 ''bob'') = Inr True"
proof (intro conjI)
  let ?e = "binary_op ''ne'' (ELit (LStr ''ann'')) (ECol ''email'' None)"
  have "canonical_schema_column_name query_schema ''email'' = Some ''email''"
    "canonical_schema_column_name query_schema ''id'' = Some ''id''" by code_simp+
  then show ok: "plan_ok demo_intern query_schema {LStr ''ann''} (demo_row 2 ''bob'')"
    using string_bytes_inj by (auto simp: plan_ok_def demo_row_def str_or_plain_def demo_intern_def)
  show "compile_interned_predicate_for_table demo_intern query_schema (Some [''email'']) ?e [] \<noteq> None" by code_simp
  have lits: "set (expr_lits ?e) \<union> set [] = {LStr ''ann''}" by (simp add: binary_op_def variadic_def)
  have "eval_predicate demo_eval ?e (demo_row 2 ''bob'') None [] = Inr True" by code_simp
  then show "write_predicate demo_eval demo_intern
       (compile_interned_predicate_for_table demo_intern query_schema (Some [''email'']) ?e []) ?e [] (demo_row 2 ''bob'') = Inr True"
    using write_predicate_is_eval [of demo_intern query_schema ?e "[]" "demo_row 2 ''bob''" demo_eval] ok lits by simp
qed

end
