(* ===== verification/Query_Select.thy ===== *)
theory Query_Select
  imports Query_Plan
begin

text \<open>
  The SELECT executor of \<open>engine.rs\<close> on one table: the scan in column batches, the scan row by
  row, the scan of candidates from an index, then ORDER BY, DISTINCT and LIMIT
  (\<open>try_execute_select_base_table\<close>). The statement deadline is a function that tells whether the
  \<open>n\<close>-th check of a scan finds it passed.
\<close>

section \<open>The prepared query\<close>

record select_plan =
  sp_alias :: string
  sp_projection :: "select_item list"
  sp_predicate :: "expr option"
  sp_interned :: "interned_predicate_plan option"
  sp_batch_columns :: "string list"
  sp_ctx_columns :: "string list"
  sp_order :: "order_by list"
  sp_args :: "lit list"
  sp_as_of :: "u64 option"

fun infer_select_name :: "expr \<Rightarrow> string" where
  "infer_select_name (ECol col (Some t)) = t @ ''.'' @ col"
| "infer_select_name (ECol col None) = col"
| "infer_select_name (ELit l) = ''lit''"
| "infer_select_name (EParam p) = ''param_'' @ int_to_string (uint p)"
| "infer_select_name (EFunc name fargs dist) = name"
| "infer_select_name (EOp op a b vargs lst lo hi) = op"
| "infer_select_name e = ''expr''"

definition unknown_type :: type_desc where
  "unknown_type = \<lparr>ty_kind = ''unknown'', ty_max = None, ty_precision = None, ty_scale = None,
     ty_charset = None, ty_collation = None, ty_unsigned = None\<rparr>"

definition projection_columns :: "select_item list \<Rightarrow> (string \<times> type_desc) list" where
  "projection_columns projection =
     map (\<lambda>(e, as). (case as of Some n \<Rightarrow> n | None \<Rightarrow> infer_select_name e, unknown_type)) projection"

definition checkE :: "bool \<Rightarrow> engine_error + unit" where
  "checkE expired = (if expired then evalE ''statement_timeout'' else Inr ())"

section \<open>Batches\<close>

definition SELECT_BATCH_SIZE :: nat where "SELECT_BATCH_SIZE = 1024"

record select_column_batch =
  cb_loaded :: "string list"
  cb_values :: "(string \<times> lit list) list"
  cb_row_count :: nat

text \<open>A column that the schema does not have is loaded as null.\<close>

fun push_columns ::
    "codecs \<Rightarrow> table_schema \<Rightarrow> row_object \<Rightarrow> string list \<Rightarrow> (string \<times> lit list) list \<Rightarrow> (string \<times> lit list) list" where
  "push_columns cd schema row [] cv = cv"
| "push_columns cd schema row (column # columns) cv =
     push_columns cd schema row columns
       (case map_of cv column of
          None \<Rightarrow> cv
        | Some vs \<Rightarrow>
            AList.update column
              (vs @ [case schema_row_value cd schema row column of Some v \<Rightarrow> v | None \<Rightarrow> LNull]) cv)"

function scan_batch_loop ::
    "codecs \<Rightarrow> table_schema \<Rightarrow> row_entry list \<Rightarrow> string list \<Rightarrow> u64 option \<Rightarrow> nat \<Rightarrow> (string \<times> lit list) list \<Rightarrow> nat \<Rightarrow> u64
       \<Rightarrow> nat \<times> (string \<times> lit list) list \<times> nat \<times> u64" where
  "scan_batch_loop cd schema rows columns as_of cursor cv row_count scanned =
     (if cursor < length rows \<and> row_count < SELECT_BATCH_SIZE then
        if \<not> row_visible_at (rows ! cursor) as_of
        then scan_batch_loop cd schema rows columns as_of (cursor + 1) cv row_count scanned
        else scan_batch_loop cd schema rows columns as_of (cursor + 1)
               (push_columns cd schema (re_row (rows ! cursor)) columns cv) (row_count + 1) (saturating_succ scanned)
      else (cursor, cv, row_count, scanned))"
  by pat_completeness auto
termination
  by (relation "measure (\<lambda>(cd, schema, rows, columns, as_of, cursor, cv, row_count, scanned). length rows - cursor)") auto

declare scan_batch_loop.simps [simp del]

definition scan_row_entries_batch ::
    "codecs \<Rightarrow> table_schema \<Rightarrow> row_entry list \<Rightarrow> nat \<Rightarrow> string list \<Rightarrow> u64 option
       \<Rightarrow> (select_column_batch \<times> nat \<times> u64) option" where
  "scan_row_entries_batch cd schema rows start_idx columns as_of =
     (case scan_batch_loop cd schema rows columns as_of start_idx (map (\<lambda>c. (c, [])) (remdups columns)) 0 0 of
        (cursor, cv, row_count, scanned) \<Rightarrow>
          if row_count = 0 then None
          else Some (\<lparr>cb_loaded = columns, cb_values = cv, cb_row_count = row_count\<rparr>, cursor, scanned))"

definition select_batch_value :: "select_column_batch \<Rightarrow> nat \<Rightarrow> string \<Rightarrow> lit option" where
  "select_batch_value batch row_idx column =
     Option.bind (map_of (cb_values batch) column) (\<lambda>vs. if row_idx < length vs then Some (vs ! row_idx) else None)"

fun select_batch_row_ctx_columns ::
    "string \<Rightarrow> select_column_batch \<Rightarrow> nat \<Rightarrow> string list \<Rightarrow> row_ctx \<Rightarrow> row_ctx" where
  "select_batch_row_ctx_columns alias batch row_idx [] ctx = ctx"
| "select_batch_row_ctx_columns alias batch row_idx (column # columns) ctx =
     select_batch_row_ctx_columns alias batch row_idx columns
       (case select_batch_value batch row_idx column of
          None \<Rightarrow> ctx
        | Some v \<Rightarrow> bt_insert (ctx_key alias column) v ctx)"

definition batch_row_matches ::
    "eval_env \<Rightarrow> intern_env \<Rightarrow> select_plan \<Rightarrow> select_column_batch \<Rightarrow> nat \<Rightarrow> engine_error + bool" where
  "batch_row_matches env ie sp batch row_idx =
     (case sp_predicate sp of
        None \<Rightarrow> Inr True
      | Some predicate \<Rightarrow>
          (case Option.bind (sp_interned sp)
                  (\<lambda>plan. compiled_interned_predicate_matches_lookup ie plan (select_batch_value batch row_idx)) of
             Some m \<Rightarrow> Inr m
           | None \<Rightarrow>
               eval_predicate env predicate []
                 (Some (select_batch_row_ctx_columns (sp_alias sp) batch row_idx (sp_batch_columns sp) [])) (sp_args sp)))"

fun filter_select_batch ::
    "eval_env \<Rightarrow> intern_env \<Rightarrow> select_plan \<Rightarrow> select_column_batch \<Rightarrow> nat list \<Rightarrow> engine_error + nat list" where
  "filter_select_batch env ie sp batch [] = Inr []"
| "filter_select_batch env ie sp batch (row_idx # idxs) =
     bindE (batch_row_matches env ie sp batch row_idx) (\<lambda>m.
     bindE (filter_select_batch env ie sp batch idxs) (\<lambda>selected.
       Inr (if m then row_idx # selected else selected)))"

fun project_select_batch ::
    "eval_env \<Rightarrow> select_plan \<Rightarrow> select_column_batch \<Rightarrow> nat list \<Rightarrow> engine_error + lit list list" where
  "project_select_batch env sp batch [] = Inr []"
| "project_select_batch env sp batch (row_idx # idxs) =
     bindE (eval_exprs env (select_batch_row_ctx_columns (sp_alias sp) batch row_idx (sp_ctx_columns sp) [])
              (sp_args sp) (map fst (sp_projection sp))) (\<lambda>row.
     bindE (project_select_batch env sp batch idxs) (\<lambda>rows. Inr (row # rows)))"

lemma scan_batch_cursor:
  "scan_batch_loop cd schema rows columns as_of cursor cv rc sc = (cursor', cv', rc', sc') \<Longrightarrow>
   cursor \<le> cursor' \<and> rc \<le> rc' \<and> (rc < rc' \<longrightarrow> cursor < cursor') \<and> (cursor \<le> length rows \<longrightarrow> cursor' \<le> length rows)"
proof (induction cd schema rows columns as_of cursor cv rc sc rule: scan_batch_loop.induct)
  case (1 cd schema rows columns as_of cursor cv rc sc)
  show ?case
  proof (cases "cursor < length rows \<and> rc < SELECT_BATCH_SIZE")
    case True
    then show ?thesis using 1 by (subst (asm) (3) scan_batch_loop.simps) (auto split: if_splits)
  next
    case False
    then show ?thesis using "1.prems" by (subst (asm) scan_batch_loop.simps) auto
  qed
qed

lemma scan_batch_advances:
  "scan_row_entries_batch cd schema rows start columns as_of = Some (batch, cursor, sc) \<Longrightarrow>
   start < cursor \<and> (start \<le> length rows \<longrightarrow> cursor \<le> length rows)"
  using scan_batch_cursor by (fastforce simp: scan_row_entries_batch_def split: prod.splits if_splits)

text \<open>The loop over batches; \<open>k\<close> counts the deadline checks.\<close>

function execute_select_batches ::
    "eval_env \<Rightarrow> intern_env \<Rightarrow> (nat \<Rightarrow> bool) \<Rightarrow> select_plan \<Rightarrow> table_schema \<Rightarrow> row_entry list \<Rightarrow> nat \<Rightarrow> nat \<Rightarrow> lit list list \<Rightarrow> u64
       \<Rightarrow> engine_error + lit list list \<times> u64" where
  "execute_select_batches env ie expired sp schema trows k cursor rows scanned =
     (case scan_row_entries_batch (ev_codecs env) schema trows cursor (sp_batch_columns sp) (sp_as_of sp) of
        None \<Rightarrow> Inr (rows, scanned)
      | Some (batch, next_cursor, batch_scanned) \<Rightarrow>
          bindE (checkE (expired k)) (\<lambda>_.
          bindE (filter_select_batch env ie sp batch [0..<cb_row_count batch]) (\<lambda>selected.
          bindE (project_select_batch env sp batch selected) (\<lambda>out.
            execute_select_batches env ie expired sp schema trows (k + 1) next_cursor (rows @ out)
              (if unat scanned + unat batch_scanned < 2 ^ 64 then scanned + batch_scanned else - 1)))))"
  by pat_completeness auto
termination
proof (relation "measure (\<lambda>(env, ie, expired, sp, schema, trows, k, cursor, rows, scanned). Suc (length trows) - cursor)", simp, goal_cases)
  case (1 env ie expired sp schema trows k cursor rows scanned p batch q next_cursor batch_scanned)
  then have "cursor < next_cursor" using scan_batch_advances by blast
  moreover have "cursor < length trows"
  proof (rule ccontr)
    assume "\<not> cursor < length trows"
    then have "scan_row_entries_batch (ev_codecs env) schema trows cursor (sp_batch_columns sp) (sp_as_of sp) = None"
      by (simp add: scan_row_entries_batch_def scan_batch_loop.simps)
    then show False using 1 by simp
  qed
  ultimately show ?case by simp
qed

declare execute_select_batches.simps [simp del]

section \<open>Row by row\<close>

record select_acc =
  sa_rows :: "lit list list"
  sa_items :: "(lit list \<times> lit list) list"
  sa_scanned :: u64

definition select_acc_init :: select_acc where
  "select_acc_init = \<lparr>sa_rows = [], sa_items = [], sa_scanned = 0\<rparr>"

text \<open>
  The test of a row gives the context to project from: the one built for the evaluated predicate,
  or that of the projected columns; \<open>None\<close> means that the row does not match.
\<close>

definition row_match_ctx ::
    "eval_env \<Rightarrow> intern_env \<Rightarrow> select_plan \<Rightarrow> table_schema \<Rightarrow> row_object \<Rightarrow> engine_error + row_ctx option" where
  "row_match_ctx env ie sp schema row =
     (let cd = ev_codecs env;
          ctx = build_table_row_ctx cd (sp_alias sp) schema row (Some (sp_ctx_columns sp)) in
      case sp_predicate sp of
        None \<Rightarrow> Inr (Some ctx)
      | Some predicate \<Rightarrow>
          (case Option.bind (sp_interned sp)
                  (\<lambda>plan. compiled_interned_predicate_matches_table_row cd ie plan schema row) of
             Some m \<Rightarrow> Inr (if m then Some ctx else None)
           | None \<Rightarrow>
               let built = build_table_row_ctx cd (sp_alias sp) schema row (Some (sp_batch_columns sp)) in
               bindE (eval_predicate env predicate [] (Some built) (sp_args sp)) (\<lambda>m.
                 Inr (if m then Some built else None))))"

definition push_entry ::
    "eval_env \<Rightarrow> intern_env \<Rightarrow> select_plan \<Rightarrow> table_schema \<Rightarrow> row_entry \<Rightarrow> select_acc \<Rightarrow> engine_error + select_acc" where
  "push_entry env ie sp schema entry acc =
     (if \<not> row_visible_at entry (sp_as_of sp) then Inr acc
      else
        let acc = acc\<lparr>sa_scanned := saturating_succ (sa_scanned acc)\<rparr> in
        bindE (row_match_ctx env ie sp schema (re_row entry)) (\<lambda>m.
          case m of
            None \<Rightarrow> Inr acc
          | Some ctx \<Rightarrow>
              bindE (eval_exprs env ctx (sp_args sp) (map fst (sp_projection sp))) (\<lambda>out_row.
                if sp_order sp = [] then Inr (acc\<lparr>sa_rows := sa_rows acc @ [out_row]\<rparr>)
                else bindE (eval_order_keys env (sp_order sp) ctx (sp_args sp)) (\<lambda>keys.
                  Inr (acc\<lparr>sa_items := sa_items acc @ [(keys, out_row)]\<rparr>)))))"

text \<open>\<open>for_each_table_row\<close>: every 1024th row checks the deadline before it is visited.\<close>

definition DEADLINE_CHECK_INTERVAL :: nat where "DEADLINE_CHECK_INTERVAL = 1024"

fun scan_rows ::
    "eval_env \<Rightarrow> intern_env \<Rightarrow> (nat \<Rightarrow> bool) \<Rightarrow> select_plan \<Rightarrow> table_schema \<Rightarrow> nat \<Rightarrow> row_entry list \<Rightarrow> select_acc
       \<Rightarrow> engine_error + select_acc" where
  "scan_rows env ie expired sp schema i [] acc = Inr acc"
| "scan_rows env ie expired sp schema i (entry # entries) acc =
     bindE (checkE (Suc i mod DEADLINE_CHECK_INTERVAL = 0 \<and> expired (Suc i div DEADLINE_CHECK_INTERVAL))) (\<lambda>_.
     bindE (push_entry env ie sp schema entry acc) (scan_rows env ie expired sp schema (Suc i) entries))"

fun scan_candidates ::
    "eval_env \<Rightarrow> intern_env \<Rightarrow> select_plan \<Rightarrow> table_schema \<Rightarrow> row_entry list \<Rightarrow> nat list \<Rightarrow> select_acc
       \<Rightarrow> engine_error + select_acc" where
  "scan_candidates env ie sp schema trows [] acc = Inr acc"
| "scan_candidates env ie sp schema trows (idx # idxs) acc =
     (if idx < length trows
      then bindE (push_entry env ie sp schema (trows ! idx) acc) (scan_candidates env ie sp schema trows idxs)
      else scan_candidates env ie sp schema trows idxs acc)"

definition ordered_rows :: "eval_env \<Rightarrow> select_plan \<Rightarrow> select_acc \<Rightarrow> engine_error + lit list list" where
  "ordered_rows env sp acc =
     (if sp_order sp = [] then Inr (sa_rows acc)
      else bindE (sort_by (\<lambda>a b. compare_order env (sp_order sp) (fst a) (fst b)) (sa_items acc)) (\<lambda>items.
        Inr (map snd items)))"

definition finish_select ::
    "eval_env \<Rightarrow> select_plan \<Rightarrow> bool \<Rightarrow> limit_clause option \<Rightarrow> select_acc \<Rightarrow> engine_error + lit list list" where
  "finish_select env sp dedup limit acc =
     bindE (ordered_rows env sp acc) (\<lambda>rows.
       apply_limit limit (if dedup then dedup_select_rows (ev_codecs env) [] rows else rows))"

section \<open>One table\<close>

definition prepare_select ::
    "eval_env \<Rightarrow> intern_env \<Rightarrow> table_schema \<Rightarrow> string list option \<Rightarrow> base_table_ref \<Rightarrow> select_item list \<Rightarrow> expr option
       \<Rightarrow> order_by list \<Rightarrow> lit list \<Rightarrow> u64 option \<Rightarrow> select_plan" where
  "prepare_select env ie schema flags base projection predicate order args as_of =
     (let alias = base_alias base;
          plan = compile_interned_predicate_for_base ie schema flags base predicate args;
          batch = (case collect_single_table_query_columns alias projection predicate order of
                     Some cols \<Rightarrow> cols | None \<Rightarrow> map cs_name (ts_columns schema));
          ctx = (if plan \<noteq> None
                 then case collect_single_table_projection_order_columns alias projection order of
                        Some cols \<Rightarrow> cols | None \<Rightarrow> batch
                 else batch)
      in \<lparr>sp_alias = alias, sp_projection = projection, sp_predicate = predicate, sp_interned = plan,
          sp_batch_columns = batch, sp_ctx_columns = ctx, sp_order = order, sp_args = args, sp_as_of = as_of\<rparr>)"

text \<open>
  The vector path is taken when there is a limit and an index gives enough candidates; \<open>vec\<close> is
  what \<open>vector_prefilter_candidates\<close> gives for the ordering, \<open>None\<close> when it does not apply.
\<close>

definition vector_path :: "bool \<Rightarrow> limit_clause option \<Rightarrow> nat list option \<Rightarrow> nat list option" where
  "vector_path distnct limit vec =
     (case (Option.bind limit lc_limit, vec) of
        (Some lim, Some candidates) \<Rightarrow>
          (let off = (case Option.bind limit lc_offset of Some n \<Rightarrow> unat n | None \<Rightarrow> 0);
               req = min (unat lim + off) (2 ^ 64 - 1)
           in if \<not> distnct \<and> 0 < req \<and> req \<le> length candidates then Some candidates else None)
      | _ \<Rightarrow> None)"

type_synonym select_result = "(string \<times> type_desc) list \<times> lit list list \<times> u64"

definition with_columns ::
    "select_plan \<Rightarrow> u64 \<Rightarrow> engine_error + lit list list \<Rightarrow> engine_error + select_result option" where
  "with_columns sp scanned r = bindE r (\<lambda>rows. Inr (Some (projection_columns (sp_projection sp), rows, scanned)))"

text \<open>\<open>special\<close>: the table is a view or has an access-hiding policy; then the general path is taken.\<close>

definition try_execute_select_base_table ::
    "eval_env \<Rightarrow> intern_env \<Rightarrow> (nat \<Rightarrow> bool) \<Rightarrow> bool \<Rightarrow> nat list option \<Rightarrow> string list option \<Rightarrow>
     engine_error + table_schema \<times> table_data \<Rightarrow> base_table_ref \<Rightarrow> bool \<Rightarrow> select_item list \<Rightarrow> expr option \<Rightarrow>
     order_by list \<Rightarrow> limit_clause option \<Rightarrow> lit list \<Rightarrow> u64 option \<Rightarrow> engine_error + select_result option" where
  "try_execute_select_base_table env ie expired special vec flags tbl base distnct projection predicate order limit args as_of =
     (if special then Inr None
      else bindE tbl (\<lambda>(schema, td).
        let sp = prepare_select env ie schema flags base projection predicate order args as_of in
        case vector_path distnct limit vec of
          Some candidates \<Rightarrow>
            bindE (scan_candidates env ie sp schema (td_rows td) candidates select_acc_init) (\<lambda>acc.
              with_columns sp (sa_scanned acc) (finish_select env sp False limit acc))
        | None \<Rightarrow>
            (case index_prefilter_candidates (ev_codecs env) schema td base predicate args of
               (Some candidates, _) \<Rightarrow>
                 bindE (scan_candidates env ie sp schema (td_rows td) candidates select_acc_init) (\<lambda>acc.
                   with_columns sp (sa_scanned acc) (finish_select env sp distnct limit acc))
             | (None, _) \<Rightarrow>
                 if \<not> distnct \<and> limit = None \<and> order = [] then
                   bindE (execute_select_batches env ie expired sp schema (td_rows td) 0 0 [] 0) (\<lambda>(rows, scanned).
                     with_columns sp scanned (Inr rows))
                 else
                   bindE (scan_rows env ie expired sp schema 0 (td_rows td) select_acc_init) (\<lambda>acc.
                     with_columns sp (sa_scanned acc) (finish_select env sp distnct limit acc)))))"

section \<open>The batch scan is the row scan\<close>

definition col_val :: "codecs \<Rightarrow> table_schema \<Rightarrow> string \<Rightarrow> row_entry \<Rightarrow> lit" where
  "col_val cd schema c e = (case schema_row_value cd schema (re_row e) c of Some v \<Rightarrow> v | None \<Rightarrow> LNull)"

lemma push_columns_map_of:
  "distinct cols \<Longrightarrow> map_of (push_columns cd schema (re_row e) cols cv) c =
     (if c \<in> set cols then map_option (\<lambda>vs. vs @ [col_val cd schema c e]) (map_of cv c) else map_of cv c)"
proof (induction cols arbitrary: cv)
  case (Cons d cols)
  let ?cv = "case map_of cv d of None \<Rightarrow> cv
     | Some vs \<Rightarrow> AList.update d (vs @ [case schema_row_value cd schema (re_row e) d of Some v \<Rightarrow> v | None \<Rightarrow> LNull]) cv"
  have "map_of ?cv c = (if c = d then map_option (\<lambda>vs. vs @ [col_val cd schema c e]) (map_of cv c) else map_of cv c)"
    by (auto simp: update_conv' col_val_def split: option.splits)
  then show ?case using Cons.IH [of ?cv] Cons.prems by auto
qed simp

text \<open>A batch holds the values of some entries, column by column.\<close>

definition batch_holds :: "codecs \<Rightarrow> table_schema \<Rightarrow> string list \<Rightarrow> row_entry list \<Rightarrow> (string \<times> lit list) list \<Rightarrow> bool" where
  "batch_holds cd schema cols es cv \<longleftrightarrow> (\<forall>c \<in> set cols. map_of cv c = Some (map (col_val cd schema c) es))"

lemma batch_holds_push:
  "distinct cols \<Longrightarrow> batch_holds cd schema cols es cv \<Longrightarrow>
   batch_holds cd schema cols (es @ [e]) (push_columns cd schema (re_row e) cols cv)"
  by (simp add: batch_holds_def push_columns_map_of)

lemma batch_holds_init: "batch_holds cd schema cols [] (map (\<lambda>c. (c, [])) (remdups cols))"
  by (auto simp: batch_holds_def map_of_map_restrict restrict_map_def)

lemma scan_batch_holds:
  assumes "distinct cols"
  shows "scan_batch_loop cd schema rows cols as_of cursor cv rc sc = (cursor', cv', rc', sc') \<Longrightarrow>
    batch_holds cd schema cols es cv \<Longrightarrow> rc = length es \<Longrightarrow> cursor \<le> length rows \<Longrightarrow>
    \<exists>new. filter (\<lambda>e. row_visible_at e as_of) (drop cursor rows) = new @ filter (\<lambda>e. row_visible_at e as_of) (drop cursor' rows) \<and>
      batch_holds cd schema cols (es @ new) cv' \<and> rc' = length (es @ new) \<and> cursor \<le> cursor' \<and> cursor' \<le> length rows \<and>
      (cursor' = length rows \<or> SELECT_BATCH_SIZE \<le> rc')"
  using assms
proof (induction cd schema rows cols as_of cursor cv rc sc arbitrary: es rule: scan_batch_loop.induct)
  case (1 cd schema rows cols as_of cursor cv rc sc)
  show ?case
  proof (cases "cursor < length rows \<and> rc < SELECT_BATCH_SIZE")
    case False
    then show ?thesis using "1.prems" by (subst (asm) scan_batch_loop.simps) auto
  next
    case more: True
    let ?e = "rows ! cursor"
    have d: "drop cursor rows = ?e # drop (cursor + 1) rows" using more by (simp add: Cons_nth_drop_Suc)
    show ?thesis
    proof (cases "row_visible_at ?e as_of")
      case True
      let ?cv = "push_columns cd schema (re_row ?e) cols cv"
      have l: "scan_batch_loop cd schema rows cols as_of (cursor + 1) ?cv (rc + 1) (saturating_succ sc) = (cursor', cv', rc', sc')"
        using "1.prems"(1) more True by (subst (asm) scan_batch_loop.simps) simp
      have "batch_holds cd schema cols (es @ [?e]) ?cv" by (rule batch_holds_push [OF "1.prems"(5,2)])
      from "1.IH"(2) [OF more _ l this] obtain new
        where "filter (\<lambda>e. row_visible_at e as_of) (drop (cursor + 1) rows) = new @ filter (\<lambda>e. row_visible_at e as_of) (drop cursor' rows)"
          "batch_holds cd schema cols (es @ ?e # new) cv'" "rc' = length (es @ ?e # new)" "cursor + 1 \<le> cursor'" "cursor' \<le> length rows"
          "cursor' = length rows \<or> SELECT_BATCH_SIZE \<le> rc'"
        using "1.prems"(3,5) more True by fastforce
      then show ?thesis using d True by (intro exI [of _ "?e # new"]) simp
    next
      case False
      have l: "scan_batch_loop cd schema rows cols as_of (cursor + 1) cv rc sc = (cursor', cv', rc', sc')"
        using "1.prems"(1) more False by (subst (asm) scan_batch_loop.simps) simp
      from "1.IH"(1) [OF more False l "1.prems"(2,3)] "1.prems"(5) more show ?thesis using d False by fastforce
    qed
  qed
qed

lemma scan_batch_Some:
  assumes "scan_row_entries_batch cd schema rows start cols as_of = Some (batch, cursor, sc)" "distinct cols" "start \<le> length rows"
  obtains es where "filter (\<lambda>e. row_visible_at e as_of) (drop start rows) = es @ filter (\<lambda>e. row_visible_at e as_of) (drop cursor rows)"
    "batch_holds cd schema cols es (cb_values batch)" "cb_row_count batch = length es" "cursor \<le> length rows"
proof -
  obtain cv rc where l: "scan_batch_loop cd schema rows cols as_of start (map (\<lambda>c. (c, [])) (remdups cols)) 0 0 = (cursor, cv, rc, sc)"
    and b: "batch = \<lparr>cb_loaded = cols, cb_values = cv, cb_row_count = rc\<rparr>"
    using assms(1) by (auto simp: scan_row_entries_batch_def split: prod.splits if_splits)
  from scan_batch_holds [OF assms(2) l batch_holds_init _ assms(3)] b show ?thesis by (auto intro: that)
qed

lemma scan_batch_None:
  assumes "scan_row_entries_batch cd schema rows start cols as_of = None" "distinct cols" "start \<le> length rows"
  shows "filter (\<lambda>e. row_visible_at e as_of) (drop start rows) = []"
proof -
  obtain cursor cv rc sc where l: "scan_batch_loop cd schema rows cols as_of start (map (\<lambda>c. (c, [])) (remdups cols)) 0 0 = (cursor, cv, rc, sc)"
    by (metis prod_cases4)
  have "rc = 0" using assms(1) l by (simp add: scan_row_entries_batch_def split: if_splits)
  with scan_batch_holds [OF assms(2) l batch_holds_init _ assms(3)] show ?thesis
    by (auto simp: SELECT_BATCH_SIZE_def)
qed

lemma batch_value:
  "batch_holds cd schema cols es (cb_values batch) \<Longrightarrow> c \<in> set cols \<Longrightarrow> i < length es \<Longrightarrow>
   select_batch_value batch i c = Some (col_val cd schema c (es ! i))"
  by (simp add: batch_holds_def select_batch_value_def)

lemma batch_ctx:
  assumes "batch_holds cd schema cols es (cb_values batch)" "i < length es"
    and "set cs \<subseteq> set cols" "\<forall>c \<in> set cs. canonical_schema_column_name schema c \<noteq> None"
  shows "select_batch_row_ctx_columns alias batch i cs ctx =
    table_row_ctx_from_row_columns cd alias schema (re_row (es ! i)) cs ctx"
  using assms(3,4)
proof (induction cs arbitrary: ctx)
  case (Cons c cs)
  have "schema_row_value cd schema (re_row (es ! i)) c = Some (col_val cd schema c (es ! i))"
    using Cons.prems by (auto simp: col_val_def schema_row_value_def canonical_schema_column_name_def split: option.splits)
  then show ?case using Cons batch_value [OF assms(1) _ assms(2), of c] by simp
qed simp

text \<open>The rows that a list of entries contributes, in order; the reference for both scans.\<close>

fun select_entries ::
    "eval_env \<Rightarrow> intern_env \<Rightarrow> select_plan \<Rightarrow> table_schema \<Rightarrow> row_entry list \<Rightarrow> engine_error + lit list list" where
  "select_entries env ie sp schema [] = Inr []"
| "select_entries env ie sp schema (e # es) =
     bindE (row_match_ctx env ie sp schema (re_row e)) (\<lambda>m.
     bindE (case m of None \<Rightarrow> Inr [] | Some ctx \<Rightarrow>
              bindE (eval_exprs env ctx (sp_args sp) (map fst (sp_projection sp))) (\<lambda>row. Inr [row])) (\<lambda>out.
     bindE (select_entries env ie sp schema es) (\<lambda>rest. Inr (out @ rest))))"

lemma select_entries_append:
  "select_entries env ie sp schema (xs @ ys) = Inr out \<longleftrightarrow>
   (\<exists>a b. select_entries env ie sp schema xs = Inr a \<and> select_entries env ie sp schema ys = Inr b \<and> out = a @ b)"
  by (induction xs arbitrary: out) (auto simp: bindE_eq_Inr)

lemma push_entry_rows:
  assumes "sp_order sp = []"
  shows "push_entry env ie sp schema e acc = Inr acc' \<longleftrightarrow>
    (if row_visible_at e (sp_as_of sp)
     then \<exists>out. select_entries env ie sp schema [e] = Inr out \<and>
       acc' = acc\<lparr>sa_rows := sa_rows acc @ out, sa_scanned := saturating_succ (sa_scanned acc)\<rparr>
     else acc' = acc)"
proof (cases "row_match_ctx env ie sp schema (re_row e)")
  case (Inr m)
  show ?thesis
  proof (cases m)
    case (Some ctx)
    then show ?thesis using Inr assms
      by (cases "eval_exprs env ctx (sp_args sp) (map fst (sp_projection sp))") (auto simp: push_entry_def Let_def)
  qed (use Inr in \<open>auto simp: push_entry_def Let_def\<close>)
qed (auto simp: push_entry_def Let_def)

lemma scan_rows_entries:
  assumes "sp_order sp = []" "\<forall>k. \<not> expired k"
  shows "(\<exists>acc'. scan_rows env ie expired sp schema i entries acc = Inr acc' \<and> sa_rows acc' = rows) \<longleftrightarrow>
    (\<exists>out. select_entries env ie sp schema (filter (\<lambda>e. row_visible_at e (sp_as_of sp)) entries) = Inr out \<and> rows = sa_rows acc @ out)"
proof (induction entries arbitrary: i acc)
  case Nil
  then show ?case by auto
next
  case (Cons e entries)
  have "(\<exists>acc'. scan_rows env ie expired sp schema i (e # entries) acc = Inr acc' \<and> sa_rows acc' = rows) \<longleftrightarrow>
      (\<exists>acc1. push_entry env ie sp schema e acc = Inr acc1 \<and>
        (\<exists>acc'. scan_rows env ie expired sp schema (Suc i) entries acc1 = Inr acc' \<and> sa_rows acc' = rows))"
    using assms(2) by (auto simp: checkE_def bindE_eq_Inr)
  also have "\<dots> \<longleftrightarrow> (\<exists>acc1. push_entry env ie sp schema e acc = Inr acc1 \<and>
        (\<exists>out. select_entries env ie sp schema (filter (\<lambda>e. row_visible_at e (sp_as_of sp)) entries) = Inr out \<and> rows = sa_rows acc1 @ out))"
    unfolding Cons.IH ..
  also have "\<dots> \<longleftrightarrow> (\<exists>out. select_entries env ie sp schema (filter (\<lambda>e. row_visible_at e (sp_as_of sp)) (e # entries)) = Inr out \<and> rows = sa_rows acc @ out)"
    unfolding push_entry_rows [OF assms(1)]
    using select_entries_append [of env ie sp schema "[e]" "filter (\<lambda>e. row_visible_at e (sp_as_of sp)) entries"]
    by (auto simp del: select_entries.simps)
  finally show ?case .
qed

text \<open>Without an interned plan a row of a batch is tested and projected as the entry is.\<close>

lemma batch_row_entry:
  assumes b: "batch_holds (ev_codecs env) schema (sp_batch_columns sp) es (cb_values batch)" "i < length es"
    and c: "\<forall>c \<in> set (sp_batch_columns sp). canonical_schema_column_name schema c \<noteq> None"
    and p: "sp_interned sp = None" "sp_ctx_columns sp = sp_batch_columns sp"
  shows "row_match_ctx env ie sp schema (re_row (es ! i)) =
    bindE (batch_row_matches env ie sp batch i) (\<lambda>m.
      Inr (if m then Some (select_batch_row_ctx_columns (sp_alias sp) batch i (sp_ctx_columns sp) []) else None))"
  using batch_ctx [OF b subset_refl c] p
  by (auto simp: row_match_ctx_def batch_row_matches_def Let_def build_table_row_ctx_def split: option.splits cong del: if_weak_cong)

lemma batch_select_entries:
  assumes b: "batch_holds (ev_codecs env) schema (sp_batch_columns sp) es (cb_values batch)"
    and c: "\<forall>c \<in> set (sp_batch_columns sp). canonical_schema_column_name schema c \<noteq> None"
    and p: "sp_interned sp = None" "sp_ctx_columns sp = sp_batch_columns sp"
  shows "\<forall>i \<in> set idxs. i < length es \<Longrightarrow>
    (\<exists>sel. filter_select_batch env ie sp batch idxs = Inr sel \<and> project_select_batch env sp batch sel = Inr out) \<longleftrightarrow>
    select_entries env ie sp schema (map ((!) es) idxs) = Inr out"
proof (induction idxs arbitrary: out)
  case (Cons i idxs)
  have i: "i < length es" using Cons.prems by simp
  show ?case
  proof (cases "batch_row_matches env ie sp batch i")
    case (Inl err)
    then show ?thesis using batch_row_entry [OF b i c p, of ie] by simp
  next
    case (Inr m)
    have "select_entries env ie sp schema (map ((!) es) (i # idxs)) = Inr out \<longleftrightarrow>
        (\<exists>a r. (if m then bindE (eval_exprs env (select_batch_row_ctx_columns (sp_alias sp) batch i (sp_ctx_columns sp) [])
               (sp_args sp) (map fst (sp_projection sp))) (\<lambda>row. Inr [row]) else Inr []) = Inr a \<and>
          select_entries env ie sp schema (map ((!) es) idxs) = Inr r \<and> out = a @ r)"
      using batch_row_entry [OF b i c p, of ie] Inr by (auto simp: bindE_eq_Inr)
    moreover have "(\<exists>sel. filter_select_batch env ie sp batch idxs = Inr sel \<and> project_select_batch env sp batch sel = Inr r) \<longleftrightarrow>
        select_entries env ie sp schema (map ((!) es) idxs) = Inr r" for r
      using Cons by simp
    ultimately show ?thesis using Inr
      by (cases m; cases "filter_select_batch env ie sp batch idxs") (auto simp: bindE_eq_Inr)
  qed
qed simp

lemma map_nth_upt: "map ((!) es) [0..<length es] = es"
  by (rule map_nth)

lemma execute_batches_entries:
  assumes c: "\<forall>c \<in> set (sp_batch_columns sp). canonical_schema_column_name schema c \<noteq> None"
    and p: "sp_interned sp = None" "sp_ctx_columns sp = sp_batch_columns sp" "distinct (sp_batch_columns sp)"
    and e: "\<forall>k. \<not> expired k"
  shows "cursor \<le> length trows \<Longrightarrow>
    (\<exists>sc'. execute_select_batches env ie expired sp schema trows k cursor rows sc = Inr (rows', sc')) \<longleftrightarrow>
    (\<exists>out. select_entries env ie sp schema (filter (\<lambda>e. row_visible_at e (sp_as_of sp)) (drop cursor trows)) = Inr out \<and> rows' = rows @ out)"
  using assms
proof (induction env ie expired sp schema trows k cursor rows sc rule: execute_select_batches.induct)
  case (1 env ie expired sp schema trows k cursor rows sc)
  let ?vis = "\<lambda>n. filter (\<lambda>e. row_visible_at e (sp_as_of sp)) (drop n trows)"
  show ?case
  proof (cases "scan_row_entries_batch (ev_codecs env) schema trows cursor (sp_batch_columns sp) (sp_as_of sp)")
    case None
    then show ?thesis using scan_batch_None [OF None "1.prems"(5,1)]
      by (subst execute_select_batches.simps) auto
  next
    case (Some r)
    obtain batch nxt bs where r: "r = (batch, nxt, bs)" by (cases r)
    obtain es where es: "?vis cursor = es @ ?vis nxt"
        "batch_holds (ev_codecs env) schema (sp_batch_columns sp) es (cb_values batch)" "cb_row_count batch = length es" "nxt \<le> length trows"
      using scan_batch_Some [OF Some [unfolded r] "1.prems"(5,1)] by blast
    let ?sc = "if unat sc + unat bs < 2 ^ 64 then sc + bs else - 1"
    have one: "(\<exists>sel. filter_select_batch env ie sp batch [0..<length es] = Inr sel \<and> project_select_batch env sp batch sel = Inr out) \<longleftrightarrow>
        select_entries env ie sp schema es = Inr out" for out
      using batch_select_entries [OF es(2) "1.prems"(2,3,4), of "[0..<length es]" ie out] by (simp add: map_nth_upt)
    have rest: "(\<exists>sc'. execute_select_batches env ie expired sp schema trows (k + 1) nxt (rows @ out) ?sc = Inr (rows', sc')) \<longleftrightarrow>
        (\<exists>out'. select_entries env ie sp schema (?vis nxt) = Inr out' \<and> rows' = (rows @ out) @ out')"
      if f: "filter_select_batch env ie sp batch [0..<length es] = Inr sel" and pr: "project_select_batch env sp batch sel = Inr out" for sel out
    proof -
      have ck: "checkE (expired k) = Inr ()" using "1.prems"(6) by (simp add: checkE_def)
      show ?thesis by (rule "1.IH" [OF Some [unfolded r] refl refl ck f [folded es(3)] pr es(4) "1.prems"(2,3,4,5,6)])
    qed
    have "(\<exists>sc'. execute_select_batches env ie expired sp schema trows k cursor rows sc = Inr (rows', sc')) \<longleftrightarrow>
        (\<exists>sel out. filter_select_batch env ie sp batch [0..<length es] = Inr sel \<and> project_select_batch env sp batch sel = Inr out \<and>
          (\<exists>sc'. execute_select_batches env ie expired sp schema trows (k + 1) nxt (rows @ out) ?sc = Inr (rows', sc')))"
      using "1.prems"(6) Some r es(3) by (subst execute_select_batches.simps) (auto simp: checkE_def bindE_eq_Inr)
    also have "\<dots> \<longleftrightarrow> (\<exists>out. select_entries env ie sp schema es = Inr out \<and>
          (\<exists>out'. select_entries env ie sp schema (?vis nxt) = Inr out' \<and> rows' = (rows @ out) @ out'))"
      using rest one by blast
    also have "\<dots> \<longleftrightarrow> (\<exists>out. select_entries env ie sp schema (?vis cursor) = Inr out \<and> rows' = rows @ out)"
      unfolding es(1) select_entries_append by auto
    finally show ?thesis .
  qed
qed

lemma gather_cols_distinct: "gather_cols al refs cols = Some out \<Longrightarrow> distinct cols \<Longrightarrow> distinct out"
  by (induction al refs cols rule: gather_cols.induct) (auto split: if_splits)

lemma prepare_select_plain:
  assumes "distinct (map cs_name (ts_columns schema))"
    and "sp = prepare_select env ie schema None base projection predicate order args as_of"
  shows "sp_interned sp = None" "sp_ctx_columns sp = sp_batch_columns sp" "distinct (sp_batch_columns sp)" "sp_order sp = order"
proof -
  have "distinct cols" if "collect_single_table_query_columns al projection predicate order = Some cols" for al cols
    using that gather_cols_distinct [of al _ "[]" cols]
    by (auto simp: collect_single_table_query_columns_def collect_single_table_expr_columns_def Let_def split: if_splits)
  then show "sp_interned sp = None" "sp_ctx_columns sp = sp_batch_columns sp" "distinct (sp_batch_columns sp)" "sp_order sp = order"
    using assms by (auto simp: prepare_select_def Let_def compile_interned_predicate_for_base_def split: option.splits)
qed

text \<open>
  (C8) The batch scan, taken for queries without ORDER BY, DISTINCT and LIMIT, gives the rows of
  the scan row by row on a table without interned columns: one succeeds exactly if the other does,
  with the same rows in the same order, if every column that the query names is in the schema, the
  column names of the schema are distinct and the deadline does not pass.
\<close>

theorem batch_select_is_row_select:
  assumes "sp = prepare_select env ie schema None base projection predicate [] args as_of"
    and "\<forall>c \<in> set (sp_batch_columns sp). canonical_schema_column_name schema c \<noteq> None"
    and "distinct (map cs_name (ts_columns schema))" and "\<forall>k. \<not> expired k"
  shows "(\<exists>sc. execute_select_batches env ie expired sp schema trows 0 0 [] 0 = Inr (rows, sc)) \<longleftrightarrow>
         (\<exists>acc. scan_rows env ie expired sp schema 0 trows select_acc_init = Inr acc \<and> sa_rows acc = rows)"
proof -
  note plain = prepare_select_plain [OF assms(3,1)]
  show ?thesis
    unfolding scan_rows_entries [OF plain(4) assms(4)]
    using execute_batches_entries [OF assms(2) plain(1,2,3) assms(4), of 0 trows env ie 0 "[]" 0 rows]
    by (simp add: select_acc_init_def)
qed

section \<open>Examples\<close>

definition demo_base :: base_table_ref where
  "demo_base = \<lparr>bt_db = ''shop'', bt_table = ''users'', bt_as = None\<rparr>"

text \<open>A query for one column of the demo table, with its order, limit and snapshot time.\<close>

definition demo_select ::
    "table_data \<Rightarrow> string \<Rightarrow> expr option \<Rightarrow> order_by list \<Rightarrow> limit_clause option \<Rightarrow> u64 option \<Rightarrow> engine_error + lit list list option" where
  "demo_select td column predicate order limit as_of =
     bindE (try_execute_select_base_table demo_eval demo_intern (\<lambda>_. False) False None None (Inr (query_schema, td)) demo_base
              False [(ECol column None, None)] predicate order limit [] as_of) (\<lambda>r. Inr (map_option (fst \<circ> snd) r))"

lemmas demo_scan_simps =
  scan_row_entries_batch_def scan_batch_loop.simps SELECT_BATCH_SIZE_def demo_table_def demo_entry_def row_visible_at_def
  saturating_succ_def schema_row_value_def query_schema_def demo_column_def eq_ignore_ascii_case_def to_ascii_lowercase_def
  ascii_lower_def less_eq_char_def char_of_def

definition nosuch_plan :: select_plan where
  "nosuch_plan = prepare_select demo_eval demo_intern query_schema None demo_base [(ECol ''nosuch'' None, None)] None [] [] None"

lemma nosuch_batch:
  "scan_row_entries_batch (ev_codecs demo_eval) query_schema (td_rows demo_table) 0 (sp_batch_columns nosuch_plan) (sp_as_of nosuch_plan) =
     Some (\<lparr>cb_loaded = [''nosuch''], cb_values = [(''nosuch'', [LNull, LNull])], cb_row_count = 2\<rparr>, 2, 2)"
  "scan_row_entries_batch (ev_codecs demo_eval) query_schema (td_rows demo_table) 2 (sp_batch_columns nosuch_plan) (sp_as_of nosuch_plan) = None"
proof -
  have cols: "sp_batch_columns nosuch_plan = [''nosuch'']" by code_simp
  have "sp_as_of nosuch_plan = None" by code_simp
  with cols show "scan_row_entries_batch (ev_codecs demo_eval) query_schema (td_rows demo_table) 0 (sp_batch_columns nosuch_plan) (sp_as_of nosuch_plan) =
     Some (\<lparr>cb_loaded = [''nosuch''], cb_values = [(''nosuch'', [LNull, LNull])], cb_row_count = 2\<rparr>, 2, 2)"
    "scan_row_entries_batch (ev_codecs demo_eval) query_schema (td_rows demo_table) 2 (sp_batch_columns nosuch_plan) (sp_as_of nosuch_plan) = None"
    by (simp_all add: demo_scan_simps)
qed

lemma nosuch_batches:
  "execute_select_batches demo_eval demo_intern (\<lambda>_. False) nosuch_plan query_schema (td_rows demo_table) 0 0 [] 0 =
     Inr ([[LNull], [LNull]], 2)"
proof -
  let ?b = "\<lparr>cb_loaded = [''nosuch''], cb_values = [(''nosuch'', [LNull, LNull])], cb_row_count = 2\<rparr>"
  have f: "filter_select_batch demo_eval demo_intern nosuch_plan ?b [0, 1] = Inr [0, 1]" by code_simp
  have p: "project_select_batch demo_eval nosuch_plan ?b [0, 1] = Inr [[LNull], [LNull]]" by code_simp
  have u: "[0..<2] = [0, 1 :: nat]" by (simp add: upt_rec)
  show ?thesis
    by (subst execute_select_batches.simps) (simp add: nosuch_batch(1) checkE_def u f p del: filter_select_batch.simps project_select_batch.simps One_nat_def,
      subst execute_select_batches.simps, simp add: nosuch_batch(2))
qed

text \<open>
  A column that does not exist is null in the batch scan, and an error in the scan row by row,
  which is taken as soon as the query has a LIMIT.
\<close>

theorem unknown_column_null_or_error:
  "demo_select demo_table ''nosuch'' None [] None None = Inr (Some [[LNull], [LNull]]) \<and>
   demo_select demo_table ''nosuch'' None [] (Some \<lparr>lc_limit = Some 5, lc_offset = None\<rparr>) None = Inl (EvalError ''unknown column nosuch'')"
proof
  show "demo_select demo_table ''nosuch'' None [] None None = Inr (Some [[LNull], [LNull]])"
    using nosuch_batches
    by (simp add: demo_select_def try_execute_select_base_table_def Let_def vector_path_def index_prefilter_candidates_def
        with_columns_def flip: nosuch_plan_def)
  have "scan_rows demo_eval demo_intern (\<lambda>_. False) nosuch_plan query_schema 0 (td_rows demo_table) select_acc_init =
      Inl (EvalError ''unknown column nosuch'')" by code_simp
  then show "demo_select demo_table ''nosuch'' None [] (Some \<lparr>lc_limit = Some 5, lc_offset = None\<rparr>) None =
      Inl (EvalError ''unknown column nosuch'')"
    by (simp add: demo_select_def try_execute_select_base_table_def Let_def vector_path_def index_prefilter_candidates_def
        with_columns_def flip: nosuch_plan_def)
qed

theorem batch_select_is_row_select_witness:
  "\<exists>sc. execute_select_batches demo_eval demo_intern (\<lambda>_. False)
      (prepare_select demo_eval demo_intern query_schema None demo_base [(ECol ''id'' None, None)] None [] [] None)
      query_schema (td_rows demo_table) 0 0 [] 0 = Inr ([[LU64 1], [LU64 2]], sc)"
proof -
  let ?sp = "prepare_select demo_eval demo_intern query_schema None demo_base [(ECol ''id'' None, None)] None [] [] None"
  have "sp_batch_columns ?sp = [''id'']" by code_simp
  moreover have "canonical_schema_column_name query_schema ''id'' = Some ''id''" by code_simp
  ultimately have cols: "\<forall>c \<in> set (sp_batch_columns ?sp). canonical_schema_column_name query_schema c \<noteq> None" by simp
  have "scan_rows demo_eval demo_intern (\<lambda>_. False) ?sp query_schema 0 (td_rows demo_table) select_acc_init =
      Inr \<lparr>sa_rows = [[LU64 1], [LU64 2]], sa_items = [], sa_scanned = 2\<rparr>" by code_simp
  moreover have "distinct (map cs_name (ts_columns query_schema))" by code_simp
  ultimately show ?thesis
    using batch_select_is_row_select [OF refl cols, of "\<lambda>_. False" "td_rows demo_table" "[[LU64 1], [LU64 2]]"] by auto
qed

section \<open>Rows a secondary index does not find\<close>

definition email_is :: "lit \<Rightarrow> expr" where
  "email_is l = binary_op ''eq'' (ECol ''email'' None) (ELit l)"

text \<open>The same condition in a form that the index is not used for.\<close>

definition twice_not :: "expr \<Rightarrow> expr" where
  "twice_not e = EOp ''not'' (Some (EOp ''not'' (Some e) None None None None None)) None None None None None"

text \<open>The second row is deleted at time 20.\<close>

definition deleted_table :: table_data where
  "deleted_table = demo_table\<lparr>td_rows := [demo_entry (demo_row 1 ''ann'') 1,
     (demo_entry (demo_row 2 ''bob'') 3)\<lparr>re_deleted := True, re_commit_ts_ms := 20\<rparr>]\<rparr>"

abbreviation by_id :: "order_by list" where
  "by_id \<equiv> [(ECol ''id'' None, None)]"

text \<open>The email column holds an integer.\<close>

definition number_table :: table_data where
  "number_table = demo_table\<lparr>td_rows := [demo_entry [(''email'', LI64 5), (''id'', LU64 1)] 1]\<rparr>"

text \<open>
  Two queries with the same meaning differ when one of them uses the index: a row deleted
  after the time of an AS OF query is not in the index, although it is visible at that time, and
  an integer literal of the other signedness has another index key than the value it is equal to.
\<close>

theorem index_lookup_incomplete:
  "demo_select deleted_table ''id'' (Some (twice_not (email_is (LStr ''bob'')))) by_id None (Some 10) = Inr (Some [[LU64 2]]) \<and>
   demo_select deleted_table ''id'' (Some (email_is (LStr ''bob''))) by_id None (Some 10) = Inr (Some []) \<and>
   demo_select number_table ''id'' (Some (twice_not (email_is (LU64 5)))) by_id None None = Inr (Some [[LU64 1]]) \<and>
   demo_select number_table ''id'' (Some (email_is (LU64 5))) by_id None None = Inr (Some [])"
  by (intro conjI) code_simp+

end
