(* ===== verification/Query_Lookup.thy ===== *)
theory Query_Lookup
  imports Query_Select
begin

text \<open>
  What a secondary index contributes to a query: under which conditions on the data the scan of
  the candidates finds the rows of a full scan.
\<close>

section \<open>A true predicate satisfies its equality filters\<close>

lemma eval_and_true:
  "eval_and_list rs sn = Inr v \<Longrightarrow> lit_truth v = Some True \<Longrightarrow> \<forall>r \<in> set rs. \<exists>w. r = Inr w \<and> lit_truth w = Some True"
proof (induction rs arbitrary: sn)
  case (Cons r rs)
  then obtain w where w: "r = Inr w" by (auto simp: bindE_eq_Inr)
  have "lit_truth w = Some True"
  proof (cases "lit_truth w")
    case None
    then have e: "eval_and_list rs True = Inr v" using Cons.prems w by simp
    have "lit_truth v \<noteq> Some True" using e
    proof (induction rs)
      case (Cons r rs)
      then show ?case by (auto simp: bindE_eq_Inr split: option.splits bool.splits)
    qed auto
    then show ?thesis using Cons.prems by simp
  next
    case (Some b)
    then show ?thesis using Cons.prems w by (cases b) auto
  qed
  then show ?case using Cons w by auto
qed simp

text \<open>The condition that a filter stands for, in a row context.\<close>

definition filter_holds :: "eval_env \<Rightarrow> row_ctx \<Rightarrow> string \<Rightarrow> string \<Rightarrow> lit \<Rightarrow> bool" where
  "filter_holds env ctx al c w \<longleftrightarrow>
     (\<exists>t u. (t = None \<or> t = Some al) \<and> eval_col [] (Some ctx) c t = Inr u \<and>
        (cmp_lit env u w = OEqual \<or> cmp_lit env w u = OEqual))"

lemma eq_filter_members:
  assumes "(c, w) \<in> set (eq_filter al args a b)"
  obtains t e where "t = None \<or> t = Some al" "expr_const_value e args = Some w"
    "a = Some (ECol c t) \<and> b = Some e \<or> b = Some (ECol c t) \<and> a = Some e"
  using assms
  by (cases a; cases b) (auto simp: eq_filter_def Let_def split: option.splits expr.splits if_splits)

lemma eq_filter_holds:
  assumes f: "(c, w) \<in> set (eq_filter al args a b)"
    and v: "eval_expr env [] (Some ctx) args (EOp ''eq'' a b vargs lst lo hi) = Inr v" "lit_truth v = Some True"
  shows "filter_holds env ctx al c w"
proof -
  obtain t e where t: "t = None \<or> t = Some al" and e: "expr_const_value e args = Some w"
    and ab: "a = Some (ECol c t) \<and> b = Some e \<or> b = Some (ECol c t) \<and> a = Some e"
    using eq_filter_members [OF f] by blast
  obtain va vb where ev: "map_option (eval_expr env [] (Some ctx) args) a = Some (Inr va)"
      "map_option (eval_expr env [] (Some ctx) args) b = Some (Inr vb)"
    and r: "null_or va vb (Inr (LBool (comparison ''eq'' (cmp_lit env va vb)))) = Inr v"
    using v(1) by (cases a; cases b) (auto simp: eval_op_def with_operands_def required_def evalE_def bindE_eq_Inr)
  have eq: "cmp_lit env va vb = OEqual" using r v(2) by (auto simp: null_or_def comparison_def split: if_splits)
  show ?thesis using ab ev eq t const_value_eval [OF e, of env "[]" "Some ctx"]
    unfolding filter_holds_def by auto
qed

lemma all_some_members: "all_some (map f es) = Some ps \<Longrightarrow> p \<in> set ps \<Longrightarrow> \<exists>e \<in> set es. f e = Some p"
  by (induction es arbitrary: ps) (auto split: option.splits)

lemma collected_filters_hold:
  "collect_index_eq_filters al args e = Some pairs \<Longrightarrow> (c, w) \<in> set pairs \<Longrightarrow>
   eval_expr env [] (Some ctx) args e = Inr v \<Longrightarrow> lit_truth v = Some True \<Longrightarrow> filter_holds env ctx al c w"
proof (induction al args e arbitrary: pairs v rule: collect_index_eq_filters.induct)
  case (1 al args op a b vargs lst lo hi)
  show ?case
  proof (cases "op = ''and''")
    case True
    let ?es = "variadic a b vargs"
    obtain ps where ps: "all_some (map (collect_index_eq_filters al args) ?es) = Some ps" "pairs = concat ps"
      using "1.prems"(1) True by (auto simp: variadic_map)
    then obtain p where p: "p \<in> set ps" "(c, w) \<in> set p" using "1.prems"(2) by auto
    then obtain e where e: "e \<in> set ?es" "collect_index_eq_filters al args e = Some p" using all_some_members [OF ps(1)] by blast
    have "eval_and_list (map (eval_expr env [] (Some ctx) args) ?es) False = Inr v"
      using "1.prems"(3) True by (simp add: eval_op_def variadic_map)
    then obtain u where u: "eval_expr env [] (Some ctx) args e = Inr u" "lit_truth u = Some True"
      using eval_and_true [OF _ "1.prems"(4)] e(1) by fastforce
    have "a = Some e \<or> b = Some e \<or> (\<exists>xs. vargs = Some xs \<and> e \<in> set xs)" using variadic_members [OF e(1)] .
    then show ?thesis using "1.IH"(1,2,3) True e(2) p(2) u by auto
  next
    case False
    then show ?thesis using "1.prems" eq_filter_holds [of c w al args a b env ctx vargs lst lo hi v]
      by (auto split: if_splits)
  qed
qed auto

lemma operand_columns:
  "a = Some e \<or> b = Some e \<or> (\<exists>xs. vargs = Some xs \<and> e \<in> set xs) \<Longrightarrow>
   set (fst (collect_expr_cols e)) \<subseteq> set (fst (collect_expr_cols (EOp op a b vargs lst lo hi)))"
  by (elim disjE exE conjE) (auto simp: Let_def)

lemma collected_columns:
  "collect_index_eq_filters al args e = Some pairs \<Longrightarrow> (c, w) \<in> set pairs \<Longrightarrow>
   \<exists>t. (t, c) \<in> set (fst (collect_expr_cols e))"
proof (induction al args e arbitrary: pairs rule: collect_index_eq_filters.induct)
  case (1 al args op a b vargs lst lo hi)
  show ?case
  proof (cases "op = ''and''")
    case True
    let ?es = "variadic a b vargs"
    obtain ps where ps: "all_some (map (collect_index_eq_filters al args) ?es) = Some ps" "pairs = concat ps"
      using "1.prems"(1) True by (auto simp: variadic_map)
    then obtain p where p: "p \<in> set ps" "(c, w) \<in> set p" using "1.prems"(2) by auto
    then obtain e where e: "e \<in> set ?es" "collect_index_eq_filters al args e = Some p" using all_some_members [OF ps(1)] by blast
    have m: "a = Some e \<or> b = Some e \<or> (\<exists>xs. vargs = Some xs \<and> e \<in> set xs)" using variadic_members [OF e(1)] .
    then have "\<exists>t. (t, c) \<in> set (fst (collect_expr_cols e))" using "1.IH" True e(2) p(2) by auto
    then show ?thesis using operand_columns [OF m] by blast
  next
    case False
    then have "(c, w) \<in> set (eq_filter al args a b)" using "1.prems" by (auto split: if_splits)
    then obtain t where "a = Some (ECol c t) \<or> b = Some (ECol c t)" using eq_filter_members by blast
    then have "set (fst (collect_expr_cols (ECol c t))) \<subseteq> set (fst (collect_expr_cols (EOp op a b vargs lst lo hi)))"
      by (intro operand_columns) blast
    moreover have "(t, c) \<in> set (fst (collect_expr_cols (ECol c t)))" by simp
    ultimately show ?thesis by blast
  qed
qed auto

section \<open>The filtered columns in the row context\<close>

lemma ctx_key_inject [simp]: "ctx_key al c = ctx_key al d \<longleftrightarrow> c = d"
  by (simp add: ctx_key_def)

lemma ctx_columns_lookup:
  "map_of (table_row_ctx_from_row_columns cd al schema row cols ctx) (ctx_key al c) =
     (if c \<in> set cols \<and> schema_row_value cd schema row c \<noteq> None then schema_row_value cd schema row c
      else map_of ctx (ctx_key al c))"
  by (induction cols arbitrary: ctx) (auto split: option.splits)

lemma ctx_columns_sorted: "bt_ok ctx \<Longrightarrow> bt_ok (table_row_ctx_from_row_columns cd al schema row cols ctx)"
  by (induction cols arbitrary: ctx) (auto split: option.splits)

lemma eval_col_loaded:
  assumes "eval_col [] (Some ctx) c t = Inr u" "t = None \<or> t = Some al" "map_of ctx (ctx_key al c) = Some v"
  shows "u = v"
proof (cases t)
  case None
  have "(ctx_key al c, v) \<in> set (filter (\<lambda>(k, v). ends_with (''.'' @ c) k) ctx)"
    using map_of_SomeD [OF assms(3)] by (auto simp: ends_with_def ctx_key_def suffix_def)
  moreover obtain k where "filter (\<lambda>(k, v). ends_with (''.'' @ c) k) ctx = [(k, u)]"
    using assms(1) None by (auto simp: eval_col_def evalE_def split: list.splits)
  ultimately have "(ctx_key al c, v) \<in> set [(k, u)]" by metis
  then show ?thesis by simp
next
  case (Some t')
  then show ?thesis using assms by (auto simp: eval_col_def ctx_key_def)
qed

lemma gather_cols_members: "gather_cols al refs cols = Some out \<Longrightarrow> (t, c) \<in> set refs \<or> c \<in> set cols \<Longrightarrow> c \<in> set out"
  by (induction al refs cols rule: gather_cols.induct) (auto split: if_splits)

lemma filtered_column_loaded:
  assumes sp: "sp = prepare_select env ie schema None base projection (Some p) [] args None"
    and c: "collect_index_eq_filters (base_alias base) args p = Some pairs" "(c, w) \<in> set pairs"
    and canon: "canonical_schema_column_name schema c = Some c"
  shows "c \<in> set (sp_batch_columns sp)"
proof -
  obtain t where t: "(t, c) \<in> set (fst (collect_expr_cols p))" using collected_columns [OF c] by blast
  show ?thesis
  proof (cases "collect_single_table_query_columns (base_alias base) projection (Some p) []")
    case None
    have "c \<in> set (map cs_name (ts_columns schema))"
      using canon by (auto simp: canonical_schema_column_name_def find_Some_iff)
    then show ?thesis using sp None by (simp add: prepare_select_def Let_def compile_interned_predicate_for_base_def)
  next
    case (Some cols)
    then have "c \<in> set cols"
      using gather_cols_members [of "base_alias base" _ "[]" cols t c] t
      by (auto simp: collect_single_table_query_columns_def collect_single_table_expr_columns_def Let_def split: if_splits)
    then show ?thesis using sp Some by (simp add: prepare_select_def Let_def compile_interned_predicate_for_base_def)
  qed
qed

text \<open>
  The vals of the filtered columns: the row has the column under the name that the query uses,
  and a value that compares equal to the constant is the constant.
\<close>

definition filters_typed :: "eval_env \<Rightarrow> table_schema \<Rightarrow> (string \<times> lit) list \<Rightarrow> row_object \<Rightarrow> bool" where
  "filters_typed env schema pairs row \<longleftrightarrow>
     (\<forall>(c, w) \<in> set pairs. canonical_schema_column_name schema c = Some c \<and>
        (\<exists>v. map_of row c = Some v \<and> (cmp_lit env v w = OEqual \<or> cmp_lit env w v = OEqual \<longrightarrow> v = w)))"

lemma matching_row_has_filters:
  assumes sp: "sp = prepare_select env ie schema None base projection (Some p) [] args None"
    and pairs: "collect_index_eq_filters (base_alias base) args p = Some pairs"
    and m: "row_match_ctx env ie sp schema row = Inr (Some ctx)"
    and ty: "filters_typed env schema pairs row" and cw: "(c, w) \<in> set pairs"
  shows "map_of row c = Some w"
proof -
  let ?al = "base_alias base" and ?cd = "ev_codecs env"
  have plain: "sp_interned sp = None" "sp_alias sp = ?al" "sp_predicate sp = Some p" "sp_args sp = args"
    using sp by (simp_all add: prepare_select_def Let_def compile_interned_predicate_for_base_def)
  let ?ctx = "table_row_ctx_from_row_columns ?cd ?al schema row (sp_batch_columns sp) []"
  obtain v where v: "eval_expr env [] (Some ?ctx) args p = Inr v" "lit_truth v = Some True"
    using m plain
    by (auto simp: row_match_ctx_def Let_def build_table_row_ctx_def eval_predicate_def eval_predicate_truth_def bindE_eq_Inr
        split: if_splits)
  obtain x where canon: "canonical_schema_column_name schema c = Some c" and x: "map_of row c = Some x"
    and xw: "cmp_lit env x w = OEqual \<or> cmp_lit env w x = OEqual \<longrightarrow> x = w"
    using ty cw by (auto simp: filters_typed_def)
  have "schema_row_value ?cd schema row c = Some x"
    using canon x by (auto simp: canonical_schema_column_name_def schema_row_value_def)
  then have look: "map_of ?ctx (ctx_key ?al c) = Some x"
    using filtered_column_loaded [OF sp pairs cw canon] by (simp add: ctx_columns_lookup)
  obtain t u where t: "t = None \<or> t = Some ?al" "eval_col [] (Some ?ctx) c t = Inr u"
      "cmp_lit env u w = OEqual \<or> cmp_lit env w u = OEqual"
    using collected_filters_hold [OF pairs cw v] by (auto simp: filter_holds_def)
  then have "u = x" using eval_col_loaded [OF t(2,1) look] by simp
  then show ?thesis using x xw t(3) by auto
qed

section \<open>The candidates\<close>

lemma first_filters_members: "map_of (first_filters pairs filters) c = Some w \<Longrightarrow> (c, w) \<in> set pairs \<or> map_of filters c = Some w"
  by (induction pairs filters rule: first_filters.induct) (auto simp: map_add_def split: if_splits option.splits)

lemma column_values_agree:
  "column_values cols filters = Some vals \<Longrightarrow> \<forall>c w. map_of filters c = Some w \<longrightarrow> map_of row c = Some w
   \<Longrightarrow> column_values cols row = Some vals"
  by (induction cols arbitrary: vals) (auto split: option.splits)

lemma best_candidates_bucket:
  "best_candidates cd filters ixs best = Some cands \<Longrightarrow>
   (\<exists>ix \<in> set ixs. \<exists>vals. si_columns ix \<noteq> [] \<and> column_values (si_columns ix) filters = Some vals \<and>
      cands = bucket (si_keys ix) (secondary_index_value_key cd vals)) \<or>
   (\<exists>n. best = Some (n, cands))"
proof (induction cd filters ixs best rule: best_candidates.induct)
  case (2 cd filters ix ixs best)
  show ?case
  proof (cases "if si_columns ix = [] then None else column_values (si_columns ix) filters")
    case None
    then show ?thesis using 2 by auto
  next
    case (Some vals)
    then have "si_columns ix \<noteq> []" "column_values (si_columns ix) filters = Some vals" by (auto split: if_splits)
    then show ?thesis using "2.IH"(2) [OF Some refl refl] "2.prems" Some
      by (auto simp: Let_def split: option.splits if_splits)
  qed
qed auto

lemma index_bucket_exact:
  assumes "index_exact cd (live_map rows) ix" "column_values (si_columns ix) row = Some vals"
  shows "live_map rows i = Some row \<Longrightarrow> i \<in> set (bucket (si_keys ix) (secondary_index_value_key cd vals))"
    and "distinct (bucket (si_keys ix) k)" and "j \<in> set (bucket (si_keys ix) k) \<Longrightarrow> live_map rows j \<noteq> None"
proof -
  have mem: "j \<in> set (bucket (si_keys ix) k) \<longleftrightarrow> (\<exists>r. live_map rows j = Some r \<and> secondary_index_row_key cd (si_columns ix) r = Some k)" for j k
    using assms(1) by (simp add: index_exact_def)
  have "si_columns ix \<noteq> []" using assms(1) by (simp add: index_exact_def)
  then show "live_map rows i = Some row \<Longrightarrow> i \<in> set (bucket (si_keys ix) (secondary_index_value_key cd vals))"
    unfolding mem using assms(2) by (simp add: row_key_conv)
  show "distinct (bucket (si_keys ix) k)"
    using assms(1) by (cases "map_of (si_keys ix) k") (auto simp: index_exact_def bucket_def)
  show "j \<in> set (bucket (si_keys ix) k) \<Longrightarrow> live_map rows j \<noteq> None" unfolding mem by auto
qed

lemma register_distinct:
  "distinct (map fst (td_secondary td)) \<Longrightarrow> distinct (map fst (td_secondary (snd (register_secondary_index cd schema td cols inc))))"
  by (simp add: register_secondary_index_def Let_def distinct_update)

lemma register_defs_distinct:
  "distinct (map fst (td_secondary td)) \<Longrightarrow> distinct (map fst (td_secondary (register_defs cd schema ds td)))"
  by (induction ds arbitrary: td) (simp_all add: register_distinct)

lemma rebuild_distinct:
  "distinct (map fst (td_secondary td)) \<Longrightarrow> distinct (map fst (td_secondary (rebuild_secondary_indexes_if_stale cd schema td)))"
  by (simp add: rebuild_secondary_indexes_if_stale_def Let_def ensure_mysql_compat_secondary_indexes_def map_indexes_def
      register_defs_distinct comp_def case_prod_unfold)

lemma candidates_complete:
  assumes cands: "index_prefilter_candidates cd schema td base (Some p) args = (Some cands, td')"
    and ok: "secs_ok cd schema td" "index_names_ok schema" "distinct (map fst (td_secondary td))"
    and pairs: "collect_index_eq_filters (base_alias base) args p = Some pairs"
  shows "distinct cands" "\<forall>j \<in> set cands. live_map (td_rows td) j \<noteq> None"
    and "live_map (td_rows td) i = Some row \<Longrightarrow> \<forall>(c, w) \<in> set pairs. map_of row c = Some w \<Longrightarrow> i \<in> set cands"
proof -
  let ?td = "rebuild_secondary_indexes_if_stale cd schema td" and ?fs = "first_filters pairs []"
  have "best_candidates cd ?fs (map snd (td_secondary ?td)) None = Some cands"
    using cands pairs
    by (auto simp: index_prefilter_candidates_def secondary_index_candidates_def rebuild_secondary_indexes_if_stale_def Let_def split: if_splits)
  then obtain ix vals where ix: "ix \<in> set (map snd (td_secondary ?td))" "column_values (si_columns ix) ?fs = Some vals"
      "cands = bucket (si_keys ix) (secondary_index_value_key cd vals)"
    using best_candidates_bucket by blast
  then obtain k where "(k, ix) \<in> set (td_secondary ?td)" by auto
  then have "map_of (td_secondary ?td) k = Some ix" using rebuild_distinct [OF ok(3)] by (simp add: map_of_eq_Some_iff)
  then have ex: "index_exact cd (live_map (td_rows td)) ix" using rebuild_secs_exact [OF ok(1,2)] by (simp add: secs_exact_def)
  show "distinct cands" "\<forall>j \<in> set cands. live_map (td_rows td) j \<noteq> None"
    using index_bucket_exact(2,3) [OF ex ix(2)] ix(3) by auto
  assume live: "live_map (td_rows td) i = Some row" and f: "\<forall>(c, w) \<in> set pairs. map_of row c = Some w"
  have "\<forall>c w. map_of ?fs c = Some w \<longrightarrow> map_of row c = Some w" using first_filters_members [of pairs "[]"] f by fastforce
  then have "column_values (si_columns ix) row = Some vals" by (rule column_values_agree [OF ix(2)])
  then show "i \<in> set cands" using index_bucket_exact(1) [OF ex _ live] ix(3) by simp
qed

section \<open>The two scans\<close>

lemma mset_concat_subset:
  assumes "distinct xs" "distinct ys" "set ys \<subseteq> set xs" "\<forall>x \<in> set xs - set ys. g x = []"
  shows "mset (concat (map g ys)) = mset (concat (map g xs))"
proof -
  have "mset (concat (map g zs)) = (\<Sum>z \<in> set zs. mset (g z))" if "distinct zs" for zs
    using that by (simp add: mset_concat comp_def sum_list_distinct_conv_sum_set)
  moreover have "(\<Sum>x \<in> set ys. mset (g x)) = (\<Sum>x \<in> set xs. mset (g x))"
    using assms by (intro sum.mono_neutral_left) auto
  ultimately show ?thesis using assms by simp
qed

text \<open>What one row contributes to a query without ORDER BY.\<close>

definition row_part :: "eval_env \<Rightarrow> intern_env \<Rightarrow> select_plan \<Rightarrow> table_schema \<Rightarrow> row_entry \<Rightarrow> lit list list" where
  "row_part env ie sp schema e = (case select_entries env ie sp schema [e] of Inr out \<Rightarrow> out | Inl _ \<Rightarrow> [])"

lemma select_entries_parts:
  "select_entries env ie sp schema es = Inr out \<longleftrightarrow>
   (\<forall>e \<in> set es. \<exists>r. select_entries env ie sp schema [e] = Inr r) \<and> out = concat (map (row_part env ie sp schema) es)"
proof (induction es arbitrary: out)
  case (Cons e es)
  have "select_entries env ie sp schema (e # es) = Inr out \<longleftrightarrow>
      (\<exists>a b. select_entries env ie sp schema [e] = Inr a \<and> select_entries env ie sp schema es = Inr b \<and> out = a @ b)"
    using select_entries_append [of env ie sp schema "[e]" es out] by simp
  moreover have "row_part env ie sp schema e = a" if "select_entries env ie sp schema [e] = Inr a" for a
    using that by (simp add: row_part_def)
  ultimately show ?case unfolding Cons.IH by (auto simp del: select_entries.simps)
qed auto

lemma scan_candidates_entries:
  assumes "sp_order sp = []" "\<forall>i \<in> set idxs. i < length trows \<and> row_visible_at (trows ! i) (sp_as_of sp)"
  shows "(\<exists>acc'. scan_candidates env ie sp schema trows idxs acc = Inr acc' \<and> sa_rows acc' = rows) \<longleftrightarrow>
    (\<exists>out. select_entries env ie sp schema (map ((!) trows) idxs) = Inr out \<and> rows = sa_rows acc @ out)"
  using assms(2)
proof (induction idxs arbitrary: acc)
  case (Cons i idxs)
  have "(\<exists>acc'. scan_candidates env ie sp schema trows (i # idxs) acc = Inr acc' \<and> sa_rows acc' = rows) \<longleftrightarrow>
      (\<exists>acc1. push_entry env ie sp schema (trows ! i) acc = Inr acc1 \<and>
        (\<exists>acc'. scan_candidates env ie sp schema trows idxs acc1 = Inr acc' \<and> sa_rows acc' = rows))"
    using Cons.prems by (auto simp: bindE_eq_Inr)
  also have "\<dots> \<longleftrightarrow> (\<exists>acc1. push_entry env ie sp schema (trows ! i) acc = Inr acc1 \<and>
        (\<exists>out. select_entries env ie sp schema (map ((!) trows) idxs) = Inr out \<and> rows = sa_rows acc1 @ out))"
    using Cons.IH Cons.prems by simp
  also have "\<dots> \<longleftrightarrow> (\<exists>out. select_entries env ie sp schema (map ((!) trows) (i # idxs)) = Inr out \<and> rows = sa_rows acc @ out)"
    unfolding push_entry_rows [OF assms(1)]
    using select_entries_append [of env ie sp schema "[trows ! i]" "map ((!) trows) idxs"] Cons.prems
    by (auto simp del: select_entries.simps)
  finally show ?case .
qed auto

lemma live_entries: "filter (\<lambda>e. row_visible_at e None) rows = map ((!) rows) (filter (\<lambda>i. live_map rows i \<noteq> None) [0..<length rows])"
proof -
  have "filter (\<lambda>e. row_visible_at e None) rows = filter (\<lambda>e. row_visible_at e None) (map ((!) rows) [0..<length rows])"
    by (simp add: map_nth)
  also have "\<dots> = map ((!) rows) (filter (\<lambda>i. row_visible_at (rows ! i) None) [0..<length rows])"
    by (simp add: filter_map comp_def)
  also have "filter (\<lambda>i. row_visible_at (rows ! i) None) [0..<length rows] = filter (\<lambda>i. live_map rows i \<noteq> None) [0..<length rows]"
    by (rule filter_cong) (auto simp: row_visible_at_def live_map_def)
  finally show ?thesis .
qed

text \<open>A row without the values of the equality conditions contributes nothing.\<close>

lemma row_part_unmatched:
  assumes "sp = prepare_select env ie schema None base projection (Some p) [] args None"
    and "collect_index_eq_filters (base_alias base) args p = Some pairs"
    and "filters_typed env schema pairs (re_row e)" and "\<not> (\<forall>(c, w) \<in> set pairs. map_of (re_row e) c = Some w)"
  shows "row_part env ie sp schema e = []"
proof (cases "row_match_ctx env ie sp schema (re_row e)")
  case (Inr m)
  have "row_match_ctx env ie sp schema (re_row e) \<noteq> Inr (Some ctx)" for ctx
    using matching_row_has_filters [OF assms(1,2)] assms(3,4) by blast
  then have "m = None" using Inr by (cases m) auto
  then show ?thesis using Inr by (simp add: row_part_def)
qed (simp add: row_part_def)

text \<open>
  (C7) A query of the current rows without ORDER BY, on a table without interned columns, that goes
  through a secondary index returns the rows of the full scan, as a multiset: if the full scan
  succeeds, the table's indexes are current where their version says so, every live row has the
  columns of the equality conditions, and a value in such a column that compares equal to the
  constant is that constant (so not 1.50 against 1.5), then the candidates contain every matching
  row once.
\<close>

theorem index_scan_is_full_scan:
  assumes sp: "sp = prepare_select env ie schema None base projection (Some p) [] args None"
    and cands: "index_prefilter_candidates (ev_codecs env) schema td base (Some p) args = (Some cands, td')"
    and ok: "secs_ok (ev_codecs env) schema td" "index_names_ok schema" "distinct (map fst (td_secondary td))"
    and pairs: "collect_index_eq_filters (base_alias base) args p = Some pairs"
    and ty: "\<forall>i row. live_map (td_rows td) i = Some row \<longrightarrow> filters_typed env schema pairs row"
    and full: "scan_rows env ie (\<lambda>_. False) sp schema 0 (td_rows td) select_acc_init = Inr acc"
  shows "\<exists>acc'. scan_candidates env ie sp schema (td_rows td) cands select_acc_init = Inr acc' \<and>
    mset (sa_rows acc') = mset (sa_rows acc)"
proof -
  let ?rows = "td_rows td" and ?live = "filter (\<lambda>i. live_map (td_rows td) i \<noteq> None) [0..<length (td_rows td)]"
  let ?part = "\<lambda>i. row_part env ie sp schema (td_rows td ! i)"
  have plain: "sp_order sp = []" "sp_as_of sp = None" using sp by (simp_all add: prepare_select_def Let_def)
  note cc = candidates_complete [OF cands ok pairs]
  have init: "sa_rows select_acc_init = []" by (simp add: select_acc_init_def)
  have "\<exists>acc'. scan_rows env ie (\<lambda>_. False) sp schema 0 ?rows select_acc_init = Inr acc' \<and> sa_rows acc' = sa_rows acc"
    using full by blast
  then have "select_entries env ie sp schema (map ((!) ?rows) ?live) = Inr (sa_rows acc)"
    by (subst (asm) scan_rows_entries [OF plain(1)]) (simp_all only: plain(2) live_entries init append_Nil, blast+)
  then have parts: "(\<forall>e \<in> set (map ((!) ?rows) ?live). \<exists>r. select_entries env ie sp schema [e] = Inr r) \<and>
      sa_rows acc = concat (map (row_part env ie sp schema) (map ((!) ?rows) ?live))"
    by (rule select_entries_parts [THEN iffD1])
  then have all: "\<forall>i \<in> set ?live. \<exists>r. select_entries env ie sp schema [?rows ! i] = Inr r"
    and out: "sa_rows acc = concat (map ?part ?live)"
    by (simp_all add: comp_def del: select_entries.simps)
  have sub: "set cands \<subseteq> set ?live" using cc(2) by (auto dest: live_map_SomeD)
  have "?part i = []" if i: "i \<in> set ?live - set cands" for i
  proof -
    obtain row where row: "live_map ?rows i = Some row" using i by auto
    have "\<not> (\<forall>(c, w) \<in> set pairs. map_of row c = Some w)" using cc(3) [OF row] i by blast
    then show ?thesis using row_part_unmatched [OF sp pairs] ty row live_map_SomeD [OF row] by blast
  qed
  then have "mset (concat (map ?part cands)) = mset (concat (map ?part ?live))"
    by (intro mset_concat_subset cc(1) sub ballI) (simp_all add: distinct_filter)
  moreover have "select_entries env ie sp schema (map ((!) ?rows) cands) = Inr (concat (map ?part cands))"
    by (rule select_entries_parts [THEN iffD2]) (use all sub in \<open>auto simp: comp_def simp del: select_entries.simps\<close>)
  moreover have "\<forall>i \<in> set cands. i < length ?rows \<and> row_visible_at (?rows ! i) (sp_as_of sp)"
    using cc(2) plain(2) by (auto simp: row_visible_at_def dest: live_map_SomeD)
  ultimately have "\<exists>acc'. scan_candidates env ie sp schema ?rows cands select_acc_init = Inr acc' \<and> sa_rows acc' = concat (map ?part cands)"
    and "mset (concat (map ?part cands)) = mset (sa_rows acc)"
    using scan_candidates_entries [OF plain(1), of cands ?rows env ie schema select_acc_init "concat (map ?part cands)"] out init
    by (simp_all del: select_entries.simps)
  then show ?thesis by auto
qed

lemma filters_typed_str:
  "canonical_schema_column_name schema c = Some c \<Longrightarrow> map_of row c = Some (LStr s) \<Longrightarrow> filters_typed env schema [(c, LStr t)] row"
  by (simp add: filters_typed_def str_cmp_eq)

theorem index_scan_is_full_scan_witness:
  "\<exists>acc'. scan_candidates demo_eval demo_intern
       (prepare_select demo_eval demo_intern query_schema None demo_base [(ECol ''id'' None, None)] (Some (email_is (LStr ''bob''))) [] [] None)
       query_schema (td_rows demo_table) [1] select_acc_init = Inr acc' \<and> mset (sa_rows acc') = {#[LU64 2]#}"
proof -
  let ?p = "email_is (LStr ''bob'')"
  let ?sp = "prepare_select demo_eval demo_intern query_schema None demo_base [(ECol ''id'' None, None)] (Some ?p) [] [] None"
  have cd: "ev_codecs demo_eval = demo_codecs" by (simp add: demo_eval_def)
  have "fst (index_prefilter_candidates (ev_codecs demo_eval) query_schema demo_table demo_base (Some ?p) []) = Some [1]" by code_simp
  then obtain td' where cands: "index_prefilter_candidates (ev_codecs demo_eval) query_schema demo_table demo_base (Some ?p) [] = (Some [1], td')"
    by (metis fst_conv surj_pair)
  have defs: "mysql_compat_index_defs query_schema = mysql_compat_index_defs demo_schema"
    by (simp add: mysql_compat_index_defs_def query_schema_def)
  have ok: "secs_ok (ev_codecs demo_eval) query_schema demo_table" "index_names_ok query_schema" "distinct (map fst (td_secondary demo_table))"
    by (simp_all add: secs_ok_def demo_table_def index_names_ok_def defs)
  have pairs: "collect_index_eq_filters (base_alias demo_base) [] ?p = Some [(''email'', LStr ''bob'')]" by code_simp
  have canon: "canonical_schema_column_name query_schema ''email'' = Some ''email''" by code_simp
  have ty: "\<forall>i row. live_map (td_rows demo_table) i = Some row \<longrightarrow> filters_typed demo_eval query_schema [(''email'', LStr ''bob'')] row"
  proof (intro allI impI)
    fix i row assume "live_map (td_rows demo_table) i = Some row"
    then have "row = demo_row 1 ''ann'' \<or> row = demo_row 2 ''bob''"
      by (auto simp: live_map_def demo_table_def demo_entry_def less_Suc_eq nth_Cons' split: if_splits)
    then obtain s where "map_of row ''email'' = Some (LStr s)" by (auto simp: demo_row_def)
    then show "filters_typed demo_eval query_schema [(''email'', LStr ''bob'')] row" by (rule filters_typed_str [OF canon])
  qed
  obtain acc where full: "scan_rows demo_eval demo_intern (\<lambda>_. False) ?sp query_schema 0 (td_rows demo_table) select_acc_init = Inr acc"
    and rows: "sa_rows acc = [[LU64 2]]"
  proof -
    have "scan_rows demo_eval demo_intern (\<lambda>_. False) ?sp query_schema 0 (td_rows demo_table) select_acc_init =
        Inr \<lparr>sa_rows = [[LU64 2]], sa_items = [], sa_scanned = 2\<rparr>" by code_simp
    then show ?thesis using that by simp
  qed
  show ?thesis using index_scan_is_full_scan [OF refl cands ok pairs ty full] rows by simp
qed

end
