(* ===== verification/Query_Logic.thy ===== *)
theory Query_Logic
  imports Query_Plan
begin

text \<open>
  The logic of predicates: AND and OR are the connectives of three-valued logic, with the
  short-circuit order of the code for errors, and the comparison operators give the truth value of
  the order of the values.
\<close>

section \<open>Three-valued connectives\<close>

definition kleene_and :: "bool option list \<Rightarrow> bool option" where
  "kleene_and ts = (if Some False \<in> set ts then Some False else if None \<in> set ts then None else Some True)"

definition kleene_or :: "bool option list \<Rightarrow> bool option" where
  "kleene_or ts = (if Some True \<in> set ts then Some True else if None \<in> set ts then None else Some False)"

fun truth_lit :: "bool option \<Rightarrow> lit" where
  "truth_lit None = LNull"
| "truth_lit (Some t) = LBool t"

lemma lit_truth_truth_lit [simp]: "lit_truth (truth_lit t) = t"
  by (cases t) simp_all

text \<open>Operands up to the first error: an error shows only if no operand before it decides.\<close>

lemma eval_and_list_flag:
  "eval_and_list (map Inr vs @ rest) saw_null =
     (if Some False \<in> set (map lit_truth vs) then Inr (LBool False)
      else eval_and_list rest (saw_null \<or> None \<in> set (map lit_truth vs)))"
  by (induction vs arbitrary: saw_null) (auto split: option.splits bool.splits)

lemma eval_or_list_flag:
  "eval_or_list (map Inr vs @ rest) saw_null =
     (if Some True \<in> set (map lit_truth vs) then Inr (LBool True)
      else eval_or_list rest (saw_null \<or> None \<in> set (map lit_truth vs)))"
  by (induction vs arbitrary: saw_null) (auto split: option.splits bool.splits)

lemma eval_and_list_kleene:
  "eval_and_list (map Inr vs) False = Inr (truth_lit (kleene_and (map lit_truth vs)))"
  using eval_and_list_flag [of vs "[]" False] by (simp add: kleene_and_def)

lemma eval_or_list_kleene:
  "eval_or_list (map Inr vs) False = Inr (truth_lit (kleene_or (map lit_truth vs)))"
  using eval_or_list_flag [of vs "[]" False] by (simp add: kleene_or_def)

text \<open>
  (C21) AND and OR are conjunction and disjunction of three-valued logic on the values of their
  operands. If an operand fails, the result is that failure unless an operand before it decides:
  operands behind the deciding one are not looked at.
\<close>

theorem connectives_are_kleene:
  assumes "map (eval_expr env row ctx args) es = map Inr vs" and "eval_expr env row ctx args bad = Inl e"
  shows "eval_expr env row ctx args (EOp ''and'' a b (Some es) l lo hi) = Inr (truth_lit (kleene_and (map lit_truth vs))) \<and>
     eval_expr env row ctx args (EOp ''or'' a b (Some es) l lo hi) = Inr (truth_lit (kleene_or (map lit_truth vs))) \<and>
     eval_expr env row ctx args (EOp ''and'' a b (Some (es @ bad # rest)) l lo hi) =
       (if Some False \<in> set (map lit_truth vs) then Inr (LBool False) else Inl e) \<and>
     eval_expr env row ctx args (EOp ''or'' a b (Some (es @ bad # rest)) l lo hi) =
       (if Some True \<in> set (map lit_truth vs) then Inr (LBool True) else Inl e)"
  using assms
  by (simp add: eval_op_def variadic_def eval_and_list_kleene eval_or_list_kleene eval_and_list_flag eval_or_list_flag
      del: set_map)

theorem connectives_are_kleene_witness:
  "eval_expr demo_eval [] None [] (EOp ''and'' None None (Some [ELit (LBool False), ELit LNull]) None None None) = Inr (LBool False) \<and>
   eval_expr demo_eval [] None [] (EOp ''or'' None None (Some [ELit (LBool False), ELit LNull]) None None None) = Inr LNull \<and>
   eval_expr demo_eval [] None [] (EOp ''and'' None None (Some [ELit (LBool False), ELit LNull, EParam 0]) None None None) = Inr (LBool False) \<and>
   eval_expr demo_eval [] None [] (EOp ''or'' None None (Some [ELit (LBool False), ELit LNull, EParam 0]) None None None) = evalE ''missing param''"
  using connectives_are_kleene [of demo_eval "[]" None "[]" "[ELit (LBool False), ELit LNull]" "[LBool False, LNull]" "EParam 0"
          "EvalError ''missing param''" None None None None None "[]"]
  by (simp add: kleene_and_def kleene_or_def evalE_def)

text \<open>De Morgan's law holds for the code as it runs, failures included.\<close>

definition not_expr :: "expr \<Rightarrow> expr" where
  "not_expr e = EOp ''not'' (Some e) None None None None None"

lemma eval_not:
  "eval_expr env row ctx args (not_expr e) =
     bindE (eval_expr env row ctx args e) (\<lambda>v. Inr (truth_lit (map_option Not (lit_truth v))))"
  by (cases "eval_expr env row ctx args e")
     (auto simp: not_expr_def eval_op_def required_def split: option.splits)

lemma and_list_de_morgan:
  "bindE (eval_and_list xs saw_null) (\<lambda>v. Inr (truth_lit (map_option Not (lit_truth v)))) =
   eval_or_list (map (\<lambda>x. bindE x (\<lambda>v. Inr (truth_lit (map_option Not (lit_truth v))))) xs) saw_null"
proof (induction xs arbitrary: saw_null)
  case (Cons x xs)
  show ?case
  proof (cases x)
    case (Inr v)
    then show ?thesis using Cons.IH by (cases "lit_truth v") (auto split: bool.splits)
  qed simp
qed simp

theorem not_and_is_or_not:
  "eval_expr env row ctx args (not_expr (EOp ''and'' a b (Some es) l lo hi)) =
   eval_expr env row ctx args (EOp ''or'' a b (Some (map not_expr es)) l lo hi)"
  unfolding eval_not
  by (simp add: eval_op_def variadic_def and_list_de_morgan o_def eval_not)

section \<open>Comparisons\<close>








text \<open>
  A number is not a truth value to WHERE, NOT and AND: 1 is false there, while the condition of a
  CASE takes it as true.
\<close>

theorem numbers_as_conditions:
  "eval_predicate demo_eval (ELit (LI64 1)) [] None [] = Inr False \<and>
   eval_expr demo_eval [] None [] (not_expr (ELit (LI64 1))) = Inr (LBool True) \<and>
   eval_expr demo_eval [] None [] (ECase [(ELit (LI64 1), ELit (LBool True))] (Some (ELit (LBool False)))) = Inr (LBool True)"
  by (simp add: eval_predicate_def eval_predicate_truth_def not_expr_def eval_op_def required_def)

end
