(* ===== verification/Query_Join.thy ===== *)
theory Query_Join
  imports Query_Lookup Query_Logic
begin

text \<open>
  The general SELECT path of \<open>engine.rs\<close>: FROM with joins, the effective predicate of a GROUP BY
  without aggregates, and \<open>execute_select\<close>.
\<close>

section \<open>Environment\<close>

text \<open>
  Tables with their schemas, materialized views (columns and rows), whether a table has an
  access-hiding policy and how it reorders a scan, interned columns, candidates of the vector
  index, the column snapshots (which may answer a query), and the deadline.
\<close>

record query_env =
  qe_eval :: eval_env
  qe_intern :: intern_env
  qe_table :: "base_table_ref \<Rightarrow> engine_error + table_schema \<times> table_data"
  qe_view :: "base_table_ref \<Rightarrow> (string list \<times> lit list list) option"
  qe_hiding :: "base_table_ref \<Rightarrow> bool"
  qe_shuffle :: "base_table_ref \<Rightarrow> row_ctx list \<Rightarrow> row_ctx list"
  qe_interned :: "base_table_ref \<Rightarrow> string list option"
  qe_vector :: "query \<Rightarrow> nat list option"
  qe_snapshot :: "query \<Rightarrow> lit list \<Rightarrow> u64 option \<Rightarrow> engine_error + select_result option"
  qe_expired :: "nat \<Rightarrow> bool"

section \<open>FROM\<close>

fun extend_ctx :: "row_ctx \<Rightarrow> row_ctx \<Rightarrow> row_ctx" where
  "extend_ctx a [] = a"
| "extend_ctx a ((k, v) # b) = extend_ctx (bt_insert k v a) b"

definition view_row_ctx :: "string \<Rightarrow> string list \<Rightarrow> lit list \<Rightarrow> row_ctx" where
  "view_row_ctx al columns row = extend_ctx [] (zip (map (ctx_key al) columns) row)"

text \<open>The scan of a table; its loop checks the deadline like \<open>scan_rows\<close>.\<close>

fun scan_ctxs ::
    "codecs \<Rightarrow> (nat \<Rightarrow> bool) \<Rightarrow> string \<Rightarrow> table_schema \<Rightarrow> u64 option \<Rightarrow> nat \<Rightarrow> row_entry list \<Rightarrow> engine_error + row_ctx list" where
  "scan_ctxs cd expired al schema as_of i [] = Inr []"
| "scan_ctxs cd expired al schema as_of i (entry # entries) =
     bindE (checkE (Suc i mod DEADLINE_CHECK_INTERVAL = 0 \<and> expired (Suc i div DEADLINE_CHECK_INTERVAL))) (\<lambda>_.
     bindE (scan_ctxs cd expired al schema as_of (Suc i) entries) (\<lambda>rest.
       Inr (if row_visible_at entry as_of
            then build_table_row_ctx cd al schema (re_row entry) None # rest else rest)))"

definition scan_table :: "query_env \<Rightarrow> base_table_ref \<Rightarrow> u64 option \<Rightarrow> engine_error + row_ctx list" where
  "scan_table qe base as_of =
     (case qe_view qe base of
        Some (columns, rows) \<Rightarrow> Inr (map (view_row_ctx (base_alias base) columns) rows)
      | None \<Rightarrow>
          bindE (qe_table qe base) (\<lambda>(schema, td).
          bindE (scan_ctxs (ev_codecs (qe_eval qe)) (qe_expired qe) (base_alias base) schema as_of 0 (td_rows td)) (\<lambda>out.
            Inr (if qe_hiding qe base then qe_shuffle qe base out else out))))"

definition null_row_ctx_for_base :: "query_env \<Rightarrow> base_table_ref \<Rightarrow> engine_error + row_ctx" where
  "null_row_ctx_for_base qe base =
     bindE (case qe_view qe base of
              Some (columns, rows) \<Rightarrow> Inr columns
            | None \<Rightarrow> bindE (qe_table qe base) (\<lambda>(schema, td). Inr (map cs_name (ts_columns schema)))) (\<lambda>columns.
       Inr (extend_ctx [] (map (\<lambda>c. (ctx_key (base_alias base) c, LNull)) columns)))"

fun null_row_ctx_for_ref :: "query_env \<Rightarrow> table_ref \<Rightarrow> engine_error + row_ctx" where
  "null_row_ctx_for_ref qe (TBase base) = null_row_ctx_for_base qe base"
| "null_row_ctx_for_ref qe (TJoin jt l r on) =
     bindE (null_row_ctx_for_ref qe l) (\<lambda>a. bindE (null_row_ctx_for_ref qe r) (\<lambda>b. Inr (extend_ctx a b)))"
| "null_row_ctx_for_ref qe (TSubquery q n) = evalE ''subqueries in FROM are not implemented''"

section \<open>Joins\<close>

definition join_on :: "eval_env \<Rightarrow> lit list \<Rightarrow> expr option \<Rightarrow> row_ctx \<Rightarrow> engine_error + bool" where
  "join_on env args on merged = (case on of None \<Rightarrow> Inr True | Some e \<Rightarrow> eval_predicate env e [] (Some merged) args)"

text \<open>
  The inner loop: the merged rows that satisfy the condition, in order, and for each row of the
  inner table whether it matched.
\<close>

fun join_inner ::
    "eval_env \<Rightarrow> lit list \<Rightarrow> expr option \<Rightarrow> (row_ctx \<Rightarrow> row_ctx) \<Rightarrow> row_ctx list \<Rightarrow> engine_error + row_ctx list \<times> bool list" where
  "join_inner env args on merge [] = Inr ([], [])"
| "join_inner env args on merge (b # bs) =
     bindE (join_on env args on (merge b)) (\<lambda>m.
     bindE (join_inner env args on merge bs) (\<lambda>(out, flags).
       Inr (if m then merge b # out else out, m # flags)))"

text \<open>
  The outer loop; \<open>nulls\<close> gives the row for one without a match, if the join keeps those, and
  \<open>flags\<close> accumulates \<open>right_matched\<close>.
\<close>

fun join_outer ::
    "eval_env \<Rightarrow> lit list \<Rightarrow> expr option \<Rightarrow> (row_ctx \<Rightarrow> row_ctx \<Rightarrow> row_ctx) \<Rightarrow> (row_ctx \<Rightarrow> row_ctx option) \<Rightarrow>
     row_ctx list \<Rightarrow> row_ctx list \<Rightarrow> row_ctx list \<Rightarrow> bool list \<Rightarrow> engine_error + row_ctx list \<times> bool list" where
  "join_outer env args on merge nulls inner [] out flags = Inr (out, flags)"
| "join_outer env args on merge nulls inner (a # as) out flags =
     bindE (join_inner env args on (merge a) inner) (\<lambda>(found, fl).
       join_outer env args on merge nulls inner as
         (out @ (if \<not> list_ex id fl then found @ (case nulls a of None \<Rightarrow> [] | Some n \<Rightarrow> [n]) else found))
         (map2 (\<or>) flags fl))"

definition eval_join_rows ::
    "eval_env \<Rightarrow> lit list \<Rightarrow> join_type \<Rightarrow> expr option \<Rightarrow> engine_error + row_ctx \<Rightarrow> engine_error + row_ctx \<Rightarrow>
     row_ctx list \<Rightarrow> row_ctx list \<Rightarrow> engine_error + row_ctx list" where
  "eval_join_rows env args jt on left_nulls right_nulls left right =
     (let no = replicate (length right) False in
      case jt of
        JoinCross \<Rightarrow> Inr (concat (map (\<lambda>a. map (extend_ctx a) right) left))
      | JoinInner \<Rightarrow> bindE (join_outer env args on extend_ctx (\<lambda>_. None) right left [] no) (\<lambda>(out, _). Inr out)
      | JoinLeft \<Rightarrow>
          bindE right_nulls (\<lambda>rn.
          bindE (join_outer env args on extend_ctx (\<lambda>a. Some (extend_ctx a rn)) right left [] no) (\<lambda>(out, _). Inr out))
      | JoinRight \<Rightarrow>
          bindE left_nulls (\<lambda>ln.
          bindE (join_outer env args on (\<lambda>b a. extend_ctx a b) (\<lambda>b. Some (extend_ctx ln b)) left right []
                   (replicate (length left) False)) (\<lambda>(out, _). Inr out))
      | JoinFull \<Rightarrow>
          bindE right_nulls (\<lambda>rn. bindE left_nulls (\<lambda>ln.
          bindE (join_outer env args on extend_ctx (\<lambda>a. Some (extend_ctx a rn)) right left [] no) (\<lambda>(out, flags).
            Inr (out @ map (\<lambda>(b, _). extend_ctx ln b) (filter (\<lambda>(b, m). \<not> m) (zip right flags)))))))"

text \<open>Both sides of a join are read without the snapshot time.\<close>

fun eval_from :: "query_env \<Rightarrow> lit list \<Rightarrow> u64 option \<Rightarrow> table_ref \<Rightarrow> engine_error + row_ctx list" where
  "eval_from qe args as_of (TBase base) = scan_table qe base as_of"
| "eval_from qe args as_of (TJoin jt l r on) =
     bindE (eval_from qe args None l) (\<lambda>left.
     bindE (eval_from qe args None r) (\<lambda>right.
       eval_join_rows (qe_eval qe) args jt on (null_row_ctx_for_ref qe l) (null_row_ctx_for_ref qe r) left right))"
| "eval_from qe args as_of (TSubquery q n) = evalE ''subqueries in FROM are not implemented''"

section \<open>GROUP BY without aggregates\<close>

definition normalize_single_table_group_by_col :: "expr \<Rightarrow> string \<Rightarrow> string \<Rightarrow> string option" where
  "normalize_single_table_group_by_col e table_name table_alias =
     (case e of
        ECol col table \<Rightarrow>
          if col = ''*'' then None
          else (case table of
                  Some t \<Rightarrow>
                    if \<not> eq_ignore_ascii_case t table_name \<and> \<not> eq_ignore_ascii_case t table_alias then None
                    else Some (to_ascii_lowercase col)
                | None \<Rightarrow> Some (to_ascii_lowercase col))
      | _ \<Rightarrow> None)"

fun select_group_by_dedup_compatible :: "select_body \<Rightarrow> bool" where
  "select_group_by_dedup_compatible (SelectBody dis projection from wher group_by having) =
     (case (group_by, from) of
        (Some gb, Some [TBase base]) \<Rightarrow>
          projection \<noteq> [] \<and> gb \<noteq> [] \<and>
          (let norm = (\<lambda>e. normalize_single_table_group_by_col e (bt_table base) (base_alias base)) in
           case (all_some (map norm gb), all_some (map (norm \<circ> fst) projection)) of
             (Some grouped, Some projected) \<Rightarrow> set grouped \<subseteq> set projected
           | _ \<Rightarrow> False)
      | _ \<Rightarrow> False)"

definition projection_matches_col :: "select_item list \<Rightarrow> string \<Rightarrow> string option \<Rightarrow> bool" where
  "projection_matches_col projection col table =
     list_ex (\<lambda>(e, as).
        (case as of Some al \<Rightarrow> table = None \<and> eq_ignore_ascii_case col al | None \<Rightarrow> False) \<or>
        (case e of
           ECol pcol ptable \<Rightarrow>
             eq_ignore_ascii_case col pcol \<and>
             (case (table, ptable) of
                (Some t, Some pt) \<Rightarrow> eq_ignore_ascii_case t pt
              | (Some _, None) \<Rightarrow> False
              | (None, _) \<Rightarrow> True)
         | _ \<Rightarrow> False)) projection"

definition alias_target :: "select_item list \<Rightarrow> string \<Rightarrow> expr option" where
  "alias_target projection col =
     map_option fst (find (\<lambda>(e, as). case as of Some al \<Rightarrow> eq_ignore_ascii_case col al | None \<Rightarrow> False) projection)"

fun collectE :: "('e + 'a) list \<Rightarrow> 'e + 'a list" where
  "collectE [] = Inr []"
| "collectE (x # xs) = bindE x (\<lambda>v. bindE (collectE xs) (\<lambda>vs. Inr (v # vs)))"

definition optE :: "('e + 'a) option \<Rightarrow> 'e + 'a option" where
  "optE x = (case x of None \<Rightarrow> Inr None | Some r \<Rightarrow> bindE r (\<lambda>v. Inr (Some v)))"

definition only_grouped :: "engine_error + expr" where
  "only_grouped = evalE ''GROUP BY compatibility HAVING supports only grouped projected columns or aliases''"

fun rewrite_group_by_dedup_having_expr :: "select_item list \<Rightarrow> expr \<Rightarrow> engine_error + expr" where
  "rewrite_group_by_dedup_having_expr projection (ELit l) = Inr (ELit l)"
| "rewrite_group_by_dedup_having_expr projection (EParam p) = Inr (EParam p)"
| "rewrite_group_by_dedup_having_expr projection (ECol col table) =
     (case (table, alias_target projection col) of
        (None, Some e) \<Rightarrow> Inr e
      | _ \<Rightarrow> if projection_matches_col projection col table then Inr (ECol col table) else only_grouped)"
| "rewrite_group_by_dedup_having_expr projection (EOp op a b vargs lst lo hi) =
     bindE (optE (map_option (rewrite_group_by_dedup_having_expr projection) a)) (\<lambda>a'.
     bindE (optE (map_option (rewrite_group_by_dedup_having_expr projection) b)) (\<lambda>b'.
     bindE (optE (map_option (\<lambda>xs. collectE (map (rewrite_group_by_dedup_having_expr projection) xs)) vargs)) (\<lambda>vargs'.
     bindE (optE (map_option (\<lambda>xs. collectE (map (rewrite_group_by_dedup_having_expr projection) xs)) lst)) (\<lambda>lst'.
     bindE (optE (map_option (rewrite_group_by_dedup_having_expr projection) lo)) (\<lambda>lo'.
     bindE (optE (map_option (rewrite_group_by_dedup_having_expr projection) hi)) (\<lambda>hi'.
       Inr (EOp op a' b' vargs' lst' lo' hi')))))))"
| "rewrite_group_by_dedup_having_expr projection (EFunc name fargs dist) =
     (if name \<in> {''count'', ''sum'', ''min'', ''max'', ''avg''}
      then evalE ''GROUP BY compatibility HAVING does not support aggregate functions in this path''
      else bindE (collectE (map (rewrite_group_by_dedup_having_expr projection) fargs)) (\<lambda>args. Inr (EFunc name args dist)))"
| "rewrite_group_by_dedup_having_expr projection (ECast e ty) =
     bindE (rewrite_group_by_dedup_having_expr projection e) (\<lambda>e'. Inr (ECast e' ty))"
| "rewrite_group_by_dedup_having_expr projection (ECase whens other) =
     bindE (collectE (map (\<lambda>(c, t).
              bindE (rewrite_group_by_dedup_having_expr projection c) (\<lambda>c'.
              bindE (rewrite_group_by_dedup_having_expr projection t) (\<lambda>t'. Inr (c', t')))) whens)) (\<lambda>whens'.
     bindE (optE (map_option (rewrite_group_by_dedup_having_expr projection) other)) (\<lambda>other'.
       Inr (ECase whens' other')))"
| "rewrite_group_by_dedup_having_expr projection (ESubquery q) =
     evalE ''GROUP BY compatibility HAVING does not support subqueries in this path''"
| "rewrite_group_by_dedup_having_expr projection (EExists q neg) =
     evalE ''GROUP BY compatibility HAVING does not support subqueries in this path''"

definition select_group_by_and_expr :: "expr \<Rightarrow> expr \<Rightarrow> expr" where
  "select_group_by_and_expr l r = EOp ''and'' (Some l) (Some r) None None None None"

fun select_effective_predicate :: "select_body \<Rightarrow> engine_error + expr option" where
  "select_effective_predicate (SelectBody dis projection from wher group_by having) =
     (if group_by = None \<and> having = None then Inr wher
      else if \<not> select_group_by_dedup_compatible (SelectBody dis projection from wher group_by having)
      then evalE ''group_by/having not implemented in this prototype''
      else case having of
        None \<Rightarrow> Inr wher
      | Some h \<Rightarrow>
          bindE (rewrite_group_by_dedup_having_expr projection h) (\<lambda>h'.
            Inr (Some (case wher of Some w \<Rightarrow> select_group_by_and_expr w h' | None \<Rightarrow> h'))))"

section \<open>execute\_select\<close>

fun filter_ctxs :: "eval_env \<Rightarrow> lit list \<Rightarrow> expr option \<Rightarrow> row_ctx list \<Rightarrow> engine_error + row_ctx list" where
  "filter_ctxs env args None ctxs = Inr ctxs"
| "filter_ctxs env args (Some p) [] = Inr []"
| "filter_ctxs env args (Some p) (ctx # ctxs) =
     bindE (eval_predicate env p [] (Some ctx) args) (\<lambda>m.
     bindE (filter_ctxs env args (Some p) ctxs) (\<lambda>rest. Inr (if m then ctx # rest else rest)))"

text \<open>Comma joins: the cross product with each further table, read at the snapshot time.\<close>

fun cross_tables :: "query_env \<Rightarrow> lit list \<Rightarrow> u64 option \<Rightarrow> row_ctx list \<Rightarrow> table_ref list \<Rightarrow> engine_error + row_ctx list" where
  "cross_tables qe args as_of ctxs [] = Inr ctxs"
| "cross_tables qe args as_of ctxs (t # ts) =
     bindE (eval_from qe args as_of t) (\<lambda>rhs.
       cross_tables qe args as_of (concat (map (\<lambda>a. map (extend_ctx a) rhs) ctxs)) ts)"

fun project_ctxs ::
    "eval_env \<Rightarrow> lit list \<Rightarrow> select_item list \<Rightarrow> order_by list \<Rightarrow> row_ctx list \<Rightarrow> engine_error + (lit list \<times> lit list) list" where
  "project_ctxs env args projection order [] = Inr []"
| "project_ctxs env args projection order (ctx # ctxs) =
     bindE (eval_exprs env ctx args (map fst projection)) (\<lambda>row.
     bindE (if order = [] then Inr [] else eval_order_keys env order ctx args) (\<lambda>keys.
     bindE (project_ctxs env args projection order ctxs) (\<lambda>rest. Inr ((keys, row) # rest))))"

text \<open>The first table: candidates from an index, or the table reference.\<close>

definition first_ctxs :: "query_env \<Rightarrow> lit list \<Rightarrow> u64 option \<Rightarrow> expr option \<Rightarrow> table_ref list \<Rightarrow> engine_error + row_ctx list" where
  "first_ctxs qe args as_of predicate from =
     (let env = qe_eval qe; cd = ev_codecs env in
      case from of
        [TBase base] \<Rightarrow>
          (if qe_view qe base \<noteq> None \<or> qe_hiding qe base then scan_table qe base as_of
           else case qe_table qe base of
             Inl e \<Rightarrow> scan_table qe base as_of
           | Inr (schema, td) \<Rightarrow>
               (case index_prefilter_candidates cd schema td base predicate args of
                  (Some candidates, _) \<Rightarrow>
                    Inr (map (\<lambda>i. build_table_row_ctx cd (base_alias base) schema (re_row (td_rows td ! i)) None)
                          (filter (\<lambda>i. i < length (td_rows td) \<and> row_visible_at (td_rows td ! i) as_of) candidates))
                | (None, _) \<Rightarrow> scan_table qe base as_of))
      | t # ts \<Rightarrow> eval_from qe args as_of t
      | [] \<Rightarrow> evalE ''SELECT without FROM is not implemented'')"

definition select_general ::
    "query_env \<Rightarrow> lit list \<Rightarrow> u64 option \<Rightarrow> select_item list \<Rightarrow> table_ref list \<Rightarrow> expr option \<Rightarrow> bool \<Rightarrow> order_by list \<Rightarrow>
     limit_clause option \<Rightarrow> engine_error + lit list list" where
  "select_general qe args as_of projection from predicate dedup order limit =
     (let env = qe_eval qe in
      bindE (first_ctxs qe args as_of predicate from) (\<lambda>ctxs.
      bindE (cross_tables qe args as_of ctxs (tl from)) (\<lambda>ctxs.
      bindE (filter_ctxs env args predicate ctxs) (\<lambda>ctxs.
      bindE (project_ctxs env args projection order ctxs) (\<lambda>items.
      bindE (if order = [] then Inr items
             else sort_by (\<lambda>a b. compare_order env order (fst a) (fst b)) items) (\<lambda>items.
        apply_limit limit
          (if dedup then dedup_select_rows (ev_codecs env) [] (map snd items) else map snd items)))))))"

definition base_attempt ::
    "query_env \<Rightarrow> query \<Rightarrow> lit list \<Rightarrow> u64 option \<Rightarrow> select_item list \<Rightarrow> table_ref list \<Rightarrow> expr option \<Rightarrow> bool \<Rightarrow> engine_error + select_result option" where
  "base_attempt qe q args as_of projection from predicate dedup =
     (case from of
        [TBase base] \<Rightarrow>
          try_execute_select_base_table (qe_eval qe) (qe_intern qe) (qe_expired qe)
            (qe_view qe base \<noteq> None \<or> qe_hiding qe base) (qe_vector qe q) (qe_interned qe base) (qe_table qe base) base
            dedup projection predicate (q_order_by q) (q_limit q) args as_of
      | _ \<Rightarrow> Inr None)"

text \<open>
  A query without FROM or with a set operation is refused; the column snapshots are asked first,
  then the path for one table, then the general path.
\<close>

definition execute_select ::
    "query_env \<Rightarrow> query \<Rightarrow> lit list \<Rightarrow> u64 option \<Rightarrow> engine_error + (string \<times> type_desc) list \<times> lit list list" where
  "execute_select qe q args as_of =
     (case q_body q of
        QSetop kind al l r \<Rightarrow> evalE ''set operations not implemented in this prototype''
      | QSelect (SelectBody dis projection from wher group_by having) \<Rightarrow>
          bindE (select_effective_predicate (SelectBody dis projection from wher group_by having)) (\<lambda>predicate.
          let dedup = (dis = Some True \<or> select_group_by_dedup_compatible (SelectBody dis projection from wher group_by having));
              tables = (case from of Some ts \<Rightarrow> ts | None \<Rightarrow> []) in
          if tables = [] then evalE ''SELECT without FROM is not implemented''
          else
            bindE (qe_snapshot qe q args as_of) (\<lambda>snap.
            case snap of
              Some (columns, rows, _) \<Rightarrow> Inr (columns, rows)
            | None \<Rightarrow>
                bindE (base_attempt qe q args as_of projection tables predicate dedup) (\<lambda>base.
                case base of
                  Some (columns, rows, _) \<Rightarrow> Inr (columns, rows)
                | None \<Rightarrow>
                    bindE (select_general qe args as_of projection tables predicate dedup (q_order_by q) (q_limit q)) (\<lambda>rows.
                      Inr (projection_columns projection, rows))))))"

section \<open>What a join returns\<close>

text \<open>
  The rows of a join over a condition \<open>P\<close>, in the order of the outer table: the pairs that match,
  and for the outer joins the rows without a partner, padded with the null row of the other side.
\<close>

definition matches :: "(row_ctx \<Rightarrow> row_ctx \<Rightarrow> bool) \<Rightarrow> row_ctx list \<Rightarrow> row_ctx \<Rightarrow> row_ctx list" where
  "matches P right a = map (extend_ctx a) (filter (P a) right)"

definition left_join_rows :: "(row_ctx \<Rightarrow> row_ctx \<Rightarrow> bool) \<Rightarrow> row_ctx \<Rightarrow> row_ctx list \<Rightarrow> row_ctx list \<Rightarrow> row_ctx list" where
  "left_join_rows P rn left right =
     concat (map (\<lambda>a. if list_ex (P a) right then matches P right a else [extend_ctx a rn]) left)"

definition join_spec ::
    "join_type \<Rightarrow> (row_ctx \<Rightarrow> row_ctx \<Rightarrow> bool) \<Rightarrow> row_ctx \<Rightarrow> row_ctx \<Rightarrow> row_ctx list \<Rightarrow> row_ctx list \<Rightarrow> row_ctx list" where
  "join_spec jt P ln rn left right =
     (case jt of
        JoinCross \<Rightarrow> concat (map (matches (\<lambda>_ _. True) right) left)
      | JoinInner \<Rightarrow> concat (map (matches P right) left)
      | JoinLeft \<Rightarrow> left_join_rows P rn left right
      | JoinRight \<Rightarrow>
          concat (map (\<lambda>b. if list_ex (\<lambda>a. P a b) left
                           then map (\<lambda>a. extend_ctx a b) (filter (\<lambda>a. P a b) left) else [extend_ctx ln b]) right)
      | JoinFull \<Rightarrow>
          left_join_rows P rn left right @ map (extend_ctx ln) (filter (\<lambda>b. \<not> list_ex (\<lambda>a. P a b) left) right))"

text \<open>The condition of a join as a predicate, and that it can be evaluated on every pair.\<close>

definition on_holds :: "eval_env \<Rightarrow> lit list \<Rightarrow> expr option \<Rightarrow> row_ctx \<Rightarrow> row_ctx \<Rightarrow> bool" where
  "on_holds env args on a b \<longleftrightarrow> join_on env args on (extend_ctx a b) = Inr True"

definition on_defined :: "eval_env \<Rightarrow> lit list \<Rightarrow> expr option \<Rightarrow> row_ctx list \<Rightarrow> row_ctx list \<Rightarrow> bool" where
  "on_defined env args on left right =
     list_all (\<lambda>a. list_all (\<lambda>b. \<not> isl (join_on env args on (extend_ctx a b))) right) left"

abbreviation on_true :: "eval_env \<Rightarrow> lit list \<Rightarrow> expr option \<Rightarrow> row_ctx \<Rightarrow> bool" where
  "on_true env args on m \<equiv> join_on env args on m = Inr True"

lemma join_inner_eq:
  "join_inner env args on merge bs = Inr (out, flags) \<longleftrightarrow>
     list_all (\<lambda>b. \<not> isl (join_on env args on (merge b))) bs \<and>
     out = map merge (filter (\<lambda>b. on_true env args on (merge b)) bs) \<and>
     flags = map (\<lambda>b. on_true env args on (merge b)) bs"
proof (induction bs arbitrary: out flags)
  case (Cons b bs)
  show ?case
  proof (cases "join_on env args on (merge b)")
    case (Inr m)
    then show ?thesis
      by (cases m) (auto simp: bindE_eq_Inr Cons.IH split: prod.splits)
  qed (simp add: bindE_eq_Inr)
qed auto

lemma map2_or_map: "map2 (\<or>) flags (map f bs) = map (\<lambda>(p, b). p \<or> f b) (zip flags bs)"
  by (simp add: zip_map2 case_prod_unfold)

lemma join_outer_eq:
  assumes "length flags = length inner"
  shows "join_outer env args on merge nulls inner as out flags = Inr (out', flags') \<longleftrightarrow>
     list_all (\<lambda>a. list_all (\<lambda>b. \<not> isl (join_on env args on (merge a b))) inner) as \<and>
     out' = out @ concat (map (\<lambda>a.
        if list_ex (\<lambda>b. on_true env args on (merge a b)) inner
        then map (merge a) (filter (\<lambda>b. on_true env args on (merge a b)) inner)
        else (case nulls a of None \<Rightarrow> [] | Some n \<Rightarrow> [n])) as) \<and>
     flags' = map (\<lambda>(p, b). p \<or> list_ex (\<lambda>a. on_true env args on (merge a b)) as) (zip flags inner)"
  using assms
proof (induction as arbitrary: out flags)
  case (Cons a as)
  let ?fl = "map (\<lambda>b. on_true env args on (merge a b)) inner"
  let ?flags = "map2 (\<or>) flags ?fl"
  have len: "length ?flags = length inner" using Cons.prems by simp
  have step: "map (\<lambda>(p, b). p \<or> g b) (zip ?flags inner) = map (\<lambda>(p, b). p \<or> on_true env args on (merge a b) \<or> g b) (zip flags inner)" for g
    using Cons.prems by (intro nth_equalityI) auto
  have ex: "list_ex id ?fl \<longleftrightarrow> list_ex (\<lambda>b. on_true env args on (merge a b)) inner"
    by (simp add: list_ex_iff)
  have no: "filter (\<lambda>b. on_true env args on (merge a b)) inner = []"
    if "\<not> list_ex (\<lambda>b. on_true env args on (merge a b)) inner"
    using that by (simp add: list_ex_iff filter_empty_conv)
  show ?case
  proof (cases "list_all (\<lambda>b. \<not> isl (join_on env args on (merge a b))) inner")
    case True
    then have "join_inner env args on (merge a) inner = Inr (map (merge a) (filter (\<lambda>b. on_true env args on (merge a b)) inner), ?fl)"
      by (simp add: join_inner_eq)
    then show ?thesis
      using True Cons.IH [OF len] by (simp add: step ex no)
  next
    case False
    then have "join_inner env args on (merge a) inner \<noteq> Inr z" for z
      by (cases z) (simp add: join_inner_eq)
    then show ?thesis using False by (auto simp: bindE_eq_Inr)
  qed
qed (auto intro!: nth_equalityI)

lemma list_all_swap: "list_all (\<lambda>b. list_all (\<lambda>a. R a b) left) right \<longleftrightarrow> list_all (\<lambda>a. list_all (R a) right) left"
  by (auto simp: list_all_iff)

lemma concat_nonempty_only:
  "concat (map (\<lambda>a. if list_ex (P a) right then map (f a) (filter (P a) right) else []) left) =
   concat (map (\<lambda>a. map (f a) (filter (P a) right)) left)"
  by (rule arg_cong [where f = concat]) (auto simp: list_ex_iff filter_empty_conv)

lemma filter_zip_flags:
  "map (\<lambda>(b, m). g b) (filter (\<lambda>(b, m). \<not> m) (zip bs (map f bs))) = map g (filter (\<lambda>b. \<not> f b) bs)"
  by (induction bs) auto

lemma zip_replicate_false:
  "map (\<lambda>(p, b). p \<or> f b) (zip (replicate (length bs) False) bs) = map f bs"
  by (induction bs) auto

lemmas join_outer_start = join_outer_eq [OF length_replicate]

text \<open>
  (C10) A join returns rows exactly when its condition can be evaluated on every pair of rows (a
  cross join has none to evaluate), and then they are the rows of the specification: the matching
  pairs in order, the unmatched rows of the left table padded for a left join, of the right table
  for a right join, and both for a full join, the unmatched right rows at the end.
\<close>

theorem join_implements_spec:
  "eval_join_rows env args jt on (Inr ln) (Inr rn) left right = Inr out \<longleftrightarrow>
     (jt = JoinCross \<or> on_defined env args on left right) \<and>
     out = join_spec jt (on_holds env args on) ln rn left right"
proof (cases jt)
  case JoinCross
  then show ?thesis by (auto simp: eval_join_rows_def join_spec_def matches_def [abs_def])
next
  case JoinInner
  then show ?thesis
    by (auto simp: eval_join_rows_def join_spec_def bindE_eq_Inr join_outer_start concat_nonempty_only on_defined_def
        matches_def [abs_def] on_holds_def [abs_def] cong: if_cong)
next
  case JoinLeft
  then show ?thesis
    by (auto simp: eval_join_rows_def join_spec_def bindE_eq_Inr join_outer_start on_defined_def left_join_rows_def
        matches_def [abs_def] on_holds_def [abs_def] cong: if_cong)
next
  case JoinRight
  then show ?thesis
    by (auto simp: eval_join_rows_def join_spec_def bindE_eq_Inr join_outer_start on_defined_def on_holds_def [abs_def]
        list_all_swap [where R = "\<lambda>a b. \<not> isl (join_on env args on (extend_ctx a b))"] cong: if_cong)
next
  case JoinFull
  then show ?thesis
    by (auto simp: eval_join_rows_def join_spec_def bindE_eq_Inr join_outer_start on_defined_def left_join_rows_def
        matches_def [abs_def] on_holds_def [abs_def] zip_replicate_false filter_zip_flags cong: if_cong)
qed

text \<open>DISTINCT keeps one row of each key, and the order of the rows it keeps.\<close>

lemma dedup_keys:
  "set (map (cd_lits_json cd) (dedup_select_rows cd seen rows)) = set (map (cd_lits_json cd) rows) - set seen"
  by (induction cd seen rows rule: dedup_select_rows.induct) (auto simp: Let_def)

lemma dedup_distinct: "distinct (map (cd_lits_json cd) (dedup_select_rows cd seen rows))"
proof (induction cd seen rows rule: dedup_select_rows.induct)
  case (2 cd seen row rows)
  then show ?case using dedup_keys [of cd "cd_lits_json cd row # seen" rows] by (auto simp: Let_def)
qed simp

lemma dedup_subseq: "subseq (dedup_select_rows cd seen rows) rows"
  by (induction cd seen rows rule: dedup_select_rows.induct) (auto simp: Let_def)

section \<open>Joins and the snapshot time\<close>

definition demo_query_env :: query_env where
  "demo_query_env = \<lparr>qe_eval = demo_eval, qe_intern = demo_intern, qe_table = (\<lambda>_. Inr (query_schema, deleted_table)),
     qe_view = (\<lambda>_. None), qe_hiding = (\<lambda>_. False), qe_shuffle = (\<lambda>_ xs. xs), qe_interned = (\<lambda>_. None),
     qe_vector = (\<lambda>_. None), qe_snapshot = (\<lambda>_ _ _. Inr None), qe_expired = (\<lambda>_. False)\<rparr>"

text \<open>
  A join reads its tables as they are now: at time 10 the second row of the table is still there,
  and a comma join finds it, but the same product written with CROSS JOIN does not.
\<close>

theorem join_ignores_as_of:
  "map_sum id length (eval_from demo_query_env [] (Some 10) (TBase demo_base)) = Inr 2 \<and>
   map_sum id length (bindE (eval_from demo_query_env [] (Some 10) (TBase demo_base)) (\<lambda>rows.
      cross_tables demo_query_env [] (Some 10) rows [TBase (demo_base\<lparr>bt_as := Some ''o''\<rparr>)])) = Inr 4 \<and>
   map_sum id length (eval_from demo_query_env [] (Some 10)
      (TJoin JoinCross (TBase demo_base) (TBase (demo_base\<lparr>bt_as := Some ''o''\<rparr>)) None)) = Inr 1"
  by code_simp

end
