(* ===== verification/Forensic_Chain.thy ===== *)
theory Forensic_Chain
  imports Query_Expr Core_Format
begin

text \<open>
  The audit chain of \<open>engine.rs\<close> and \<open>engine/forensic_helpers.rs\<close>: records linked by hashes, the
  append-only log beside the snapshot, loading, compaction, checkpoints, and verification.
\<close>

section \<open>Data\<close>

record forensic_record =
  fr_id :: u64
  fr_ts_ms :: u64
  fr_db :: string
  fr_table :: string
  fr_op :: string
  fr_pk :: "lit list option"
  fr_change_seq :: u64
  fr_prev_hash :: string
  fr_hash :: string

record checkpoint_anchor =
  ca_checkpoint_id :: string
  ca_ts_ms :: u64
  ca_chain_len :: u64
  ca_chain_head_hash :: string
  ca_change_seq :: u64

record forensic_chain_disk =
  fd_format_version :: u32
  fd_next_id :: u64
  fd_records :: "forensic_record list"
  fd_anchors :: "checkpoint_anchor list"
  fd_last_verified_ms :: u64

definition FORENSIC_CHAIN_FORMAT_VERSION :: u32 where
  "FORENSIC_CHAIN_FORMAT_VERSION = 3"

text \<open>
  Third-party functions: BLAKE3, \<open>serde_json::to_vec\<close> of a JSON value, and the JSON forms of
  literals and of audit records, as values and as bytes.
\<close>

record forensic_env =
  fe_blake3 :: "bytes \<Rightarrow> bytes"
  fe_json_bytes :: "json \<Rightarrow> bytes option"
  fe_lit_json :: "lit \<Rightarrow> json"
  fe_lit_of_json :: "json \<Rightarrow> lit option"
  fe_f32_json :: "u32 \<Rightarrow> json"
  fe_record_bytes :: "forensic_record \<Rightarrow> bytes option"
  fe_record_of_bytes :: "bytes \<Rightarrow> forensic_record option"
  fe_record_json :: "forensic_record \<Rightarrow> json"
  fe_record_of_json :: "json \<Rightarrow> forensic_record option"

text \<open>The fields of the engine, and the snapshot file and the log file; a missing log is empty.\<close>

record forensic_state =
  fs_chain :: "forensic_record list"
  fs_next_id :: u64
  fs_anchors :: "checkpoint_anchor list"
  fs_last_verified_ms :: u64

record forensic_files =
  ff_snapshot :: "forensic_chain_disk option"
  ff_flog :: bytes

section \<open>Hashes\<close>

definition forensic_genesis_hash :: string where
  "forensic_genesis_hash = ''genesis''"

definition hex_digit :: "u8 \<Rightarrow> char" where
  "hex_digit n = ''0123456789abcdef'' ! unat n"

definition hex16 :: "bytes \<Rightarrow> string" where
  "hex16 bs = concat (map (\<lambda>b. [hex_digit (drop_bit 4 b), hex_digit (b AND 0x0f)]) bs)"

text \<open>The object of \<open>json!\<close>, its keys in order; \<open>{b:02x}\<close> prints a byte as \<open>hex16\<close> does.\<close>

definition forensic_payload :: "forensic_env \<Rightarrow> string \<Rightarrow> u64 \<Rightarrow> u64 \<Rightarrow> string \<Rightarrow> string \<Rightarrow> string \<Rightarrow> lit list option \<Rightarrow> u64 \<Rightarrow> json" where
  "forensic_payload env prev_hash i ts_ms db table op pk change_seq =
     JObj [(''change_seq'', JPosInt change_seq), (''db'', JStr db), (''id'', JPosInt i), (''op'', JStr op),
           (''pk'', case pk of None \<Rightarrow> JNull | Some vs \<Rightarrow> JArr (map (fe_lit_json env) vs)),
           (''prev_hash'', JStr prev_hash), (''table'', JStr table), (''ts_ms'', JPosInt ts_ms)]"

definition forensic_record_hash ::
    "forensic_env \<Rightarrow> string \<Rightarrow> u64 \<Rightarrow> u64 \<Rightarrow> string \<Rightarrow> string \<Rightarrow> string \<Rightarrow> lit list option \<Rightarrow> u64 \<Rightarrow> string" where
  "forensic_record_hash env prev_hash i ts_ms db table op pk change_seq =
     hex16 (audit_hash256 (fe_blake3 env)
       (case fe_json_bytes env (forensic_payload env prev_hash i ts_ms db table op pk change_seq) of
          Some bs \<Rightarrow> bs | None \<Rightarrow> []))"

text \<open>The hash recomputed from the fields of a record.\<close>

definition record_hash :: "forensic_env \<Rightarrow> forensic_record \<Rightarrow> string" where
  "record_hash env r =
     forensic_record_hash env (fr_prev_hash r) (fr_id r) (fr_ts_ms r) (fr_db r) (fr_table r) (fr_op r) (fr_pk r)
       (fr_change_seq r)"

section \<open>The log\<close>

text \<open>
  \<open>append_log_record\<close> writes a length and the bytes; a record that does not serialize, or is too
  long for the length field, is left out. \<open>read_log_records\<close> stops at the first record that is
  torn or does not parse.
\<close>

definition append_log_record :: "bytes option \<Rightarrow> bytes \<Rightarrow> bytes" where
  "append_log_record rec flog =
     (case rec of
        None \<Rightarrow> flog
      | Some bs \<Rightarrow> if length bs < 2 ^ 32 then flog @ le_bytes (word_of_nat (length bs) :: u32) @ bs else flog)"

function read_log_records :: "(bytes \<Rightarrow> 'a option) \<Rightarrow> bytes \<Rightarrow> 'a list" where
  "read_log_records parse bs =
     (if length bs < 4 then []
      else let len = unat (from_le_bytes (take 4 bs) :: u32); rest = drop 4 bs in
        if length rest < len then []
        else case parse (take len rest) of
          None \<Rightarrow> []
        | Some r \<Rightarrow> r # read_log_records parse (drop len rest))"
  by pat_completeness auto
termination
  by (relation "measure (\<lambda>(parse, bs). length bs)") auto

declare read_log_records.simps [simp del]

section \<open>Appending, loading, compaction\<close>

definition chain_head_hash :: "forensic_record list \<Rightarrow> string" where
  "chain_head_hash chain = (if chain = [] then forensic_genesis_hash else fr_hash (last chain))"

definition next_record ::
    "forensic_env \<Rightarrow> u64 \<Rightarrow> string \<Rightarrow> string \<Rightarrow> string \<Rightarrow> u64 \<Rightarrow> lit list option \<Rightarrow> forensic_state \<Rightarrow> forensic_record" where
  "next_record env now db table op change_seq pk st =
     (let prev_hash = chain_head_hash (fs_chain st) in
      \<lparr>fr_id = fs_next_id st, fr_ts_ms = now, fr_db = db, fr_table = table, fr_op = op, fr_pk = pk,
       fr_change_seq = change_seq, fr_prev_hash = prev_hash,
       fr_hash = forensic_record_hash env prev_hash (fs_next_id st) now db table op pk change_seq\<rparr>)"

definition append_forensic_record ::
    "forensic_env \<Rightarrow> u64 \<Rightarrow> string \<Rightarrow> string \<Rightarrow> string \<Rightarrow> u64 \<Rightarrow> lit list option \<Rightarrow> forensic_state \<times> forensic_files \<Rightarrow>
     forensic_state \<times> forensic_files" where
  "append_forensic_record env now db table op change_seq pk = (\<lambda>(st, files).
     (let rec = next_record env now db table op change_seq pk st in
      (st\<lparr>fs_next_id := saturating_succ (fs_next_id st), fs_chain := fs_chain st @ [rec]\<rparr>,
       files\<lparr>ff_flog := append_log_record (fe_record_bytes env rec) (ff_flog files)\<rparr>)))"

definition forensic_init :: forensic_state where
  "forensic_init = \<lparr>fs_chain = [], fs_next_id = 1, fs_anchors = [], fs_last_verified_ms = 0\<rparr>"

definition load_snapshot :: "forensic_chain_disk option \<Rightarrow> forensic_state" where
  "load_snapshot snapshot =
     (case snapshot of
        None \<Rightarrow> forensic_init
      | Some disk \<Rightarrow>
          if fd_format_version disk \<le> FORENSIC_CHAIN_FORMAT_VERSION
          then \<lparr>fs_chain = fd_records disk, fs_next_id = max (fd_next_id disk) 1, fs_anchors = fd_anchors disk,
                fs_last_verified_ms = fd_last_verified_ms disk\<rparr>
          else forensic_init)"

text \<open>The replay of the log: only records behind the snapshot; \<open>rec.id + 1\<close> wraps.\<close>

fun load_tail :: "u64 \<Rightarrow> forensic_record list \<Rightarrow> forensic_state \<Rightarrow> forensic_state" where
  "load_tail max_id [] st = st"
| "load_tail max_id (r # rs) st =
     (if max_id < fr_id r then
        load_tail max_id rs
               (st\<lparr>fs_next_id := max (fs_next_id st) (fr_id r + 1), fs_chain := fs_chain st @ [r]\<rparr>)
      else load_tail max_id rs st)"

definition last_id :: "forensic_record list \<Rightarrow> u64" where
  "last_id chain = (if chain = [] then 0 else fr_id (last chain))"

definition load_forensic :: "forensic_env \<Rightarrow> forensic_files \<Rightarrow> forensic_state" where
  "load_forensic env files =
     (let st = load_snapshot (ff_snapshot files) in
      load_tail (last_id (fs_chain st)) (read_log_records (fe_record_of_bytes env) (ff_flog files)) st)"

definition persist_forensic :: "forensic_state \<Rightarrow> forensic_files \<Rightarrow> forensic_files" where
  "persist_forensic st files =
     files\<lparr>ff_snapshot := Some \<lparr>fd_format_version = FORENSIC_CHAIN_FORMAT_VERSION, fd_next_id = fs_next_id st,
       fd_records = fs_chain st, fd_anchors = fs_anchors st, fd_last_verified_ms = fs_last_verified_ms st\<rparr>\<rparr>"

definition compact_forensic_log :: "forensic_state \<times> forensic_files \<Rightarrow> forensic_state \<times> forensic_files" where
  "compact_forensic_log = (\<lambda>(st, files). (st, (persist_forensic st files)\<lparr>ff_flog := []\<rparr>))"

text \<open>\<open>{:x}\<close> on a \<open>u64\<close>.\<close>

function hex_nat :: "nat \<Rightarrow> string" where
  "hex_nat n = (if n < 16 then [hex_digit (word_of_nat n)] else hex_nat (n div 16) @ [hex_digit (word_of_nat (n mod 16))])"
  by pat_completeness auto
termination by (relation "measure id") auto

declare hex_nat.simps [simp del]

definition checkpoint_forensic ::
    "u64 \<Rightarrow> u64 \<Rightarrow> u64 \<Rightarrow> forensic_state \<times> forensic_files \<Rightarrow> forensic_state \<times> forensic_files" where
  "checkpoint_forensic now now' change_seq = (\<lambda>(st, files).
     let anchor = \<lparr>ca_checkpoint_id = ''ckpt_'' @ hex_nat (unat now), ca_ts_ms = now',
                   ca_chain_len = word_of_nat (length (fs_chain st)),
                   ca_chain_head_hash = chain_head_hash (fs_chain st), ca_change_seq = change_seq\<rparr>
     in compact_forensic_log (st\<lparr>fs_anchors := fs_anchors st @ [anchor]\<rparr>, files))"

section \<open>Verification\<close>

record forensic_verify_result =
  fv_ok :: bool
  fv_bad_index :: "u64 option"
  fv_reason :: "string option"
  fv_head_hash :: "string option"

fun verify_loop :: "forensic_env \<Rightarrow> nat \<Rightarrow> string \<Rightarrow> forensic_record list \<Rightarrow> forensic_verify_result" where
  "verify_loop env idx prev_hash [] =
     \<lparr>fv_ok = True, fv_bad_index = None, fv_reason = None, fv_head_hash = Some prev_hash\<rparr>"
| "verify_loop env idx prev_hash (r # rs) =
     (if fr_prev_hash r \<noteq> prev_hash then
        \<lparr>fv_ok = False, fv_bad_index = Some (word_of_nat idx), fv_reason = Some ''prev_hash_mismatch'', fv_head_hash = None\<rparr>
      else if record_hash env r \<noteq> fr_hash r then
        \<lparr>fv_ok = False, fv_bad_index = Some (word_of_nat idx), fv_reason = Some ''hash_mismatch'', fv_head_hash = None\<rparr>
      else verify_loop env (idx + 1) (fr_hash r) rs)"

fun parse_records :: "forensic_env \<Rightarrow> json list \<Rightarrow> engine_error + forensic_record list" where
  "parse_records env [] = Inr []"
| "parse_records env (v # vs) =
     (case fe_record_of_json env v of
        None \<Rightarrow> Inl (EvalError ''serde_json'')
      | Some r \<Rightarrow> bindE (parse_records env vs) (\<lambda>rs. Inr (r # rs)))"

definition forensic_verify :: "forensic_env \<Rightarrow> json list \<Rightarrow> string option \<Rightarrow> engine_error + forensic_verify_result" where
  "forensic_verify env records start_hash =
     (if records = [] then Inr \<lparr>fv_ok = True, fv_bad_index = None, fv_reason = None, fv_head_hash = start_hash\<rparr>
      else bindE (parse_records env records) (\<lambda>rs.
        Inr (verify_loop env 0 (case start_hash of Some h \<Rightarrow> h | None \<Rightarrow> fr_prev_hash (hd rs)) rs)))"

text \<open>
  \<open>maintenance_audit_verify\<close>: the loop over the whole chain; a success is recorded and persisted.
  The report holds the fields of the verification, the number of records and the head.
\<close>

definition maintenance_audit_verify ::
    "forensic_env \<Rightarrow> u64 \<Rightarrow> forensic_state \<times> forensic_files \<Rightarrow>
     (bool \<times> nat \<times> u64 option \<times> string option \<times> string) \<times> forensic_state \<times> forensic_files" where
  "maintenance_audit_verify env now = (\<lambda>(st, files).
     let v = verify_loop env 0 forensic_genesis_hash (fs_chain st);
         st' = (if fv_ok v then st\<lparr>fs_last_verified_ms := now\<rparr> else st)
     in ((fv_ok v, length (fs_chain st), fv_bad_index v, fv_reason v, chain_head_hash (fs_chain st)),
         st', if fv_ok v then persist_forensic st' files else files))"

section \<open>Linked records\<close>

text \<open>Each record names the hash before it and carries the hash of its own fields.\<close>

fun linked :: "forensic_env \<Rightarrow> string \<Rightarrow> forensic_record list \<Rightarrow> bool" where
  "linked env prev [] = True"
| "linked env prev (r # rs) = (fr_prev_hash r = prev \<and> fr_hash r = record_hash env r \<and> linked env (fr_hash r) rs)"

definition head_from :: "string \<Rightarrow> forensic_record list \<Rightarrow> string" where
  "head_from prev rs = (if rs = [] then prev else fr_hash (last rs))"

lemma head_from_simps [simp]:
  "head_from prev [] = prev" "head_from prev (rs @ [r]) = fr_hash r" "head_from prev (r # rs) = head_from (fr_hash r) rs"
  by (auto simp: head_from_def)

lemma linked_append: "linked env prev (rs @ rs') \<longleftrightarrow> linked env prev rs \<and> linked env (head_from prev rs) rs'"
  by (induction rs arbitrary: prev) auto

lemma linked_take: "linked env prev rs \<Longrightarrow> linked env prev (take k rs)"
  using linked_append [of env prev "take k rs" "drop k rs"] by simp

lemma verify_loop_linked: "fv_ok (verify_loop env idx prev rs) \<longleftrightarrow> linked env prev rs"
  by (induction env idx prev rs rule: verify_loop.induct) auto

lemma verify_loop_head:
  "linked env prev rs \<Longrightarrow> fv_head_hash (verify_loop env idx prev rs) = Some (head_from prev rs)"
  by (induction env idx prev rs rule: verify_loop.induct) auto

text \<open>A failure names the first record that does not fit.\<close>

lemma verify_loop_bad:
  assumes "\<not> linked env prev rs"
  shows "\<exists>k < length rs. fv_bad_index (verify_loop env idx prev rs) = Some (word_of_nat (idx + k)) \<and>
     linked env prev (take k rs) \<and> \<not> linked env prev (take (Suc k) rs)"
  using assms
proof (induction env idx prev rs rule: verify_loop.induct)
  case (2 env idx prev r rs)
  show ?case
  proof (cases "fr_prev_hash r = prev \<and> record_hash env r = fr_hash r")
    case True
    then obtain k where "k < length rs" "fv_bad_index (verify_loop env (idx + 1) (fr_hash r) rs) = Some (word_of_nat (idx + 1 + k))"
      "linked env (fr_hash r) (take k rs)" "\<not> linked env (fr_hash r) (take (Suc k) rs)"
      using 2 by auto
    then show ?thesis using True by (intro exI [of _ "Suc k"]) (auto simp: algebra_simps)
  next
    case False
    then show ?thesis by (intro exI [of _ 0]) auto
  qed
qed simp

section \<open>Tampering\<close>

text \<open>
  Where two chains with the same head part: behind the records \<open>r\<close> and \<open>r'\<close> the chains are equal, and
  \<open>r\<close> and \<open>r'\<close> differ in a hashed field but have the same hash.
\<close>

definition part_with_collision :: "forensic_env \<Rightarrow> forensic_record list \<Rightarrow> forensic_record list \<Rightarrow> bool" where
  "part_with_collision env rs rs' \<longleftrightarrow>
     (\<exists>us r us' r' vs. rs = us @ r # vs \<and> rs' = us' @ r' # vs \<and>
        r\<lparr>fr_hash := []\<rparr> \<noteq> r'\<lparr>fr_hash := []\<rparr> \<and> record_hash env r = record_hash env r')"

lemma hex_digit_range: "hex_digit n \<in> set ''0123456789abcdef''" if "unat n < 16"
  unfolding hex_digit_def using that by (intro nth_mem) simp

lemma nibbles: "unat (drop_bit 4 (b :: u8)) < 16" "unat (b AND 0x0f) < 16"
proof -
  have "drop_bit 4 b < 16" using unat_lt_u8 [of b] by (simp add: word_less_nat_alt unat_drop_bit_eq drop_bit_eq_div unat_div)
  then show "unat (drop_bit 4 b) < 16" by (simp add: word_less_nat_alt)
  have "b AND 0x0f = take_bit 4 b" using take_bit_eq_mask [of 4 b] by (simp add: mask_eq_exp_minus_1)
  then show "unat (b AND 0x0f) < 16" by (simp add: take_bit_eq_mod unat_mod)
qed

lemma set_hex16: "set (hex16 bs) \<subseteq> set ''0123456789abcdef''"
  by (induction bs) (use hex_digit_range nibbles in \<open>auto simp: hex16_def\<close>)

lemma record_hash_not_genesis: "record_hash env r \<noteq> forensic_genesis_hash"
proof
  assume "record_hash env r = forensic_genesis_hash"
  then have "CHR ''g'' \<in> set (record_hash env r)" by (simp add: forensic_genesis_hash_def)
  moreover have "set (record_hash env r) \<subseteq> set ''0123456789abcdef''"
    by (simp add: record_hash_def forensic_record_hash_def set_hex16 del: set_simps)
  ultimately show False by auto
qed

lemma linked_last: "linked env prev (rs @ [r]) \<longleftrightarrow> linked env prev rs \<and> fr_prev_hash r = head_from prev rs \<and> fr_hash r = record_hash env r"
  by (simp add: linked_append)

lemma part_with_collision_snoc: "part_with_collision env rs rs' \<Longrightarrow> part_with_collision env (rs @ [r]) (rs' @ [r])"
  unfolding part_with_collision_def by (metis append_Cons append_assoc)

lemma linked_binds:
  assumes "linked env forensic_genesis_hash rs" and "linked env forensic_genesis_hash rs'"
    and "head_from forensic_genesis_hash rs = head_from forensic_genesis_hash rs'"
  shows "rs = rs' \<or> part_with_collision env rs rs'"
  using assms
proof (induction rs arbitrary: rs' rule: rev_induct)
  case Nil
  then show ?case by (cases rs' rule: rev_cases) (auto simp: linked_last record_hash_not_genesis [symmetric])
next
  case (snoc r rs)
  have "rs' \<noteq> []" using snoc.prems by (auto simp: linked_last record_hash_not_genesis)
  then obtain ys y where rs': "rs' = ys @ [y]" by (cases rs' rule: rev_cases) auto
  have same: "record_hash env r = record_hash env y" and hash: "fr_hash r = fr_hash y"
    using snoc.prems rs' by (auto simp: linked_last)
  show ?case
  proof (cases "r\<lparr>fr_hash := []\<rparr> = y\<lparr>fr_hash := []\<rparr>")
    case True
    then have "r = y" using hash by (cases r; cases y) simp
    then have "rs = ys \<or> part_with_collision env rs ys" using snoc.IH [of ys] snoc.prems rs' by (auto simp: linked_last)
    then show ?thesis using \<open>r = y\<close> rs' part_with_collision_snoc by blast
  next
    case False
    then show ?thesis using same rs' unfolding part_with_collision_def by (metis append_Nil2 append_Cons)
  qed
qed

text \<open>
  (C12) Verification is tamper-evident: two sequences of records that both verify from the genesis
  hash and end with the same head hash are equal, whatever their lengths, or they contain a hash
  collision: a record of the one and a record of the other, followed by equal records, that
  differ in a hashed field and have the same hash.
\<close>

theorem audit_chain_binds:
  assumes "fv_ok (verify_loop env i forensic_genesis_hash rs)" and "fv_ok (verify_loop env j forensic_genesis_hash rs')"
    and "fv_head_hash (verify_loop env i forensic_genesis_hash rs) = fv_head_hash (verify_loop env j forensic_genesis_hash rs')"
  shows "rs = rs' \<or> part_with_collision env rs rs'"
  using assms linked_binds by (auto simp: verify_loop_linked verify_loop_head)

section \<open>The log file\<close>

text \<open>A record that the log holds: it serializes, its length fits, and it parses back.\<close>

definition loggable :: "forensic_env \<Rightarrow> forensic_record \<Rightarrow> bool" where
  "loggable env r \<longleftrightarrow>
     (\<exists>bs. fe_record_bytes env r = Some bs \<and> length bs < 2 ^ 32 \<and> fe_record_of_bytes env bs = Some r)"

definition log_frame :: "forensic_env \<Rightarrow> forensic_record \<Rightarrow> bytes" where
  "log_frame env r = append_log_record (fe_record_bytes env r) []"

definition log_frames :: "forensic_env \<Rightarrow> forensic_record list \<Rightarrow> bytes" where
  "log_frames env rs = concat (map (log_frame env) rs)"

lemma append_log_frame: "append_log_record (fe_record_bytes env r) flog = flog @ log_frame env r"
  by (auto simp: log_frame_def append_log_record_def split: option.splits)

lemma read_log_frame:
  assumes "loggable env r"
  shows "read_log_records (fe_record_of_bytes env) (log_frame env r @ rest) = r # read_log_records (fe_record_of_bytes env) rest"
proof -
  obtain bs where bs: "fe_record_bytes env r = Some bs" "length bs < 2 ^ 32" "fe_record_of_bytes env bs = Some r"
    using assms by (auto simp: loggable_def)
  have len: "unat (word_of_nat (length bs) :: u32) = length bs" using bs(2) by (simp add: unat_of_nat)
  show ?thesis
    by (subst read_log_records.simps) (use bs(2) in \<open>simp add: log_frame_def append_log_record_def bs len Let_def\<close>)
qed

lemma read_log_torn:
  assumes "loggable env r" and "n < length (log_frame env r)"
  shows "read_log_records (fe_record_of_bytes env) (take n (log_frame env r)) = []"
proof -
  obtain bs where bs: "fe_record_bytes env r = Some bs" "length bs < 2 ^ 32" using assms(1) by (auto simp: loggable_def)
  have len: "unat (word_of_nat (length bs) :: u32) = length bs" using bs(2) by (simp add: unat_of_nat)
  show ?thesis using assms(2)
    by (subst read_log_records.simps) (auto simp: log_frame_def append_log_record_def bs len Let_def min_def)
qed

lemma read_log_frames:
  "\<forall>r \<in> set rs. loggable env r \<Longrightarrow>
   read_log_records (fe_record_of_bytes env) (log_frames env rs @ rest) = rs @ read_log_records (fe_record_of_bytes env) rest"
  by (induction rs) (auto simp: log_frames_def read_log_frame)

lemma read_log_Nil [simp]: "read_log_records parse [] = []"
  by (subst read_log_records.simps) simp

text \<open>A log that is cut anywhere gives the records that are still whole.\<close>

lemma read_log_cut:
  "\<forall>r \<in> set rs. loggable env r \<Longrightarrow>
   \<exists>k. read_log_records (fe_record_of_bytes env) (take n (log_frames env rs)) = take k rs \<and>
       (n < length (log_frames env (take (Suc k) rs)) \<or> k = length rs)"
proof (induction rs arbitrary: n)
  case Nil
  then show ?case by (simp add: log_frames_def)
next
  case (Cons r rs)
  let ?f = "log_frame env r"
  have frames: "log_frames env (r # rs) = ?f @ log_frames env rs" by (simp add: log_frames_def)
  show ?case
  proof (cases "n < length ?f")
    case True
    then show ?thesis using Cons.prems read_log_torn [of env r n] frames
      by (intro exI [of _ 0]) (auto simp: log_frames_def)
  next
    case False
    obtain k where k: "read_log_records (fe_record_of_bytes env) (take (n - length ?f) (log_frames env rs)) = take k rs"
      "n - length ?f < length (log_frames env (take (Suc k) rs)) \<or> k = length rs"
      using Cons.IH [of "n - length ?f"] Cons.prems by auto
    have "read_log_records (fe_record_of_bytes env) (take n (log_frames env (r # rs))) = r # take k rs"
      using False Cons.prems k(1) by (simp add: frames read_log_frame)
    then show ?thesis using k(2) False by (intro exI [of _ "Suc k"]) (auto simp: log_frames_def)
  qed
qed

section \<open>Runs of the audit log\<close>

datatype forensic_op =
    FAppend u64 string string string u64 "lit list option"
  | FCheckpoint u64 u64 u64
  | FCompact
  | FAudit u64

fun forensic_exec :: "forensic_env \<Rightarrow> forensic_op \<Rightarrow> forensic_state \<times> forensic_files \<Rightarrow> forensic_state \<times> forensic_files" where
  "forensic_exec env (FAppend now db table op seq pk) s = append_forensic_record env now db table op seq pk s"
| "forensic_exec env (FCheckpoint now now' seq) s = checkpoint_forensic now now' seq s"
| "forensic_exec env FCompact s = compact_forensic_log s"
| "forensic_exec env (FAudit now) s = snd (maintenance_audit_verify env now s)"

definition forensic_run :: "forensic_env \<Rightarrow> forensic_op list \<Rightarrow> forensic_state \<times> forensic_files" where
  "forensic_run env ops = fold (forensic_exec env) ops (forensic_init, \<lparr>ff_snapshot = None, ff_flog = []\<rparr>)"

text \<open>Ids count up from 1 without gaps, and the next id follows the last.\<close>

definition ids_ok :: "forensic_record list \<Rightarrow> bool" where
  "ids_ok chain \<longleftrightarrow> (\<forall>i < length chain. unat (fr_id (chain ! i)) = Suc i)"

lemma ids_ok_append: "ids_ok (rs @ [r]) \<longleftrightarrow> ids_ok rs \<and> unat (fr_id r) = Suc (length rs)"
  by (auto simp: ids_ok_def nth_append less_Suc_eq)

lemma ids_ok_take: "ids_ok rs \<Longrightarrow> ids_ok (take k rs)"
  by (simp add: ids_ok_def)

lemma ids_ok_last: "ids_ok rs \<Longrightarrow> unat (last_id rs) = length rs"
  by (cases rs rule: rev_cases) (auto simp: last_id_def ids_ok_append)

text \<open>
  The invariant: the chain is the snapshot's chain followed by the new records, the log holds the
  new records behind records that the snapshot has too, and the other fields are persisted.
\<close>

definition audit_inv :: "forensic_env \<Rightarrow> forensic_state \<times> forensic_files \<Rightarrow> bool" where
  "audit_inv env = (\<lambda>(st, files).
     let st0 = load_snapshot (ff_snapshot files) in
     linked env forensic_genesis_hash (fs_chain st) \<and> ids_ok (fs_chain st) \<and>
     unat (fs_next_id st) = Suc (length (fs_chain st)) \<and> unat (fs_next_id st0) = Suc (length (fs_chain st0)) \<and>
     fs_anchors st = fs_anchors st0 \<and> fs_last_verified_ms st = fs_last_verified_ms st0 \<and>
     (\<exists>old new. fs_chain st = fs_chain st0 @ new \<and> ff_flog files = log_frames env (old @ new) \<and>
        set old \<subseteq> set (fs_chain st0)))"

lemma audit_invE:
  assumes "audit_inv env (st, files)"
  obtains old new where "fs_chain st = fs_chain (load_snapshot (ff_snapshot files)) @ new"
    "ff_flog files = log_frames env (old @ new)" "set old \<subseteq> set (fs_chain (load_snapshot (ff_snapshot files)))"
  using assms by (auto simp: audit_inv_def Let_def)

lemma audit_invD:
  assumes "audit_inv env (st, files)"
  shows "linked env forensic_genesis_hash (fs_chain st)" "ids_ok (fs_chain st)" "unat (fs_next_id st) = Suc (length (fs_chain st))"
    "unat (fs_next_id (load_snapshot (ff_snapshot files))) = Suc (length (fs_chain (load_snapshot (ff_snapshot files))))"
    "fs_anchors st = fs_anchors (load_snapshot (ff_snapshot files))"
    "fs_last_verified_ms st = fs_last_verified_ms (load_snapshot (ff_snapshot files))"
  using assms by (auto simp: audit_inv_def Let_def)

lemma audit_invI:
  assumes "linked env forensic_genesis_hash (fs_chain st)" "ids_ok (fs_chain st)" "unat (fs_next_id st) = Suc (length (fs_chain st))"
    "load_snapshot (ff_snapshot files) = st0" "unat (fs_next_id st0) = Suc (length (fs_chain st0))"
    "fs_anchors st = fs_anchors st0" "fs_last_verified_ms st = fs_last_verified_ms st0"
    "fs_chain st = fs_chain st0 @ new" "ff_flog files = log_frames env (old @ new)" "set old \<subseteq> set (fs_chain st0)"
  shows "audit_inv env (st, files)"
  using assms unfolding audit_inv_def Let_def prod.case by blast

lemma load_persisted:
  "1 \<le> fs_next_id st \<Longrightarrow> load_snapshot (Some \<lparr>fd_format_version = FORENSIC_CHAIN_FORMAT_VERSION, fd_next_id = fs_next_id st,
       fd_records = fs_chain st, fd_anchors = fs_anchors st, fd_last_verified_ms = fs_last_verified_ms st\<rparr>) = st"
  by (simp add: load_snapshot_def)

text \<open>Persisting the state, with the log kept or removed.\<close>

lemma audit_inv_persist:
  assumes "audit_inv env (st, files)" and "fs_chain st' = fs_chain st" and "fs_next_id st' = fs_next_id st"
    and "flog = ff_flog files \<or> flog = []"
  shows "audit_inv env (st', (persist_forensic st' files)\<lparr>ff_flog := flog\<rparr>)"
proof -
  from assms(1) obtain old new where parts: "fs_chain st = fs_chain (load_snapshot (ff_snapshot files)) @ new"
    "ff_flog files = log_frames env (old @ new)" "set old \<subseteq> set (fs_chain (load_snapshot (ff_snapshot files)))"
    by (rule audit_invE)
  note inv = audit_invD [OF assms(1)]
  have "1 \<le> fs_next_id st'" using inv(3) assms(3) by (simp add: word_le_nat_alt)
  then have load: "load_snapshot (ff_snapshot ((persist_forensic st' files)\<lparr>ff_flog := flog\<rparr>)) = st'"
    by (simp add: persist_forensic_def load_persisted)
  have "\<exists>old'. flog = log_frames env (old' @ []) \<and> set old' \<subseteq> set (fs_chain st')"
    using assms(4)
  proof
    assume "flog = ff_flog files"
    then show ?thesis using parts assms(2) by (intro exI [of _ "old @ new"]) auto
  next
    assume "flog = []"
    then show ?thesis by (intro exI [of _ "[]"]) (simp add: log_frames_def)
  qed
  then obtain old' where "flog = log_frames env (old' @ [])" "set old' \<subseteq> set (fs_chain st')" by blast
  then show ?thesis
    by (intro audit_invI [where ?st0.0 = st' and new = "[]" and old = old']) (use inv load assms in simp_all)
qed

lemma audit_inv_append:
  assumes "audit_inv env (st, files)" and "length (fs_chain st) < 2 ^ 64 - 2"
  shows "audit_inv env (append_forensic_record env now db table op seq pk (st, files))"
proof -
  let ?r = "next_record env now db table op seq pk st"
  from assms(1) obtain old new where parts: "fs_chain st = fs_chain (load_snapshot (ff_snapshot files)) @ new"
    "ff_flog files = log_frames env (old @ new)" "set old \<subseteq> set (fs_chain (load_snapshot (ff_snapshot files)))"
    by (rule audit_invE)
  note inv = audit_invD [OF assms(1)]
  have r: "fr_prev_hash ?r = head_from forensic_genesis_hash (fs_chain st)" "fr_hash ?r = record_hash env ?r" "fr_id ?r = fs_next_id st"
    by (simp_all add: next_record_def Let_def record_hash_def head_from_def chain_head_hash_def)
  have succ: "unat (saturating_succ (fs_next_id st)) = Suc (unat (fs_next_id st))"
    using assms(2) inv(3) by (simp add: unat_saturating_succ)
  have chain: "linked env forensic_genesis_hash (fs_chain st @ [?r])" "ids_ok (fs_chain st @ [?r])"
    using inv(1-3) r by (simp_all add: linked_last ids_ok_append)
  have log: "ff_flog files @ log_frame env ?r = log_frames env (old @ new @ [?r])" using parts(2) by (simp add: log_frames_def)
  show ?thesis
    unfolding append_forensic_record_def Let_def prod.case append_log_frame
    by (rule audit_invI [where new = "new @ [?r]" and old = old]) (use chain log inv parts(1,3) succ in simp_all)
qed

lemma audit_inv_exec:
  assumes "audit_inv env s" and "length (fs_chain (fst (forensic_exec env op s))) < 2 ^ 64 - 1"
  shows "audit_inv env (forensic_exec env op s)"
proof -
  obtain st files where s: "s = (st, files)" by (cases s)
  show ?thesis
  proof (cases op)
    case FAppend
    then show ?thesis using assms s audit_inv_append by (auto simp: append_forensic_record_def Let_def)
  next
    case (FAudit now)
    have "persist_forensic st files = (persist_forensic st files)\<lparr>ff_flog := ff_flog files\<rparr>" for st
      by (simp add: persist_forensic_def)
    then show ?thesis
      using FAudit assms s audit_inv_persist [of env st files "st\<lparr>fs_last_verified_ms := now\<rparr>" "ff_flog files"]
      by (simp add: maintenance_audit_verify_def Let_def)
  next
    case FCompact
    then show ?thesis using assms s audit_inv_persist [of env st files st "[]"] by (simp add: compact_forensic_log_def)
  next
    case FCheckpoint
    then show ?thesis
      using assms s audit_inv_persist [of env st files "st\<lparr>fs_anchors := a\<rparr>" "[]" for a]
      by (simp add: checkpoint_forensic_def compact_forensic_log_def Let_def)
  qed
qed

lemma forensic_exec_prefix: "prefix (fs_chain (fst s)) (fs_chain (fst (forensic_exec env op s)))"
  by (cases op; cases s)
     (auto simp: append_forensic_record_def checkpoint_forensic_def compact_forensic_log_def maintenance_audit_verify_def Let_def)

lemma audit_inv_run:
  assumes "length (fs_chain (fst (forensic_run env ops))) < 2 ^ 64 - 1"
  shows "audit_inv env (forensic_run env ops)"
  using assms
proof (induction ops rule: rev_induct)
  case Nil
  show ?case
    unfolding forensic_run_def fold.simps id_apply
    by (rule audit_invI [where ?st0.0 = forensic_init and new = "[]" and old = "[]"])
       (simp_all add: forensic_init_def load_snapshot_def ids_ok_def log_frames_def)
next
  case (snoc op ops)
  have step: "forensic_run env (ops @ [op]) = forensic_exec env op (forensic_run env ops)" by (simp add: forensic_run_def)
  have "length (fs_chain (fst (forensic_run env ops))) \<le> length (fs_chain (fst (forensic_run env (ops @ [op]))))"
    unfolding step by (rule prefix_length_le [OF forensic_exec_prefix])
  then show ?case using snoc audit_inv_exec [of env "forensic_run env ops" op] by (simp add: step)
qed

text \<open>Replay skips the records of the snapshot and appends the others.\<close>

lemma load_tail_old: "\<forall>r \<in> set rs. fr_id r \<le> max_id \<Longrightarrow> load_tail max_id (rs @ rs') st = load_tail max_id rs' st"
  by (induction rs) auto

lemma load_tail_new:
  assumes "ids_ok (fs_chain st @ rs)" and "length (fs_chain st @ rs) < 2 ^ 64 - 1" and "unat max_id \<le> length (fs_chain st)"
    and "unat (fs_next_id st) = Suc (length (fs_chain st))"
  shows "\<exists>st'. load_tail max_id rs st = st' \<and> fs_chain st' = fs_chain st @ rs \<and>
     unat (fs_next_id st') = Suc (length (fs_chain st @ rs)) \<and> fs_anchors st' = fs_anchors st \<and>
     fs_last_verified_ms st' = fs_last_verified_ms st"
  using assms
proof (induction rs arbitrary: st)
  case (Cons r rs)
  let ?n = "length (fs_chain st)"
  have r: "unat (fr_id r) = Suc ?n" using Cons.prems(1) by (auto simp: ids_ok_def dest: spec [of _ ?n])
  have bound: "Suc ?n < 2 ^ 64 - 1" using Cons.prems(2) by simp
  have id: "max_id < fr_id r" using Cons.prems(3) r by (simp add: word_less_nat_alt)
  have next_id: "unat (fr_id r + 1) = Suc (Suc ?n)" using r bound by (simp add: unat_word_ariths)
  let ?st = "st\<lparr>fs_next_id := max (fs_next_id st) (fr_id r + 1), fs_chain := fs_chain st @ [r]\<rparr>"
  have "unat (fs_next_id ?st) = Suc (length (fs_chain ?st))"
    using next_id Cons.prems(4) by (auto simp: max_def word_le_nat_alt)
  then show ?case using Cons.IH [of ?st] Cons.prems id by auto
qed simp

lemma ids_le_last:
  assumes "ids_ok rs" and "r \<in> set rs"
  shows "fr_id r \<le> last_id rs"
proof -
  obtain i where "i < length rs" "r = rs ! i" using assms(2) by (auto simp: in_set_conv_nth)
  then show ?thesis using assms(1) ids_ok_last [OF assms(1)] by (auto simp: ids_ok_def word_le_nat_alt)
qed

lemma load_replayed:
  assumes inv: "audit_inv env (st, files)" and len: "length (fs_chain st) < 2 ^ 64 - 1"
    and parts: "fs_chain st = fs_chain (load_snapshot (ff_snapshot files)) @ new"
      "set old \<subseteq> set (fs_chain (load_snapshot (ff_snapshot files)))"
    and read: "read_log_records (fe_record_of_bytes env) flog = old @ take j new"
  shows "\<exists>st'. load_forensic env (files\<lparr>ff_flog := flog\<rparr>) = st' \<and>
     fs_chain st' = fs_chain (load_snapshot (ff_snapshot files)) @ take j new \<and>
     unat (fs_next_id st') = Suc (length (fs_chain st')) \<and> fs_anchors st' = fs_anchors st \<and>
     fs_last_verified_ms st' = fs_last_verified_ms st"
proof -
  let ?st0 = "load_snapshot (ff_snapshot files)"
  have ids: "ids_ok (fs_chain ?st0 @ take j new)" "ids_ok (fs_chain ?st0)"
    using ids_ok_take [OF audit_invD(2) [OF inv], of "length (fs_chain ?st0) + j"]
      ids_ok_take [OF audit_invD(2) [OF inv], of "length (fs_chain ?st0)"] parts(1) by simp_all
  have "\<forall>r \<in> set old. fr_id r \<le> last_id (fs_chain ?st0)" using ids_le_last [OF ids(2)] parts(2) by blast
  then have "load_forensic env (files\<lparr>ff_flog := flog\<rparr>) = load_tail (last_id (fs_chain ?st0)) (take j new) ?st0"
    using read by (simp add: load_forensic_def Let_def load_tail_old)
  moreover have "length (fs_chain ?st0 @ take j new) < 2 ^ 64 - 1" using len parts(1) by simp
  ultimately show ?thesis
    using load_tail_new [OF ids(1), of "last_id (fs_chain ?st0)"] ids_ok_last [OF ids(2)] audit_invD(4-6) [OF inv] by auto
qed

lemma load_cut:
  assumes "audit_inv env (st, files)" and "length (fs_chain st) < 2 ^ 64 - 1" and "\<forall>r \<in> set (fs_chain st). loggable env r"
  shows "\<exists>st' k. load_forensic env (files\<lparr>ff_flog := take n (ff_flog files)\<rparr>) = st' \<and> fs_chain st' = take k (fs_chain st) \<and>
     length (fs_chain (load_snapshot (ff_snapshot files))) \<le> k \<and> (length (ff_flog files) \<le> n \<longrightarrow> st' = st)"
proof -
  let ?snap = "fs_chain (load_snapshot (ff_snapshot files))"
  from assms(1) obtain old new where parts: "fs_chain st = ?snap @ new" "ff_flog files = log_frames env (old @ new)" "set old \<subseteq> set ?snap"
    by (rule audit_invE)
  have "\<forall>r \<in> set (old @ new). loggable env r" using assms(3) parts by auto
  then obtain k where k: "read_log_records (fe_record_of_bytes env) (take n (ff_flog files)) = take k (old @ new)"
      "n < length (log_frames env (take (Suc k) (old @ new))) \<or> k = length (old @ new)"
    using read_log_cut [of "old @ new" env n] parts(2) by auto
  have "set (take k old) \<subseteq> set ?snap" using parts(3) set_take_subset by fast
  moreover have "read_log_records (fe_record_of_bytes env) (take n (ff_flog files)) = take k old @ take (k - length old) new"
    using k(1) by simp
  ultimately obtain st' where st': "load_forensic env (files\<lparr>ff_flog := take n (ff_flog files)\<rparr>) = st'"
    "fs_chain st' = ?snap @ take (k - length old) new" "unat (fs_next_id st') = Suc (length (fs_chain st'))"
    "fs_anchors st' = fs_anchors st" "fs_last_verified_ms st' = fs_last_verified_ms st"
    using load_replayed [OF assms(1,2) parts(1)] by blast
  have "st' = st" if "length (ff_flog files) \<le> n"
  proof -
    have "length (log_frames env (take m (old @ new))) \<le> length (ff_flog files)" for m
      using parts(2) append_take_drop_id [of m "old @ new"]
      by (metis le_add1 length_append log_frames_def map_append concat_append)
    then have "k = length (old @ new)" using k(2) that by (meson leD order_trans)
    then have "fs_chain st' = fs_chain st" using st'(2) parts(1) by simp
    then show ?thesis using st'(3-5) audit_invD(3) [OF assms(1)] by (intro forensic_state.equality) (auto simp: word_unat_eq_iff)
  qed
  then show ?thesis using st'(1,2) parts(1)
    by (intro exI [of _ st'] exI [of _ "length ?snap + (k - length old)"]) auto
qed

text \<open>
  (C13) After any run of appends, compactions, checkpoints and audits, a restart restores the whole
  audit state, and after a crash that cut the log anywhere the loaded chain is a prefix of the
  chain that contains the snapshot; in both cases the audit finds the chain intact. (The records
  serialize and parse back, and there are fewer than 2^64 - 1.)
\<close>

theorem audit_log_recovers:
  assumes "forensic_run env ops = (st, files)" and "length (fs_chain st) < 2 ^ 64 - 1"
    and "\<forall>r \<in> set (fs_chain st). loggable env r"
  shows "load_forensic env files = st \<and>
     (\<exists>st' k. load_forensic env (files\<lparr>ff_flog := take n (ff_flog files)\<rparr>) = st' \<and> fs_chain st' = take k (fs_chain st) \<and>
        length (fs_chain (load_snapshot (ff_snapshot files))) \<le> k \<and>
        fst (fst (maintenance_audit_verify env now (st', files'))))"
proof -
  have inv: "audit_inv env (st, files)" using audit_inv_run [of env ops] assms(1,2) by simp
  have "load_forensic env files = st"
    using load_cut [OF inv assms(2,3), of "length (ff_flog files)"] by auto
  moreover have "fst (fst (maintenance_audit_verify env now (st', files')))" if "fs_chain st' = take k (fs_chain st)" for st' k
    using that linked_take [OF audit_invD(1) [OF inv], of k]
    by (simp add: maintenance_audit_verify_def Let_def verify_loop_linked)
  ultimately show ?thesis using load_cut [OF inv assms(2,3), of n] by blast
qed

section \<open>A concrete encoding\<close>

lemma append_log_record_code [code]:
  "append_log_record rec flog =
     (case rec of
        None \<Rightarrow> flog
      | Some bs \<Rightarrow> if int (length bs) < 2 ^ 32 then flog @ le_bytes (word_of_nat (length bs) :: u32) @ bs else flog)"
  by (simp add: append_log_record_def split: option.splits)

text \<open>
  Records whose other fields are fixed, written as a length byte, the id, both hashes and an end
  mark that no text contains; the hash is the length of the payload.
\<close>

definition demo_record :: "u64 \<Rightarrow> string \<Rightarrow> string \<Rightarrow> forensic_record" where
  "demo_record i prev hash = \<lparr>fr_id = i, fr_ts_ms = 7, fr_db = ''d'', fr_table = ''t'', fr_op = ''insert'', fr_pk = None,
     fr_change_seq = 1, fr_prev_hash = prev, fr_hash = hash\<rparr>"

definition bytes_string :: "bytes \<Rightarrow> string" where
  "bytes_string = map (\<lambda>b. char_of (unat b))"

definition demo_record_bytes :: "forensic_record \<Rightarrow> bytes" where
  "demo_record_bytes r =
     word_of_nat (length (fr_prev_hash r)) # ucast (fr_id r) # string_bytes (fr_prev_hash r) @ string_bytes (fr_hash r) @ [0xFF]"

definition demo_record_parse :: "bytes \<Rightarrow> forensic_record option" where
  "demo_record_parse bs =
     (case bs of
        n # i # rest \<Rightarrow>
          if rest \<noteq> [] \<and> last rest = 0xFF
          then Some (demo_record (ucast i) (bytes_string (take (unat n) rest)) (bytes_string (drop (unat n) (butlast rest))))
          else None
      | _ \<Rightarrow> None)"

definition demo_forensic :: forensic_env where
  "demo_forensic = \<lparr>fe_blake3 = (\<lambda>bs. bs), fe_json_bytes = (\<lambda>v. case v of JObj m \<Rightarrow> Some [word_of_nat (length m)] | _ \<Rightarrow> None),
     fe_lit_json = (\<lambda>_. JNull), fe_lit_of_json = (\<lambda>_. None), fe_f32_json = (\<lambda>_. JNull),
     fe_record_bytes = (\<lambda>r. Some (demo_record_bytes r)), fe_record_of_bytes = demo_record_parse,
     fe_record_json = (\<lambda>_. JNull), fe_record_of_json = (\<lambda>_. None)\<rparr>"

definition demo_insert :: forensic_op where
  "demo_insert = FAppend 7 ''d'' ''t'' ''insert'' 1 None"

lemma demo_run_one:
  "forensic_run demo_forensic [demo_insert] =
     (\<lparr>fs_chain = [demo_record 1 ''genesis'' ''08''], fs_next_id = 2, fs_anchors = [], fs_last_verified_ms = 0\<rparr>,
      \<lparr>ff_snapshot = None, ff_flog = [12, 0, 0, 0, 7, 1, 0x67, 0x65, 0x6e, 0x65, 0x73, 0x69, 0x73, 0x30, 0x38, 0xFF]\<rparr>)"
  by code_simp

lemma demo_loggable: "loggable demo_forensic (demo_record 1 ''genesis'' ''08'')"
proof -
  have "fe_record_of_bytes demo_forensic (demo_record_bytes (demo_record 1 ''genesis'' ''08'')) = Some (demo_record 1 ''genesis'' ''08'')"
    "length (demo_record_bytes (demo_record 1 ''genesis'' ''08'')) = 12"
    by code_simp+
  then show ?thesis by (auto simp: loggable_def demo_forensic_def)
qed

theorem audit_log_recovers_witness:
  "load_forensic demo_forensic \<lparr>ff_snapshot = None, ff_flog = [12, 0, 0, 0, 7, 1, 0x67, 0x65, 0x6e, 0x65, 0x73, 0x69, 0x73, 0x30, 0x38, 0xFF]\<rparr> =
   \<lparr>fs_chain = [demo_record 1 ''genesis'' ''08''], fs_next_id = 2, fs_anchors = [], fs_last_verified_ms = 0\<rparr>"
  using audit_log_recovers [OF demo_run_one] demo_loggable by simp

theorem audit_chain_binds_witness:
  "fv_ok (verify_loop demo_forensic 0 forensic_genesis_hash [demo_record 1 ''genesis'' ''08'']) \<and>
   fv_ok (verify_loop demo_forensic 0 forensic_genesis_hash [demo_record 2 ''genesis'' ''08'']) \<and>
   part_with_collision demo_forensic [demo_record 1 ''genesis'' ''08''] [demo_record 2 ''genesis'' ''08'']"
proof -
  have "fv_ok (verify_loop demo_forensic 0 forensic_genesis_hash [demo_record 1 ''genesis'' ''08''])"
    "fv_ok (verify_loop demo_forensic 0 forensic_genesis_hash [demo_record 2 ''genesis'' ''08''])"
    "fv_head_hash (verify_loop demo_forensic 0 forensic_genesis_hash [demo_record 1 ''genesis'' ''08'']) =
     fv_head_hash (verify_loop demo_forensic 0 forensic_genesis_hash [demo_record 2 ''genesis'' ''08''])"
    by code_simp+
  moreover have "[demo_record 1 ''genesis'' ''08''] \<noteq> [demo_record 2 ''genesis'' ''08'']" by (simp add: demo_record_def)
  ultimately show ?thesis
    using audit_chain_binds [of demo_forensic 0 "[demo_record 1 ''genesis'' ''08'']" 0 "[demo_record 2 ''genesis'' ''08'']"] by blast
qed

section \<open>Appending behind a torn record\<close>

lemma le_bytes_top_zero: "n < 2 ^ 24 \<Longrightarrow> le_bytes (word_of_nat n :: u32) ! 3 = 0"
  by (simp add: le_bytes_def numeral_3_eq_3 unat_of_nat)

text \<open>A torn record swallows the length field of what is appended behind it, which contains a zero byte.\<close>

lemma read_torn_then_more:
  assumes "loggable env r" and "4 \<le> m" and "m + 4 \<le> length (log_frame env r)"
    and "behind = [] \<or> 4 \<le> length behind \<and> behind ! 3 = 0"
    and "\<forall>bs. 0 \<in> set bs \<longrightarrow> fe_record_of_bytes env bs = None"
  shows "read_log_records (fe_record_of_bytes env) (take m (log_frame env r) @ behind) = []"
proof -
  obtain bs where bs: "fe_record_bytes env r = Some bs" "length bs < 2 ^ 32" using assms(1) by (auto simp: loggable_def)
  have len: "unat (word_of_nat (length bs) :: u32) = length bs" using bs(2) by (simp add: unat_of_nat)
  have frame: "log_frame env r = le_bytes (word_of_nat (length bs) :: u32) @ bs"
    using bs by (simp add: log_frame_def append_log_record_def)
  define d where "d = m - 4"
  have d: "m = 4 + d" "d + 4 \<le> length bs" using assms(2,3) by (simp_all add: d_def frame)
  have "0 \<in> set (take (length bs) (take d bs @ behind))" if "length bs \<le> length (take d bs @ behind)"
  proof -
    have "behind \<noteq> []" using that d(2) by auto
    then have behind: "4 \<le> length behind" "behind ! 3 = 0" using assms(4) by auto
    have "3 < length (take (length bs - d) behind)" using behind(1) d(2) by simp
    then have "take (length bs - d) behind ! 3 \<in> set (take (length bs - d) behind)" by (rule nth_mem)
    then show ?thesis using behind(2) d(2) by (simp add: min_def)
  qed
  then have parse: "fe_record_of_bytes env (take (length bs) (take d bs @ behind)) = None"
    if "length bs \<le> length (take d bs @ behind)" using that assms(5) by blast
  show ?thesis
    by (subst read_log_records.simps) (use parse in \<open>simp add: frame d(1) len Let_def\<close>)
qed


definition is_append :: "forensic_op \<Rightarrow> bool" where
  "is_append op = (case op of FAppend _ _ _ _ _ _ \<Rightarrow> True | _ \<Rightarrow> False)"

lemma appends_extend:
  assumes "list_all is_append ops" and "fold (forensic_exec env) ops (st, files) = (st', files')"
  shows "\<exists>new. fs_chain st' = fs_chain st @ new \<and> length new = length ops \<and>
     files' = files\<lparr>ff_flog := ff_flog files @ log_frames env new\<rparr>"
  using assms
proof (induction ops arbitrary: st files)
  case Nil
  then show ?case by (simp add: log_frames_def)
next
  case (Cons op ops)
  obtain now db table kind seq pk where op: "op = FAppend now db table kind seq pk"
    using Cons.prems(1) by (auto simp: is_append_def split: forensic_op.splits)
  define rec where "rec = next_record env now db table kind seq pk st"
  have step: "forensic_exec env op (st, files) =
      (st\<lparr>fs_next_id := saturating_succ (fs_next_id st), fs_chain := fs_chain st @ [rec]\<rparr>,
       files\<lparr>ff_flog := ff_flog files @ log_frame env rec\<rparr>)"
    by (simp add: op append_forensic_record_def Let_def rec_def append_log_frame)
  obtain new where "fs_chain st' = (fs_chain st @ [rec]) @ new" "length new = length ops"
    "files' = files\<lparr>ff_flog := (ff_flog files @ log_frame env rec) @ log_frames env new\<rparr>"
    using Cons.IH [OF _ Cons.prems(2) [unfolded fold.simps comp_apply step]] Cons.prems(1) by auto
  then show ?case by (intro exI [of _ "rec # new"]) (simp add: log_frames_def)
qed

lemma frames_start_zero:
  assumes "\<forall>r \<in> set rs. \<exists>bs. fe_record_bytes env r = Some bs \<and> length bs < 2 ^ 24"
  shows "log_frames env rs = [] \<or> 4 \<le> length (log_frames env rs) \<and> log_frames env rs ! 3 = 0"
proof (cases rs)
  case (Cons r rest)
  then obtain bs where "fe_record_bytes env r = Some bs" "length bs < 2 ^ 24" using assms by auto
  then show ?thesis using le_bytes_top_zero [of "length bs"]
    by (simp add: Cons log_frames_def log_frame_def append_log_record_def nth_append)
qed (simp add: log_frames_def)

text \<open>
  (C35) Loading does not cut a torn record off the log, so what is appended afterwards is written
  behind it. If the log ends in a record that lacks at least its last four bytes, then after any
  number of further appends (records of less than 16 MiB, and no text with a zero byte parses) the
  chain in memory has grown by that number, but a restart loads what the torn log alone loads: all
  the appended records are lost.
\<close>

theorem torn_log_loses_later_records:
  assumes "ff_flog files = log_frames env rs @ take m (log_frame env r)" and "\<forall>x \<in> set (r # rs). loggable env x"
    and "4 \<le> m" and "m + 4 \<le> length (log_frame env r)"
    and "list_all is_append ops" and "fold (forensic_exec env) ops (st, files) = (st', files')"
    and "\<forall>x \<in> set (fs_chain st'). \<exists>bs. fe_record_bytes env x = Some bs \<and> length bs < 2 ^ 24"
    and "\<forall>bs. 0 \<in> set bs \<longrightarrow> fe_record_of_bytes env bs = None"
  shows "length (fs_chain st') = length (fs_chain st) + length ops \<and>
     load_forensic env files' = load_forensic env (files\<lparr>ff_flog := log_frames env rs\<rparr>)"
proof -
  obtain new where new: "fs_chain st' = fs_chain st @ new" "length new = length ops"
    "files' = files\<lparr>ff_flog := ff_flog files @ log_frames env new\<rparr>"
    using appends_extend [OF assms(5,6)] by blast
  have "read_log_records (fe_record_of_bytes env) (take m (log_frame env r) @ log_frames env new) = []"
    using assms(2-4,7,8) new(1) by (intro read_torn_then_more frames_start_zero) auto
  then have "read_log_records (fe_record_of_bytes env) (ff_flog files') = rs"
    using assms(1,2) by (simp add: new(3) read_log_frames)
  moreover have "read_log_records (fe_record_of_bytes env) (log_frames env rs) = rs"
    using assms(2) read_log_frames [of rs env "[]"] by simp
  ultimately show ?thesis using new by (simp add: load_forensic_def)
qed

text \<open>The encoding of the examples with a parser that refuses zero bytes.\<close>

definition strict_forensic :: forensic_env where
  "strict_forensic = demo_forensic\<lparr>fe_record_of_bytes := (\<lambda>bs. if 0 \<in> set bs then None else demo_record_parse bs)\<rparr>"

theorem torn_log_loses_later_records_witness:
  "load_forensic strict_forensic
     (snd (forensic_exec strict_forensic demo_insert
        (forensic_init, \<lparr>ff_snapshot = None, ff_flog = [12, 0, 0, 0, 7, 1, 0x67, 0x65]\<rparr>))) = forensic_init"
proof -
  let ?r = "demo_record 1 ''genesis'' ''08''"
  let ?files = "\<lparr>ff_snapshot = None, ff_flog = [12, 0, 0, 0, 7, 1, 0x67, 0x65]\<rparr> :: forensic_files"
  have frame: "log_frame strict_forensic ?r = [12, 0, 0, 0, 7, 1, 0x67, 0x65, 0x6e, 0x65, 0x73, 0x69, 0x73, 0x30, 0x38, 0xFF]"
    and bytes: "fe_record_bytes strict_forensic ?r = Some [7, 1, 0x67, 0x65, 0x6e, 0x65, 0x73, 0x69, 0x73, 0x30, 0x38, 0xFF]"
    and parse: "fe_record_of_bytes strict_forensic [7, 1, 0x67, 0x65, 0x6e, 0x65, 0x73, 0x69, 0x73, 0x30, 0x38, 0xFF] = Some ?r"
    and chain: "fs_chain (fst (forensic_exec strict_forensic demo_insert (forensic_init, ?files))) = [?r]"
    by code_simp+
  have op: "is_append demo_insert" and strict: "\<forall>bs. 0 \<in> set bs \<longrightarrow> fe_record_of_bytes strict_forensic bs = None"
    by (simp_all add: is_append_def demo_insert_def strict_forensic_def)
  have "load_forensic strict_forensic (snd (forensic_exec strict_forensic demo_insert (forensic_init, ?files))) =
      load_forensic strict_forensic (?files\<lparr>ff_flog := log_frames strict_forensic []\<rparr>)"
    using torn_log_loses_later_records [of ?files strict_forensic "[]" 8 ?r "[demo_insert]" forensic_init
        "fst (forensic_exec strict_forensic demo_insert (forensic_init, ?files))"
        "snd (forensic_exec strict_forensic demo_insert (forensic_init, ?files))"]
    by (simp add: frame chain bytes parse loggable_def log_frames_def op strict)
  then show ?thesis by (simp add: load_forensic_def load_snapshot_def log_frames_def)
qed

end
