(* ===== verification/Forensic_Merkle.thy ===== *)
theory Forensic_Merkle
  imports Forensic_Chain
begin

text \<open>
  The Merkle tree over the hashes of audit records (\<open>forensic_merkle_root\<close> and
  \<open>forensic_merkle_proof\<close> of \<open>forensic_helpers.rs\<close>).
\<close>

section \<open>Root\<close>

definition merkle_combine :: "(bytes \<Rightarrow> bytes) \<Rightarrow> string \<Rightarrow> string \<Rightarrow> string" where
  "merkle_combine blake3 a b = hex16 (value_id blake3 (string_bytes (a @ '':'' @ b)))"

text \<open>One round of the outer loop: pairs are combined, an odd last element is kept.\<close>

fun merkle_level :: "(bytes \<Rightarrow> bytes) \<Rightarrow> string list \<Rightarrow> string list" where
  "merkle_level blake3 (a # b # hs) = merkle_combine blake3 a b # merkle_level blake3 hs"
| "merkle_level blake3 [a] = [a]"
| "merkle_level blake3 [] = []"

lemma length_merkle_level: "length (merkle_level blake3 hs) = (length hs + 1) div 2"
  by (induction blake3 hs rule: merkle_level.induct) auto

function merkle_fold :: "(bytes \<Rightarrow> bytes) \<Rightarrow> string list \<Rightarrow> string list" where
  "merkle_fold blake3 hs = (if 1 < length hs then merkle_fold blake3 (merkle_level blake3 hs) else hs)"
  by pat_completeness auto
termination
  by (relation "measure (\<lambda>(blake3, hs). length hs)") (auto simp: length_merkle_level)

declare merkle_fold.simps [simp del]

definition forensic_merkle_root :: "(bytes \<Rightarrow> bytes) \<Rightarrow> forensic_record list \<Rightarrow> string option" where
  "forensic_merkle_root blake3 records =
     (if records = [] then None
      else case merkle_fold blake3 (map fr_hash records) of [] \<Rightarrow> None | h # _ \<Rightarrow> Some h)"

section \<open>Inclusion proofs\<close>

text \<open>
  One round for the element at \<open>idx\<close>: the sibling, if there is one (\<open>True\<close> for a right sibling),
  and the index in the next level. \<open>i\<close> is the position of the front and \<open>n\<close> the length of \<open>next\<close>.
\<close>

fun proof_level :: "string list \<Rightarrow> nat \<Rightarrow> nat \<Rightarrow> nat \<Rightarrow> (string \<times> bool) list \<times> nat \<Rightarrow> (string \<times> bool) list \<times> nat" where
  "proof_level (a # b # hs) i n idx (acc, new_idx) =
     proof_level hs (i + 2) (n + 1) idx
       (if i = idx then (acc @ [(b, True)], n)
        else if i + 1 = idx then (acc @ [(a, False)], n)
        else (acc, new_idx))"
| "proof_level [a] i n idx (acc, new_idx) = (if i = idx then (acc, n) else (acc, new_idx))"
| "proof_level [] i n idx r = r"

function proof_loop :: "(bytes \<Rightarrow> bytes) \<Rightarrow> string list \<Rightarrow> (string \<times> bool) list \<Rightarrow> nat \<Rightarrow> (string \<times> bool) list" where
  "proof_loop blake3 hs acc idx =
     (if 1 < length hs
      then case proof_level hs 0 0 idx (acc, 0) of
             (acc', idx') \<Rightarrow> proof_loop blake3 (merkle_level blake3 hs) acc' idx'
      else acc)"
  by pat_completeness auto
termination
  by (relation "measure (\<lambda>(blake3, hs, acc, idx). length hs)") (auto simp: length_merkle_level)

declare proof_loop.simps [simp del]

definition forensic_merkle_proof :: "(bytes \<Rightarrow> bytes) \<Rightarrow> forensic_record list \<Rightarrow> nat \<Rightarrow> (string \<times> bool) list" where
  "forensic_merkle_proof blake3 records target_idx =
     (if records = [] \<or> length records \<le> target_idx then []
      else proof_loop blake3 (map fr_hash records) [] target_idx)"

section \<open>Checking a proof\<close>

text \<open>What a holder of a proof computes: the siblings combined from the leaf upwards.\<close>

fun check_proof :: "(bytes \<Rightarrow> bytes) \<Rightarrow> string \<Rightarrow> (string \<times> bool) list \<Rightarrow> string" where
  "check_proof blake3 h [] = h"
| "check_proof blake3 h ((s, right) # proof) =
     check_proof blake3 (if right then merkle_combine blake3 h s else merkle_combine blake3 s h) proof"

lemma check_proof_append: "check_proof blake3 h (p @ q) = check_proof blake3 (check_proof blake3 h p) q"
  by (induction blake3 h p rule: check_proof.induct) auto

text \<open>The sibling of an index in a level.\<close>

definition sibling :: "string list \<Rightarrow> nat \<Rightarrow> (string \<times> bool) list" where
  "sibling hs j = (if even j then if j + 1 < length hs then [(hs ! (j + 1), True)] else [] else [(hs ! (j - 1), False)])"

lemma sibling_shift: "sibling (a # b # hs) (Suc (Suc d)) = sibling hs d"
  by (cases d) (auto simp: sibling_def)

lemma proof_level_past: "idx < i \<Longrightarrow> proof_level hs i n idx r = r"
  by (induction hs i n idx r rule: proof_level.induct) auto

lemma proof_level_sibling:
  assumes "i \<le> idx" and "idx - i < length hs"
  shows "proof_level hs i n idx (acc, new_idx) = (acc @ sibling hs (idx - i), n + (idx - i) div 2)"
  using assms
proof (induction hs i n idx "(acc, new_idx)" arbitrary: acc new_idx rule: proof_level.induct)
  case (1 a b hs i n idx acc new_idx)
  consider "i = idx" | "i + 1 = idx" | "i + 2 \<le> idx" using 1 by linarith
  then show ?case
  proof cases
    case 3
    then have d: "idx - i = Suc (Suc (idx - (i + 2)))" by simp
    have "proof_level hs (i + 2) (n + 1) idx (acc, new_idx) = (acc @ sibling hs (idx - (i + 2)), n + 1 + (idx - (i + 2)) div 2)"
      using 1 3 d by simp
    then show ?thesis using 3 by (simp add: d sibling_shift)
  qed (auto simp: sibling_def proof_level_past)
qed (auto simp: sibling_def)

lemma nth_merkle_level:
  assumes "j < length hs"
  shows "merkle_level blake3 hs ! (j div 2) = check_proof blake3 (hs ! j) (sibling hs j)"
  using assms
proof (induction blake3 hs arbitrary: j rule: merkle_level.induct)
  case (1 blake3 a b hs)
  consider "j = 0" | "j = 1" | d where "j = Suc (Suc d)" by (metis One_nat_def not0_implies_Suc)
  then show ?case
  proof cases
    case 3
    then show ?thesis using 1 by (simp add: sibling_shift)
  qed (auto simp: sibling_def)
qed (auto simp: sibling_def)

lemma merkle_fold_single: "length hs = 1 \<Longrightarrow> merkle_fold blake3 hs = hs"
  by (subst merkle_fold.simps) simp

text \<open>Folding the siblings that the loop collects gives the root, and there are at most \<open>k\<close> of them for \<open>2 ^ k\<close> leaves.\<close>

lemma proof_loop_checks:
  assumes "j < length hs"
  shows "\<exists>p root. proof_loop blake3 hs acc j = acc @ p \<and> merkle_fold blake3 hs = [root] \<and>
     check_proof blake3 (hs ! j) p = root \<and> (\<forall>k. length hs \<le> 2 ^ k \<longrightarrow> length p \<le> k)"
  using assms
proof (induction blake3 hs arbitrary: acc j rule: merkle_fold.induct)
  case (1 blake3 hs)
  show ?case
  proof (cases "1 < length hs")
    case True
    let ?next = "merkle_level blake3 hs"
    have "j div 2 < length ?next" using 1(2) by (simp add: length_merkle_level)
    then obtain p root where p: "proof_loop blake3 ?next (acc @ sibling hs j) (j div 2) = (acc @ sibling hs j) @ p"
      "merkle_fold blake3 ?next = [root]" "check_proof blake3 (?next ! (j div 2)) p = root"
      "\<forall>k. length ?next \<le> 2 ^ k \<longrightarrow> length p \<le> k"
      using 1(1) [OF True] by blast
    have loop: "proof_loop blake3 hs acc j = acc @ (sibling hs j @ p)"
      using True 1(2) p(1) by (subst proof_loop.simps) (simp add: proof_level_sibling)
    have fold: "merkle_fold blake3 hs = [root]" using True p(2) by (subst merkle_fold.simps) simp
    have "length (sibling hs j @ p) \<le> k" if "length hs \<le> 2 ^ k" for k
    proof (cases k)
      case 0
      then show ?thesis using that True by simp
    next
      case (Suc m)
      then have "length ?next \<le> 2 ^ m" using that by (simp add: length_merkle_level)
      then show ?thesis using p(4) Suc by (auto simp: sibling_def)
    qed
    then show ?thesis using loop fold p(3) nth_merkle_level [OF 1(2), of blake3]
      by (intro exI [of _ "sibling hs j @ p"] exI [of _ root]) (simp add: check_proof_append)
  next
    case False
    then have "length hs = 1" using 1(2) by simp
    then obtain h where "hs = [h]" by (auto simp: length_Suc_conv)
    then show ?thesis using 1(2) by (subst proof_loop.simps) (auto simp: merkle_fold_single)
  qed
qed

text \<open>
  (C22) The inclusion proof of a record leads from its hash to the Merkle root of the chain, and
  has at most \<open>k\<close> siblings when the chain has at most \<open>2 ^ k\<close> records.
\<close>

theorem merkle_proof_checks:
  assumes "j < length records" and "length records \<le> 2 ^ k"
  shows "forensic_merkle_root blake3 records = Some (check_proof blake3 (fr_hash (records ! j)) (forensic_merkle_proof blake3 records j)) \<and>
     length (forensic_merkle_proof blake3 records j) \<le> k"
  using proof_loop_checks [of j "map fr_hash records" blake3 "[]"] assms
  by (auto simp: forensic_merkle_root_def forensic_merkle_proof_def)

theorem merkle_proof_checks_witness:
  "forensic_merkle_root (\<lambda>bs. bs) [demo_record 1 [] ''a'', demo_record 2 [] ''b'', demo_record 3 [] ''c''] =
     Some (check_proof (\<lambda>bs. bs) ''b'' (forensic_merkle_proof (\<lambda>bs. bs) [demo_record 1 [] ''a'', demo_record 2 [] ''b'', demo_record 3 [] ''c''] 1)) \<and>
   length (forensic_merkle_proof (\<lambda>bs. bs) [demo_record 1 [] ''a'', demo_record 2 [] ''b'', demo_record 3 [] ''c''] 1) \<le> 2"
  using merkle_proof_checks [of 1 "[demo_record 1 [] ''a'', demo_record 2 [] ''b'', demo_record 3 [] ''c'']" 2 "\<lambda>bs. bs"]
  by (simp add: demo_record_def)

section \<open>The root determines the leaves\<close>

lemma hex_digit_inj:
  assumes "unat m < 16" "unat n < 16" "hex_digit m = hex_digit n"
  shows "m = n"
proof -
  have "distinct ''0123456789abcdef''" by simp
  then have "unat m = unat n"
    using assms nth_eq_iff_index_eq [of "''0123456789abcdef''" "unat m" "unat n"] by (simp add: hex_digit_def)
  then show ?thesis by (simp add: word_unat_eq_iff)
qed

lemma byte_nibbles:
  assumes "drop_bit 4 b = drop_bit 4 c" "b AND 0x0f = c AND 0x0f"
  shows "b = (c :: u8)"
proof -
  have low: "x AND 0x0f = take_bit 4 x" for x :: u8
    using take_bit_eq_mask [of 4 x] by (simp add: mask_eq_exp_minus_1)
  show ?thesis
    using assms bits_ident [of 4 b] bits_ident [of 4 c] unfolding low by metis
qed

lemma hex16_inj: "hex16 bs = hex16 cs \<Longrightarrow> bs = cs"
proof (induction bs arbitrary: cs)
  case Nil
  then show ?case by (cases cs) (auto simp: hex16_def)
next
  case (Cons b bs)
  then obtain c cs' where "cs = c # cs'" by (cases cs) (auto simp: hex16_def)
  then show ?case
    using Cons hex_digit_inj [OF nibbles(1) nibbles(1), of b c] hex_digit_inj [OF nibbles(2) nibbles(2), of b c]
    by (auto simp: hex16_def intro: byte_nibbles)
qed

lemma split_at_char: "a @ c # b = a' @ c # b' \<Longrightarrow> c \<notin> set a \<Longrightarrow> c \<notin> set a' \<Longrightarrow> a = a' \<and> b = b'"
proof (induction a arbitrary: a')
  case Nil
  then show ?case by (cases a') auto
next
  case (Cons x a)
  then show ?case by (cases a') auto
qed

text \<open>The texts that building the tree hashes, level by level from the leaves.\<close>

fun level_inputs :: "string list \<Rightarrow> bytes list" where
  "level_inputs (a # b # hs) = string_bytes (a @ '':'' @ b) # level_inputs hs"
| "level_inputs [a] = []"
| "level_inputs [] = []"

function tree_inputs :: "(bytes \<Rightarrow> bytes) \<Rightarrow> string list \<Rightarrow> bytes list" where
  "tree_inputs blake3 hs = (if 1 < length hs then level_inputs hs @ tree_inputs blake3 (merkle_level blake3 hs) else [])"
  by pat_completeness auto
termination
  by (relation "measure (\<lambda>(blake3, hs). length hs)") (auto simp: length_merkle_level)

declare tree_inputs.simps [simp del]

text \<open>A collision at one position: two different texts with the same value id.\<close>

definition inputs_collide :: "(bytes \<Rightarrow> bytes) \<Rightarrow> bytes list \<Rightarrow> bytes list \<Rightarrow> bool" where
  "inputs_collide blake3 xs ys \<longleftrightarrow> (\<exists>(x, y) \<in> set (zip xs ys). x \<noteq> y \<and> value_id blake3 x = value_id blake3 y)"

lemma inputs_collide_append:
  "length xs = length ys \<Longrightarrow>
   inputs_collide blake3 (xs @ xs') (ys @ ys') \<longleftrightarrow> inputs_collide blake3 xs ys \<or> inputs_collide blake3 xs' ys'"
  by (auto simp: inputs_collide_def)

lemma inputs_collide_Cons:
  "inputs_collide blake3 (x # xs) (y # ys) \<longleftrightarrow> x \<noteq> y \<and> value_id blake3 x = value_id blake3 y \<or> inputs_collide blake3 xs ys"
  by (auto simp: inputs_collide_def)

lemma length_level_inputs: "length (level_inputs hs) = length hs div 2"
  by (induction hs rule: level_inputs.induct) auto

definition plain_hash :: "string \<Rightarrow> bool" where
  "plain_hash h \<longleftrightarrow> CHR '':'' \<notin> set h"

lemma combine_binds:
  assumes "merkle_combine blake3 a b = merkle_combine blake3 a' b'" "plain_hash a" "plain_hash a'"
    "\<not> (string_bytes (a @ '':'' @ b) \<noteq> string_bytes (a' @ '':'' @ b') \<and>
        value_id blake3 (string_bytes (a @ '':'' @ b)) = value_id blake3 (string_bytes (a' @ '':'' @ b')))"
  shows "a = a' \<and> b = b'"
proof -
  have "value_id blake3 (string_bytes (a @ '':'' @ b)) = value_id blake3 (string_bytes (a' @ '':'' @ b'))"
    using assms(1) by (simp add: merkle_combine_def hex16_inj)
  then have "a @ '':'' @ b = a' @ '':'' @ b'" using assms(4) string_bytes_inj by blast
  then show ?thesis using assms(2,3) split_at_char [of a "CHR '':''" b a' b'] by (simp add: plain_hash_def)
qed

lemma combine_plain: "plain_hash (merkle_combine blake3 a b)"
  using set_hex16 [of "value_id blake3 (string_bytes (a @ '':'' @ b))"] by (auto simp: plain_hash_def merkle_combine_def)

lemma level_plain: "list_all plain_hash hs \<Longrightarrow> list_all plain_hash (merkle_level blake3 hs)"
  by (induction blake3 hs rule: merkle_level.induct) (auto simp: combine_plain)

lemma level_binds:
  assumes "merkle_level blake3 hs = merkle_level blake3 hs'" "length hs = length hs'" "list_all plain_hash hs" "list_all plain_hash hs'"
    "\<not> inputs_collide blake3 (level_inputs hs) (level_inputs hs')"
  shows "hs = hs'"
  using assms
proof (induction blake3 hs arbitrary: hs' rule: merkle_level.induct)
  case (1 blake3 a b hs)
  then obtain a' b' t where hs': "hs' = a' # b' # t" by (auto simp: length_Suc_conv Suc_length_conv)
  then show ?case using 1 combine_binds [of blake3 a b a' b'] by (auto simp: inputs_collide_Cons)
next
  case (2 blake3 a)
  then obtain w where "hs' = [w]" by (metis length_0_conv length_Suc_conv One_nat_def list.size(3,4) add_0 plus_1_eq_Suc)
  then show ?case using 2 by simp
qed simp

lemma fold_binds:
  assumes "merkle_fold blake3 hs = merkle_fold blake3 hs'" "length hs = length hs'" "list_all plain_hash hs" "list_all plain_hash hs'"
    "\<not> inputs_collide blake3 (tree_inputs blake3 hs) (tree_inputs blake3 hs')"
  shows "hs = hs'"
  using assms
proof (induction blake3 hs arbitrary: hs' rule: merkle_fold.induct)
  case (1 blake3 hs)
  show ?case
  proof (cases "1 < length hs")
    case True
    have "merkle_fold blake3 (merkle_level blake3 hs) = merkle_fold blake3 (merkle_level blake3 hs')"
      using 1(2,3) True by (simp add: merkle_fold.simps [of blake3 hs] merkle_fold.simps [of blake3 hs'])
    moreover have no: "\<not> inputs_collide blake3 (level_inputs hs) (level_inputs hs')"
      "\<not> inputs_collide blake3 (tree_inputs blake3 (merkle_level blake3 hs)) (tree_inputs blake3 (merkle_level blake3 hs'))"
      using 1(3,6) True
      by (simp_all add: tree_inputs.simps [of blake3 hs] tree_inputs.simps [of blake3 hs'] inputs_collide_append length_level_inputs)
    ultimately have "merkle_level blake3 hs = merkle_level blake3 hs'"
      using 1 True by (simp add: length_merkle_level level_plain)
    then show ?thesis using level_binds no(1) 1 by blast
  next
    case False
    then show ?thesis using 1(2,3) by (simp add: merkle_fold.simps [of blake3 hs] merkle_fold.simps [of blake3 hs'])
  qed
qed

lemma merkle_fold_root: "hs \<noteq> [] \<Longrightarrow> \<exists>root. merkle_fold blake3 hs = [root]"
  using proof_loop_checks [of 0 hs blake3 "[]"] by auto

text \<open>
  (C23) The Merkle root determines the hashes of the records: two chains of the same length with
  hashes that contain no colon (they are hexadecimal) and the same root have the same hashes, or
  at some inner node the two trees hash different texts to the same value id.
\<close>

theorem merkle_root_binds:
  assumes "forensic_merkle_root blake3 rs = forensic_merkle_root blake3 rs'" and "length rs = length rs'"
    and "list_all (\<lambda>r. plain_hash (fr_hash r)) rs" and "list_all (\<lambda>r. plain_hash (fr_hash r)) rs'"
  shows "map fr_hash rs = map fr_hash rs' \<or>
     inputs_collide blake3 (tree_inputs blake3 (map fr_hash rs)) (tree_inputs blake3 (map fr_hash rs'))"
proof (cases "rs = []")
  case False
  then have "map fr_hash rs \<noteq> []" "map fr_hash rs' \<noteq> []" using assms(2) by auto
  then obtain a b where roots: "merkle_fold blake3 (map fr_hash rs) = [a]" "merkle_fold blake3 (map fr_hash rs') = [b]"
    using merkle_fold_root by metis
  have "rs' \<noteq> []" using False assms(2) by auto
  then have "a = b" using assms(1) roots False by (simp add: forensic_merkle_root_def)
  then show ?thesis
    using fold_binds [of blake3 "map fr_hash rs" "map fr_hash rs'"] roots assms(2-4) by (auto simp: list.pred_map o_def)
qed (use assms(2) in simp)

theorem merkle_root_binds_witness:
  "forensic_merkle_root (\<lambda>bs. []) [demo_record 1 [] ''a'', demo_record 2 [] ''b''] =
     forensic_merkle_root (\<lambda>bs. []) [demo_record 1 [] ''a'', demo_record 2 [] ''c''] \<and>
   inputs_collide (\<lambda>bs. []) (tree_inputs (\<lambda>bs. []) [''a'', ''b'']) (tree_inputs (\<lambda>bs. []) [''a'', ''c''])"
proof -
  have "forensic_merkle_root (\<lambda>bs. []) [demo_record 1 [] ''a'', demo_record 2 [] ''b''] =
      forensic_merkle_root (\<lambda>bs. []) [demo_record 1 [] ''a'', demo_record 2 [] ''c'']"
    by code_simp
  then show ?thesis
    using merkle_root_binds [of "\<lambda>bs. []" "[demo_record 1 [] ''a'', demo_record 2 [] ''b'']"
        "[demo_record 1 [] ''a'', demo_record 2 [] ''c'']"]
    by (simp add: demo_record_def plain_hash_def)
qed

end
