(* ===== verification/Forensic_Query.thy ===== *)
theory Forensic_Query
  imports Forensic_Merkle
begin

text \<open>
  Queries over the audit chain (\<open>forensic_query\<close>, \<open>forensic_export\<close> of \<open>engine.rs\<close>, and the filter
  functions of \<open>forensic_helpers.rs\<close>). The JSON objects of a proof are records here.
\<close>

section \<open>Filters\<close>

definition invalid_request :: "string \<Rightarrow> engine_error + 'a" where
  "invalid_request msg = Inl (EvalError (''invalid_request: '' @ msg))"

definition forensic_filter_operator :: "string \<Rightarrow> string option" where
  "forensic_filter_operator op =
     (let o' = to_ascii_lowercase op in
      if o' = ''and'' then Some ''and'' else if o' = ''or'' then Some ''or'' else if o' = ''not'' then Some ''not''
      else if o' \<in> {''eq'', ''=''} then Some ''eq'' else if o' \<in> {''ne'', ''!='', ''<>''} then Some ''ne''
      else if o' \<in> {''gt'', ''>''} then Some ''gt'' else if o' \<in> {''ge'', ''>=''} then Some ''ge''
      else if o' \<in> {''lt'', ''<''} then Some ''lt'' else if o' \<in> {''le'', ''<=''} then Some ''le''
      else if o' = ''contains'' then Some ''contains'' else None)"

definition forensic_filter_args :: "(string \<times> json) list \<Rightarrow> engine_error + json list" where
  "forensic_filter_args obj =
     (case Option.bind (map_of obj ''args'') json_as_array of
        Some args \<Rightarrow> Inr args
      | None \<Rightarrow>
          let args = (case map_of obj ''a'' of Some a \<Rightarrow> [a] | None \<Rightarrow> []) @ (case map_of obj ''b'' of Some b \<Rightarrow> [b] | None \<Rightarrow> [])
          in if args = [] then invalid_request ''forensic boolean filter requires args'' else Inr args)"

definition json_u64 :: "u64 \<Rightarrow> json" where "json_u64 n = JPosInt n"

definition json_i64 :: "u64 \<Rightarrow> json" where "json_i64 v = (if sint v < 0 then JNegInt v else JPosInt v)"

definition json_f64 :: "u64 \<Rightarrow> json" where "json_f64 v = (if f64_finite v then JFloat v else JNull)"

definition pk_json :: "forensic_env \<Rightarrow> lit list option \<Rightarrow> json" where
  "pk_json env pk = (case pk of None \<Rightarrow> JNull | Some vs \<Rightarrow> JArr (map (fe_lit_json env) vs))"

definition forensic_filter_field_value :: "forensic_env \<Rightarrow> forensic_record \<Rightarrow> string \<Rightarrow> engine_error + json" where
  "forensic_filter_field_value env r field =
     (let f = to_ascii_lowercase field in
      if f = ''id'' then Inr (json_u64 (fr_id r))
      else if f \<in> {''ts'', ''ts_ms'', ''time''} then Inr (json_u64 (fr_ts_ms r))
      else if f \<in> {''db'', ''schema''} then Inr (JStr (fr_db r))
      else if f = ''table'' then Inr (JStr (fr_table r))
      else if f \<in> {''op'', ''operation''} then Inr (JStr (fr_op r))
      else if f \<in> {''change_seq'', ''seq''} then Inr (json_u64 (fr_change_seq r))
      else if f = ''prev_hash'' then Inr (JStr (fr_prev_hash r))
      else if f = ''hash'' then Inr (JStr (fr_hash r))
      else if f = ''pk'' then Inr (pk_json env (fr_pk r))
      else invalid_request (''unknown forensic filter field '' @ f))"

fun forensic_lit_plain_value :: "forensic_env \<Rightarrow> lit \<Rightarrow> json" where
  "forensic_lit_plain_value env LNull = JNull"
| "forensic_lit_plain_value env (LBool v) = JBool v"
| "forensic_lit_plain_value env (LI64 v) = json_i64 v"
| "forensic_lit_plain_value env (LU64 v) = json_u64 v"
| "forensic_lit_plain_value env (LF64 v) = json_f64 v"
| "forensic_lit_plain_value env (LDec v) = JStr v"
| "forensic_lit_plain_value env (LStr v) = JStr v"
| "forensic_lit_plain_value env (LUuid v) = JStr v"
| "forensic_lit_plain_value env (LBytes v) = JStr v"
| "forensic_lit_plain_value env (LJson v) = v"
| "forensic_lit_plain_value env (LEmbedding dims v model) =
     JObj [(''dims'', JPosInt (ucast dims)), (''model'', case model of Some m \<Rightarrow> JStr m | None \<Rightarrow> JNull),
           (''v'', JArr (map (fe_f32_json env) v))]"
| "forensic_lit_plain_value env (LDate s) = JStr s"
| "forensic_lit_plain_value env (LTime s) = JStr s"
| "forensic_lit_plain_value env (LDatetime s) = JStr s"

definition forensic_filter_literal_value :: "forensic_env \<Rightarrow> json \<Rightarrow> engine_error + json" where
  "forensic_filter_literal_value env v =
     (if json_get ''t'' v \<noteq> None then
        (case fe_lit_of_json env v of
           None \<Rightarrow> Inl (EvalError ''serde_json'')
         | Some l \<Rightarrow> Inr (forensic_lit_plain_value env l))
      else Inr v)"

definition forensic_filter_operand_value :: "forensic_env \<Rightarrow> forensic_record \<Rightarrow> json option \<Rightarrow> engine_error + json" where
  "forensic_filter_operand_value env r operand =
     (case operand of
        None \<Rightarrow> invalid_request ''forensic filter missing operand''
      | Some v \<Rightarrow>
          (case Option.bind (json_get ''col'' v) json_as_str of
             Some col \<Rightarrow> forensic_filter_field_value env r col
           | None \<Rightarrow>
               (case json_get ''lit'' v of
                  Some l \<Rightarrow> forensic_filter_literal_value env l
                | None \<Rightarrow>
                    (case json_get ''value'' v of
                       Some l \<Rightarrow> forensic_filter_literal_value env l
                     | None \<Rightarrow> forensic_filter_literal_value env v))))"

fun forensic_value_contains :: "json \<Rightarrow> json \<Rightarrow> bool" where
  "forensic_value_contains (JStr l) (JStr r) = sublist r l"
| "forensic_value_contains (JArr items) needle = list_ex (\<lambda>item. json_eq item needle) items"
| "forensic_value_contains _ _ = False"

fun json_as_f64 :: "json \<Rightarrow> u64 option" where
  "json_as_f64 (JPosInt n) = Some (f64_of_int (uint n))"
| "json_as_f64 (JNegInt n) = Some (f64_of_int (sint n))"
| "json_as_f64 (JFloat v) = Some v"
| "json_as_f64 _ = None"

definition ordering_holds :: "string \<Rightarrow> cmp_ordering option \<Rightarrow> bool" where
  "ordering_holds op ord =
     (if op = ''gt'' then ord = Some OGreater
      else if op = ''ge'' then ord \<in> {Some OGreater, Some OEqual}
      else if op = ''lt'' then ord = Some OLess
      else if op = ''le'' then ord \<in> {Some OLess, Some OEqual}
      else False)"

definition forensic_compare_values :: "json \<Rightarrow> json \<Rightarrow> string \<Rightarrow> engine_error + bool" where
  "forensic_compare_values l r op =
     (case (json_as_f64 l, json_as_f64 r) of
        (Some x, Some y) \<Rightarrow> Inr (ordering_holds op (f64_partial_cmp x y))
      | _ \<Rightarrow>
          (case (json_as_str l, json_as_str r) of
             (Some x, Some y) \<Rightarrow> Inr (ordering_holds op (Some (str_cmp x y)))
           | _ \<Rightarrow> invalid_request ''forensic comparison requires numeric or string operands''))"

text \<open>The loops over the operands of AND and OR, and over the fields of a plain object.\<close>

fun filter_all :: "(engine_error + bool) list \<Rightarrow> engine_error + bool" where
  "filter_all [] = Inr True"
| "filter_all (x # xs) = bindE x (\<lambda>m. if m then filter_all xs else Inr False)"

fun filter_any :: "(engine_error + bool) list \<Rightarrow> engine_error + bool" where
  "filter_any [] = Inr False"
| "filter_any (x # xs) = bindE x (\<lambda>m. if m then Inr True else filter_any xs)"

fun fields_match :: "forensic_env \<Rightarrow> forensic_record \<Rightarrow> (string \<times> json) list \<Rightarrow> engine_error + bool" where
  "fields_match env r [] = Inr True"
| "fields_match env r ((field, expected) # rest) =
     bindE (forensic_filter_field_value env r field) (\<lambda>actual.
     bindE (forensic_filter_literal_value env expected) (\<lambda>want.
       if json_eq actual want then fields_match env r rest else Inr False))"

definition looks_like_expr :: "(string \<times> json) list \<Rightarrow> bool" where
  "looks_like_expr obj \<longleftrightarrow>
     Option.bind (Option.bind (map_of obj ''op'') json_as_str) forensic_filter_operator \<noteq> None \<and>
     (map_of obj ''a'' \<noteq> None \<or> map_of obj ''b'' \<noteq> None \<or> map_of obj ''args'' \<noteq> None)"

definition filter_comparison :: "forensic_env \<Rightarrow> forensic_record \<Rightarrow> string \<Rightarrow> (string \<times> json) list \<Rightarrow> engine_error + bool" where
  "filter_comparison env r op obj =
     bindE (forensic_filter_operand_value env r (map_of obj ''a'')) (\<lambda>l.
     bindE (forensic_filter_operand_value env r (map_of obj ''b'')) (\<lambda>rv.
       if op = ''eq'' then Inr (json_eq l rv)
       else if op = ''ne'' then Inr (\<not> json_eq l rv)
       else if op = ''contains'' then Inr (forensic_value_contains l rv)
       else forensic_compare_values l rv op))"

lemma size_json_field: "map_of obj k = Some v \<Longrightarrow> size v < size_list (size_prod (\<lambda>_. 0) size) obj"
  by (induction obj) (auto split: if_splits)

lemma size_json_item: "x \<in> set xs \<Longrightarrow> size x \<le> size_list size xs"
  by (induction xs) auto

lemma size_filter_args:
  assumes "forensic_filter_args obj = Inr args" and "x \<in> set args"
  shows "size x < size_list (size_prod (\<lambda>_. 0) size) obj"
proof (cases "Option.bind (map_of obj ''args'') json_as_array")
  case None
  then show ?thesis using assms
    by (auto simp: forensic_filter_args_def Let_def invalid_request_def size_json_field split: option.splits if_splits)
next
  case (Some xs)
  then obtain v where v: "map_of obj ''args'' = Some v" "json_as_array v = Some xs" by (cases "map_of obj ''args''") auto
  then have "v = JArr xs" by (cases v) auto
  then have "size x < size v" using assms Some size_json_item [of x xs] by (simp add: forensic_filter_args_def)
  then show ?thesis using size_json_field [OF v(1)] by simp
qed

function forensic_filter_matches :: "forensic_env \<Rightarrow> forensic_record \<Rightarrow> json \<Rightarrow> engine_error + bool" where
  "forensic_filter_matches env r flt =
     (case flt of
        JNull \<Rightarrow> Inr True
      | JObj obj \<Rightarrow>
          if \<not> looks_like_expr obj then fields_match env r obj
          else (case Option.bind (Option.bind (map_of obj ''op'') json_as_str) forensic_filter_operator of
             None \<Rightarrow> invalid_request ''unknown forensic filter operator''
           | Some op \<Rightarrow>
               if op \<in> {''and'', ''or''} then
                 (case forensic_filter_args obj of
                    Inl e \<Rightarrow> Inl e
                  | Inr args \<Rightarrow>
                      (if op = ''and'' then filter_all else filter_any) (map (forensic_filter_matches env r) args))
               else if op = ''not'' then
                 (case (case map_of obj ''a'' of Some a \<Rightarrow> Some a | None \<Rightarrow> map_of obj ''arg'') of
                    None \<Rightarrow> invalid_request ''not filter requires an operand''
                  | Some arg \<Rightarrow> bindE (forensic_filter_matches env r arg) (\<lambda>m. Inr (\<not> m)))
               else filter_comparison env r op obj)
      | _ \<Rightarrow> invalid_request ''forensic filter must be a JSON object'')"
  by pat_completeness auto
termination
proof (relation "measure (\<lambda>(env, r, flt). size flt)", goal_cases)
  case (2 env r flt obj op args x)
  then show ?case using size_filter_args by force
next
  case (3 env r flt obj op arg)
  then show ?case using size_json_field by (force split: option.splits)
qed simp

declare forensic_filter_matches.simps [simp del]

section \<open>Queries\<close>

definition forensic_index_by_id :: "forensic_record list \<Rightarrow> u64 \<Rightarrow> nat option" where
  "forensic_index_by_id records i = (let k = length (takeWhile (\<lambda>r. fr_id r \<noteq> i) records) in if k < length records then Some k else None)"

record inclusion_proof =
  ip_record_id :: u64
  ip_chain_index :: nat
  ip_record_hash :: string
  ip_siblings :: "(string \<times> bool) list"

definition forensic_inclusion_proofs :: "(bytes \<Rightarrow> bytes) \<Rightarrow> forensic_record list \<Rightarrow> forensic_record list \<Rightarrow> inclusion_proof list" where
  "forensic_inclusion_proofs blake3 chain records =
     List.map_filter (\<lambda>r. map_option (\<lambda>k.
        \<lparr>ip_record_id = fr_id r, ip_chain_index = k, ip_record_hash = fr_hash r, ip_siblings = forensic_merkle_proof blake3 chain k\<rparr>)
        (forensic_index_by_id chain (fr_id r))) records"

record index_summary =
  is_chain_records :: nat
  is_matched_records :: nat
  is_first_id :: "u64 option"
  is_last_id :: "u64 option"
  is_min_ts_ms :: "u64 option"
  is_max_ts_ms :: "u64 option"
  is_by_table :: "(string \<times> nat) list"
  is_by_op :: "(string \<times> nat) list"
  is_by_actor :: "(string \<times> nat) list"

definition count_up :: "string \<Rightarrow> (string \<times> nat) list \<Rightarrow> (string \<times> nat) list" where
  "count_up k m = bt_insert k (case map_of m k of None \<Rightarrow> 1 | Some n \<Rightarrow> n + 1) m"

definition opt_min :: "u64 option \<Rightarrow> u64 \<Rightarrow> u64 option" where
  "opt_min o' v = Some (case o' of None \<Rightarrow> v | Some w \<Rightarrow> min w v)"

definition opt_max :: "u64 option \<Rightarrow> u64 \<Rightarrow> u64 option" where
  "opt_max o' v = Some (case o' of None \<Rightarrow> v | Some w \<Rightarrow> max w v)"

definition forensic_index_summary :: "forensic_record list \<Rightarrow> forensic_record list \<Rightarrow> index_summary" where
  "forensic_index_summary chain records =
     fold (\<lambda>r s. s\<lparr>is_by_table := count_up (fr_db r @ ''.'' @ fr_table r) (is_by_table s), is_by_op := count_up (fr_op r) (is_by_op s),
        is_by_actor := count_up ''unknown'' (is_by_actor s), is_first_id := opt_min (is_first_id s) (fr_id r),
        is_last_id := opt_max (is_last_id s) (fr_id r), is_min_ts_ms := opt_min (is_min_ts_ms s) (fr_ts_ms r),
        is_max_ts_ms := opt_max (is_max_ts_ms s) (fr_ts_ms r)\<rparr>) records
      \<lparr>is_chain_records = length chain, is_matched_records = length records, is_first_id = None, is_last_id = None,
       is_min_ts_ms = None, is_max_ts_ms = None, is_by_table = [], is_by_op = [], is_by_actor = []\<rparr>"

record forensic_query_params =
  fq_table :: "base_table_ref option"
  fq_op :: "string option"
  fq_filter :: "json option"
  fq_from_id :: "u64 option"
  fq_to_id :: "u64 option"
  fq_limit :: "u64 option"

text \<open>The tests before the filter, and the loop over the chain.\<close>

definition in_scope :: "forensic_query_params \<Rightarrow> forensic_record \<Rightarrow> bool" where
  "in_scope params r \<longleftrightarrow>
     (case fq_from_id params of Some f \<Rightarrow> f \<le> fr_id r | None \<Rightarrow> True) \<and>
     (case fq_to_id params of Some t \<Rightarrow> fr_id r \<le> t | None \<Rightarrow> True) \<and>
     (case fq_op params of Some op \<Rightarrow> fr_op r = op | None \<Rightarrow> True) \<and>
     (case fq_table params of Some t \<Rightarrow> fr_db r = bt_db t \<and> fr_table r = bt_table t | None \<Rightarrow> True)"

definition passes_filter :: "forensic_env \<Rightarrow> forensic_query_params \<Rightarrow> forensic_record \<Rightarrow> engine_error + bool" where
  "passes_filter env params r = (case fq_filter params of None \<Rightarrow> Inr True | Some f \<Rightarrow> forensic_filter_matches env r f)"

fun query_loop :: "forensic_env \<Rightarrow> forensic_query_params \<Rightarrow> nat \<Rightarrow> forensic_record list \<Rightarrow> forensic_record list \<Rightarrow> engine_error + forensic_record list" where
  "query_loop env params limit [] records = Inr records"
| "query_loop env params limit (r # rs) records =
     (if \<not> in_scope params r then query_loop env params limit rs records
      else bindE (passes_filter env params r) (\<lambda>m.
        if \<not> m then query_loop env params limit rs records
        else if limit \<le> length records + 1 then Inr (records @ [r])
        else query_loop env params limit rs (records @ [r])))"

definition query_limit :: "forensic_query_params \<Rightarrow> nat" where
  "query_limit params = unat (min (case fq_limit params of Some l \<Rightarrow> l | None \<Rightarrow> 200) 1000)"

text \<open>\<open>windows(2).all\<close> with an addition that wraps.\<close>

fun contiguous_ids :: "forensic_record list \<Rightarrow> bool" where
  "contiguous_ids (a # b # rs) =
     (fr_id b = fr_id a + 1 \<and> contiguous_ids (b # rs))"
| "contiguous_ids rs = True"

record forensic_proof =
  fp_contiguous :: bool
  fp_from_id :: u64
  fp_to_id :: u64
  fp_start_hash :: "string option"
  fp_end_hash :: "string option"
  fp_preceding_hash :: "string option"
  fp_following_hash :: "string option"
  fp_checkpoint_anchor :: "checkpoint_anchor option"
  fp_next_checkpoint_anchor :: "checkpoint_anchor option"
  fp_anchor_count :: nat
  fp_chain_head :: "string option"
  fp_record_count :: nat
  fp_merkle_root :: "string option"
  fp_chain_merkle_root :: "string option"
  fp_inclusion_proofs :: "inclusion_proof list"
  fp_index_summary :: index_summary

definition hd_opt :: "'a list \<Rightarrow> 'a option" where
  "hd_opt xs = (case xs of [] \<Rightarrow> None | x # _ \<Rightarrow> Some x)"

definition last_opt :: "'a list \<Rightarrow> 'a option" where
  "last_opt xs = (if xs = [] then None else Some (last xs))"

definition nth_opt :: "'a list \<Rightarrow> nat \<Rightarrow> 'a option" where
  "nth_opt xs i = (if i < length xs then Some (xs ! i) else None)"

definition preceding_hash :: "forensic_record list \<Rightarrow> forensic_record list \<Rightarrow> string option" where
  "preceding_hash chain records =
     Option.bind (Option.bind (hd_opt records) (\<lambda>r. forensic_index_by_id chain (fr_id r))) (\<lambda>idx.
       if idx = 0 then Some forensic_genesis_hash else map_option fr_hash (nth_opt chain (idx - 1)))"

definition following_hash :: "forensic_record list \<Rightarrow> forensic_record list \<Rightarrow> string option" where
  "following_hash chain records =
     Option.bind (Option.bind (last_opt records) (\<lambda>r. forensic_index_by_id chain (fr_id r))) (\<lambda>idx.
       map_option fr_hash (nth_opt chain (idx + 1)))"

text \<open>\<open>idx as u64\<close> and \<open>idx + 1\<close> on an index of the chain do not overflow.\<close>

definition checkpoint_before :: "forensic_state \<Rightarrow> forensic_record list \<Rightarrow> checkpoint_anchor option" where
  "checkpoint_before st records =
     (case Option.bind (Option.bind (hd_opt records) (\<lambda>r. forensic_index_by_id (fs_chain st) (fr_id r)))
             (\<lambda>idx. find (\<lambda>a. unat (ca_chain_len a) \<le> idx) (rev (fs_anchors st))) of
        Some a \<Rightarrow> Some a
      | None \<Rightarrow> if records = [] then last_opt (fs_anchors st) else None)"

definition checkpoint_after :: "forensic_state \<Rightarrow> forensic_record list \<Rightarrow> checkpoint_anchor option" where
  "checkpoint_after st records =
     Option.bind (Option.bind (last_opt records) (\<lambda>r. forensic_index_by_id (fs_chain st) (fr_id r)))
       (\<lambda>idx. find (\<lambda>a. idx + 1 < unat (ca_chain_len a)) (fs_anchors st))"

definition forensic_query ::
    "forensic_env \<Rightarrow> forensic_state \<Rightarrow> forensic_query_params \<Rightarrow> engine_error + json list \<times> forensic_proof" where
  "forensic_query env st params =
     bindE (query_loop env params (query_limit params) (fs_chain st) []) (\<lambda>records.
     let chain = fs_chain st; blake3 = fe_blake3 env;
         contiguous = (contiguous_ids records \<and> fq_table params = None \<and> fq_op params = None) in
     Inr (map (fe_record_json env) records,
       \<lparr>fp_contiguous = contiguous,
        fp_from_id = (case fq_from_id params of Some f \<Rightarrow> f | None \<Rightarrow> 0),
        fp_to_id = (case fq_to_id params of Some t \<Rightarrow> t | None \<Rightarrow> - 1),
        fp_start_hash = map_option fr_hash (hd_opt records), fp_end_hash = map_option fr_hash (last_opt records),
        fp_preceding_hash = (if contiguous then preceding_hash chain records else None),
        fp_following_hash = (if contiguous then following_hash chain records else None),
        fp_checkpoint_anchor = checkpoint_before st records, fp_next_checkpoint_anchor = checkpoint_after st records,
        fp_anchor_count = length (fs_anchors st), fp_chain_head = map_option fr_hash (last_opt chain),
        fp_record_count = length records, fp_merkle_root = forensic_merkle_root blake3 records,
        fp_chain_merkle_root = forensic_merkle_root blake3 chain,
        fp_inclusion_proofs = forensic_inclusion_proofs blake3 chain records,
        fp_index_summary = forensic_index_summary chain records\<rparr>))"

text \<open>The bundle of \<open>forensic_export\<close>; the verification is \<open>Inr\<close> the number of inclusion proofs for a filtered result.\<close>

record forensic_bundle =
  fb_bundle_id :: string
  fb_generated_at_ms :: u64
  fb_query :: forensic_query_params
  fb_records :: "json list"
  fb_proof :: forensic_proof
  fb_verification :: "forensic_verify_result + nat"

definition forensic_export ::
    "forensic_env \<Rightarrow> forensic_state \<Rightarrow> forensic_query_params \<Rightarrow> string option \<Rightarrow> u64 \<Rightarrow> u64 \<Rightarrow> engine_error + forensic_bundle" where
  "forensic_export env st params bundle_id now now' =
     bindE (forensic_query env st params) (\<lambda>(records, proof').
     bindE (if fp_contiguous proof'
            then bindE (forensic_verify env records
                   (case fp_preceding_hash proof' of Some h \<Rightarrow> Some h | None \<Rightarrow> Some ''genesis'')) (\<lambda>v. Inr (Inl v))
            else Inr (Inr (length (fp_inclusion_proofs proof')))) (\<lambda>verification.
       Inr \<lparr>fb_bundle_id = (case bundle_id of Some b \<Rightarrow> b | None \<Rightarrow> ''bundle_'' @ hex_nat (unat now)),
            fb_generated_at_ms = now', fb_query = params, fb_records = records, fb_proof = proof',
            fb_verification = verification\<rparr>))"

section \<open>What a query returns\<close>

text \<open>
  A run of the loop that succeeds returns, in chain order, the records in scope that pass the
  filter, up to the limit; a limit of zero counts as one.
\<close>

lemma query_loop_selects:
  assumes "query_loop env params limit chain acc = Inr out" and "length acc < max 1 limit"
  shows "out = acc @ take (max 1 limit - length acc) (filter (\<lambda>r. in_scope params r \<and> passes_filter env params r = Inr True) chain)"
  using assms
proof (induction env params limit chain acc rule: query_loop.induct)
  case (2 env params limit r rs acc)
  show ?case
  proof (cases "in_scope params r")
    case True
    then obtain m where m: "passes_filter env params r = Inr m" using "2.prems" by (auto simp: bindE_eq_Inr)
    have "max 1 limit - length acc = 1" if "limit \<le> length acc + 1" using that "2.prems"(2) by linarith
    moreover have "max 1 limit - length acc = Suc (max 1 limit - length (acc @ [r]))" if "\<not> limit \<le> length acc + 1"
      using that by auto
    ultimately show ?thesis using 2 True m by (cases m) (auto simp: Let_def split: if_splits)
  next
    case False
    then show ?thesis using 2 by simp
  qed
qed simp

lemma ids_ok_nth: "ids_ok chain \<Longrightarrow> i < length chain \<Longrightarrow> j < length chain \<Longrightarrow> fr_id (chain ! i) = fr_id (chain ! j) \<Longrightarrow> i = j"
  by (metis ids_ok_def nat.inject)

lemma index_by_id_nth:
  assumes "ids_ok chain" and "i < length chain"
  shows "forensic_index_by_id chain (fr_id (chain ! i)) = Some i"
proof -
  have "takeWhile (\<lambda>r. fr_id r \<noteq> fr_id (chain ! i)) chain = take i chain"
  proof (rule takeWhile_eq_take_P_nth)
    show "fr_id (chain ! j) \<noteq> fr_id (chain ! i)" if "j < i" for j
      using ids_ok_nth [OF assms(1), of j i] that assms(2) by auto
  qed (use assms(2) in simp_all)
  then show ?thesis using assms(2) by (simp add: forensic_index_by_id_def)
qed

text \<open>Records with consecutive ids are a slice of the chain.\<close>

lemma contiguous_slice:
  assumes "contiguous_ids (chain ! i # records)" and "ids_ok chain" and "i < length chain" and "set records \<subseteq> set chain"
  shows "chain ! i # records = take (Suc (length records)) (drop i chain)"
  using assms
proof (induction records arbitrary: i)
  case Nil
  then show ?case by (simp add: take_Suc_conv_app_nth)
next
  case (Cons b rs)
  obtain j where j: "j < length chain" "b = chain ! j" using Cons.prems(4) by (auto simp: in_set_conv_nth)
  have id: "fr_id b = fr_id (chain ! i) + 1" "contiguous_ids (b # rs)" using Cons.prems(1) by auto
  have "fr_id b \<noteq> 0" using j Cons.prems(2) by (auto simp: ids_ok_def)
  have "unat (fr_id b) = Suc (unat (fr_id (chain ! i)))"
    using id(1) \<open>fr_id b \<noteq> 0\<close> by (metis unatSuc add.commute)
  then have "j = Suc i" using j Cons.prems(2,3) by (simp add: ids_ok_def)
  then have "b # rs = take (Suc (length rs)) (drop (Suc i) chain)" using Cons.IH [of j] Cons.prems id(2) j by simp
  then have "chain ! i # b # rs = take (Suc (Suc (length rs))) (chain ! i # drop (Suc i) chain)" by simp
  then show ?case using Cons.prems(3) by (simp only: Cons_nth_drop_Suc length_Cons)
qed

lemma linked_slice: "linked env prev chain \<Longrightarrow> linked env (head_from prev (take k chain)) (take m (drop k chain))"
  using linked_append [of env prev "take k chain" "drop k chain"] linked_take by simp

lemma parse_records_json:
  "\<forall>r \<in> set rs. fe_record_of_json env (fe_record_json env r) = Some r \<Longrightarrow> parse_records env (map (fe_record_json env) rs) = Inr rs"
  by (induction rs) auto

lemma inclusion_proofs_map:
  assumes "ids_ok chain" and "set records \<subseteq> set chain"
  shows "\<exists>ks. length ks = length records \<and> (\<forall>j < length records. ks ! j < length chain \<and> records ! j = chain ! (ks ! j)) \<and>
     forensic_inclusion_proofs blake3 chain records =
       map (\<lambda>k. \<lparr>ip_record_id = fr_id (chain ! k), ip_chain_index = k, ip_record_hash = fr_hash (chain ! k),
                  ip_siblings = forensic_merkle_proof blake3 chain k\<rparr>) ks"
  using assms(2)
proof (induction records)
  case Nil
  then show ?case by (simp add: forensic_inclusion_proofs_def List.map_filter_def)
next
  case (Cons r rs)
  then obtain ks where ks: "length ks = length rs" "\<forall>j < length rs. ks ! j < length chain \<and> rs ! j = chain ! (ks ! j)"
     "forensic_inclusion_proofs blake3 chain rs =
       map (\<lambda>k. \<lparr>ip_record_id = fr_id (chain ! k), ip_chain_index = k, ip_record_hash = fr_hash (chain ! k),
                  ip_siblings = forensic_merkle_proof blake3 chain k\<rparr>) ks"
    by auto
  obtain k where "k < length chain" "r = chain ! k" using Cons.prems by (auto simp: in_set_conv_nth)
  then show ?case using ks index_by_id_nth [OF assms(1)]
    by (intro exI [of _ "k # ks"]) (auto simp: forensic_inclusion_proofs_def List.map_filter_def nth_Cons split: nat.splits)
qed

lemma merkle_root_leads:
  "j < length records \<Longrightarrow>
   forensic_merkle_root blake3 records = Some (check_proof blake3 (fr_hash (records ! j)) (forensic_merkle_proof blake3 records j))"
  using proof_loop_checks [of j "map fr_hash records" blake3 "[]"]
  by (auto simp: forensic_merkle_root_def forensic_merkle_proof_def)

lemma export_contiguous_ok:
  assumes "linked env forensic_genesis_hash chain" and "ids_ok chain" and "set records \<subseteq> set chain"
    and "contiguous_ids records"
    and "\<forall>r \<in> set chain. fe_record_of_json env (fe_record_json env r) = Some r"
    and "forensic_verify env (map (fe_record_json env) records) (case preceding_hash chain records of Some h \<Rightarrow> Some h | None \<Rightarrow> Some ''genesis'') = Inr v"
  shows "fv_ok v"
proof (cases records)
  case Nil
  then show ?thesis using assms(6) by (auto simp: forensic_verify_def)
next
  case (Cons r rs)
  then obtain i where i: "i < length chain" "r = chain ! i" using assms(3) by (auto simp: in_set_conv_nth)
  have slice: "records = take (Suc (length rs)) (drop i chain)"
    using contiguous_slice [of chain i rs] assms(2-4) Cons i by simp
  have prev: "preceding_hash chain records = Some (head_from forensic_genesis_hash (take i chain))"
    using i Cons index_by_id_nth [OF assms(2) i(1)]
    by (auto simp: preceding_hash_def hd_opt_def nth_opt_def head_from_def last_conv_nth)
  have "parse_records env (map (fe_record_json env) records) = Inr records" using assms(3,5) by (intro parse_records_json) blast
  then have "v = verify_loop env 0 (head_from forensic_genesis_hash (take i chain)) records"
    using assms(6) prev Cons by (simp add: forensic_verify_def)
  then show ?thesis using linked_slice [OF assms(1), of i "Suc (length rs)"] slice by (simp add: verify_loop_linked)
qed

lemma query_records:
  assumes "forensic_query env st params = Inr (records, proof')"
  obtains rs where "records = map (fe_record_json env) rs"
    "rs = take (max 1 (query_limit params)) (filter (\<lambda>r. in_scope params r \<and> passes_filter env params r = Inr True) (fs_chain st))"
    "fp_contiguous proof' = (contiguous_ids rs \<and> fq_table params = None \<and> fq_op params = None)"
    "fp_preceding_hash proof' = (if fp_contiguous proof' then preceding_hash (fs_chain st) rs else None)"
    "fp_chain_merkle_root proof' = forensic_merkle_root (fe_blake3 env) (fs_chain st)"
    "fp_inclusion_proofs proof' = forensic_inclusion_proofs (fe_blake3 env) (fs_chain st) rs"
proof -
  from assms obtain rs where rs: "query_loop env params (query_limit params) (fs_chain st) [] = Inr rs"
    by (auto simp: forensic_query_def bindE_eq_Inr Let_def)
  show thesis
    by (rule that [of rs]) (use assms rs query_loop_selects [OF rs] in \<open>auto simp: forensic_query_def bindE_eq_Inr Let_def\<close>)
qed

text \<open>
  (C14) The bundle that an export makes from an intact chain checks: its records are the first ones
  in scope that pass the filter, there is one inclusion proof per record and each leads from the
  record's hash to the Merkle root of the chain, and when the bundle claims a contiguous range its
  own verification of the slice succeeds.
\<close>

theorem export_bundle_checks:
  assumes "forensic_export env st params bundle_id now now' = Inr bundle"
    and "fv_ok (verify_loop env 0 forensic_genesis_hash (fs_chain st))" and "ids_ok (fs_chain st)"
    and "\<forall>r \<in> set (fs_chain st). fe_record_of_json env (fe_record_json env r) = Some r"
  shows "fb_records bundle = map (fe_record_json env) (take (max 1 (query_limit params))
       (filter (\<lambda>r. in_scope params r \<and> passes_filter env params r = Inr True) (fs_chain st))) \<and>
     length (fp_inclusion_proofs (fb_proof bundle)) = length (fb_records bundle) \<and>
     list_all (\<lambda>ip. fp_chain_merkle_root (fb_proof bundle) = Some (check_proof (fe_blake3 env) (ip_record_hash ip) (ip_siblings ip)))
       (fp_inclusion_proofs (fb_proof bundle)) \<and>
     (fp_contiguous (fb_proof bundle) \<longrightarrow> (\<exists>v. fb_verification bundle = Inl v \<and> fv_ok v))"
proof -
  from assms(1) obtain records proof' where q: "forensic_query env st params = Inr (records, proof')"
      "fb_records bundle = records" "fb_proof bundle = proof'"
      "fp_contiguous proof' \<longrightarrow> (\<exists>v. fb_verification bundle = Inl v \<and> forensic_verify env records
          (case fp_preceding_hash proof' of Some h \<Rightarrow> Some h | None \<Rightarrow> Some ''genesis'') = Inr v)"
    by (auto simp: forensic_export_def bindE_eq_Inr split: if_splits)
  obtain rs where rs: "records = map (fe_record_json env) rs"
      "rs = take (max 1 (query_limit params)) (filter (\<lambda>r. in_scope params r \<and> passes_filter env params r = Inr True) (fs_chain st))"
      "fp_contiguous proof' = (contiguous_ids rs \<and> fq_table params = None \<and> fq_op params = None)"
      "fp_preceding_hash proof' = (if fp_contiguous proof' then preceding_hash (fs_chain st) rs else None)"
      "fp_chain_merkle_root proof' = forensic_merkle_root (fe_blake3 env) (fs_chain st)"
      "fp_inclusion_proofs proof' = forensic_inclusion_proofs (fe_blake3 env) (fs_chain st) rs"
    using query_records [OF q(1)] by blast
  have sub: "set rs \<subseteq> set (fs_chain st)" unfolding rs(2) by (meson filter_is_subset set_take_subset subset_trans)
  obtain ks where ks: "length ks = length rs" "\<forall>j < length rs. ks ! j < length (fs_chain st) \<and> rs ! j = fs_chain st ! (ks ! j)"
     "fp_inclusion_proofs proof' = map (\<lambda>k. \<lparr>ip_record_id = fr_id (fs_chain st ! k), ip_chain_index = k,
        ip_record_hash = fr_hash (fs_chain st ! k), ip_siblings = forensic_merkle_proof (fe_blake3 env) (fs_chain st) k\<rparr>) ks"
    using inclusion_proofs_map [OF assms(3) sub] rs(6) by auto
  have "\<exists>v. fb_verification bundle = Inl v \<and> fv_ok v" if "fp_contiguous proof'"
    using that q(4) rs(1,3,4) export_contiguous_ok [OF _ assms(3) sub _ assms(4)] assms(2) by (auto simp: verify_loop_linked)
  moreover have "\<forall>k \<in> set ks. k < length (fs_chain st)" using ks(1,2) by (auto simp: in_set_conv_nth)
  ultimately show ?thesis
    using q(2,3) rs(1,2,5) ks(1,3) merkle_root_leads [of _ "fs_chain st" "fe_blake3 env"] by (auto simp: list_all_iff)
qed

section \<open>Examples\<close>

definition export_env :: forensic_env where
  "export_env = demo_forensic\<lparr>fe_record_of_json := (\<lambda>_. Some (demo_record 1 ''genesis'' ''08''))\<rparr>"

definition export_state :: forensic_state where
  "export_state = \<lparr>fs_chain = [demo_record 1 ''genesis'' ''08''], fs_next_id = 2, fs_anchors = [], fs_last_verified_ms = 0\<rparr>"

definition query_all :: forensic_query_params where
  "query_all = \<lparr>fq_table = None, fq_op = None, fq_filter = None, fq_from_id = None, fq_to_id = None, fq_limit = Some 0\<rparr>"

theorem export_bundle_checks_witness:
  "\<exists>bundle v. forensic_export export_env export_state query_all (Some ''b'') 1 1 = Inr bundle \<and>
     fb_records bundle = [JNull] \<and> fb_verification bundle = Inl v \<and> fv_ok v"
proof -
  have "case forensic_export export_env export_state query_all (Some ''b'') 1 1 of
      Inr bundle \<Rightarrow> fp_contiguous (fb_proof bundle) \<and> fb_records bundle = [JNull] | Inl e \<Rightarrow> False"
    by code_simp
  then obtain out where b: "forensic_export export_env export_state query_all (Some ''b'') 1 1 = Inr out"
      "fp_contiguous (fb_proof out)" "fb_records out = [JNull]"
    by (auto split: sum.splits)
  have "fv_ok (verify_loop export_env 0 forensic_genesis_hash (fs_chain export_state))" by code_simp
  moreover have "ids_ok (fs_chain export_state)" by (simp add: ids_ok_def export_state_def demo_record_def)
  moreover have "\<forall>r \<in> set (fs_chain export_state). fe_record_of_json export_env (fe_record_json export_env r) = Some r"
    by (simp add: export_env_def export_state_def)
  ultimately show ?thesis using export_bundle_checks [OF b(1)] b by blast
qed

text \<open>
  The operand of NOT may only be called \<open>a\<close>: with the name \<open>arg\<close>, which the NOT branch accepts too,
  the filter is taken for a list of fields and is refused.
\<close>

theorem not_filter_arg_refused:
  "forensic_filter_matches env r (JObj [(''arg'', x), (''op'', JStr ''not'')]) = invalid_request ''unknown forensic filter field arg''"
  by (subst forensic_filter_matches.simps)
     (simp add: looks_like_expr_def forensic_filter_field_value_def Let_def to_ascii_lowercase_def ascii_lower_def invalid_request_def)

end
