(* ===== verification/Spec2Isabelle.thy ===== *)
theory Spec2Isabelle
  imports Prelude Core_Format Manifest Wal Row_Segment Sorted_Run Simple_Lsm Row_Dir Mvcc Value_Segment Encrypted_Store Engine_Wal Query_Join Forensic_Query
begin

text \<open>
  A verification development of SkeinDB: the storage core (\<open>crates/skeindb-core\<close>), the row engine
  with its write-ahead log and recovery, the SELECT executor and the audit chain
  (\<open>crates/skeindb/src/engine.rs\<close> and \<open>engine/*.rs\<close>), and the query types they share
  (\<open>crates/skeindb-skeinql/src/types.rs\<close>).

  \<^bold>\<open>How the program fits together.\<close> The engine keeps tables as rows in memory with a primary-key
  index and secondary indexes. A write changes the table, appends redo records to a write-ahead
  log per database, and marks the table dirty; after a number of mutations the dirty tables are
  written as snapshots and the log is truncated. Opening a data directory loads the snapshots and
  replays the log. Queries read a table in column batches, row by row, or through an index, and
  go through a general path for joins. Every change is also appended to an audit chain of linked
  hashes with its own log. The storage core offers the file formats and structures below that:
  record frames, manifest, log, row segments, sorted runs and a level-0 LSM over them, the row
  directory, MVCC version chains, the content-addressed value store with delta patches and its
  transfer format, and encryption at rest.

  \<^bold>\<open>Conventions.\<close> Functions that may fail return a sum, \<open>Inl\<close> the error (an error enum of the
  source, or its message); \<open>bindE\<close> is the \<open>?\<close> operator. Machine integers are words; \<open>usize\<close> is 64
  bits, and an addition that may overflow without a check is an error value for the panic
  (\<open>EngPanic\<close> and the like), while saturating and wrapping operations are written as such. Files
  are byte lists and a directory is a list of names with contents; operations take and return
  them, so a crash is a cut of a byte list. \<open>BTreeMap\<close> is an association list sorted by key
  (\<open>bt_insert\<close>, \<open>bt_ok\<close>), \<open>HashMap\<close> an association list without duplicates. Strings are lists of
  the bytes of the UTF-8 text, as \<open>string\<close> where the code only compares and concatenates them.
  Floats are bit patterns with IEEE arithmetic defined on them (\<open>Rust_F64\<close>). Loops are structural
  recursion, \<open>function\<close> with a measure, or \<open>while\<close>; only the materialization of delta chains in
  \<open>Value_Store\<close> uses fuel, the number of entries, which is enough because the base of a delta is
  an earlier entry (\<open>vs_inv\<close>; the claims about reads and compaction state that a result is
  returned).

  \<^bold>\<open>Parameters.\<close> Third-party code is an argument of the definitions that use it: \<open>crc32c\<close>, BLAKE3,
  \<open>zstd\<close>, AES-GCM-SIV with HKDF and SHA-256, \<open>serde_json\<close> (the JSON text of literals, rows and
  records), the \<open>regex\<close> crate, and the decimal printing of floats. What is assumed of them stands
  in the statements by name (\<open>aead_law\<close>, \<open>loggable\<close>, that a codec parses what it printed), and each
  such statement has an instance where the assumption holds. Statements about tampering need no
  assumption on hashes: they end in equality or exhibit a collision.

  \<^bold>\<open>Theories.\<close>
  \<^item> \<open>Prelude\<close>: the error monad, little- and big-endian integers, sorted association lists.
  \<^item> \<open>Core_Format\<close> (\<open>lib.rs\<close>): variable-length integers, file headers, record frames; decoders accept
    exactly what the encoders write, and a torn frame is recognised.
  \<^item> \<open>Manifest\<close> (\<open>manifest.rs\<close>): records, replay, reopening a manifest; the behaviour on torn tails
    and torn headers.
  \<^item> \<open>Wal\<close> (\<open>wal.rs\<close>): writer, lenient and strict scans, recovery of committed transactions; a log cut
    anywhere and reopened keeps every commit before the cut, and recovery returns exactly the
    transactions of a declarative specification.
  \<^item> \<open>Row_Segment\<close> (\<open>rowseg.rs\<close>), \<open>Sorted_Run\<close> and \<open>Simple_Lsm\<close> (\<open>run.rs\<close>), \<open>Row_Dir\<close> (\<open>rowdir.rs\<close>): writing and
    reading back, binary search over the block index, the LSM as a refinement of a map.
  \<^item> \<open>Mvcc\<close> (\<open>mvcc.rs\<close>): snapshot reads find the newest committed version, and the version cache is
    transparent under the condition it needs.
  \<^item> \<open>Value_Patch\<close>, \<open>Value_Store\<close>, \<open>Value_Proofs\<close>, \<open>Value_Reach\<close>, \<open>Value_Segment\<close> (\<open>valuestore.rs\<close>): patches,
    the store with Bloom filter, learned index, delta chains and skip patches, its invariant and
    reachable states, compaction, the segment file and the transfer entries.
  \<^item> \<open>Rust_Str\<close>, \<open>Encryption\<close>, \<open>Encrypted_Store\<close> (\<open>encryption.rs\<close>, \<open>encrypted_valuestore.rs\<close>): key profiles,
    rotation, envelopes, re-encryption, and values encrypted in the store.
  \<^item> \<open>Engine_Types\<close>, \<open>Engine_Index\<close>, \<open>Engine_Dml\<close>: rows, schemas, secondary indexes and the three write
    statements; every outcome keeps primary key, unique constraints and indexes consistent, and the
    unique check through an index is the scan of the live rows.
  \<^item> \<open>Engine_Redo\<close>, \<open>Engine_Wal\<close> (\<open>engine/wal.rs\<close>): redo records, replay, deferred snapshots, flush and
    open; statements survive a cut of the log, over the log format of \<open>Wal\<close>.
  \<^item> \<open>Rust_F64\<close>, \<open>Query_Types\<close>, \<open>Query_Like\<close>, \<open>Query_Expr\<close>, \<open>Query_Logic\<close>: expressions with three-valued logic
    and the LIKE matcher, which decides its declarative meaning.
  \<^item> \<open>Query_Rows\<close>, \<open>Query_Plan\<close>, \<open>Query_Select\<close>, \<open>Query_Lookup\<close>, \<open>Query_Join\<close>: the access paths of SELECT. The
    batch path, the row path and the index path return the same rows, a predicate compiled to
    value ids selects what evaluation selects, ORDER BY is a stable sort on typed keys, and each
    join type returns the rows of its relational specification.
  \<^item> \<open>Forensic_Chain\<close>, \<open>Forensic_Merkle\<close>, \<open>Forensic_Query\<close> (\<open>engine/forensic_helpers.rs\<close> and the audit methods of
    \<open>engine.rs\<close>): the audit chain is tamper-evident and survives crashes, Merkle proofs check, and
    exported bundles verify.

  The interfaces between components are locales, interpreted on the model's own definitions in the
  theory of the provider. Where the code does not do what it means to, a theorem shows the
  behaviour (torn manifests, oversized rows, stale caches, lost redo and audit records, queries
  whose result depends on the access path), and the positive theorem carries the condition under
  which the code is right.

  \<^bold>\<open>Not modelled.\<close> Failures of the operating system (a write that returns an error, an fsync that
  loses data, memory exhaustion) and timing; the server keeps the
  engine behind one reader-writer lock (writes are exclusive, reads share it), so the model is sequential. Of the engine: the built-in SQL functions and casts, views,
  the change feed and its subscriptions, merge policies, column snapshots, vector search (HNSW),
  differential privacy, access hiding, WASM plans, the index advisor, schema migration, and tables
  that are streamed from disk; these are services around the modelled core, and where a modelled
  function calls one, the call is a parameter or is left out as stated at the definition. The HTTP,
  MySQL and PostgreSQL front ends (\<open>server.rs\<close>, \<open>pg_wire.rs\<close>), transports, the command line, benchmarks,
  and the web console are I/O and text processing around the engine.
\<close>

end
